(* ===== verification/Prelude.thy ===== *)
theory Prelude
  imports Main "HOL-Library.Word" "HOL-Library.Sublist" "HOL-Library.Char_ord" "HOL-Library.List_Lexorder" "HOL-Library.Code_Target_Nat"
begin

text \<open>
  The vocabulary shared by the component theories: Go strings as byte lists, the functions of
  Go's \<open>strings\<close>, \<open>sort\<close> and \<open>slices\<close> packages that the sources call, and generic lemmas on
  lists.

  A Go \<open>string\<close> is a sequence of bytes, which is what a HOL \<open>string\<close> (a list of 8-bit \<open>char\<close>)
  is; \<open>len(s)\<close> is \<open>length s\<close>, \<open>s[i]\<close> is \<open>s ! i\<close> for \<open>i < length s\<close>, and \<open>s[i:j]\<close> is
  \<open>slice s i j\<close> for \<open>i \<le> j \<le> length s\<close>.
\<close>

named_theorems go_simps \<open>defining equations of the Go library functions the model uses\<close>

section \<open>Bytes and slices\<close>

abbreviation byte :: "char \<Rightarrow> nat" where
  "byte c \<equiv> of_char c"

abbreviation newline :: char where
  "newline \<equiv> CHR 0x0A"

definition slice :: "'a list \<Rightarrow> nat \<Rightarrow> nat \<Rightarrow> 'a list" where
  "slice s i j = take (j - i) (drop i s)"

lemma slice_full [simp]: "slice s 0 (length s) = s"
  by (simp add: slice_def)

lemma slice_empty [simp]: "slice s i i = []"
  by (simp add: slice_def)

lemma length_slice [simp]: "j \<le> length s \<Longrightarrow> length (slice s i j) = j - i"
  by (simp add: slice_def)

lemma slice_append: "i \<le> j \<Longrightarrow> j \<le> k \<Longrightarrow> slice s i j @ slice s j k = slice s i k"
proof -
  assume "i \<le> j" "j \<le> k"
  then have "drop j s = drop (j - i) (drop i s)" "k - i = (j - i) + (k - j)" by simp_all
  then show ?thesis unfolding slice_def by (simp only: take_add)
qed

lemma slice_Cons: "i < j \<Longrightarrow> j \<le> length s \<Longrightarrow> slice s i j = s ! i # slice s (Suc i) j"
  unfolding slice_def
  by (metis Cons_nth_drop_Suc Suc_diff_Suc less_le_trans take_Suc_Cons)

lemma slice_nth: "i + n < j \<Longrightarrow> j \<le> length s \<Longrightarrow> slice s i j ! n = s ! (i + n)"
  by (simp add: slice_def)

lemma drop_eq_slice: "i \<le> length s \<Longrightarrow> drop i s = slice s i (length s)"
  by (simp add: slice_def)

lemma take_eq_slice: "take i s = slice s 0 i"
  by (simp add: slice_def)

section \<open>Lists\<close>

lemma sum_list_ones: "\<forall>x \<in> set xs. f x = (1::nat) \<Longrightarrow> sum_list (map f xs) = length xs"
  by (induction xs) auto

section \<open>Searching bytes\<close>

text \<open>\<open>strings.IndexByte\<close> and \<open>strings.LastIndexByte\<close>, with \<open>None\<close> for Go's \<open>-1\<close>.\<close>

fun index_byte :: "string \<Rightarrow> char \<Rightarrow> nat option" where
  "index_byte [] c = None"
| "index_byte (x # xs) c = (if x = c then Some 0 else map_option Suc (index_byte xs c))"

definition last_index_byte :: "string \<Rightarrow> char \<Rightarrow> nat option" where
  "last_index_byte s c = map_option (\<lambda>i. length s - 1 - i) (index_byte (rev s) c)"

lemma index_byte_None [simp]: "index_byte s c = None \<longleftrightarrow> c \<notin> set s"
  by (induction s) auto

lemma index_byte_Some:
  "index_byte s c = Some i \<longleftrightarrow> i < length s \<and> s ! i = c \<and> c \<notin> set (take i s)"
proof (induction s arbitrary: i)
  case (Cons x s)
  then show ?case by (cases i) auto
qed simp

lemma index_byte_append:
  "index_byte (s @ t) c = (if c \<in> set s then index_byte s c else map_option ((+) (length s)) (index_byte t c))"
proof (induction s)
  case Nil
  show ?case by (cases "index_byte t c") (simp_all del: index_byte_None)
next
  case (Cons x s)
  then show ?case by (cases "index_byte t c") (simp_all del: index_byte_None)
qed

lemma index_byte_split:
  assumes "index_byte s c = Some i"
  shows "s = take i s @ c # drop (Suc i) s"
  using assms id_take_nth_drop[of i s] by (simp add: index_byte_Some)

lemma last_index_byte_None [simp]: "last_index_byte s c = None \<longleftrightarrow> c \<notin> set s"
  by (simp add: last_index_byte_def)

lemma last_index_byte_Some:
  assumes "last_index_byte s c = Some i"
  shows "i < length s \<and> s ! i = c \<and> c \<notin> set (drop (Suc i) s)"
proof -
  obtain j where j: "index_byte (rev s) c = Some j" "i = length s - 1 - j"
    using assms by (auto simp: last_index_byte_def)
  then have "j < length s" "rev s ! j = c" "c \<notin> set (take j (rev s))" by (auto simp: index_byte_Some)
  moreover from this have "Suc i = length s - j" using j(2) by simp
  ultimately show ?thesis using j(2) by (auto simp: rev_nth take_rev)
qed

lemma last_index_byte_snoc:
  "last_index_byte (s @ [x]) c = (if x = c then Some (length s) else last_index_byte s c)"
  by (cases "index_byte (rev s) c") (simp_all add: last_index_byte_def del: index_byte_None)

lemma last_index_byte_append:
  "last_index_byte (s @ t) c = (case last_index_byte t c of
     None \<Rightarrow> last_index_byte s c | Some i \<Rightarrow> Some (length s + i))"
proof (induction t rule: rev_induct)
  case (snoc x t)
  then show ?case by (simp add: last_index_byte_snoc flip: append_assoc)
qed (simp add: last_index_byte_def)

lemma last_index_byte_Cons:
  "last_index_byte (x # s) c = (case last_index_byte s c of
     None \<Rightarrow> if x = c then Some 0 else None | Some i \<Rightarrow> Some (Suc i))"
  using last_index_byte_append[of "[x]" s c]
  by (cases "last_index_byte s c") (simp_all del: last_index_byte_None, simp add: last_index_byte_def)

section \<open>Binary search\<close>

text \<open>\<open>sort.Search(n, f)\<close>, from the bounds \<open>i\<close> and \<open>j\<close> on.\<close>

function sort_search_from :: "(nat \<Rightarrow> bool) \<Rightarrow> nat \<Rightarrow> nat \<Rightarrow> nat" where
  "sort_search_from f i j =
     (if i < j then
        let h = (i + j) div 2
        in if \<not> f h then sort_search_from f (h + 1) j else sort_search_from f i h
      else i)"
  by pat_completeness auto
termination
  by (relation "measure (\<lambda>(f, i, j). j - i)") auto

declare sort_search_from.simps [simp del]

definition sort_search :: "nat \<Rightarrow> (nat \<Rightarrow> bool) \<Rightarrow> nat" where
  "sort_search n f = sort_search_from f 0 n"

lemma sort_search_from_least:
  assumes "\<forall>x y. x \<le> y \<and> y < n \<and> f x \<longrightarrow> f y" "i \<le> j" "j \<le> n" "\<forall>x < i. \<not> f x"
    "j < n \<Longrightarrow> f j"
  shows "sort_search_from f i j \<le> n \<and> (\<forall>x < sort_search_from f i j. \<not> f x) \<and>
    (sort_search_from f i j < n \<longrightarrow> f (sort_search_from f i j))"
  using assms
proof (induction f i j rule: sort_search_from.induct)
  case (1 f i j)
  show ?case
  proof (cases "i < j")
    case True
    let ?h = "(i + j) div 2"
    have h: "i \<le> ?h" "?h < j" using True by auto
    show ?thesis
    proof (cases "f ?h")
      case fh: True
      then have "sort_search_from f i j = sort_search_from f i ?h"
        using True by (subst sort_search_from.simps) (simp add: Let_def)
      moreover have "?h \<le> n" using h 1(5) by simp
      ultimately show ?thesis using 1(2)[OF True refl _ 1(3) h(1) _ 1(6)] fh by simp
    next
      case False
      then have "sort_search_from f i j = sort_search_from f (?h + 1) j"
        using True by (subst sort_search_from.simps) (simp add: Let_def)
      moreover have "\<forall>x < ?h + 1. \<not> f x"
      proof (intro allI impI)
        fix x assume "x < ?h + 1"
        then have "x \<le> ?h" "?h < n" using h 1(5) by simp_all
        then show "\<not> f x" using False 1(3) by blast
      qed
      moreover have "?h + 1 \<le> j" using h by simp
      ultimately show ?thesis using 1(1)[OF True refl False 1(3) _ 1(5) _ 1(7)] by simp
    qed
  next
    case False
    then have "i = j" "sort_search_from f i j = i" using 1(4) by (auto simp: sort_search_from.simps)
    then show ?thesis using 1(5-7) by simp
  qed
qed

lemma sort_search_least:
  assumes "\<And>x y. x \<le> y \<Longrightarrow> y < n \<Longrightarrow> f x \<Longrightarrow> f y"
  shows "sort_search n f \<le> n" "x < sort_search n f \<Longrightarrow> \<not> f x" "sort_search n f < n \<Longrightarrow> f (sort_search n f)"
proof -
  have "\<forall>x y. x \<le> y \<and> y < n \<and> f x \<longrightarrow> f y" using assms by blast
  then have least: "sort_search n f \<le> n \<and> (\<forall>x < sort_search n f. \<not> f x) \<and>
      (sort_search n f < n \<longrightarrow> f (sort_search n f))"
    unfolding sort_search_def by (rule sort_search_from_least) simp_all
  then show "sort_search n f \<le> n" "x < sort_search n f \<Longrightarrow> \<not> f x"
    "sort_search n f < n \<Longrightarrow> f (sort_search n f)"
    by simp_all
qed

end
