(* ===== verification/Conv.thy ===== *)
theory Conv
  imports Prelude "HOL-Library.Word"
begin

text \<open>
  The range-checked integer conversions of \<open>internal/conv/conv.go\<close>. Go's \<open>int\<close> and \<open>uint\<close>
  are 64 bits wide on every platform the program is built for, so the arguments are 64-bit
  words read as signed (\<open>sint\<close>) or unsigned (\<open>uint\<close>) and the results are 32-bit words. Go's
  bare conversion \<open>uint32(n)\<close> keeps the low 32 bits, which is \<open>ucast\<close> here.
\<close>

definition max_uint32 :: int where "max_uint32 = 4294967295"
definition max_int32 :: int where "max_int32 = 2147483647"
definition min_int32 :: int where "min_int32 = - 2147483648"

definition Uint32 :: "64 word \<Rightarrow> 32 word" where
  "Uint32 n = (if sint n < 0 then 0
     else if sint n > max_uint32 then word_of_int max_uint32
     else ucast n)"

definition Uint32FromUint :: "64 word \<Rightarrow> 32 word" where
  "Uint32FromUint n = (if uint n > max_uint32 then word_of_int max_uint32 else ucast n)"

definition Int32 :: "64 word \<Rightarrow> 32 word" where
  "Int32 n = (if sint n < min_int32 then word_of_int min_int32
     else if sint n > max_int32 then word_of_int max_int32
     else ucast n)"


lemmas conv_bounds = max_uint32_def max_int32_def min_int32_def

lemma uint_ucast_32: "0 \<le> sint (n :: 64 word) \<Longrightarrow> sint n < 2 ^ 32 \<Longrightarrow> uint (ucast n :: 32 word) = sint n"
proof -
  assume a: "0 \<le> sint n" "sint n < 2 ^ 32"
  have "(ucast n :: 32 word) = word_of_int (sint n)"
    by (rule bit_word_eqI) (simp add: bit_simps bit_sint_iff)
  then have "uint (ucast n :: 32 word) = sint n mod 2 ^ 32"
    by (simp only: uint_word_of_int len_num1 len_bit0) simp
  also have "\<dots> = sint n" using a by simp
  finally show ?thesis .
qed

lemma sint_ucast_32:
  assumes "- (2 ^ 31) \<le> sint (n :: 64 word)" and "sint n < 2 ^ 31"
  shows "sint (ucast n :: 32 word) = sint n"
proof -
  have "(ucast n :: 32 word) = word_of_int (sint n)"
    by (rule bit_word_eqI) (simp add: bit_simps bit_sint_iff)
  then have "sint (ucast n :: 32 word) = signed_take_bit 31 (sint n)"
    by (simp only: sint_sbintrunc' len_num1 len_bit0) simp
  also have "\<dots> = sint n" using assms by (simp add: signed_take_bit_int_eq_self)
  finally show ?thesis .
qed

text \<open>
  \<open>conv.Uint32\<close> clamps: whatever the 64-bit argument, the result is the integer of
  \<open>[0, 2^32 - 1]\<close> nearest to it, so no line or column ever wraps around.
\<close>

theorem Uint32_clamps: "uint (Uint32 n) = max 0 (min max_uint32 (sint n))"
  by (auto simp: Uint32_def conv_bounds uint_ucast_32 uint_word_of_int)

text \<open>The same for the conversion from an unsigned argument.\<close>

theorem Uint32FromUint_clamps: "uint (Uint32FromUint n) = min max_uint32 (uint n)"
  by (auto simp: Uint32FromUint_def conv_bounds uint_word_of_int unsigned_ucast_eq
      take_bit_int_eq_self)

text \<open>And for the signed one.\<close>

theorem Int32_clamps: "sint (Int32 n) = max min_int32 (min max_int32 (sint n))"
  by (auto simp: Int32_def conv_bounds sint_ucast_32 sint_sbintrunc')

end
