(* ===== verification/Go_Utf8.thy ===== *)
theory Go_Utf8
  imports Prelude
begin

text \<open>
  The part of Go's \<open>unicode/utf8\<close> the sources use. \<open>decode_rune\<close> is
  \<open>utf8.DecodeRuneInString\<close>: the first rune of a byte string and its width, \<open>(RuneError, 1)\<close>
  where the bytes are no UTF-8 encoding, \<open>(RuneError, 0)\<close> for the empty string. It is also what
  a \<open>for range\<close> loop over a string does at each step.
\<close>

definition rune_error :: nat where "rune_error = 0xFFFD"

text \<open>
  What the first byte of a multi-byte sequence says: its width and the range its second byte must
  be in; \<open>None\<close> for a byte that starts no sequence.
\<close>

definition lead_info :: "nat \<Rightarrow> (nat \<times> nat \<times> nat) option" where
  "lead_info b =
     (if b < 0xC2 then None
      else if b < 0xE0 then Some (2, 0x80, 0xBF)
      else if b = 0xE0 then Some (3, 0xA0, 0xBF)
      else if b = 0xED then Some (3, 0x80, 0x9F)
      else if b < 0xF0 then Some (3, 0x80, 0xBF)
      else if b = 0xF0 then Some (4, 0x90, 0xBF)
      else if b < 0xF4 then Some (4, 0x80, 0xBF)
      else if b = 0xF4 then Some (4, 0x80, 0x8F)
      else None)"

definition continuation :: "nat \<Rightarrow> bool" where
  "continuation b \<longleftrightarrow> 0x80 \<le> b \<and> b \<le> 0xBF"

definition decode_rune :: "string \<Rightarrow> nat \<times> nat" where
  "decode_rune s =
     (if s = [] then (rune_error, 0)
      else let b0 = byte (s ! 0) in
        if b0 < 0x80 then (b0, 1)
        else (case lead_info b0 of
            None \<Rightarrow> (rune_error, 1)
          | Some (sz, lo, hi) \<Rightarrow>
              if length s < sz then (rune_error, 1)
              else let b1 = byte (s ! 1) in
                if b1 < lo \<or> hi < b1 then (rune_error, 1)
                else if sz = 2 then (b0 mod 32 * 64 + b1 mod 64, 2)
                else let b2 = byte (s ! 2) in
                  if \<not> continuation b2 then (rune_error, 1)
                  else if sz = 3 then (b0 mod 16 * 4096 + b1 mod 64 * 64 + b2 mod 64, 3)
                  else let b3 = byte (s ! 3) in
                    if \<not> continuation b3 then (rune_error, 1)
                    else (b0 mod 8 * 262144 + b1 mod 64 * 4096 + b2 mod 64 * 64 + b3 mod 64, 4)))"

definition rune_size :: "string \<Rightarrow> nat" where
  "rune_size s = snd (decode_rune s)"

text \<open>A string is valid UTF-8 when it decodes to its end without an error.\<close>

definition bad_rune :: "string \<Rightarrow> bool" where
  "bad_rune s \<longleftrightarrow> rune_size s = 1 \<and> \<not> byte (hd s) < 0x80"

lemma lead_info_size: "lead_info b = Some (sz, lo, hi) \<Longrightarrow>
    (sz = 2 \<or> sz = 3 \<or> sz = 4) \<and> 0x80 \<le> lo \<and> 0x80 \<le> b"
  by (auto simp: lead_info_def split: if_splits)

lemma rune_size_bounds: "s \<noteq> [] \<Longrightarrow> 0 < rune_size s \<and> rune_size s \<le> length s"
proof (cases "lead_info (byte (s ! 0))")
  case None
  assume "s \<noteq> []"
  then show ?thesis using None by (simp add: rune_size_def decode_rune_def Let_def Suc_le_eq)
next
  case (Some a)
  assume s: "s \<noteq> []"
  obtain sz lo hi where a: "a = (sz, lo, hi)" by (cases a)
  have "0 < length s" using s by simp
  then show ?thesis using s Some lead_info_size[of "byte (s ! 0)" sz lo hi] unfolding a
    by (auto simp: rune_size_def decode_rune_def Let_def Suc_le_eq)
qed

lemma rune_size_empty [simp]: "rune_size [] = 0"
  by (simp add: rune_size_def decode_rune_def)

lemma rune_size_pos: "s \<noteq> [] \<Longrightarrow> 0 < rune_size s"
  using rune_size_bounds by blast

lemma rune_size_le: "rune_size s \<le> length s"
  using rune_size_bounds by (cases "s = []") auto

lemma rune_size_drop_less [simp]: "s \<noteq> [] \<Longrightarrow> length (drop (rune_size s) s) < length s"
  using rune_size_pos[of s] by (cases s) auto

lemma rune_size_less [simp]: "Suc (length s) - rune_size (c # s) < Suc (length s)"
  using rune_size_pos[of "c # s"] by simp

lemma decode_ascii: "s \<noteq> [] \<Longrightarrow> byte (hd s) < 0x80 \<Longrightarrow> decode_rune s = (byte (hd s), 1)"
  by (simp add: decode_rune_def hd_conv_nth)

function (sequential) valid_utf8 :: "string \<Rightarrow> bool" where
  "valid_utf8 [] = True"
| "valid_utf8 (c # s) =
     (\<not> bad_rune (c # s) \<and> valid_utf8 (drop (rune_size (c # s)) (c # s)))"
  by pat_completeness auto
termination
  by (relation "measure length") (simp_all only: in_measure rune_size_drop_less list.distinct wf_measure
    not_False_eq_True)

lemma valid_utf8_unfold:
  "s \<noteq> [] \<Longrightarrow> valid_utf8 s \<longleftrightarrow> \<not> bad_rune s \<and> valid_utf8 (drop (rune_size s) s)"
  by (cases s) simp_all

text \<open>Induction over the runes of a string.\<close>

lemma rune_induct [case_names empty rune]:
  assumes "P []" and "\<And>s. s \<noteq> [] \<Longrightarrow> P (drop (rune_size s) s) \<Longrightarrow> P s"
  shows "P s"
proof (induction "length s" arbitrary: s rule: less_induct)
  case less
  then show ?case using assms rune_size_drop_less by (cases "s = []") auto
qed

declare valid_utf8.simps(2) [simp del]

text \<open>A rune that decodes is decoded from its own bytes only.\<close>

lemma decode_rune_append:
  assumes "s \<noteq> []" "\<not> bad_rune s"
  shows "decode_rune (s @ t) = decode_rune s"
proof -
  show ?thesis
  proof (cases "byte (s ! 0) < (0x80::nat)")
    case True
    then show ?thesis using assms(1) by (simp add: decode_rune_def nth_append)
  next
    case False
    then obtain sz lo hi where li: "lead_info (byte (s ! 0)) = Some (sz, lo, hi)"
      using assms by (cases "lead_info (byte (s ! 0))")
        (auto simp: bad_rune_def rune_size_def decode_rune_def hd_conv_nth Let_def)
    have "sz \<le> length s"
      using assms False li
      by (auto simp: bad_rune_def rune_size_def decode_rune_def hd_conv_nth Let_def split: if_splits)
    then show ?thesis using False li lead_info_size[OF li] assms(1)
      by (auto simp: decode_rune_def nth_append Let_def)
  qed
qed

lemma decode_rune_take:
  assumes "s \<noteq> []" "\<not> bad_rune s" "rune_size s \<le> n"
  shows "decode_rune (take n s) = decode_rune s"
proof (cases "byte (s ! 0) < (0x80::nat)")
  case True
  then have "0 < n" using assms by (simp add: rune_size_def decode_rune_def)
  then show ?thesis using True assms(1) by (simp add: decode_rune_def)
next
  case False
  then obtain sz lo hi where li: "lead_info (byte (s ! 0)) = Some (sz, lo, hi)"
    using assms by (cases "lead_info (byte (s ! 0))")
      (auto simp: bad_rune_def rune_size_def decode_rune_def hd_conv_nth Let_def)
  note facts = lead_info_size[OF li]
  have "sz \<le> length s" "rune_size s = sz"
    using assms False li facts
    by (auto simp: bad_rune_def rune_size_def decode_rune_def hd_conv_nth Let_def split: if_splits)
  then have n: "sz \<le> n" "sz \<le> length (take n s)" using assms(3) by simp_all
  have "take n s ! i = s ! i" if "i < sz" for i using that n by simp
  moreover have "take n s \<noteq> []" using n facts by auto
  ultimately show ?thesis using False li facts assms(1) n \<open>sz \<le> length s\<close>
    unfolding decode_rune_def Let_def
    by (elim disjE conjE) (simp_all del: nth_take length_take)
qed

lemma rune_size_append: "s \<noteq> [] \<Longrightarrow> \<not> bad_rune s \<Longrightarrow> rune_size (s @ t) = rune_size s"
  by (simp add: rune_size_def decode_rune_append)

lemma bad_rune_append: "s \<noteq> [] \<Longrightarrow> \<not> bad_rune s \<Longrightarrow> \<not> bad_rune (s @ t)"
  using decode_rune_append[of s t] by (simp add: bad_rune_def rune_size_def)

lemma valid_utf8_append: "valid_utf8 s \<Longrightarrow> valid_utf8 t \<Longrightarrow> valid_utf8 (s @ t)"
proof (induction s rule: rune_induct)
  case (rune s)
  then have ok: "\<not> bad_rune s" "valid_utf8 (drop (rune_size s) s)" by (auto simp: valid_utf8_unfold)
  have "valid_utf8 (drop (rune_size s) s @ t)" using rune ok by simp
  then have "valid_utf8 (drop (rune_size (s @ t)) (s @ t))"
    using rune_size_le[of s] rune(1) ok by (simp add: rune_size_append)
  then show ?case using rune(1) ok bad_rune_append by (simp add: valid_utf8_unfold)
qed simp

text \<open>The bytes after the first of a multi-byte rune are all above ASCII.\<close>

lemma rune_tail_high:
  assumes "0 < i" "i < rune_size s"
  shows "(0x80::nat) \<le> byte (s ! i)"
proof -
  have s: "s \<noteq> []" using assms by auto
  then have high: "\<not> byte (s ! 0) < (0x80::nat)"
    using assms by (auto simp: rune_size_def decode_rune_def)
  then obtain sz lo hi where li: "lead_info (byte (s ! 0)) = Some (sz, lo, hi)"
    using assms s by (cases "lead_info (byte (s ! 0))") (auto simp: rune_size_def decode_rune_def)
  note facts = lead_info_size[OF li]
  have size: "rune_size s = sz" "lo \<le> byte (s ! 1)"
    and c1: "sz \<noteq> 2 \<Longrightarrow> (0x80::nat) \<le> byte (s ! 2)" and c2: "sz = 4 \<Longrightarrow> (0x80::nat) \<le> byte (s ! 3)"
    using assms high li facts s
    by (auto simp: rune_size_def decode_rune_def continuation_def Let_def split: if_splits)
  have "i = 1 \<or> i = 2 \<or> i = 3" using assms size facts by linarith
  then show ?thesis using size c1 c2 facts assms by auto
qed

text \<open>A newline is never part of a longer sequence.\<close>

lemma rune_no_newline:
  assumes "s \<noteq> []" "\<not> byte (hd s) < (0x80::nat)"
  shows "newline \<notin> set (take (rune_size s) s)"
proof
  assume "newline \<in> set (take (rune_size s) s)"
  then obtain i where i: "i < rune_size s" "s ! i = newline" by (auto simp: in_set_conv_nth)
  then have n: "byte (s ! i) = (10::nat)" by simp
  then have "i \<noteq> 0" using assms by (cases i) (auto simp: hd_conv_nth)
  then show False using rune_tail_high[of i s] i n by simp
qed

end
