(* ===== verification/Text_Edits.thy ===== *)
theory Text_Edits
  imports Go_Utf8
begin

text \<open>
  Document positions and edits: \<open>PositionToOffset\<close>, \<open>ApplyEdit\<close> (parser/tags_analysis.go),
  \<open>ApplyEdits\<close>, \<open>walkTo\<close> (parser/apply_edits.go) and the column conversions of
  server/position.go. Lines and characters are LSP positions, unsigned, so \<open>nat\<close>; offsets are byte
  offsets.

  \<open>seek\<close> is the specification both walks are measured against: one pass over the runes that stops
  at the wanted position, at the end of its line or at the end of the text.
\<close>

section \<open>The code\<close>

definition utf16Units :: "nat \<Rightarrow> nat" where
  "utf16Units r = (if 0xFFFF < r then 2 else 1)"

function (sequential) utf16Len :: "string \<Rightarrow> nat" where
  "utf16Len [] = 0"
| "utf16Len (c # s) = (let (r, n) = decode_rune (c # s) in utf16Units r + utf16Len (drop n (c # s)))"
  by pat_completeness auto
termination
  by (relation "measure length") (auto simp: rune_size_def[symmetric] dest!: arg_cong[where f = snd])

text \<open>
  The inner loop of \<open>PositionToOffset\<close> and of \<open>walkTo\<close>: from byte \<open>off\<close> at column \<open>col\<close>, on to
  column \<open>toChar\<close> or the end of the line.
\<close>

function walk_chars :: "string \<Rightarrow> nat \<Rightarrow> nat \<Rightarrow> nat \<Rightarrow> nat \<times> nat" where
  "walk_chars s off col toChar =
     (if col < toChar \<and> off < length s then
        (if byte (s ! off) < (0x80::nat) then
           (if s ! off = newline then (off, col) else walk_chars s (off + 1) (col + 1) toChar)
         else let (r, n) = decode_rune (drop off s) in walk_chars s (off + n) (col + utf16Units r) toChar)
      else (off, col))"
  by pat_completeness auto
termination
  by (relation "measure (\<lambda>(s, off, col, toChar). toChar - col)") (auto simp: utf16Units_def)

text \<open>The outer loop of \<open>PositionToOffset\<close>; \<open>None\<close> is its early return.\<close>

fun skip_lines :: "string \<Rightarrow> nat \<Rightarrow> nat \<Rightarrow> nat option" where
  "skip_lines s off 0 = Some off"
| "skip_lines s off (Suc k) =
     (case index_byte (drop off s) newline of
        None \<Rightarrow> None
      | Some idx \<Rightarrow> skip_lines s (off + idx + 1) k)"

definition PositionToOffset :: "string \<Rightarrow> nat \<Rightarrow> nat \<Rightarrow> nat" where
  "PositionToOffset content line char =
     (case skip_lines content 0 line of
        None \<Rightarrow> length content
      | Some off \<Rightarrow> fst (walk_chars content off 0 char))"

definition ApplyEdit :: "string \<Rightarrow> nat \<Rightarrow> nat \<Rightarrow> nat \<Rightarrow> nat \<Rightarrow> string \<Rightarrow> string" where
  "ApplyEdit content startLine startChar endLine endChar newText =
     (let offset = PositionToOffset content startLine startChar;
          endOffset = PositionToOffset content endLine endChar
      in take offset content @ newText @ drop endOffset content)"

record Edit =
  StartLine :: nat
  StartChar :: nat
  EndLine :: nat
  EndChar :: nat
  Text :: string

definition posBefore :: "nat \<Rightarrow> nat \<Rightarrow> nat \<Rightarrow> nat \<Rightarrow> bool" where
  "posBefore aLine aChar bLine bChar \<longleftrightarrow> aLine < bLine \<or> aLine = bLine \<and> aChar < bChar"

text \<open>The loop of \<open>walkTo\<close> over lines; \<open>Inl\<close> is its early return.\<close>

function walk_lines ::
  "string \<Rightarrow> nat \<Rightarrow> nat \<Rightarrow> nat \<Rightarrow> nat \<Rightarrow> (nat \<times> nat \<times> nat) + (nat \<times> nat \<times> nat)" where
  "walk_lines s offset line col toLine =
     (if line < toLine then
        (case index_byte (drop offset s) newline of
           None \<Rightarrow> Inl (length s, line, col + utf16Len (drop offset s))
         | Some idx \<Rightarrow> walk_lines s (offset + (idx + 1)) (line + 1) 0 toLine)
      else Inr (offset, line, col))"
  by pat_completeness auto
termination
  by (relation "measure (\<lambda>(s, offset, line, col, toLine). toLine - line)") auto

definition walkTo :: "string \<Rightarrow> nat \<Rightarrow> nat \<Rightarrow> nat \<Rightarrow> nat \<Rightarrow> nat \<times> nat \<times> nat" where
  "walkTo s line col toLine toChar =
     (case walk_lines s 0 line col toLine of
        Inl r \<Rightarrow> r
      | Inr (offset, line', col') \<Rightarrow>
          (let (offset', col'') = walk_chars s offset col' toChar in (offset', line', col'')))"

definition apply_one :: "string \<Rightarrow> Edit \<Rightarrow> string" where
  "apply_one content e = ApplyEdit content (StartLine e) (StartChar e) (EndLine e) (EndChar e) (Text e)"

text \<open>One round of the loop of \<open>ApplyEdits\<close>, on \<open>(out, rest, line, col)\<close>.\<close>

definition edit_step ::
  "string \<times> string \<times> nat \<times> nat \<Rightarrow> Edit \<Rightarrow> string \<times> string \<times> nat \<times> nat" where
  "edit_step = (\<lambda>(out, rest, line, col) e.
     if posBefore (StartLine e) (StartChar e) line col \<or>
        posBefore (EndLine e) (EndChar e) (StartLine e) (StartChar e)
     then ([], apply_one (out @ rest) e, 0, 0)
     else
       let (start, sLine, sCol) = walkTo rest line col (StartLine e) (StartChar e);
           (n, _, _) = walkTo (drop start rest) sLine sCol (EndLine e) (EndChar e);
           out' = out @ take start rest @ Text e;
           rest' = drop (start + n) rest
       in case last_index_byte (Text e) newline of
            Some nl \<Rightarrow> (out', rest', sLine + count_list (Text e) newline,
                         utf16Len (drop (nl + 1) (Text e)))
          | None \<Rightarrow> (out', rest', sLine, sCol + utf16Len (Text e)))"

definition ApplyEdits :: "string \<Rightarrow> Edit list \<Rightarrow> string" where
  "ApplyEdits content edits =
     (case edits of
        [e] \<Rightarrow> apply_one content e
      | _ \<Rightarrow> (let (out, rest, _, _) = foldl edit_step ([], content, 0, 0) edits in out @ rest))"

section \<open>One walk\<close>

text \<open>The position reached after a text, rune by rune.\<close>

function (sequential) advance :: "nat \<times> nat \<Rightarrow> string \<Rightarrow> nat \<times> nat" where
  "advance p [] = p"
| "advance p (c # s) =
     (if c = newline then advance (fst p + 1, 0) s
      else let (r, n) = decode_rune (c # s) in advance (fst p, snd p + utf16Units r) (drop n (c # s)))"
  by pat_completeness auto
termination
  by (relation "measure (\<lambda>(p, s). length s)")
    (auto simp: rune_size_def[symmetric] dest!: arg_cong[where f = snd] intro!: rune_size_pos)

function (sequential) seek :: "string \<Rightarrow> nat \<times> nat \<Rightarrow> nat \<times> nat \<Rightarrow> nat \<times> nat \<times> nat" where
  "seek [] p t = (0, p)"
| "seek (c # s) p t =
     (if \<not> posBefore (fst p) (snd p) (fst t) (snd t) then (0, p)
      else if c = newline then
        (if fst p < fst t then (let (n, q) = seek s (fst p + 1, 0) t in (1 + n, q)) else (0, p))
      else let (r, k) = decode_rune (c # s);
               (n, q) = seek (drop k (c # s)) (fst p, snd p + utf16Units r) t
           in (k + n, q))"
  by pat_completeness auto
termination
  by (relation "measure (\<lambda>(s, p, t). length s)")
    (auto simp: rune_size_def[symmetric] dest!: arg_cong[where f = snd] intro!: rune_size_pos)


abbreviation before :: "nat \<times> nat \<Rightarrow> nat \<times> nat \<Rightarrow> bool" where
  "before p t \<equiv> posBefore (fst p) (snd p) (fst t) (snd t)"

lemmas walk_defs [simp del] = seek.simps(2) advance.simps(2) utf16Len.simps(2) walk_chars.simps
  walk_lines.simps

lemma utf16Units_pos [simp]: "0 < utf16Units r"
  by (simp add: utf16Units_def)

lemma utf16Units_ascii: "r < 0x80 \<Longrightarrow> utf16Units r = 1"
  by (simp add: utf16Units_def)

lemma decode_newline [simp]: "s \<noteq> [] \<Longrightarrow> hd s = newline \<Longrightarrow> decode_rune s = (10, 1)"
  by (simp add: decode_ascii)

lemma utf16Len_rune:
  "s \<noteq> [] \<Longrightarrow> utf16Len s = utf16Units (fst (decode_rune s)) + utf16Len (drop (rune_size s) s)"
  by (cases s) (simp_all add: utf16Len.simps rune_size_def case_prod_unfold Let_def)

lemma advance_newline: "s \<noteq> [] \<Longrightarrow> hd s = newline \<Longrightarrow> advance p s = advance (fst p + 1, 0) (tl s)"
  by (cases s) (simp_all add: advance.simps)

lemma advance_rune:
  "s \<noteq> [] \<Longrightarrow> hd s \<noteq> newline \<Longrightarrow>
    advance p s = advance (fst p, snd p + utf16Units (fst (decode_rune s))) (drop (rune_size s) s)"
  by (cases s) (simp_all add: advance.simps rune_size_def case_prod_unfold Let_def)

lemma seek_stop: "\<not> before p t \<Longrightarrow> seek s p t = (0, p)"
  by (cases s) (simp_all add: seek.simps)

lemma seek_line_end: "s \<noteq> [] \<Longrightarrow> hd s = newline \<Longrightarrow> \<not> fst p < fst t \<Longrightarrow> seek s p t = (0, p)"
  by (cases s) (simp_all add: seek.simps)

lemma seek_newline:
  "s \<noteq> [] \<Longrightarrow> hd s = newline \<Longrightarrow> fst p < fst t \<Longrightarrow>
    seek s p t = (1 + fst (seek (tl s) (fst p + 1, 0) t), snd (seek (tl s) (fst p + 1, 0) t))"
  by (cases s) (simp_all add: seek.simps posBefore_def case_prod_unfold Let_def)

lemma seek_rune:
  "s \<noteq> [] \<Longrightarrow> hd s \<noteq> newline \<Longrightarrow> before p t \<Longrightarrow>
    seek s p t = (let x = seek (drop (rune_size s) s)
                     (fst p, snd p + utf16Units (fst (decode_rune s))) t
                  in (rune_size s + fst x, snd x))"
  by (cases s) (simp_all add: seek.simps rune_size_def case_prod_unfold Let_def)

lemma rune_cases [case_names empty newline rune]:
  obtains "s = []" | "s \<noteq> []" "hd s = newline" "rune_size s = 1" "drop (rune_size s) s = tl s"
  | "s \<noteq> []" "hd s \<noteq> newline"
  by (cases s) (auto simp: rune_size_def)

text \<open>No rune but the newline holds a newline byte.\<close>

lemma rune_bytes_no_newline: "s \<noteq> [] \<Longrightarrow> hd s \<noteq> newline \<Longrightarrow> newline \<notin> set (take (rune_size s) s)"
proof (cases "byte (hd s) < (0x80::nat)")
  case True
  assume "s \<noteq> []" "hd s \<noteq> newline"
  then show ?thesis using True by (cases s) (auto simp: rune_size_def decode_ascii)
next
  case False
  assume "s \<noteq> []"
  then show ?thesis using False by (rule rune_no_newline)
qed

lemma index_newline_rune:
  assumes "s \<noteq> []" "hd s \<noteq> newline"
  shows "index_byte s newline =
    map_option ((+) (rune_size s)) (index_byte (drop (rune_size s) s) newline)"
proof -
  have "index_byte (take (rune_size s) s @ drop (rune_size s) s) newline =
      map_option ((+) (rune_size s)) (index_byte (drop (rune_size s) s) newline)"
    using rune_bytes_no_newline[OF assms] rune_size_le[of s] by (subst index_byte_append) simp
  then show ?thesis by simp
qed

lemma index_newline_here: "s \<noteq> [] \<Longrightarrow> hd s = newline \<Longrightarrow> index_byte s newline = Some 0"
  by (cases s) auto

text \<open>While the wanted line is further down, \<open>seek\<close> skips to the end of the line.\<close>

lemma seek_skip_line:
  assumes "fst p < fst t"
  shows "seek s p t = (case index_byte s newline of
      None \<Rightarrow> (length s, fst p, snd p + utf16Len s)
    | Some i \<Rightarrow> (let x = seek (drop (Suc i) s) (fst p + 1, 0) t in (Suc i + fst x, snd x)))"
  using assms
proof (induction s arbitrary: p rule: rune_induct)
  case (rune s)
  show ?case
  proof (cases s rule: rune_cases)
    case newline
    then show ?thesis using rune(3)
      by (simp add: seek_newline index_newline_here drop_Suc Let_def)
  next
    case rune': rune
    let ?p = "(fst p, snd p + utf16Units (fst (decode_rune s)))"
    have "before p t" using rune(3) by (simp add: posBefore_def)
    then have "seek s p t = (let x = seek (drop (rune_size s) s) ?p t in (rune_size s + fst x, snd x))"
      by (rule seek_rune[OF rune'])
    moreover note rune(2)[of ?p]
    ultimately show ?thesis using rune(3) rune_size_le[of s]
      unfolding index_newline_rune[OF rune'] utf16Len_rune[OF rune'(1)]
      by (cases "index_byte (drop (rune_size s) s) newline")
        (simp_all add: Let_def add.assoc add.commute del: index_byte_None)
  qed (use rune in simp)
qed simp


section \<open>The code's walks are \<open>seek\<close>\<close>

lemma walk_chars_seek:
  "off \<le> length s \<Longrightarrow> walk_chars s off col toChar =
    (off + fst (seek (drop off s) (l, col) (l, toChar)), snd (snd (seek (drop off s) (l, col) (l, toChar))))"
proof (induction s off col toChar rule: walk_chars.induct)
  case (1 s off col toChar)
  show ?case
  proof (cases "col < toChar \<and> off < length s")
    case False
    then show ?thesis by (auto simp: walk_chars.simps seek_stop posBefore_def)
  next
    case go: True
    then have ne: "drop off s \<noteq> []" and hd: "hd (drop off s) = s ! off" by (simp_all add: hd_drop_conv_nth)
    have before: "before (l, col) (l, toChar)" using go by (simp add: posBefore_def)
    show ?thesis
    proof (cases "s ! off = newline")
      case True
      then show ?thesis using go ne hd by (simp add: walk_chars.simps seek_line_end)
    next
      case False
      then have hd': "hd (drop off s) \<noteq> newline" using hd by simp
      let ?n = "rune_size (drop off s)"
      have le: "off + ?n \<le> length s" using rune_size_le[of "drop off s"] go by (simp add: le_diff_conv2)
      show ?thesis
      proof (cases "byte (s ! off) < (0x80::nat)")
        case True
        then have "decode_rune (drop off s) = (byte (s ! off), 1)" using decode_ascii[OF ne] hd by simp
        then show ?thesis using 1(1)[OF go True False] go True False le
          by (simp add: walk_chars.simps[of s off] seek_rune[OF ne hd' before] rune_size_def
              utf16Units_ascii Let_def)
      next
        case high: False
        then show ?thesis using 1(2)[OF go high refl prod.collapse] go le
          by (simp add: walk_chars.simps[of s off] seek_rune[OF ne hd' before] rune_size_def
              case_prod_unfold Let_def ac_simps)
      qed
    qed
  qed
qed

lemma skip_lines_seek:
  "off \<le> length s \<Longrightarrow>
    (case skip_lines s off k of None \<Rightarrow> length s | Some o' \<Rightarrow> fst (walk_chars s o' 0 char))
     = off + fst (seek (drop off s) (l, 0) (l + k, char))"
proof (induction s off k arbitrary: l rule: skip_lines.induct)
  case (1 s off)
  then show ?case by (simp add: walk_chars_seek[of _ _ _ _ l])
next
  case (2 s off k)
  show ?case
  proof (cases "index_byte (drop off s) newline")
    case None
    then show ?thesis using 2(2) by (simp add: seek_skip_line del: index_byte_None)
  next
    case (Some i)
    then have "i < length (drop off s)" by (simp add: index_byte_Some)
    then show ?thesis using 2(1)[OF Some, of "Suc l"] Some
      by (simp add: seek_skip_line Let_def ac_simps)
  qed
qed

lemma PositionToOffset_seek: "PositionToOffset s line char = fst (seek s (0, 0) (line, char))"
  using skip_lines_seek[where off = 0 and l = 0] by (simp add: PositionToOffset_def)

lemma seek_same_line: "fst (snd (seek x (l, c) (l, d))) = l"
proof (induction x arbitrary: c rule: rune_induct)
  case (rune x)
  then show ?case
    by (cases x rule: rune_cases; cases "before (l, c) (l, d)")
      (simp_all add: seek_stop seek_line_end seek_rune Let_def)
qed simp

lemma walk_lines_seek:
  assumes "off \<le> length s" "line \<le> toLine"
  shows "(case walk_lines s off line col toLine of
      Inl r \<Rightarrow> r
    | Inr (offset, line', col') \<Rightarrow>
        (let (offset', col'') = walk_chars s offset col' toChar in (offset', line', col'')))
   = (off + fst (seek (drop off s) (line, col) (toLine, toChar)),
      snd (seek (drop off s) (line, col) (toLine, toChar)))"
  using assms
proof (induction s off line col toLine rule: walk_lines.induct)
  case (1 s off line col toLine)
  show ?case
  proof (cases "line < toLine")
    case False
    then have "line = toLine" using 1(3) by simp
    moreover note seek_same_line
    ultimately show ?thesis using 1(2)
      by (simp add: walk_lines.simps walk_chars_seek[of _ _ _ _ toLine] prod_eq_iff)
  next
    case True
    show ?thesis
    proof (cases "index_byte (drop off s) newline")
      case None
      then show ?thesis using 1(2) True
        by (simp add: walk_lines.simps[of s off line] seek_skip_line del: index_byte_None)
    next
      case (Some i)
      then have "i < length (drop off s)" by (simp add: index_byte_Some)
      then show ?thesis using 1(1)[OF True Some] Some True
        by (simp add: walk_lines.simps[of s off line] seek_skip_line Let_def ac_simps)
    qed
  qed
qed

lemma walkTo_seek: "line \<le> toLine \<Longrightarrow> walkTo s line col toLine toChar = seek s (line, col) (toLine, toChar)"
  using walk_lines_seek[where off = 0] by (simp add: walkTo_def)


section \<open>The laws of \<open>seek\<close>\<close>

lemma advance_mono: "s \<noteq> [] \<Longrightarrow> before p (advance p s)"
proof (induction s arbitrary: p rule: rune_induct)
  case (rune s)
  have step: "before p (advance q (drop (rune_size s) s))" if "before p q" for q
    using that rune(2)[of q] by (cases "drop (rune_size s) s = []") (auto simp: posBefore_def)
  show ?case
  proof (cases s rule: rune_cases)
    case newline
    then show ?thesis using step[of "(fst p + 1, 0)"] by (simp add: advance_newline posBefore_def)
  next
    case rune': rune
    then show ?thesis using step by (simp add: advance_rune posBefore_def)
  qed (use rune in simp)
qed simp

lemma seek_le: "fst (seek s p t) \<le> length s"
proof (induction s arbitrary: p rule: rune_induct)
  case (rune s)
  show ?case
  proof (cases s rule: rune_cases)
    case newline
    then show ?thesis using rune(2)
      by (cases s; cases "fst p < fst t") (simp_all add: seek_newline seek_line_end)
  next
    case rune': rune
    then show ?thesis using rune(2)[of "(fst p, snd p + utf16Units (fst (decode_rune s)))"] rune_size_le[of s]
      by (cases "before p t") (simp_all add: seek_rune seek_stop Let_def le_diff_conv2)
  qed (use rune in simp)
qed simp

text \<open>The position reached is where the bytes passed over lead.\<close>

lemma advance_take_rune:
  assumes "s \<noteq> []" "hd s \<noteq> newline" "\<not> bad_rune s"
  shows "advance p (take (rune_size s + n) s) =
    advance (fst p, snd p + utf16Units (fst (decode_rune s))) (take n (drop (rune_size s) s))"
proof -
  let ?t = "take (rune_size s + n) s"
  have pos: "0 < rune_size s" by (rule rune_size_pos[OF assms(1)])
  have "decode_rune ?t = decode_rune s" by (rule decode_rune_take[OF assms(1,3)]) simp
  moreover from this have "rune_size ?t = rune_size s" by (simp add: rune_size_def)
  moreover have "?t \<noteq> []" "hd ?t \<noteq> newline" using assms pos by (simp_all add: hd_conv_nth)
  ultimately show ?thesis by (simp add: advance_rune take_drop add.commute)
qed

lemma valid_take_rune:
  assumes "s \<noteq> []" "\<not> bad_rune s" "valid_utf8 (take n (drop (rune_size s) s))"
  shows "valid_utf8 (take (rune_size s + n) s)"
proof -
  let ?t = "take (rune_size s + n) s"
  have pos: "0 < rune_size s" by (rule rune_size_pos[OF assms(1)])
  have "decode_rune ?t = decode_rune s" by (rule decode_rune_take[OF assms(1,2)]) simp
  then have "rune_size ?t = rune_size s" by (simp add: rune_size_def)
  moreover from this have "\<not> bad_rune ?t" using assms(1,2) pos by (simp add: bad_rune_def hd_conv_nth)
  moreover have "?t \<noteq> []" using assms(1) pos by simp
  ultimately show ?thesis using assms(3) by (simp add: valid_utf8_unfold take_drop add.commute)
qed

lemma seek_valid:
  assumes "valid_utf8 s"
  shows "valid_utf8 (take (fst (seek s p t)) s) \<and> valid_utf8 (drop (fst (seek s p t)) s) \<and>
    snd (seek s p t) = advance p (take (fst (seek s p t)) s)"
  using assms
proof (induction s arbitrary: p rule: rune_induct)
  case (rune s)
  have v: "\<not> bad_rune s" "valid_utf8 (drop (rune_size s) s)"
    using rune(1,3) by (auto simp: valid_utf8_unfold)
  note IH = rune(2)[OF v(2)]
  show ?case
  proof (cases s rule: rune_cases)
    case newline
    then show ?thesis
    proof (cases "fst p < fst t")
      case True
      let ?n = "fst (seek (tl s) (fst p + 1, 0) t)"
      have "take (rune_size s + ?n) s = newline # take ?n (tl s)" using newline by (cases s) auto
      moreover have "drop (rune_size s + ?n) s = drop ?n (tl s)" using newline by (cases s) auto
      ultimately show ?thesis using newline IH[of "(fst p + 1, 0)"] True v(1) rune(1)
          valid_take_rune[OF rune(1) v(1), of ?n]
        by (simp add: seek_newline advance_newline)
    qed (simp add: seek_line_end rune(3))
  next
    case rune': rune
    show ?thesis
    proof (cases "before p t")
      case True
      let ?q = "(fst p, snd p + utf16Units (fst (decode_rune s)))"
      show ?thesis using IH[of ?q]
          valid_take_rune[OF rune(1) v(1), of "fst (seek (drop (rune_size s) s) ?q t)"]
        by (simp add: seek_rune[OF rune' True] Let_def advance_take_rune[OF rune' v(1)] ac_simps)
    qed (simp add: seek_stop rune(3))
  qed (use rune in simp)
qed simp


text \<open>Walking on after a valid text that has been passed over is one walk over both.\<close>

lemma seek_append:
  assumes "valid_utf8 s" "\<not> before t (advance p s)"
  shows "seek (s @ r) p t = (length s + fst (seek r (advance p s) t), snd (seek r (advance p s) t))"
  using assms
proof (induction s arbitrary: p rule: rune_induct)
  case (rune s)
  have v: "\<not> bad_rune s" "valid_utf8 (drop (rune_size s) s)"
    using rune(1,3) by (auto simp: valid_utf8_unfold)
  note IH = rune(2)[OF v(2)]
  have lt: "before p t" using advance_mono[OF rune(1), of p] rune(4) by (auto simp: posBefore_def)
  show ?case
  proof (cases s rule: rune_cases)
    case newline
    have "\<not> before (advance (fst p + 1, 0) (tl s)) (fst p + 1, 0)"
      using advance_mono[of "tl s" "(fst p + 1, 0)"] by (cases "tl s = []") (auto simp: posBefore_def)
    moreover obtain u where u: "s = newline # u" using newline by (cases s) auto
    ultimately have "fst p < fst t" using rune(4) by (auto simp: advance_newline posBefore_def)
    moreover have "seek (u @ r) (fst p + 1, 0) t = (length u + fst (seek r (advance p s) t),
        snd (seek r (advance p s) t))"
      using newline IH[of "(fst p + 1, 0)"] rune(4) unfolding u by (simp add: advance_newline)
    ultimately show ?thesis unfolding u by (simp add: seek_newline)
  next
    case rune': rune
    let ?q = "(fst p, snd p + utf16Units (fst (decode_rune s)))"
    have d: "decode_rune (s @ r) = decode_rune s" by (rule decode_rune_append[OF rune(1) v(1)])
    then have n: "rune_size (s @ r) = rune_size s" by (simp add: rune_size_def)
    have "seek (s @ r) p t = (let x = seek (drop (rune_size s) s @ r) ?q t in (rune_size s + fst x, snd x))"
      using rune' lt rune_size_le[of s] by (subst seek_rune) (simp_all add: d n)
    then show ?thesis using IH[of ?q] rune(4) rune_size_le[of s]
      by (simp add: advance_rune[OF rune'] Let_def)
  qed (use rune in simp)
qed simp

text \<open>A walk to a later position passes through every earlier one.\<close>

lemma seek_through:
  assumes "\<not> before t2 t1"
  shows "seek s p t2 = (let x = seek s p t1; y = seek (drop (fst x) s) (snd x) t2
                        in (fst x + fst y, snd y))"
proof (induction s arbitrary: p rule: rune_induct)
  case (rune s)
  show ?case
  proof (cases "before p t1")
    case True
    then have lt: "before p t2" using assms by (auto simp: posBefore_def)
    show ?thesis
    proof (cases s rule: rune_cases)
      case newline
      show ?thesis
      proof (cases "fst p < fst t1")
        case less: True
        then have "fst p < fst t2" using assms by (auto simp: posBefore_def)
        moreover obtain u where "s = newline # u" using newline by (cases s) auto
        ultimately show ?thesis using newline rune(2)[of "(fst p + 1, 0)"] less
          by (simp add: seek_newline Let_def)
      qed (simp add: newline seek_line_end)
    next
      case rune': rune
      show ?thesis using rune(2)[of "(fst p, snd p + utf16Units (fst (decode_rune s)))"]
        by (simp add: seek_rune[OF rune' lt] seek_rune[OF rune' True] Let_def ac_simps)
    qed (use rune in simp)
  qed (simp add: seek_stop)
qed simp

lemma advance_append: "valid_utf8 s \<Longrightarrow> advance p (s @ r) = advance (advance p s) r"
proof (induction s arbitrary: p rule: rune_induct)
  case (rune s)
  have v: "\<not> bad_rune s" "valid_utf8 (drop (rune_size s) s)"
    using rune(1,3) by (auto simp: valid_utf8_unfold)
  note IH = rune(2)[OF v(2)]
  show ?case
  proof (cases s rule: rune_cases)
    case newline
    then show ?thesis using IH[of "(fst p + 1, 0)"] by (simp add: advance_newline)
  next
    case rune': rune
    have d: "decode_rune (s @ r) = decode_rune s" by (rule decode_rune_append[OF rune(1) v(1)])
    then have "rune_size (s @ r) = rune_size s" by (simp add: rune_size_def)
    then show ?thesis using rune' IH rune_size_le[of s] by (simp add: advance_rune d)
  qed (use rune in simp)
qed simp

lemma advance_lines:
  "advance p s = (case last_index_byte s newline of
     None \<Rightarrow> (fst p, snd p + utf16Len s)
   | Some i \<Rightarrow> (fst p + count_list s newline, utf16Len (drop (Suc i) s)))"
proof (induction s arbitrary: p rule: rune_induct)
  case empty
  show ?case by (simp add: last_index_byte_def)
next
  case (rune s)
  let ?n = "rune_size s"
  have cat: "last_index_byte s newline = (case last_index_byte (drop ?n s) newline of
      None \<Rightarrow> last_index_byte (take ?n s) newline | Some i \<Rightarrow> Some (?n + i))"
    using last_index_byte_append[of "take ?n s" "drop ?n s" newline] rune_size_le[of s]
    by (cases "last_index_byte (drop ?n s) newline") (simp_all add: min_absorb2 del: last_index_byte_None)
  show ?case
  proof (cases s rule: rune_cases)
    case newline
    then obtain u where u: "s = newline # u" by (cases s) auto
    have IH: "advance (Suc (fst p), 0) u = (case last_index_byte u newline of
        None \<Rightarrow> (Suc (fst p), utf16Len u)
      | Some i \<Rightarrow> (Suc (fst p) + count_list u newline, utf16Len (drop (Suc i) u)))"
      using rune(2)[of "(fst p + 1, 0)"] newline(3) unfolding u
      by (cases "last_index_byte u newline") (simp_all del: last_index_byte_None)
    show ?thesis
      by (cases "last_index_byte u newline")
        (simp_all add: u advance_newline IH last_index_byte_Cons del: last_index_byte_None,
          simp)
  next
    case rune': rune
    have nn: "newline \<notin> set (take ?n s)" by (rule rune_bytes_no_newline[OF rune'])
    then have "count_list (take ?n s) newline = 0" by simp
    then have "count_list s newline = count_list (drop ?n s) newline"
      using count_list_append[of "take ?n s" "drop ?n s" newline] by simp
    then show ?thesis using rune(2) nn unfolding cat
      by (cases "last_index_byte (drop ?n s) newline")
        (simp_all add: advance_rune[OF rune'] utf16Len_rune[OF rune'(1)] ac_simps
          flip: last_index_byte_None)
  qed (use rune in simp)
qed


lemma seek_line_bound: "fst p \<le> fst t \<Longrightarrow> fst (snd (seek s p t)) \<le> fst t"
proof (induction s arbitrary: p rule: rune_induct)
  case (rune s)
  show ?case
  proof (cases s rule: rune_cases)
    case newline
    then show ?thesis using rune(2)[of "(fst p + 1, 0)"] rune(3)
      by (cases "fst p < fst t") (simp_all add: seek_newline seek_line_end)
  next
    case rune': rune
    then show ?thesis using rune(2,3) by (cases "before p t") (simp_all add: seek_rune seek_stop Let_def)
  qed (use rune in simp)
qed simp

section \<open>Batches of edits\<close>

lemma apply_one_seek:
  "apply_one s e = take (fst (seek s (0, 0) (StartLine e, StartChar e))) s @ Text e @
     drop (fst (seek s (0, 0) (EndLine e, EndChar e))) s"
  by (simp add: apply_one_def ApplyEdit_def PositionToOffset_seek)

text \<open>What \<open>ApplyEdits\<close> keeps of its state: \<open>(line, col)\<close> is where \<open>out\<close> ends.\<close>

definition stream_ok :: "string \<times> string \<times> nat \<times> nat \<Rightarrow> bool" where
  "stream_ok = (\<lambda>(out, rest, p). valid_utf8 out \<and> valid_utf8 rest \<and> p = advance (0, 0) out)"

definition stream_doc :: "string \<times> string \<times> nat \<times> nat \<Rightarrow> string" where
  "stream_doc = (\<lambda>(out, rest, p). out @ rest)"

lemma apply_one_valid: "valid_utf8 s \<Longrightarrow> valid_utf8 (Text e) \<Longrightarrow> valid_utf8 (apply_one s e)"
  by (simp add: apply_one_seek seek_valid valid_utf8_append)

lemma edit_step_streamed:
  fixes out rest line col e
  defines "S \<equiv> (StartLine e, StartChar e)" and "E \<equiv> (EndLine e, EndChar e)"
  defines "n \<equiv> fst (seek rest (line, col) S)" and "q \<equiv> snd (seek rest (line, col) S)"
  defines "m \<equiv> fst (seek (drop n rest) q E)"
  assumes "\<not> before S (line, col)" "\<not> before E S"
  shows "edit_step (out, rest, line, col) e =
    (out @ take n rest @ Text e, drop (n + m) rest, advance q (Text e))"
proof -
  have start: "walkTo rest line col (StartLine e) (StartChar e) = (n, q)"
    using assms by (subst walkTo_seek) (auto simp: posBefore_def)
  have "fst (line, col) \<le> fst S" using assms(6) by (auto simp: posBefore_def)
  then have "fst q \<le> fst S" unfolding q_def by (rule seek_line_bound)
  then have "fst q \<le> EndLine e" using assms(1,2,7) by (auto simp: posBefore_def)
  then have stop: "walkTo (drop n rest) (fst q) (snd q) (EndLine e) (EndChar e)
      = (m, snd (seek (drop n rest) q E))"
    by (simp add: walkTo_seek m_def E_def)
  show ?thesis using assms(6,7) start stop
    by (cases "last_index_byte (Text e) newline")
      (simp_all add: edit_step_def S_def E_def case_prod_unfold Let_def advance_lines
        del: last_index_byte_None)
qed

lemma edit_step_apply_one:
  assumes ok: "stream_ok st" and vtext: "valid_utf8 (Text e)"
  shows "stream_ok (edit_step st e) \<and> stream_doc (edit_step st e) = apply_one (stream_doc st) e"
proof -
  obtain out rest line col where st: "st = (out, rest, line, col)" by (cases st)
  let ?S = "(StartLine e, StartChar e)" and ?E = "(EndLine e, EndChar e)"
  have v: "valid_utf8 out" "valid_utf8 rest" and p: "(line, col) = advance (0, 0) out"
    using ok by (simp_all add: st stream_ok_def)
  show ?thesis
  proof (cases "before ?S (line, col) \<or> before ?E ?S")
    case True
    then show ?thesis using v vtext
      by (auto simp: st edit_step_def stream_ok_def stream_doc_def apply_one_valid valid_utf8_append)
  next
    case False
    define n where "n = fst (seek rest (line, col) ?S)"
    define q where "q = snd (seek rest (line, col) ?S)"
    define m where "m = fst (seek (drop n rest) q ?E)"
    have step: "edit_step st e = (out @ take n rest @ Text e, drop (n + m) rest, advance q (Text e))"
      using edit_step_streamed[of e line col out rest] False by (simp add: st n_def q_def m_def)
    have q: "q = advance (line, col) (take n rest)" and vt: "valid_utf8 (take n rest)"
      and vd: "valid_utf8 (drop n rest)"
      using seek_valid[OF v(2)] by (simp_all add: n_def q_def)
    have "fst (seek (out @ rest) (0, 0) ?S) = length out + n"
      using seek_append[OF v(1), of ?S "(0, 0)" rest] False p by (simp add: n_def)
    moreover have "\<not> before ?E (line, col)" using False by (auto simp: posBefore_def)
    then have "fst (seek (out @ rest) (0, 0) ?E) = length out + (n + m)"
      using seek_append[OF v(1), of ?E "(0, 0)" rest] p seek_through[of ?E ?S rest "(line, col)"] False
      by (simp add: n_def m_def q_def Let_def)
    ultimately have doc: "stream_doc (edit_step st e) = apply_one (stream_doc st) e"
      by (simp add: st step[unfolded st] apply_one_seek stream_doc_def)
    have "valid_utf8 (drop (n + m) rest)"
      using seek_valid[OF vd, of q ?E] by (simp add: m_def add.commute)
    moreover have "advance q (Text e) = advance (0, 0) (out @ take n rest @ Text e)"
      using v vt by (simp add: advance_append q p)
    ultimately show ?thesis using doc v vt vtext
      by (simp add: step stream_ok_def valid_utf8_append)
  qed
qed

lemma edit_steps_apply_one:
  assumes "stream_ok st" "\<forall>e \<in> set edits. valid_utf8 (Text e)"
  shows "stream_doc (foldl edit_step st edits) = foldl apply_one (stream_doc st) edits"
  using assms
proof (induction edits arbitrary: st)
  case (Cons e edits)
  then show ?case using edit_step_apply_one[of st e] by simp
qed simp

lemma ApplyEdits_foldl:
  assumes "valid_utf8 content" "\<forall>e \<in> set edits. valid_utf8 (Text e)"
  shows "ApplyEdits content edits = foldl apply_one content edits"
proof -
  have "(let (out, rest, _, _) = foldl edit_step ([], content, 0, 0) edits in out @ rest)
      = foldl apply_one content edits"
    using edit_steps_apply_one[of "([], content, 0, 0)" edits] assms
    by (simp add: stream_ok_def stream_doc_def case_prod_unfold)
  then show ?thesis by (cases edits rule: list.exhaust; cases "tl edits") (simp_all add: ApplyEdits_def)
qed

text \<open>
  C1: Applying a batch of edits in one streamed pass gives exactly what calling \<open>ApplyEdit\<close> once
  per edit, in order, gives: whatever the edits' order, whether their ranges lie past the end of a
  line or of the document or run backwards. The document and the inserted texts are valid UTF-8.\<close>

theorem ApplyEdits_sequential:
  assumes "valid_utf8 content" "\<forall>e \<in> set edits. valid_utf8 (Text e)"
  shows "ApplyEdits content edits = foldl apply_one content edits"
  by (rule ApplyEdits_foldl[OF assms])


definition sample_content :: string where
  "sample_content = [CHR ''a'', CHR 0xC3, CHR 0xA9, CHR ''b'', newline,
     CHR ''c'', CHR ''d'']"

definition sample_edits :: "Edit list" where
  "sample_edits =
    [\<lparr>StartLine = 0, StartChar = 2, EndLine = 0, EndChar = 3, Text = ''x'' @ [newline] @ ''y''\<rparr>,
     \<lparr>StartLine = 1, StartChar = 9, EndLine = 2, EndChar = 1, Text = []\<rparr>,
     \<lparr>StartLine = 0, StartChar = 0, EndLine = 0, EndChar = 1, Text = ''z''\<rparr>]"

theorem ApplyEdits_sequential_witness:
  "ApplyEdits sample_content sample_edits = foldl apply_one sample_content sample_edits \<and>
   ApplyEdits sample_content sample_edits =
     [CHR ''z'', CHR 0xC3, CHR 0xA9, CHR ''x'', newline, CHR ''y'', CHR ''d'']"
proof -
  have "valid_utf8 sample_content" by code_simp
  moreover have "\<forall>e \<in> set sample_edits. valid_utf8 (Text e)" by code_simp
  ultimately have "ApplyEdits sample_content sample_edits = foldl apply_one sample_content sample_edits"
    by (rule ApplyEdits_sequential)
  moreover have "ApplyEdits sample_content sample_edits =
     [CHR ''z'', CHR 0xC3, CHR 0xA9, CHR ''x'', newline, CHR ''y'', CHR ''d'']"
    by code_simp
  ultimately show ?thesis by blast
qed

text \<open>
  Without valid UTF-8 the two can differ: deleting the \<open>A\<close> of \<open>C3 41 A9 42\<close> joins two stray bytes
  into one rune, which the streamed walk, starting after the first of them, does not see.
\<close>

definition latin1_content :: string where
  "latin1_content = [CHR 0xC3, CHR ''A'', CHR 0xA9, CHR ''B'']"

definition latin1_edits :: "Edit list" where
  "latin1_edits =
    [\<lparr>StartLine = 0, StartChar = 1, EndLine = 0, EndChar = 2, Text = []\<rparr>,
     \<lparr>StartLine = 0, StartChar = 2, EndLine = 0, EndChar = 2, Text = ''x''\<rparr>]"

lemma ApplyEdits_invalid_utf8:
  "ApplyEdits latin1_content latin1_edits \<noteq> foldl apply_one latin1_content latin1_edits"
  by code_simp

end
