(* ===== verification/Go_Strings.thy ===== *)
theory Go_Strings
  imports Go_Utf8
begin

text \<open>
  The functions of Go's \<open>strings\<close> and \<open>unicode\<close> packages the modelled code calls, on byte strings.
  Case folding (\<open>ToLower\<close>, \<open>EqualFold\<close>) is ASCII: the names the code folds are CFML identifiers,
  tag names and URIs; a byte outside ASCII is left as it is.
\<close>

section \<open>Splitting and joining\<close>

text \<open>\<open>strings.Split(s, "\n")\<close> and \<open>strings.SplitAfter(s, "\n")\<close>.\<close>

fun split_lines :: "string \<Rightarrow> string list" where
  "split_lines [] = [[]]"
| "split_lines (c # s) =
     (if c = newline then [] # split_lines s
      else (case split_lines s of [] \<Rightarrow> [[c]] | l # ls \<Rightarrow> (c # l) # ls))"

fun split_after :: "string \<Rightarrow> string list" where
  "split_after [] = [[]]"
| "split_after (c # s) =
     (if c = newline then [c] # split_after s
      else (case split_after s of [] \<Rightarrow> [[c]] | l # ls \<Rightarrow> (c # l) # ls))"

text \<open>\<open>strings.Join\<close>.\<close>

fun join :: "string \<Rightarrow> string list \<Rightarrow> string" where
  "join sep [] = []"
| "join sep [x] = x"
| "join sep (x # y # ys) = x @ sep @ join sep (y # ys)"

definition terminated :: "string list \<Rightarrow> string" where
  "terminated ls = concat (map (\<lambda>l. l @ [newline]) ls)"

lemma terminated_simps [simp]:
  "terminated [] = []" "terminated (l # ls) = l @ newline # terminated ls"
  "terminated (ls @ ms) = terminated ls @ terminated ms"
  by (simp_all add: terminated_def)

lemma split_lines_nonempty [simp]: "split_lines s \<noteq> []"
  by (induction s) (auto split: list.splits)

lemma split_after_nonempty [simp]: "split_after s \<noteq> []"
  by (induction s) (auto split: list.splits)

lemma join_Cons: "xs \<noteq> [] \<Longrightarrow> join sep (x # xs) = x @ sep @ join sep xs"
  by (cases xs) simp_all

lemma join_append: "ys \<noteq> [] \<Longrightarrow> join [newline] (xs @ ys) = terminated xs @ join [newline] ys"
  by (induction xs) (simp_all add: join_Cons)

lemma join_terminated: "xs \<noteq> [] \<Longrightarrow> join [newline] xs @ [newline] = terminated xs"
  by (induction xs rule: list_nonempty_induct) (simp_all add: join_Cons)

lemma join_split_lines [simp]: "join [newline] (split_lines s) = s"
proof (induction s)
  case (Cons c s)
  then show ?case
    by (cases "split_lines s"; cases "tl (split_lines s)") (auto simp: join_Cons)
qed simp

lemma concat_split_after [simp]: "concat (split_after s) = s"
  by (induction s) (auto split: list.splits)

lemma split_lines_index:
  "split_lines s = (case index_byte s newline of
      None \<Rightarrow> [s] | Some i \<Rightarrow> take i s # split_lines (drop (Suc i) s))"
proof (induction s)
  case (Cons c s)
  then show ?case by (cases "index_byte s newline") (simp_all del: index_byte_None)
qed simp

lemma split_after_index:
  "split_after s = (case index_byte s newline of
      None \<Rightarrow> [s] | Some i \<Rightarrow> take (Suc i) s # split_after (drop (Suc i) s))"
proof (induction s)
  case (Cons c s)
  then show ?case by (cases "index_byte s newline") (simp_all del: index_byte_None)
qed simp

section \<open>White space\<close>

text \<open>\<open>unicode.IsSpace\<close>.\<close>

definition is_space_rune :: "nat \<Rightarrow> bool" where
  "is_space_rune r \<longleftrightarrow> 9 \<le> r \<and> r \<le> 13 \<or> r = 32 \<or> r = 0x85 \<or> r = 0xA0 \<or> r = 0x1680 \<or>
     0x2000 \<le> r \<and> r \<le> 0x200A \<or> r = 0x2028 \<or> r = 0x2029 \<or> r = 0x202F \<or> r = 0x205F \<or> r = 0x3000"

text \<open>
  \<open>utf8.DecodeLastRuneInString\<close>: back to the last byte that is no continuation byte, at most four
  bytes, and forward again; an error of width 1 where that does not end at the end.
\<close>

definition last_rune_start :: "string \<Rightarrow> nat" where
  "last_rune_start s =
     (let n = length s;
          start = (\<lambda>k. k \<le> n \<and> \<not> continuation (byte (s ! (n - k))))
      in if start 2 then n - 2 else if start 3 then n - 3 else if start 4 then n - 4 else n - 1)"

definition decode_last_rune :: "string \<Rightarrow> nat \<times> nat" where
  "decode_last_rune s =
     (if s = [] then (rune_error, 0)
      else if byte (last s) < (0x80::nat) then (byte (last s), 1)
      else let start = last_rune_start s; (r, n) = decode_rune (drop start s)
           in if start + n \<noteq> length s then (rune_error, 1) else (r, n))"

function trim_left_space :: "string \<Rightarrow> string" where
  "trim_left_space s =
     (if s = [] then []
      else let (r, n) = decode_rune s in if is_space_rune r then trim_left_space (drop n s) else s)"
  by pat_completeness auto
termination
  by (relation "measure length")
    (auto simp: rune_size_def[symmetric] rune_size_pos dest!: arg_cong[where f = snd])

lemma last_rune_start_less: "s \<noteq> [] \<Longrightarrow> last_rune_start s < length s"
  by (cases s) (auto simp: last_rune_start_def Let_def)

lemma decode_last_rune_pos: "s \<noteq> [] \<Longrightarrow> 0 < snd (decode_last_rune s)"
  using last_rune_start_less[of s] rune_size_pos[of "drop (last_rune_start s) s"]
  by (auto simp: decode_last_rune_def Let_def case_prod_unfold rune_size_def)

function trim_right_space :: "string \<Rightarrow> string" where
  "trim_right_space s =
     (if s = [] then []
      else let (r, n) = decode_last_rune s
           in if is_space_rune r then trim_right_space (take (length s - n) s) else s)"
  by pat_completeness auto
termination
  by (relation "measure length")
    (auto dest!: arg_cong[where f = snd] intro!: diff_less decode_last_rune_pos)

declare trim_left_space.simps [simp del] trim_right_space.simps [simp del]

definition TrimSpace :: "string \<Rightarrow> string" where
  "TrimSpace s = trim_right_space (trim_left_space s)"

section \<open>Case\<close>

definition lower_char :: "char \<Rightarrow> char" where
  "lower_char c = (if CHR ''A'' \<le> c \<and> c \<le> CHR ''Z'' then char_of (byte c + 32 :: nat) else c)"

definition ToLower :: "string \<Rightarrow> string" where
  "ToLower s = map lower_char s"

definition EqualFold :: "string \<Rightarrow> string \<Rightarrow> bool" where
  "EqualFold s t \<longleftrightarrow> ToLower s = ToLower t"

lemma length_ToLower [simp]: "length (ToLower s) = length s"
  by (simp add: ToLower_def)

lemma EqualFold_refl [simp]: "EqualFold s s"
  by (simp add: EqualFold_def)

lemma lower_char_idem [simp]: "lower_char (lower_char c) = lower_char c"
  by (auto simp: lower_char_def less_eq_char_def)

lemma ToLower_idem [simp]: "ToLower (ToLower s) = ToLower s"
  by (simp add: ToLower_def)

lemma ToLower_append [simp]: "ToLower (s @ t) = ToLower s @ ToLower t"
  by (simp add: ToLower_def)

section \<open>Prefixes, suffixes and occurrences\<close>

abbreviation HasPrefix :: "string \<Rightarrow> string \<Rightarrow> bool" where
  "HasPrefix s p \<equiv> take (length p) s = p"

abbreviation HasSuffix :: "string \<Rightarrow> string \<Rightarrow> bool" where
  "HasSuffix s p \<equiv> length p \<le> length s \<and> drop (length s - length p) s = p"

text \<open>\<open>strings.Index\<close> and \<open>strings.LastIndex\<close>, with \<open>None\<close> for \<open>-1\<close>.\<close>

fun index_of :: "string \<Rightarrow> string \<Rightarrow> nat option" where
  "index_of [] p = (if p = [] then Some 0 else None)"
| "index_of (c # s) p = (if HasPrefix (c # s) p then Some 0 else map_option Suc (index_of s p))"

definition Contains :: "string \<Rightarrow> string \<Rightarrow> bool" where
  "Contains s p \<longleftrightarrow> index_of s p \<noteq> None"

text \<open>\<open>strings.TrimSuffix\<close>, \<open>strings.TrimPrefix\<close>, \<open>strings.TrimRight\<close> and \<open>strings.TrimLeft\<close> of one byte.\<close>

definition TrimSuffix :: "string \<Rightarrow> string \<Rightarrow> string" where
  "TrimSuffix s p = (if HasSuffix s p then take (length s - length p) s else s)"

definition TrimPrefix :: "string \<Rightarrow> string \<Rightarrow> string" where
  "TrimPrefix s p = (if HasPrefix s p then drop (length p) s else s)"

definition TrimRight :: "string \<Rightarrow> char \<Rightarrow> string" where
  "TrimRight s c = rev (dropWhile (\<lambda>x. x = c) (rev s))"

definition TrimLeft :: "string \<Rightarrow> char \<Rightarrow> string" where
  "TrimLeft s c = dropWhile (\<lambda>x. x = c) s"

text \<open>\<open>strings.Split\<close> at a single byte.\<close>

fun split_on :: "char \<Rightarrow> string \<Rightarrow> string list" where
  "split_on d [] = [[]]"
| "split_on d (c # s) =
     (if c = d then [] # split_on d s
      else (case split_on d s of [] \<Rightarrow> [[c]] | l # ls \<Rightarrow> (c # l) # ls))"

lemma split_on_nonempty [simp]: "split_on d s \<noteq> []"
  by (induction s) (auto split: list.splits)

lemma join_split_on [simp]: "join [d] (split_on d s) = s"
proof (induction s)
  case (Cons c s)
  then show ?case
    by (cases "split_on d s"; cases "tl (split_on d s)") (auto simp: join_Cons)
qed simp

text \<open>\<open>strings.Cut\<close> at a byte and \<open>strings.ReplaceAll\<close> of a string that is not empty.\<close>

definition Cut :: "string \<Rightarrow> char \<Rightarrow> (string \<times> string) option" where
  "Cut s c = map_option (\<lambda>i. (take i s, drop (i + 1) s)) (index_byte s c)"

function replace_all :: "string \<Rightarrow> string \<Rightarrow> string \<Rightarrow> string" where
  "replace_all old new s =
     (if old = [] \<or> s = [] then s
      else if HasPrefix s old then new @ replace_all old new (drop (length old) s)
      else hd s # replace_all old new (tl s))"
  by pat_completeness auto
termination by (relation "measure (\<lambda>(old, new, s). length s)") auto

declare replace_all.simps [simp del]

end
