(* ===== verification/Client_Edits.thy ===== *)
theory Client_Edits
  imports Text_Edits Go_Strings
begin

text \<open>
  What an editor does with the \<open>TextEdit\<close>s of a formatting response: every range refers to the
  document as it was, positions are resolved as \<open>PositionToOffset\<close> does, and the texts replace the
  ranges. Both formatting answers, by range and whole document, are measured against this.
\<close>

fun apply_text_edits :: "string \<Rightarrow> nat \<Rightarrow> Edit list \<Rightarrow> string" where
  "apply_text_edits content prev [] = drop prev content"
| "apply_text_edits content prev (e # es) =
     slice content prev (PositionToOffset content (StartLine e) (StartChar e)) @ Text e @
     apply_text_edits content (PositionToOffset content (EndLine e) (EndChar e)) es"

section \<open>Offsets of line starts\<close>

lemma walk_chars_none: "walk_chars s off col 0 = (off, col)"
  by (simp add: walk_chars.simps)

lemma PositionToOffset_col0:
  "PositionToOffset s i 0 = (case skip_lines s 0 i of None \<Rightarrow> length s | Some off \<Rightarrow> off)"
  by (cases "skip_lines s 0 i") (simp_all add: PositionToOffset_def walk_chars_none)

lemma skip_lines_drop: "skip_lines s off k = map_option ((+) off) (skip_lines (drop off s) 0 k)"
proof (induction k arbitrary: s off)
  case (Suc k)
  show ?case
  proof (cases "index_byte (drop off s) newline")
    case (Some i)
    have "skip_lines s (off + i + 1) k = map_option ((+) (off + i + 1)) (skip_lines (drop (off + i + 1) s) 0 k)"
      by (rule Suc.IH)
    moreover have "skip_lines (drop off s) (i + 1) k
        = map_option ((+) (i + 1)) (skip_lines (drop (i + 1) (drop off s)) 0 k)"
      by (rule Suc.IH)
    ultimately show ?thesis using Some
      by (cases "skip_lines (drop (off + i + 1) s) 0 k") (simp_all add: ac_simps)
  qed (simp del: index_byte_None)
qed simp

lemma skip_lines_split:
  "skip_lines s 0 k =
    (if k < length (split_lines s) then Some (length (terminated (take k (split_lines s)))) else None)"
proof (induction k arbitrary: s)
  case (Suc k)
  show ?case
  proof (cases "index_byte s newline")
    case None
    then have "split_lines s = [s]" by (subst split_lines_index) (simp del: index_byte_None)
    then show ?thesis using None by (simp del: index_byte_None)
  next
    case (Some i)
    then have "i < length s" by (simp add: index_byte_Some)
    moreover have "split_lines s = take i s # split_lines (drop (Suc i) s)"
      using Some by (subst split_lines_index) simp
    moreover have "skip_lines s 0 (Suc k) = map_option ((+) (Suc i)) (skip_lines (drop (Suc i) s) 0 k)"
      using Some skip_lines_drop[of s "Suc i" k] by simp
    ultimately show ?thesis using Suc.IH[of "drop (Suc i) s"] by simp
  qed
qed simp

lemma offset_of_line:
  "i < length (split_lines s) \<Longrightarrow> PositionToOffset s i 0 = length (terminated (take i (split_lines s)))"
  by (simp add: PositionToOffset_col0 skip_lines_split)

lemma offset_past_end: "length (split_lines s) \<le> i \<Longrightarrow> PositionToOffset s i 0 = length s"
  by (simp add: PositionToOffset_col0 skip_lines_split)

lemma content_at_line:
  assumes "i < length (split_lines s)"
  shows "s = terminated (take i (split_lines s)) @ join [newline] (drop i (split_lines s))"
  using join_append[of "drop i (split_lines s)" "take i (split_lines s)"] assms by simp

lemma drop_at_line:
  assumes "i < length (split_lines s)"
  shows "drop (PositionToOffset s i 0) s = join [newline] (drop i (split_lines s))"
  using content_at_line[OF assms] assms by (metis append_eq_conv_conj offset_of_line)

lemma take_at_line:
  assumes "i < length (split_lines s)"
  shows "take (PositionToOffset s i 0) s = terminated (take i (split_lines s))"
  using content_at_line[OF assms] assms by (metis append_eq_conv_conj offset_of_line)

lemma slice_at_lines:
  assumes "i \<le> j" "j < length (split_lines s)"
  shows "slice s (PositionToOffset s i 0) (PositionToOffset s j 0) = terminated (slice (split_lines s) i j)"
proof -
  let ?l = "split_lines s"
  have "terminated (take j ?l) = terminated (take i ?l) @ terminated (slice ?l i j)"
    using assms by (metis slice_append slice_full take_eq_slice terminated_simps(3) zero_le)
  moreover have "take (PositionToOffset s j 0) s = terminated (take j ?l)" by (rule take_at_line[OF assms(2)])
  moreover have "PositionToOffset s i 0 = length (terminated (take i ?l))"
    using assms by (simp add: offset_of_line)
  ultimately show ?thesis by (simp add: slice_def drop_take[symmetric])
qed

end
