(* ===== verification/Text_Diff.thy ===== *)
theory Text_Diff
  imports Prelude
begin

text \<open>
  The line diff of \<open>internal/textdiff/textdiff.go\<close>: Myers' greedy shortest-edit-script
  algorithm, the walk back through its recorded frontiers, and the merging of the single-line
  edits into hunks.

  The frontier array \<open>v\<close> of the code is read and written at \<open>offset+k\<close> for a diagonal
  \<open>k\<close> with \<open>|k| \<le> maxD + 1\<close>; here it is the function from \<open>k\<close> to the value stored, so a
  read of a cell never written gives the zero of a fresh Go slice. Coordinates and diagonals are
  \<open>int\<close>, as in the code; the indices stored in a hunk are \<open>nat\<close>.
\<close>

record hunk =
  AStart :: nat
  AEnd :: nat
  BStart :: nat
  BEnd :: nat

type_synonym frontier = "int \<Rightarrow> int"

section \<open>The code\<close>

function common_head :: "string list \<Rightarrow> string list \<Rightarrow> nat \<Rightarrow> nat" where
  "common_head a b lo =
     (if lo < length a \<and> lo < length b \<and> a ! lo = b ! lo then common_head a b (Suc lo) else lo)"
  by pat_completeness auto
termination by (relation "measure (\<lambda>(a, b, lo). length a - lo)") auto

function common_tail :: "string list \<Rightarrow> string list \<Rightarrow> nat \<Rightarrow> nat \<Rightarrow> nat \<Rightarrow> nat \<times> nat" where
  "common_tail a b lo hiA hiB =
     (if hiA > lo \<and> hiB > lo \<and> a ! (hiA - 1) = b ! (hiB - 1)
      then common_tail a b lo (hiA - 1) (hiB - 1) else (hiA, hiB))"
  by pat_completeness auto
termination by (relation "measure (\<lambda>(a, b, lo, hiA, hiB). hiA - lo)") auto

text \<open>The inner \<open>for x < n && y < m && a[x] == b[y]\<close> loop: follow a diagonal of equal lines.\<close>

function snake :: "string list \<Rightarrow> string list \<Rightarrow> int \<Rightarrow> int \<Rightarrow> int \<times> int" where
  "snake a b x y =
     (if x < int (length a) \<and> y < int (length b) \<and> a ! nat x = b ! nat y
      then snake a b (x + 1) (y + 1) else (x, y))"
  by pat_completeness auto
termination by (relation "measure (\<lambda>(a, b, x, y). nat (int (length a) - x))") auto

text \<open>The choice both loops make: come down from diagonal \<open>k + 1\<close>, or right from \<open>k - 1\<close>.\<close>

definition goes_down :: "frontier \<Rightarrow> int \<Rightarrow> int \<Rightarrow> bool" where
  "goes_down v d k \<longleftrightarrow> k = - d \<or> (k \<noteq> d \<and> v (k - 1) < v (k + 1))"

definition step_x :: "frontier \<Rightarrow> int \<Rightarrow> int \<Rightarrow> int" where
  "step_x v d k = (if goes_down v d k then v (k + 1) else v (k - 1) + 1)"

text \<open>Walking back: the diagonal run before an edit is skipped, then the edit is recorded.\<close>

function unsnake :: "int \<Rightarrow> int \<Rightarrow> int \<Rightarrow> int \<Rightarrow> int \<times> int" where
  "unsnake prevX prevY x y =
     (if x > prevX \<and> y > prevY then unsnake prevX prevY (x - 1) (y - 1) else (x, y))"
  by pat_completeness auto
termination by (relation "measure (\<lambda>(px, py, x, y). nat (x - px))") auto

declare common_head.simps [simp del] common_tail.simps [simp del] snake.simps [simp del]
  unsnake.simps [simp del]

fun back_steps :: "frontier list \<Rightarrow> nat \<Rightarrow> int \<Rightarrow> int \<Rightarrow> hunk list" where
  "back_steps trace 0 x y = []"
| "back_steps trace (Suc d') x y =
     (let d = int (Suc d'); v = trace ! Suc d'; k = x - y;
          prevK = (if goes_down v d k then k + 1 else k - 1);
          prevX = v prevK; prevY = prevX - prevK;
          (x', y') = unsnake prevX prevY x y;
          s = (if x' > prevX
               then \<lparr>AStart = nat (x' - 1), AEnd = nat x', BStart = nat y', BEnd = nat y'\<rparr>
               else \<lparr>AStart = nat x', AEnd = nat x', BStart = nat (y' - 1), BEnd = nat y'\<rparr>)
      in s # back_steps trace d' prevX prevY)"

definition merge_step :: "hunk list \<Rightarrow> hunk \<Rightarrow> hunk list" where
  "merge_step hunks s =
     (if hunks \<noteq> [] \<and> AEnd (last hunks) = AStart s \<and> BEnd (last hunks) = BStart s
      then butlast hunks @ [(last hunks)\<lparr>AEnd := AEnd s, BEnd := BEnd s\<rparr>]
      else hunks @ [s])"

definition backtrack :: "frontier list \<Rightarrow> int \<Rightarrow> int \<Rightarrow> hunk list" where
  "backtrack trace n m = foldl merge_step [] (rev (back_steps trace (length trace - 1) n m))"

text \<open>One depth of the forward walk: \<open>Inl\<close> when it ends the search, \<open>Inr\<close> the new frontier.\<close>

function myers_row ::
  "string list \<Rightarrow> string list \<Rightarrow> frontier list \<Rightarrow> int \<Rightarrow> int \<Rightarrow> frontier \<Rightarrow> hunk list + frontier"
where
  "myers_row a b trace d k v =
     (if k \<le> d then
        (let x0 = step_x v d k; (x, y) = snake a b x0 (x0 - k); v' = v(k := x)
         in if x \<ge> int (length a) \<and> y \<ge> int (length b)
            then Inl (backtrack trace (int (length a)) (int (length b)))
            else myers_row a b trace d (k + 2) v')
      else Inr v)"
  by pat_completeness auto
termination by (relation "measure (\<lambda>(a, b, t, d, k, v). nat (d + 1 - k))") auto

declare myers_row.simps [simp del]

function myers_depths ::
  "string list \<Rightarrow> string list \<Rightarrow> nat \<Rightarrow> frontier list \<Rightarrow> frontier \<Rightarrow> hunk list"
where
  "myers_depths a b d trace v =
     (if d \<le> length a + length b then
        (let trace' = trace @ [v]
         in case myers_row a b trace' (int d) (- int d) v of
              Inl hunks \<Rightarrow> hunks
            | Inr v' \<Rightarrow> myers_depths a b (Suc d) trace' v')
      else [\<lparr>AStart = 0, AEnd = length a, BStart = 0, BEnd = length b\<rparr>])"
  by pat_completeness auto
termination by (relation "measure (\<lambda>(a, b, d, t, v). length a + length b + 1 - d)") auto

declare myers_depths.simps [simp del]

definition myers :: "string list \<Rightarrow> string list \<Rightarrow> hunk list" where
  "myers a b = (if length a = 0 \<and> length b = 0 then [] else myers_depths a b 0 [] (\<lambda>_. 0))"

definition shift_hunk :: "nat \<Rightarrow> hunk \<Rightarrow> hunk" where
  "shift_hunk lo h = \<lparr>AStart = AStart h + lo, AEnd = AEnd h + lo,
                       BStart = BStart h + lo, BEnd = BEnd h + lo\<rparr>"

definition Hunks :: "string list \<Rightarrow> string list \<Rightarrow> hunk list" where
  "Hunks a b =
     (let lo = common_head a b 0; (hiA, hiB) = common_tail a b lo (length a) (length b)
      in if hiA - lo = 0 \<and> hiB - lo = 0 then []
         else map (shift_hunk lo) (myers (slice a lo hiA) (slice b lo hiB)))"



section \<open>The forward walk\<close>

text \<open>Edit paths: \<open>reach True a b d x y\<close> when \<open>d\<close> single-line edits turn \<open>take x a\<close> into \<open>take y b\<close>.\<close>

inductive reach :: "bool \<Rightarrow> string list \<Rightarrow> string list \<Rightarrow> nat \<Rightarrow> nat \<Rightarrow> nat \<Rightarrow> bool"
  for bounded :: bool and a b :: "string list" where
  reach_origin: "reach bounded a b 0 0 0"
| reach_same: "reach bounded a b d x y \<Longrightarrow> x < length a \<Longrightarrow> y < length b \<Longrightarrow> a ! x = b ! y \<Longrightarrow>
     reach bounded a b d (Suc x) (Suc y)"
| reach_delete: "reach bounded a b d x y \<Longrightarrow> bounded \<longrightarrow> x < length a \<Longrightarrow>
     reach bounded a b (Suc d) (Suc x) y"
| reach_insert: "reach bounded a b d x y \<Longrightarrow> bounded \<longrightarrow> y < length b \<Longrightarrow>
     reach bounded a b (Suc d) x (Suc y)"

lemma reach_diagonal: "reach bd a b d x y \<Longrightarrow> \<bar>int x - int y\<bar> \<le> int d \<and> even (int x - int y - int d)"
  by (induction rule: reach.induct) auto

lemma snake_run:
  assumes "snake a b x y = (x', y')" "0 \<le> x" "0 \<le> y"
  shows "x \<le> x' \<and> x' - y' = x - y \<and>
    (\<forall>i. x \<le> i \<and> i < x' \<longrightarrow> i < int (length a) \<and> i - x + y < int (length b) \<and>
         a ! nat i = b ! nat (i - x + y)) \<and>
    \<not> (x' < int (length a) \<and> y' < int (length b) \<and> a ! nat x' = b ! nat y')"
  using assms
proof (induction a b x y rule: snake.induct)
  case (1 a b x y)
  show ?case
  proof (cases "x < int (length a) \<and> y < int (length b) \<and> a ! nat x = b ! nat y")
    case True
    then have s: "snake a b (x + 1) (y + 1) = (x', y')"
      using "1.prems"(1) by (subst (asm) snake.simps) simp
    from "1.IH"[OF True s] "1.prems" have IH: "x + 1 \<le> x' \<and> x' - y' = x - y \<and>
      (\<forall>i. x + 1 \<le> i \<and> i < x' \<longrightarrow> i < int (length a) \<and> i - (x + 1) + (y + 1) < int (length b) \<and>
         a ! nat i = b ! nat (i - (x + 1) + (y + 1))) \<and>
      \<not> (x' < int (length a) \<and> y' < int (length b) \<and> a ! nat x' = b ! nat y')" by simp
    have "i < int (length a) \<and> i - x + y < int (length b) \<and> a ! nat i = b ! nat (i - x + y)"
      if "x \<le> i" "i < x'" for i
    proof (cases "i = x")
      case False
      then have "x + 1 \<le> i" using that by simp
      then have "i < int (length a) \<and> i - (x + 1) + (y + 1) < int (length b) \<and>
         a ! nat i = b ! nat (i - (x + 1) + (y + 1))" using IH that by blast
      moreover have "i - (x + 1) + (y + 1) = i - x + y" by simp
      ultimately show ?thesis by (simp only:)
    qed (use True in simp)
    then show ?thesis using IH by simp
  next
    case False
    then show ?thesis using "1.prems" by (subst (asm) snake.simps) auto
  qed
qed

lemma snake_reach:
  assumes "snake a b x y = (x', y')" "0 \<le> x" "0 \<le> y" "reach bd a b d (nat x) (nat y)"
  shows "reach bd a b d (nat x') (nat y')"
  using assms
proof (induction a b x y rule: snake.induct)
  case (1 a b x y)
  show ?case
  proof (cases "x < int (length a) \<and> y < int (length b) \<and> a ! nat x = b ! nat y")
    case True
    then have s: "snake a b (x + 1) (y + 1) = (x', y')"
      using "1.prems"(1) by (subst (asm) snake.simps) simp
    have "reach bd a b d (Suc (nat x)) (Suc (nat y))"
      using True "1.prems" by (intro reach_same) auto
    then show ?thesis using "1.IH"[OF True s] "1.prems" by (simp add: nat_add_distrib)
  next
    case False
    then show ?thesis using "1.prems" by (subst (asm) snake.simps) auto
  qed
qed

text \<open>The frontier at the start of each depth, as the code computes it when it never returns.\<close>

definition next_x :: "string list \<Rightarrow> string list \<Rightarrow> frontier \<Rightarrow> int \<Rightarrow> int \<Rightarrow> int" where
  "next_x a b v d k = fst (snake a b (step_x v d k) (step_x v d k - k))"

definition on_row :: "int \<Rightarrow> int \<Rightarrow> bool" where
  "on_row d k \<longleftrightarrow> - d \<le> k \<and> k \<le> d \<and> even (k - d)"

fun frontier_at :: "string list \<Rightarrow> string list \<Rightarrow> nat \<Rightarrow> frontier" where
  "frontier_at a b 0 = (\<lambda>_. 0)"
| "frontier_at a b (Suc d) =
     (\<lambda>k. if on_row (int d) k then next_x a b (frontier_at a b d) (int d) k else frontier_at a b d k)"

declare frontier_at.simps(2) [simp del]

lemma frontier_on_row: "on_row (int d) k \<Longrightarrow>
    frontier_at a b (Suc d) k = next_x a b (frontier_at a b d) (int d) k"
  by (simp add: frontier_at.simps)

lemma on_row_neighbours: "on_row (int (Suc d)) k \<Longrightarrow>
    (k \<noteq> int (Suc d) \<longrightarrow> on_row (int d) (k + 1)) \<and> (k \<noteq> - int (Suc d) \<longrightarrow> on_row (int d) (k - 1))"
  unfolding on_row_def by (auto; presburger)

text \<open>Where the step to a diagonal comes from, and that it is a move to a real grid point.\<close>

lemma step_x_cases:
  assumes "on_row (int (Suc d)) k"
  obtains (down) "goes_down v (int (Suc d)) k" "step_x v (int (Suc d)) k = v (k + 1)" "on_row (int d) (k + 1)"
    | (right) "\<not> goes_down v (int (Suc d)) k" "step_x v (int (Suc d)) k = v (k - 1) + 1" "on_row (int d) (k - 1)"
proof (cases "goes_down v (int (Suc d)) k")
  case True
  moreover have "k \<noteq> int (Suc d)"
    using True by (auto simp: goes_down_def)
  ultimately show ?thesis using on_row_neighbours[OF assms] by (intro down) (auto simp: step_x_def)
next
  case False
  moreover have "k \<noteq> - int (Suc d)"
    using False by (auto simp: goes_down_def)
  ultimately show ?thesis using on_row_neighbours[OF assms] by (intro right) (auto simp: step_x_def)
qed

lemma frontier_sound:
  "on_row (int d) k \<Longrightarrow> 0 \<le> frontier_at a b (Suc d) k \<and> 0 \<le> frontier_at a b (Suc d) k - k \<and>
     0 \<le> step_x (frontier_at a b d) (int d) k \<and> 0 \<le> step_x (frontier_at a b d) (int d) k - k \<and>
     reach False a b d (nat (frontier_at a b (Suc d) k)) (nat (frontier_at a b (Suc d) k - k))"
proof (induction d arbitrary: k)
  case 0
  then have k: "k = 0" by (simp add: on_row_def)
  obtain x' y' where s: "snake a b 0 0 = (x', y')" by (cases "snake a b 0 0")
  have run: "0 \<le> x'" "x' - y' = 0" using snake_run[OF s] by auto
  have "reach False a b 0 (nat x') (nat y')"
    using snake_reach[OF s, of False 0] reach_origin by simp
  moreover have "frontier_at a b (Suc 0) 0 = x'"
    using s by (simp add: frontier_at.simps on_row_def next_x_def step_x_def goes_down_def)
  ultimately show ?case using k run by (simp add: step_x_def goes_down_def)
next
  case (Suc d)
  let ?v = "frontier_at a b (Suc d)"
  let ?x0 = "step_x ?v (int (Suc d)) k"
  have start: "0 \<le> ?x0 \<and> 0 \<le> ?x0 - k \<and> reach False a b (Suc d) (nat ?x0) (nat (?x0 - k))"
    using Suc.prems
  proof (cases rule: step_x_cases[where v = ?v])
    case down
    note IH = Suc.IH[OF down(3)]
    have "nat (?v (k + 1) - k) = Suc (nat (?v (k + 1) - (k + 1)))" using IH by (simp add: nat_eq_iff)
    then show ?thesis using IH down(2) by (auto intro: reach_insert)
  next
    case right
    note IH = Suc.IH[OF right(3)]
    have x: "nat ?x0 = Suc (nat (?v (k - 1)))" using IH right(2) by (simp add: nat_eq_iff)
    have y: "?x0 - k = ?v (k - 1) - (k - 1)" using right(2) by simp
    have "reach False a b (Suc d) (nat ?x0) (nat (?x0 - k))"
      unfolding x y using IH by (blast intro: reach_delete)
    then show ?thesis using IH right(2) by simp
  qed
  obtain x' y' where s: "snake a b ?x0 (?x0 - k) = (x', y')" by (cases "snake a b ?x0 (?x0 - k)")
  have run: "?x0 \<le> x'" "y' = x' - k" using snake_run[OF s] start by auto
  have "frontier_at a b (Suc (Suc d)) k = x'"
    using s Suc.prems by (simp add: frontier_on_row next_x_def)
  moreover have "reach False a b (Suc d) (nat x') (nat y')"
    using snake_reach[OF s] start by blast
  moreover have "0 \<le> y'" using run start by linarith
  ultimately show ?case using run start by auto
qed

lemma frontier_closed:
  assumes "on_row (int d) k" and "x = frontier_at a b (Suc d) k"
  shows "\<not> (x < int (length a) \<and> x - k < int (length b) \<and> a ! nat x = b ! nat (x - k))"
proof -
  let ?x0 = "step_x (frontier_at a b d) (int d) k"
  obtain x' y' where s: "snake a b ?x0 (?x0 - k) = (x', y')" by (cases "snake a b ?x0 (?x0 - k)")
  have "x = x'" using assms s by (simp add: frontier_on_row next_x_def)
  then show ?thesis using snake_run[OF s] frontier_sound[OF assms(1), of a b] by auto
qed

lemma frontier_start_le:
  assumes "on_row (int d) k"
  shows "step_x (frontier_at a b d) (int d) k \<le> frontier_at a b (Suc d) k"
proof -
  let ?x0 = "step_x (frontier_at a b d) (int d) k"
  obtain x' y' where s: "snake a b ?x0 (?x0 - k) = (x', y')" by (cases "snake a b ?x0 (?x0 - k)")
  have "frontier_at a b (Suc d) k = x'" using assms s by (simp add: frontier_on_row next_x_def)
  then show ?thesis using snake_run[OF s] frontier_sound[OF assms, of a b] by auto
qed

text \<open>The frontier is furthest reaching.\<close>

lemma frontier_complete:
  "reach True a b d x y \<Longrightarrow> int x \<le> frontier_at a b (Suc d) (int x - int y)"
proof (induction rule: reach.induct)
  case reach_origin
  have "on_row (int 0) 0" by (simp add: on_row_def)
  then show ?case using frontier_sound[of 0 0 a b] by simp
next
  case (reach_same d x y)
  have row: "on_row (int d) (int x - int y)"
    using reach_diagonal[OF reach_same(1)] by (auto simp: on_row_def)
  let ?f = "frontier_at a b (Suc d) (int x - int y)"
  have "?f \<noteq> int x"
  proof
    assume eq: "?f = int x"
    show False using frontier_closed[OF row refl, of a b] reach_same(2-4) unfolding eq by simp
  qed
  then show ?case using reach_same.IH by simp
next
  case (reach_delete d x y)
  let ?k = "int (Suc x) - int y" and ?v = "frontier_at a b (Suc d)"
  have row: "on_row (int (Suc d)) ?k"
    using reach_diagonal[OF reach.reach_delete[OF reach_delete(1,2)]] by (auto simp: on_row_def)
  have IH: "int x \<le> ?v (?k - 1)" using reach_delete.IH by (simp add: algebra_simps)
  have "int (Suc x) \<le> step_x ?v (int (Suc d)) ?k"
  proof (cases "goes_down ?v (int (Suc d)) ?k")
    case True
    have "?k \<noteq> - int (Suc d)" using reach_diagonal[OF reach_delete(1)] by auto
    then have "?v (?k - 1) < ?v (?k + 1)" using True by (auto simp: goes_down_def)
    then show ?thesis using IH True by (simp add: step_x_def)
  next
    case False
    then show ?thesis using IH by (simp add: step_x_def)
  qed
  then show ?case using frontier_start_le[OF row, of a b] by simp
next
  case (reach_insert d x y)
  let ?k = "int x - int (Suc y)" and ?v = "frontier_at a b (Suc d)"
  have row: "on_row (int (Suc d)) ?k"
    using reach_diagonal[OF reach.reach_insert[OF reach_insert(1,2)]] by (auto simp: on_row_def)
  have IH: "int x \<le> ?v (?k + 1)" using reach_insert.IH by (simp add: algebra_simps)
  have "int x \<le> step_x ?v (int (Suc d)) ?k"
  proof (cases "goes_down ?v (int (Suc d)) ?k")
    case True
    then show ?thesis using IH by (simp add: step_x_def)
  next
    case False
    have "?k \<noteq> int (Suc d)" using reach_diagonal[OF reach_insert(1)] by auto
    then have "?v (?k + 1) \<le> ?v (?k - 1)" using False by (auto simp: goes_down_def)
    then show ?thesis using IH False by (simp add: step_x_def)
  qed
  then show ?case using frontier_start_le[OF row, of a b] by simp
qed


text \<open>Every bounded path is an unbounded one, and an unbounded one can be cut at the grid's edge.\<close>

lemma reach_clamp:
  "reach False a b d x y \<Longrightarrow>
    \<exists>d'. reach True a b d' (min x (length a)) (min y (length b)) \<and>
         d' + (x - min x (length a)) + (y - min y (length b)) \<le> d"
proof (induction rule: reach.induct)
  case reach_origin
  show ?case by (auto intro!: exI[of _ 0] reach.reach_origin)
next
  case (reach_same d x y)
  then show ?case by (auto intro: reach.reach_same simp: min_def split: if_splits)
next
  case (reach_delete d x y)
  then obtain d' where d': "reach True a b d' (min x (length a)) (min y (length b))"
    "d' + (x - min x (length a)) + (y - min y (length b)) \<le> d" by blast
  show ?case
  proof (cases "x < length a")
    case True
    then show ?thesis using d' reach.reach_delete[OF d'(1)]
      by (intro exI[of _ "Suc d'"]) (auto simp: min_def)
  next
    case False
    then have m: "min x (length a) = length a" "min (Suc x) (length a) = length a" by simp_all
    then show ?thesis using d' False by (intro exI[of _ d']) auto
  qed
next
  case (reach_insert d x y)
  then obtain d' where d': "reach True a b d' (min x (length a)) (min y (length b))"
    "d' + (x - min x (length a)) + (y - min y (length b)) \<le> d" by blast
  show ?case
  proof (cases "y < length b")
    case True
    then show ?thesis using d' reach.reach_insert[OF d'(1)]
      by (intro exI[of _ "Suc d'"]) (auto simp: min_def)
  next
    case False
    then have m: "min y (length b) = length b" "min (Suc y) (length b) = length b" by simp_all
    then show ?thesis using d' False by (intro exI[of _ d']) auto
  qed
qed

lemma reach_all: "reach True a b (length a + length b) (length a) (length b)"
proof -
  have "x \<le> length a \<Longrightarrow> reach True a b x x 0" for x
    by (induction x) (auto intro: reach.intros)
  then have del: "reach True a b (length a) (length a) 0" by simp
  have "y \<le> length b \<Longrightarrow> reach True a b (length a + y) (length a) y" for y
    using del by (induction y) (auto intro: reach_insert)
  then show ?thesis by simp
qed

definition finishes :: "string list \<Rightarrow> string list \<Rightarrow> nat \<Rightarrow> int \<Rightarrow> bool" where
  "finishes a b d k \<longleftrightarrow> on_row (int d) k \<and>
     int (length a) \<le> frontier_at a b (Suc d) k \<and> int (length b) \<le> frontier_at a b (Suc d) k - k"

lemma reach_finishes:
  "reach True a b d (length a) (length b) \<Longrightarrow> finishes a b d (int (length a) - int (length b))"
  using frontier_complete[of a b d "length a" "length b"] reach_diagonal[of True a b d "length a" "length b"]
  by (auto simp: finishes_def on_row_def)

text \<open>The first depth at which the search ends is the length of a shortest edit path.\<close>

lemma first_finish:
  assumes fin: "finishes a b d k" and least: "\<And>e j. e < d \<Longrightarrow> \<not> finishes a b e j"
  shows "k = int (length a) - int (length b)"
    and "frontier_at a b (Suc d) k = int (length a)"
    and "reach True a b d (length a) (length b)"
    and "\<And>e. reach True a b e (length a) (length b) \<Longrightarrow> d \<le> e"
proof -
  let ?x = "nat (frontier_at a b (Suc d) k)" and ?y = "nat (frontier_at a b (Suc d) k - k)"
  have row: "on_row (int d) k" using fin by (simp add: finishes_def)
  note snd = frontier_sound[OF row, of a b]
  show min: "d \<le> e" if "reach True a b e (length a) (length b)" for e
    using reach_finishes[OF that] least[of e] by force
  obtain d' where d': "reach True a b d' (min ?x (length a)) (min ?y (length b))"
    "d' + (?x - min ?x (length a)) + (?y - min ?y (length b)) \<le> d"
    using reach_clamp snd by blast
  have big: "length a \<le> ?x" "length b \<le> ?y" using fin by (auto simp: finishes_def)
  then have "reach True a b d' (length a) (length b)" using d'(1) by (simp only: min_absorb2)
  moreover from this have "d \<le> d'" by (rule min)
  ultimately have eqs: "?x = length a" "?y = length b" "d' = d" using d'(2) big by auto
  then show "reach True a b d (length a) (length b)"
    using \<open>reach True a b d' (length a) (length b)\<close> by simp
  show "frontier_at a b (Suc d) k = int (length a)" using eqs(1) snd by (simp add: nat_eq_iff)
  then show "k = int (length a) - int (length b)" using eqs snd by (simp add: nat_eq_iff)
qed

text \<open>The loops compute that frontier, and the search always ends within the bound.\<close>

lemma myers_row_spec:
  assumes "even (k - int d)" "- int d \<le> k"
    and "\<And>j. v j = (if on_row (int d) j \<and> j < k then frontier_at a b (Suc d) j else frontier_at a b d j)"
    and "\<And>j. on_row (int d) j \<Longrightarrow> j < k \<Longrightarrow> \<not> finishes a b d j"
  shows "myers_row a b tr (int d) k v =
    (if \<exists>j. finishes a b d j then Inl (backtrack tr (int (length a)) (int (length b)))
     else Inr (frontier_at a b (Suc d)))"
  using assms
proof (induction a b tr "int d" k v rule: myers_row.induct)
  case (1 a b tr k v)
  note unfold = myers_row.simps[of a b tr "int d" k v]
  show ?case
  proof (cases "k \<le> int d")
    case True
    have row: "on_row (int d) k" using 1(2,3) True by (simp add: on_row_def)
    have nb: "\<not> on_row (int d) (k - 1)" "\<not> on_row (int d) (k + 1)"
      using 1(2) by (auto simp: on_row_def)
    have sx: "step_x v (int d) k = step_x (frontier_at a b d) (int d) k"
      using nb by (simp add: step_x_def goes_down_def 1(4))
    obtain x y where s: "snake a b (step_x v (int d) k) (step_x v (int d) k - k) = (x, y)"
      by (cases "snake a b (step_x v (int d) k) (step_x v (int d) k - k)")
    have x: "x = frontier_at a b (Suc d) k"
      using s row by (simp add: frontier_on_row next_x_def sx)
    have y: "y = x - k"
      using snake_run[OF s] frontier_sound[OF row, of a b] by (simp add: sx)
    show ?thesis
    proof (cases "x \<ge> int (length a) \<and> y \<ge> int (length b)")
      case fin: True
      then have "finishes a b d k" using row x y by (simp add: finishes_def)
      then show ?thesis using fin True s by (auto simp: unfold Let_def)
    next
      case nofin: False
      then have nf: "\<not> finishes a b d k" using x y by (simp add: finishes_def)
      let ?v' = "v(k := x)"
      have v': "?v' j = (if on_row (int d) j \<and> j < k + 2 then frontier_at a b (Suc d) j
                         else frontier_at a b d j)" for j
        using 1(4)[of j] row x nb by (cases "j = k"; cases "j = k + 1") auto
      have "\<not> finishes a b d j" if "on_row (int d) j" "j < k + 2" for j
        using 1(5)[of j] that nf nb(2) by (cases "j = k"; cases "j = k + 1") auto
      then have "myers_row a b tr (int d) (k + 2) ?v' =
        (if \<exists>j. finishes a b d j then Inl (backtrack tr (int (length a)) (int (length b)))
         else Inr (frontier_at a b (Suc d)))"
        using 1(1)[OF True refl s[symmetric] refl refl nofin] 1(2,3) v' by simp
      then show ?thesis using nofin True s by (auto simp: unfold Let_def)
    qed
  next
    case False
    have "\<not> (\<exists>j. finishes a b d j)"
      using 1(5) False by (auto simp: finishes_def on_row_def)
    moreover have "v = frontier_at a b (Suc d)"
    proof
      fix j show "v j = frontier_at a b (Suc d) j"
        using 1(4)[of j] False by (auto simp: on_row_def frontier_at.simps(2))
    qed
    moreover have "myers_row a b tr (int d) k v = Inr v" using False by (simp add: unfold)
    ultimately show ?thesis by simp
  qed
qed

lemma myers_depths_spec:
  assumes "\<And>e j. e < d \<Longrightarrow> \<not> finishes a b e j"
    and "trace = map (frontier_at a b) [0..<d]" "v = frontier_at a b d"
  shows "\<exists>D k. finishes a b D k \<and> (\<forall>e j. e < D \<longrightarrow> \<not> finishes a b e j) \<and>
    myers_depths a b d trace v =
      backtrack (map (frontier_at a b) [0..<Suc D]) (int (length a)) (int (length b))"
  using assms
proof (induction a b d trace v rule: myers_depths.induct)
  case (1 a b d trace v)
  note unfold = myers_depths.simps[of a b d trace v]
  have bound: "d \<le> length a + length b"
    using 1(2) reach_finishes[OF reach_all, of a b] by (meson not_le)
  have tr: "trace @ [v] = map (frontier_at a b) [0..<Suc d]" using 1(3,4) by simp
  have row: "myers_row a b (trace @ [v]) (int d) (- int d) v =
    (if \<exists>j. finishes a b d j then Inl (backtrack (trace @ [v]) (int (length a)) (int (length b)))
     else Inr (frontier_at a b (Suc d)))"
    using 1(4) by (intro myers_row_spec) (auto simp: on_row_def)
  show ?case
  proof (cases "\<exists>j. finishes a b d j")
    case True
    then obtain j where j: "finishes a b d j" by blast
    have "myers_depths a b d trace v = backtrack (trace @ [v]) (int (length a)) (int (length b))"
      using True bound row by (simp add: unfold Let_def)
    then show ?thesis unfolding tr using j 1(2) by blast
  next
    case False
    then have r: "myers_row a b (trace @ [v]) (int d) (- int d) v = Inr (frontier_at a b (Suc d))"
      using row by simp
    then have "myers_depths a b d trace v
        = myers_depths a b (Suc d) (trace @ [v]) (frontier_at a b (Suc d))"
      using bound by (simp add: unfold Let_def)
    moreover have "\<not> finishes a b e j" if "e < Suc d" for e j
      using 1(2)[of e j] False that by (auto simp: less_Suc_eq)
    ultimately show ?thesis
      using 1(1)[OF bound refl r _ tr refl] by metis
  qed
qed


section \<open>Edit scripts\<close>

text \<open>
  What a list of hunks must be to turn \<open>a\<close> into \<open>b\<close> between \<open>(i, j)\<close> and \<open>(x, y)\<close>: in order,
  within both sides, and with equal lines in every gap.
\<close>

fun script :: "string list \<Rightarrow> string list \<Rightarrow> nat \<Rightarrow> nat \<Rightarrow> hunk list \<Rightarrow> nat \<Rightarrow> nat \<Rightarrow> bool" where
  "script a b i j [] x y \<longleftrightarrow>
     i \<le> x \<and> j \<le> y \<and> x \<le> length a \<and> y \<le> length b \<and> slice a i x = slice b j y"
| "script a b i j (h # hs) x y \<longleftrightarrow>
     i \<le> AStart h \<and> j \<le> BStart h \<and> slice a i (AStart h) = slice b j (BStart h) \<and>
     AStart h \<le> AEnd h \<and> BStart h \<le> BEnd h \<and> AEnd h \<le> length a \<and> BEnd h \<le> length b \<and>
     script a b (AEnd h) (BEnd h) hs x y"

fun patch :: "string list \<Rightarrow> string list \<Rightarrow> nat \<Rightarrow> hunk list \<Rightarrow> string list" where
  "patch a b i [] = drop i a"
| "patch a b i (h # hs) = slice a i (AStart h) @ slice b (BStart h) (BEnd h) @ patch a b (AEnd h) hs"

definition hunk_size :: "hunk \<Rightarrow> nat" where
  "hunk_size h = (AEnd h - AStart h) + (BEnd h - BStart h)"

definition cost :: "hunk list \<Rightarrow> nat" where
  "cost hs = sum_list (map hunk_size hs)"

definition touching :: "hunk \<Rightarrow> hunk \<Rightarrow> bool" where
  "touching h h' \<longleftrightarrow> AEnd h = AStart h' \<and> BEnd h = BStart h'"

lemma slice_eqI:
  assumes "i + n \<le> length a" "j + n \<le> length b" "\<And>t. t < n \<Longrightarrow> a ! (i + t) = b ! (j + t)"
  shows "slice a i (i + n) = slice b j (j + n)"
  using assms by (intro nth_equalityI) (auto simp: slice_def)

lemma script_append:
  "script a b i j (hs @ h # rest) x y \<longleftrightarrow>
    script a b i j hs (AStart h) (BStart h) \<and> AStart h \<le> AEnd h \<and> BStart h \<le> BEnd h \<and>
    AEnd h \<le> length a \<and> BEnd h \<le> length b \<and> script a b (AEnd h) (BEnd h) rest x y"
  by (induction hs arbitrary: i j) auto

lemma script_bounds: "script a b i j hs x y \<Longrightarrow> i \<le> x \<and> j \<le> y \<and> x \<le> length a \<and> y \<le> length b"
  by (induction hs arbitrary: i j) (auto dest: order_trans)

lemma patch_script:
  "script a b i j hs (length a) (length b) \<Longrightarrow> patch a b i hs = drop j b"
proof (induction hs arbitrary: i j)
  case Nil
  then show ?case by (simp add: drop_eq_slice)
next
  case (Cons h hs)
  then have IH: "patch a b (AEnd h) hs = drop (BEnd h) b" by simp
  have "drop j b = slice b j (BStart h) @ slice b (BStart h) (BEnd h) @ slice b (BEnd h) (length b)"
    using Cons.prems by (simp add: drop_eq_slice slice_append)
  then show ?case using Cons.prems IH by (simp add: drop_eq_slice)
qed

lemma script_prepend:
  assumes "script a b i j hs x y" "i' \<le> i" "j' \<le> j" "slice a i' i = slice b j' j"
  shows "script a b i' j' hs x y"
proof (cases hs)
  case Nil
  then show ?thesis using assms
    by (simp add: slice_append[of i' i x a, symmetric] slice_append[of j' j y b, symmetric])
next
  case (Cons h hs')
  then show ?thesis using assms
    by (simp add: slice_append[of i' i "AStart h" a, symmetric] slice_append[of j' j "BStart h" b, symmetric])
qed

lemma script_extend:
  assumes "script a b i j hs x y" "x \<le> x'" "y \<le> y'" "x' \<le> length a" "y' \<le> length b"
    "slice a x x' = slice b y y'"
  shows "script a b i j hs x' y'"
  using assms
proof (induction hs arbitrary: i j)
  case Nil
  then show ?case by (simp add: slice_append[of i x x' a, symmetric] slice_append[of j y y' b, symmetric])
qed auto

section \<open>The walk back\<close>

lemma unsnake_eq:
  "px \<le> x \<Longrightarrow> py \<le> y \<Longrightarrow> unsnake px py x y = (x - min (x - px) (y - py), y - min (x - px) (y - py))"
proof (induction px py x y rule: unsnake.induct)
  case (1 px py x y)
  show ?case
  proof (cases "x > px \<and> y > py")
    case True
    then have "unsnake px py x y = unsnake px py (x - 1) (y - 1)" by (subst unsnake.simps) simp
    also have "\<dots> = (x - 1 - min (x - 1 - px) (y - 1 - py), y - 1 - min (x - 1 - px) (y - 1 - py))"
      using "1.IH" True by simp
    finally show ?thesis by (simp add: min_def)
  next
    case False
    then show ?thesis using "1.prems" by (subst unsnake.simps) (auto simp: min_def)
  qed
qed

lemma snake_slice:
  assumes "snake a b x0 y0 = (x, y)" "0 \<le> x0" "0 \<le> y0"
  shows "slice a (nat x0) (nat x) = slice b (nat y0) (nat y) \<and> nat x0 \<le> nat x \<and> nat y0 \<le> nat y"
proof -
  note run = snake_run[OF assms]
  obtain n where n: "x = x0 + int n" using run zle_iff_zadd by metis
  then have y: "y = y0 + int n" using run by linarith
  have all: "nat x0 + t < length a \<and> nat y0 + t < length b \<and> a ! (nat x0 + t) = b ! (nat y0 + t)" if "t < n" for t
  proof -
    have "x0 + int t < int (length a) \<and> x0 + int t - x0 + y0 < int (length b) \<and>
      a ! nat (x0 + int t) = b ! nat (x0 + int t - x0 + y0)"
    proof -
      have "x0 \<le> x0 + int t \<and> x0 + int t < x" using that n by simp
      then show ?thesis using run by blast
    qed
    moreover have "nat (x0 + int t) = nat x0 + t" "nat (x0 + int t - x0 + y0) = nat y0 + t"
      using assms by auto
    ultimately show ?thesis using assms(2,3) by (simp only: nat_less_iff[symmetric])
  qed
  have "n = 0 \<or> (nat x0 + n \<le> length a \<and> nat y0 + n \<le> length b)" using all[of "n - 1"] by (cases n) auto
  moreover have "nat x = nat x0 + n" "nat y = nat y0 + n" using n y assms by auto
  ultimately show ?thesis using all slice_eqI[of "nat x0" n a "nat y0" b] by auto
qed

lemma back_steps_script:
  assumes "on_row (int d) k" "x = frontier_at a b (Suc d) k" "y = x - k"
    "x \<le> int (length a)" "y \<le> int (length b)" "\<And>e. e \<le> d \<Longrightarrow> trace ! e = frontier_at a b e"
  shows "script a b 0 0 (rev (back_steps trace d x y)) (nat x) (nat y) \<and>
    length (back_steps trace d x y) = d \<and> (\<forall>s \<in> set (back_steps trace d x y). hunk_size s = 1)"
  using assms
proof (induction d arbitrary: k x y)
  case 0
  then have k: "k = 0" by (simp add: on_row_def)
  obtain x' y' where s: "snake a b 0 0 = (x', y')" by (cases "snake a b 0 0")
  have "x = x'" using s 0 k by (simp add: frontier_at.simps on_row_def next_x_def step_x_def goes_down_def)
  moreover have "y = y'" using snake_run[OF s] 0 k calculation by simp
  ultimately have "slice a 0 (nat x) = slice b 0 (nat y)" using snake_slice[OF s] by simp
  then show ?case using 0(4,5) by (simp add: nat_le_iff)
next
  case (Suc d)
  let ?v = "frontier_at a b (Suc d)" and ?D = "int (Suc d)"
  define x0 where "x0 = step_x ?v ?D k"
  have v: "trace ! Suc d = ?v" using Suc.prems(6) by simp
  have tr: "\<And>e. e \<le> d \<Longrightarrow> trace ! e = frontier_at a b e" using Suc.prems(6) by simp
  note snd = frontier_sound[OF Suc.prems(1), of a b, folded x0_def]
  obtain x' y' where s: "snake a b x0 (x0 - k) = (x', y')" by (cases "snake a b x0 (x0 - k)")
  have x': "x' = x" using s Suc.prems(1,2) by (simp add: frontier_on_row next_x_def x0_def)
  have run: "x0 \<le> x" "y' = y" using snake_run[OF s] snd x' Suc.prems(3) by auto
  have sl: "slice a (nat x0) (nat x) = slice b (nat (x0 - k)) (nat y) \<and> nat x0 \<le> nat x \<and>
      nat (x0 - k) \<le> nat y" using snake_slice[OF s] snd x' run by simp
  have kxy: "x - y = k" using Suc.prems(3) by simp
  show ?case using Suc.prems(1)
  proof (cases rule: step_x_cases[where v = ?v])
    case down
    let ?px = "?v (k + 1)"
    have px: "x0 = ?px" using down(2) by (simp add: x0_def)
    note ps = frontier_sound[OF down(3), of a b]
    have "unsnake ?px (?px - (k + 1)) x y = (x0, x0 - k)"
      using run px Suc.prems(3) by (subst unsnake_eq) (auto simp: min_def)
    then have bs: "back_steps trace (Suc d) x y =
      \<lparr>AStart = nat x0, AEnd = nat x0, BStart = nat (x0 - k - 1), BEnd = nat (x0 - k)\<rparr>
        # back_steps trace d ?px (?px - (k + 1))"
      using down(1) px kxy by (simp add: Let_def v)
    have IH: "script a b 0 0 (rev (back_steps trace d ?px (?px - (k + 1)))) (nat ?px) (nat (?px - (k + 1))) \<and>
      length (back_steps trace d ?px (?px - (k + 1))) = d \<and>
      (\<forall>s \<in> set (back_steps trace d ?px (?px - (k + 1))). hunk_size s = 1)"
      using Suc.IH[OF down(3) refl refl _ _ tr] run px Suc.prems(3,4,5) by simp
    show ?thesis unfolding bs using IH sl ps px Suc.prems(4,5) run Suc.prems(3)
      by (auto simp: script_append hunk_size_def diff_diff_eq)
  next
    case right
    let ?px = "?v (k - 1)"
    have px: "x0 = ?px + 1" using right(2) by (simp add: x0_def)
    note ps = frontier_sound[OF right(3), of a b]
    have "unsnake ?px (?px - (k - 1)) x y = (x0, x0 - k)"
      using run px Suc.prems(3) by (subst unsnake_eq) (auto simp: min_def)
    then have bs: "back_steps trace (Suc d) x y =
      \<lparr>AStart = nat (x0 - 1), AEnd = nat x0, BStart = nat (x0 - k), BEnd = nat (x0 - k)\<rparr>
        # back_steps trace d ?px (?px - (k - 1))"
      using right(1) px kxy by (simp add: Let_def v)
    have IH: "script a b 0 0 (rev (back_steps trace d ?px (?px - (k - 1)))) (nat ?px) (nat (?px - (k - 1))) \<and>
      length (back_steps trace d ?px (?px - (k - 1))) = d \<and>
      (\<forall>s \<in> set (back_steps trace d ?px (?px - (k - 1))). hunk_size s = 1)"
      using Suc.IH[OF right(3) refl refl _ _ tr] run px Suc.prems(3,4,5) by simp
    have e: "?px - (k - 1) = ?px + 1 - k" by simp
    show ?thesis unfolding bs using IH sl ps px Suc.prems(4,5) run Suc.prems(3)
      by (auto simp: script_append hunk_size_def e)
  qed
qed


section \<open>Merging\<close>


lemma script_merge_step:
  assumes "script a b i j (hs @ s # rest) x y"
  shows "script a b i j (merge_step hs s @ rest) x y"
proof (cases "hs \<noteq> [] \<and> AEnd (last hs) = AStart s \<and> BEnd (last hs) = BStart s")
  case True
  then obtain hs' l where hs: "hs = hs' @ [l]" by (cases hs rule: rev_cases) auto
  then have "AEnd l = AStart s" "BEnd l = BStart s" using True by auto
  then show ?thesis using assms by (simp add: hs merge_step_def script_append)
next
  case False
  then show ?thesis using assms by (auto simp: merge_step_def)
qed

lemma script_merge:
  "script a b i j (hs @ ss) x y \<Longrightarrow> script a b i j (foldl merge_step hs ss) x y"
proof (induction ss arbitrary: hs)
  case (Cons s ss)
  then show ?case using script_merge_step[OF Cons.prems] by simp
qed simp

lemma script_hunk_ordered:
  "script a b i j hs x y \<Longrightarrow> h \<in> set hs \<Longrightarrow> AStart h \<le> AEnd h \<and> BStart h \<le> BEnd h"
  by (induction hs arbitrary: i j) auto

lemma cost_merge_step:
  assumes "script a b i j (hs @ s # rest) x y"
  shows "cost (merge_step hs s) = cost hs + hunk_size s"
proof (cases "hs \<noteq> [] \<and> AEnd (last hs) = AStart s \<and> BEnd (last hs) = BStart s")
  case True
  then obtain hs' l where hs: "hs = hs' @ [l]" by (cases hs rule: rev_cases) auto
  then have "AEnd l = AStart s" "BEnd l = BStart s" using True by auto
  moreover have "AStart l \<le> AEnd l" "BStart l \<le> BEnd l" "AStart s \<le> AEnd s" "BStart s \<le> BEnd s"
    using script_hunk_ordered[OF assms] by (auto simp: hs)
  ultimately show ?thesis by (simp add: hs merge_step_def cost_def hunk_size_def)
qed (auto simp: merge_step_def cost_def)

lemma cost_merge:
  "script a b i j (hs @ ss) x y \<Longrightarrow> cost (foldl merge_step hs ss) = cost hs + sum_list (map hunk_size ss)"
proof (induction ss arbitrary: hs)
  case (Cons s ss)
  then show ?case using script_merge_step[OF Cons.prems] cost_merge_step[OF Cons.prems] by simp
qed simp

lemma merge_step_apart:
  assumes "successively (\<lambda>h h'. \<not> touching h h') hs"
  shows "successively (\<lambda>h h'. \<not> touching h h') (merge_step hs s)"
proof (cases "hs \<noteq> [] \<and> AEnd (last hs) = AStart s \<and> BEnd (last hs) = BStart s")
  case True
  then obtain hs' l where hs: "hs = hs' @ [l]" by (cases hs rule: rev_cases) auto
  then show ?thesis using assms True
    by (auto simp: merge_step_def successively_append_iff touching_def)
next
  case False
  then show ?thesis using assms by (auto simp: merge_step_def successively_append_iff touching_def)
qed

lemma merge_apart:
  "successively (\<lambda>h h'. \<not> touching h h') hs \<Longrightarrow>
    successively (\<lambda>h h'. \<not> touching h h') (foldl merge_step hs ss)"
  by (induction ss arbitrary: hs) (auto simp: merge_step_apart)

text \<open>Two hunks of a script that do not touch are separated by unchanged lines on both sides.\<close>

definition separated :: "hunk \<Rightarrow> hunk \<Rightarrow> bool" where
  "separated h h' \<longleftrightarrow> AEnd h < AStart h' \<and> BEnd h < BStart h'"

lemma script_separated:
  "script a b i j hs x y \<Longrightarrow> successively (\<lambda>h h'. \<not> touching h h') hs \<Longrightarrow> successively separated hs"
proof (induction hs arbitrary: i j)
  case (Cons h hs)
  show ?case
  proof (cases hs)
    case (Cons h' hs')
    then have sc: "AEnd h \<le> AStart h'" "BEnd h \<le> BStart h'"
      "slice a (AEnd h) (AStart h') = slice b (BEnd h) (BStart h')"
      and le: "AStart h' \<le> length a" "BStart h' \<le> length b"
      using Cons.prems(1) by (auto dest: order_trans)
    have "length (slice a (AEnd h) (AStart h')) = length (slice b (BEnd h) (BStart h'))"
      using sc by simp
    then have "AStart h' - AEnd h = BStart h' - BEnd h" using le by simp
    moreover have "\<not> touching h h'" using Cons.prems(2) Cons by simp
    ultimately have "separated h h'" using sc by (auto simp: touching_def separated_def)
    moreover have "successively separated hs" using Cons.IH Cons.prems Cons by auto
    ultimately show ?thesis using Cons by simp
  qed simp
qed simp

lemma merge_step_nonempty:
  "\<forall>h \<in> set hs. AStart h < AEnd h \<or> BStart h < BEnd h \<Longrightarrow>
    AStart s \<le> AEnd s \<Longrightarrow> BStart s \<le> BEnd s \<Longrightarrow> AStart s < AEnd s \<or> BStart s < BEnd s \<Longrightarrow>
    \<forall>h \<in> set (merge_step hs s). AStart h < AEnd h \<or> BStart h < BEnd h"
  by (cases hs rule: rev_cases) (auto simp: merge_step_def)

lemma merge_nonempty:
  "\<forall>h \<in> set hs. AStart h < AEnd h \<or> BStart h < BEnd h \<Longrightarrow>
    \<forall>s \<in> set ss. AStart s \<le> AEnd s \<and> BStart s \<le> BEnd s \<and> (AStart s < AEnd s \<or> BStart s < BEnd s) \<Longrightarrow>
    \<forall>h \<in> set (foldl merge_step hs ss). AStart h < AEnd h \<or> BStart h < BEnd h"
proof (induction ss arbitrary: hs)
  case (Cons s ss)
  have "\<forall>h \<in> set (merge_step hs s). AStart h < AEnd h \<or> BStart h < BEnd h"
    using Cons.prems by (intro merge_step_nonempty) auto
  from Cons.IH[OF this] Cons.prems(2) show ?case by simp
qed simp

section \<open>Correctness\<close>

lemma myers_correct:
  "script a b 0 0 (myers a b) (length a) (length b) \<and>
   successively (\<lambda>h h'. \<not> touching h h') (myers a b) \<and>
   (\<forall>h \<in> set (myers a b). AStart h < AEnd h \<or> BStart h < BEnd h) \<and>
   (\<forall>e. reach True a b e (length a) (length b) \<longrightarrow> cost (myers a b) \<le> e)"
proof (cases "length a = 0 \<and> length b = 0")
  case True
  then show ?thesis by (simp add: myers_def cost_def)
next
  case False
  let ?n = "int (length a)" and ?m = "int (length b)"
  obtain D k where fin: "finishes a b D k" and least: "\<And>e j. e < D \<Longrightarrow> \<not> finishes a b e j"
    and res: "myers_depths a b 0 [] (\<lambda>_. 0) = backtrack (map (frontier_at a b) [0..<Suc D]) ?n ?m"
    using myers_depths_spec[of 0 a b "[]" "\<lambda>_. 0"] by auto
  note ff = first_finish[OF fin least]
  define tr where "tr = map (frontier_at a b) [0..<Suc D]"
  let ?ss = "rev (back_steps tr D ?n ?m)"
  have nth: "\<And>e. e \<le> D \<Longrightarrow> tr ! e = frontier_at a b e"
    unfolding tr_def by (subst nth_map) (auto simp del: upt_Suc)
  have row: "on_row (int D) k" using fin by (simp add: finishes_def)
  have bs: "script a b 0 0 ?ss (length a) (length b) \<and> length (back_steps tr D ?n ?m) = D \<and>
     (\<forall>s \<in> set (back_steps tr D ?n ?m). hunk_size s = 1)"
    using back_steps_script[OF row ff(2)[symmetric] _ _ _ nth, of ?m] ff(1) by simp
  have my: "myers a b = foldl merge_step [] ?ss"
    using res unfolding myers_def if_not_P[OF False] backtrack_def tr_def by simp
  have "sum_list (map hunk_size ?ss) = D"
    using sum_list_ones[of ?ss hunk_size] bs by simp
  then have cost: "cost (myers a b) = D"
    using cost_merge[of a b 0 0 "[]" ?ss "length a" "length b"] bs by (simp add: my cost_def)
  have ne: "AStart s \<le> AEnd s \<and> BStart s \<le> BEnd s \<and> (AStart s < AEnd s \<or> BStart s < BEnd s)"
    if "s \<in> set ?ss" for s
    using bs script_hunk_ordered[of a b 0 0 ?ss _ _ s] that by (force simp: hunk_size_def)
  show ?thesis
    using script_merge[of a b 0 0 "[]" ?ss] merge_apart[of "[]" ?ss] merge_nonempty[of "[]" ?ss]
      bs ne ff(4) cost by (simp add: my)
qed


lemma common_head_spec:
  "lo \<le> length a \<Longrightarrow> lo \<le> length b \<Longrightarrow> slice a 0 lo = slice b 0 lo \<Longrightarrow>
    common_head a b lo \<le> length a \<and> common_head a b lo \<le> length b \<and>
    slice a 0 (common_head a b lo) = slice b 0 (common_head a b lo)"
proof (induction a b lo rule: common_head.induct)
  case (1 a b lo)
  show ?case
  proof (cases "lo < length a \<and> lo < length b \<and> a ! lo = b ! lo")
    case True
    then have "slice a 0 (Suc lo) = slice b 0 (Suc lo)"
      using "1.prems" by (simp add: slice_def take_Suc_conv_app_nth)
    then show ?thesis using "1.IH" True by (simp add: common_head.simps[of a b lo])
  next
    case False
    then have "common_head a b lo = lo" by (subst common_head.simps) auto
    then show ?thesis using "1.prems" by simp
  qed
qed

lemma common_tail_spec:
  assumes "common_tail a b lo hiA hiB = (hiA', hiB')" "lo \<le> hiA" "lo \<le> hiB"
    "hiA \<le> length a" "hiB \<le> length b" "slice a hiA (length a) = slice b hiB (length b)"
  shows "lo \<le> hiA' \<and> lo \<le> hiB' \<and> hiA' \<le> hiA \<and> hiB' \<le> hiB \<and> hiA - hiA' = hiB - hiB' \<and>
    slice a hiA' (length a) = slice b hiB' (length b)"
  using assms
proof (induction a b lo hiA hiB rule: common_tail.induct)
  case (1 a b lo hiA hiB)
  show ?case
  proof (cases "hiA > lo \<and> hiB > lo \<and> a ! (hiA - 1) = b ! (hiB - 1)")
    case True
    then have "slice a (hiA - 1) (length a) = slice b (hiB - 1) (length b)"
      using "1.prems" slice_Cons[of "hiA - 1" "length a" a] slice_Cons[of "hiB - 1" "length b" b] by auto
    moreover have "common_tail a b lo (hiA - 1) (hiB - 1) = (hiA', hiB')"
      using True "1.prems"(1) by (simp add: common_tail.simps[of a b lo hiA hiB])
    ultimately have IH: "lo \<le> hiA' \<and> lo \<le> hiB' \<and> hiA' \<le> hiA - 1 \<and> hiB' \<le> hiB - 1 \<and>
      hiA - 1 - hiA' = hiB - 1 - hiB' \<and> slice a hiA' (length a) = slice b hiB' (length b)"
      using "1.IH"[OF True] True "1.prems" by auto
    then show ?thesis using True by (auto; arith)
  next
    case False
    then show ?thesis using "1.prems" by (auto simp: common_tail.simps[of a b lo hiA hiB])
  qed
qed

lemma slice_slice: "x \<le> hi - lo \<Longrightarrow> hi \<le> length a \<Longrightarrow> slice (slice a lo hi) i x = slice a (i + lo) (x + lo)"
  by (simp add: slice_def drop_take min_def add.commute)

lemma script_shift:
  assumes "script (slice a lo hiA) (slice b lo hiB) i j hs x y" "lo \<le> hiA" "lo \<le> hiB"
    "hiA \<le> length a" "hiB \<le> length b"
  shows "script a b (i + lo) (j + lo) (map (shift_hunk lo) hs) (x + lo) (y + lo)"
  using assms
proof (induction hs arbitrary: i j)
  case Nil
  then show ?case by (auto simp: slice_slice)
next
  case (Cons h hs)
  have "AStart h \<le> hiA - lo" "BStart h \<le> hiB - lo" using Cons.prems by auto
  then show ?case using Cons by (auto simp: shift_hunk_def slice_slice)
qed

lemma cost_shift: "cost (map (shift_hunk lo) hs) = cost hs"
  by (induction hs) (simp_all add: cost_def hunk_size_def shift_hunk_def)

lemma successively_shift:
  "successively (\<lambda>h h'. \<not> touching h h') (map (shift_hunk lo) hs) \<longleftrightarrow>
   successively (\<lambda>h h'. \<not> touching h h') hs"
  by (simp add: successively_map touching_def shift_hunk_def)

lemma Hunks_structure:
  obtains lo hiA hiB where "lo \<le> hiA" "lo \<le> hiB" "hiA \<le> length a" "hiB \<le> length b"
    "slice a 0 lo = slice b 0 lo" "slice a hiA (length a) = slice b hiB (length b)"
    "Hunks a b = map (shift_hunk lo) (myers (slice a lo hiA) (slice b lo hiB))"
proof -
  let ?lo = "common_head a b 0"
  obtain hiA hiB where hi: "common_tail a b ?lo (length a) (length b) = (hiA, hiB)"
    by (cases "common_tail a b ?lo (length a) (length b)")
  note head = common_head_spec[of 0 a b]
  have tail: "?lo \<le> hiA \<and> ?lo \<le> hiB \<and> hiA \<le> length a \<and> hiB \<le> length b \<and>
     slice a hiA (length a) = slice b hiB (length b)"
    using common_tail_spec[OF hi] head by simp
  have "Hunks a b = map (shift_hunk ?lo) (myers (slice a ?lo hiA) (slice b ?lo hiB))"
    using tail by (auto simp: Hunks_def hi Let_def myers_def)
  then show ?thesis using head tail by (intro that[of ?lo hiA hiB]) auto
qed

lemma Hunks_script: "script a b 0 0 (Hunks a b) (length a) (length b)"
  and Hunks_apart: "successively (\<lambda>h h'. \<not> touching h h') (Hunks a b)"
  and Hunks_nonempty: "h \<in> set (Hunks a b) \<Longrightarrow> AStart h < AEnd h \<or> BStart h < BEnd h"
proof -
  obtain lo hiA hiB where H: "lo \<le> hiA" "lo \<le> hiB" "hiA \<le> length a" "hiB \<le> length b"
    "slice a 0 lo = slice b 0 lo" "slice a hiA (length a) = slice b hiB (length b)"
    "Hunks a b = map (shift_hunk lo) (myers (slice a lo hiA) (slice b lo hiB))"
    by (rule Hunks_structure)
  let ?m = "myers (slice a lo hiA) (slice b lo hiB)"
  note my = myers_correct[of "slice a lo hiA" "slice b lo hiB"]
  have "script a b (0 + lo) (0 + lo) (map (shift_hunk lo) ?m) (hiA - lo + lo) (hiB - lo + lo)"
    using my H by (intro script_shift) auto
  then have "script a b lo lo (Hunks a b) hiA hiB" using H by simp
  then have "script a b 0 0 (Hunks a b) hiA hiB" using script_prepend[OF _ _ _ H(5)] by blast
  then show "script a b 0 0 (Hunks a b) (length a) (length b)"
    using H by (elim script_extend) auto
  show "successively (\<lambda>h h'. \<not> touching h h') (Hunks a b)"
    using my by (simp add: H(7) successively_shift)
  show "h \<in> set (Hunks a b) \<Longrightarrow> AStart h < AEnd h \<or> BStart h < BEnd h"
    using my by (auto simp: H(7) shift_hunk_def)
qed

section \<open>Minimality\<close>

lemma subseq_snocE:
  assumes "subseq c (xs @ [x])"
  obtains "subseq c xs" | c' where "c = c' @ [x]" "subseq c' xs"
proof -
  obtain c1 c2 where c: "c = c1 @ c2" "subseq c1 xs" "subseq c2 [x]"
    using assms by (auto simp: subseq_append_iff)
  show ?thesis
  proof (cases c2)
    case Nil
    then show ?thesis using c that(1) by simp
  next
    case (Cons z zs)
    then have "c2 = [x]" using c(3) by (auto split: if_splits)
    then show ?thesis using c that(2) by simp
  qed
qed

lemma reach_common:
  "subseq c (take x a) \<Longrightarrow> subseq c (take y b) \<Longrightarrow> x \<le> length a \<Longrightarrow> y \<le> length b \<Longrightarrow>
    reach True a b (x + y - 2 * length c) x y"
proof (induction "x + y" arbitrary: c x y rule: less_induct)
  case less
  have edge: "x = 0 \<or> y = 0 \<Longrightarrow> c = []" using less.prems by auto
  show ?case
  proof (cases "x = 0 \<or> y = 0")
    case True
    then have c: "c = []" by (rule edge)
    show ?thesis
    proof (cases x)
      case x: 0
      show ?thesis
      proof (cases y)
        case (Suc y')
        have "reach True a b (0 + y' - 2 * length ([] :: string list)) 0 y'"
          by (rule less.hyps) (use less.prems Suc x in auto)
        then show ?thesis using reach_insert[of True a b y' 0 y'] less.prems Suc x c by simp
      qed (use x c in \<open>auto intro: reach_origin\<close>)
    next
      case (Suc x')
      have "reach True a b (x' + 0 - 2 * length ([] :: string list)) x' 0"
        by (rule less.hyps) (use less.prems Suc in auto)
      then show ?thesis using reach_delete[of True a b x' x' 0] less.prems Suc True c by simp
    qed
  next
    case False
    then obtain x' y' where xy: "x = Suc x'" "y = Suc y'" by (metis not0_implies_Suc)
    have tk: "take x a = take x' a @ [a ! x']" "take y b = take y' b @ [b ! y']"
      using less.prems xy by (simp_all add: take_Suc_conv_app_nth)
    have len: "length c \<le> x" "length c \<le> y"
      using list_emb_length[OF less.prems(1)] list_emb_length[OF less.prems(2)] by simp_all
    consider (del) "subseq c (take x' a)" | (ins) "subseq c (take y' b)"
      | (same) c' where "c = c' @ [a ! x']" "a ! x' = b ! y'" "subseq c' (take x' a)" "subseq c' (take y' b)"
      using less.prems(1,2) unfolding tk by (elim subseq_snocE) auto
    then show ?thesis
    proof cases
      case del
      have "length c \<le> x'" using list_emb_length[OF del] by simp
      then have "Suc (x' + y - 2 * length c) = x + y - 2 * length c" using len xy by simp
      moreover have "reach True a b (x' + y - 2 * length c) x' y"
        by (rule less.hyps) (use less.prems del xy in auto)
      ultimately show ?thesis using reach_delete[of True a b _ x' y] less.prems(3) xy by fastforce
    next
      case ins
      have "length c \<le> y'" using list_emb_length[OF ins] by simp
      then have "Suc (x + y' - 2 * length c) = x + y - 2 * length c" using len xy by simp
      moreover have "reach True a b (x + y' - 2 * length c) x y'"
        by (rule less.hyps) (use less.prems ins xy in auto)
      ultimately show ?thesis using reach_insert[of True a b _ x y'] less.prems(4) xy by fastforce
    next
      case same
      have "x' + y' - 2 * length c' = x + y - 2 * length c" using same(1) xy by simp
      moreover have "reach True a b (x' + y' - 2 * length c') x' y'"
        by (rule less.hyps) (use less.prems same xy in auto)
      ultimately show ?thesis using reach_same[of True a b _ x' y'] same(2) less.prems xy by simp
    qed
  qed
qed

lemma common_prefix_cut:
  "subseq c (p @ xs) \<Longrightarrow> subseq c (p @ ys) \<Longrightarrow>
    \<exists>c'. subseq c' xs \<and> subseq c' ys \<and> length c \<le> length p + length c'"
proof (induction p arbitrary: c)
  case Nil
  then show ?case by auto
next
  case (Cons x p)
  show ?case
  proof (cases c)
    case (Cons z zs)
    show ?thesis
    proof (cases "z = x")
      case True
      then obtain c' where "subseq c' xs \<and> subseq c' ys \<and> length zs \<le> length p + length c'"
        using Cons.IH[of zs] Cons.prems \<open>c = z # zs\<close> by auto
      then show ?thesis using \<open>c = z # zs\<close> by auto
    next
      case False
      then show ?thesis using Cons.IH[of c] Cons.prems \<open>c = z # zs\<close> by force
    qed
  qed auto
qed

lemma subseq_rev: "subseq xs ys \<Longrightarrow> subseq (rev xs) (rev ys)"
  by (induction rule: list_emb.induct) (auto intro: list_emb_append_mono subseq_rev_drop_many)

lemma common_suffix_cut:
  assumes "subseq c (xs @ s)" "subseq c (ys @ s)"
  shows "\<exists>c'. subseq c' xs \<and> subseq c' ys \<and> length c \<le> length s + length c'"
proof -
  have "subseq (rev c) (rev s @ rev xs)" "subseq (rev c) (rev s @ rev ys)"
    using assms[THEN subseq_rev] by simp_all
  then obtain c' where "subseq c' (rev xs) \<and> subseq c' (rev ys) \<and> length (rev c) \<le> length (rev s) + length c'"
    using common_prefix_cut by blast
  then show ?thesis by (metis length_rev rev_rev_ident subseq_rev)
qed

lemma Hunks_shortest:
  assumes "subseq c a" "subseq c b"
  shows "cost (Hunks a b) + 2 * length c \<le> length a + length b"
proof -
  obtain lo hiA hiB where H: "lo \<le> hiA" "lo \<le> hiB" "hiA \<le> length a" "hiB \<le> length b"
    "slice a 0 lo = slice b 0 lo" "slice a hiA (length a) = slice b hiB (length b)"
    "Hunks a b = map (shift_hunk lo) (myers (slice a lo hiA) (slice b lo hiB))"
    by (rule Hunks_structure)
  let ?a = "slice a lo hiA" and ?b = "slice b lo hiB"
  have ab: "slice a 0 lo @ ?a @ slice a hiA (length a) = a" "slice b 0 lo @ ?b @ slice b hiB (length b) = b"
    using H(1-4) by (simp_all add: slice_append)
  have "subseq c (slice a 0 lo @ ?a @ slice a hiA (length a))" using assms(1) by (simp only: ab)
  moreover have "subseq c (slice a 0 lo @ ?b @ slice a hiA (length a))"
    using assms(2) by (simp only: H(5,6) ab)
  ultimately obtain c1 where c1: "subseq c1 (?a @ slice a hiA (length a))"
    "subseq c1 (?b @ slice a hiA (length a))" "length c \<le> length (slice a 0 lo) + length c1"
    using common_prefix_cut by blast
  then obtain c2 where c2: "subseq c2 ?a" "subseq c2 ?b" "length c1 \<le> length a - hiA + length c2"
    using common_suffix_cut[OF c1(1,2)] unfolding length_slice[OF order_refl] by blast
  have gap: "length a - hiA = length b - hiB" using arg_cong[OF H(6), of length] by simp
  have "reach True ?a ?b (length ?a + length ?b - 2 * length c2) (length ?a) (length ?b)"
    using reach_common[of c2 "length ?a" ?a "length ?b" ?b] c2 by simp
  then have "cost (myers ?a ?b) \<le> length ?a + length ?b - 2 * length c2"
    using myers_correct by blast
  moreover have "length c2 \<le> length ?a" "length c2 \<le> length ?b"
    using list_emb_length[OF c2(1)] list_emb_length[OF c2(2)] by simp_all
  ultimately show ?thesis
    unfolding H(7) cost_shift using c1(3) c2(3) gap H(1-4) by auto
qed


section \<open>Properties\<close>

text \<open>
  C39: \<open>textdiff.Hunks\<close> is correct: replacing each hunk's lines of \<open>a\<close> by its lines of \<open>b\<close>,
  and keeping every line between hunks, gives exactly \<open>b\<close>. (The search always ends through
  \<open>backtrack\<close>: the fallback the code calls unreachable is never returned for its own sake.)
\<close>

theorem Hunks_turns_a_into_b: "patch a b 0 (Hunks a b) = b"
  using patch_script[OF Hunks_script] by simp

text \<open>
  The hunks come in order, never overlap and never touch: between two of them at least one
  unchanged line stands on each side, so runs of single-line edits that meet were merged; and no
  hunk is empty on both sides.
\<close>

theorem Hunks_separated_nonempty:
  "successively separated (Hunks a b) \<and>
   list_all (\<lambda>h. AStart h < AEnd h \<or> BStart h < BEnd h) (Hunks a b)"
  using script_separated[OF Hunks_script Hunks_apart] Hunks_nonempty by (simp add: list_all_iff)

text \<open>
  C40: The edit script is minimal, as the package promises. The lines removed plus the lines added
  are at most what any way of turning \<open>a\<close> into \<open>b\<close> needs: whatever common subsequence of
  lines \<open>c\<close> another edit keeps, its cost \<open>length a + length b - 2 * length c\<close> is no smaller.
\<close>

theorem Hunks_minimal:
  assumes "subseq c a" and "subseq c b"
  shows "cost (Hunks a b) + 2 * length c \<le> length a + length b"
  using assms by (rule Hunks_shortest)

theorem Hunks_minimal_witness:
  "cost (Hunks [''x'', ''k'', ''y''] [''k'', ''z'']) = 3 \<and>
   cost (Hunks [''x'', ''k'', ''y''] [''k'', ''z'']) + 2 * length [''k'']
     \<le> length [''x'', ''k'', ''y''] + length [''k'', ''z'']"
proof
  show "cost (Hunks [''x'', ''k'', ''y''] [''k'', ''z'']) = 3" by code_simp
  show "cost (Hunks [''x'', ''k'', ''y''] [''k'', ''z'']) + 2 * length [''k'']
     \<le> length [''x'', ''k'', ''y''] + length [''k'', ''z'']"
    by (rule Hunks_minimal) simp_all
qed

end
