(* ===== verification/Range_Format.thy ===== *)
theory Range_Format
  imports Client_Edits Text_Diff
begin

text \<open>
  \<open>Format Selection\<close> (server/range_formatting.go): the line edits that bring the selected lines of a
  document into line with its formatted text. The line diff is used through the interface
  \<open>line_differ\<close>, which the model of internal/textdiff provides.
\<close>

section \<open>The code\<close>

record lineEdit =
  aStart :: nat
  aEnd :: nat
  new_lines :: "string list"
  owned :: bool

definition lineSpan :: "nat \<Rightarrow> nat \<Rightarrow> nat \<Rightarrow> nat \<times> nat" where
  "lineSpan startLine endLine endCharacter =
     (if endCharacter = 0 \<and> startLine < endLine then (startLine, endLine - 1)
      else (startLine, endLine))"

definition trimmedLines :: "string list \<Rightarrow> string list" where
  "trimmedLines ls = map TrimSpace ls"

text \<open>The closure \<open>emitGap\<close> of \<open>rangeEdits\<close>: the candidates it adds.\<close>

function emitGap :: "string list \<Rightarrow> string list \<Rightarrow> nat \<Rightarrow> nat \<Rightarrow> nat \<Rightarrow> nat \<Rightarrow> lineEdit list" where
  "emitGap src dst srcPos dstPos srcEnd dstEnd =
     (if srcPos < srcEnd \<and> dstPos < dstEnd then
        (if src ! srcPos \<noteq> dst ! dstPos
         then [\<lparr>aStart = srcPos, aEnd = srcPos + 1, new_lines = [dst ! dstPos], owned = False\<rparr>]
         else []) @
        emitGap src dst (srcPos + 1) (dstPos + 1) srcEnd dstEnd
      else [])"
  by pat_completeness auto
termination
  by (relation "measure (\<lambda>(src, dst, sp, dp, se, de). se - sp)") auto

text \<open>The loop of \<open>rangeEdits\<close> over the hunks, and the final gap.\<close>

fun hunk_edits ::
  "string list \<Rightarrow> string list \<Rightarrow> nat \<Rightarrow> nat \<Rightarrow> hunk list \<Rightarrow> lineEdit list" where
  "hunk_edits src dst srcPos dstPos [] = emitGap src dst srcPos dstPos (length src) (length dst)"
| "hunk_edits src dst srcPos dstPos (h # hs) =
     emitGap src dst srcPos dstPos (AStart h) (BStart h) @
     \<lparr>aStart = AStart h, aEnd = AEnd h, new_lines = slice dst (BStart h) (BEnd h), owned = False\<rparr> #
     hunk_edits src dst (AEnd h) (BEnd h) hs"

definition inRange :: "lineEdit list \<Rightarrow> nat \<Rightarrow> nat \<Rightarrow> nat \<Rightarrow> lineEdit list" where
  "inRange candidates firstLine lastLine nLines =
     filter (\<lambda>c. if aStart c = aEnd c
                 then firstLine \<le> aStart c \<and>
                   (aStart c \<le> lastLine \<or> aStart c = lastLine + 1 \<and> nLines \<le> aStart c)
                 else firstLine \<le> aStart c \<and> aEnd c \<le> lastLine + 1)
       candidates"

definition coalesce_step :: "lineEdit list \<Rightarrow> lineEdit \<Rightarrow> lineEdit list" where
  "coalesce_step merged e =
     (if merged = [] \<or> aEnd (last merged) \<noteq> aStart e then merged @ [e]
      else let prev = last merged
           in butlast merged @
              [prev\<lparr>new_lines := new_lines prev @ new_lines e, owned := True, aEnd := aEnd e\<rparr>])"

definition coalesce :: "lineEdit list \<Rightarrow> lineEdit list" where
  "coalesce edits = foldl coalesce_step [] edits"

definition textEdits :: "lineEdit list \<Rightarrow> Edit list" where
  "textEdits edits = map (\<lambda>e.
     \<lparr>StartLine = aStart e, StartChar = 0, EndLine = aEnd e, EndChar = 0,
      Text = (if new_lines e = [] then [] else join [newline] (new_lines e) @ [newline])\<rparr>) edits"

text \<open>The line edits of \<open>rangeEdits\<close>, over the line diff \<open>differ\<close> it calls.\<close>

definition range_line_edits ::
  "(string list \<Rightarrow> string list \<Rightarrow> hunk list) \<Rightarrow> string \<Rightarrow> string \<Rightarrow> nat \<Rightarrow> nat \<Rightarrow> lineEdit list" where
  "range_line_edits differ content formatted firstLine lastLine =
     (let src = split_lines content; dst = split_lines formatted;
          candidates = hunk_edits src dst 0 0 (differ (trimmedLines src) (trimmedLines dst))
      in coalesce (inRange candidates firstLine lastLine (length src)))"

definition rangeEdits :: "string \<Rightarrow> string \<Rightarrow> nat \<Rightarrow> nat \<Rightarrow> Edit list" where
  "rangeEdits content formatted firstLine lastLine =
     (if formatted = content then []
      else textEdits (range_line_edits Hunks content formatted firstLine lastLine))"

section \<open>Line edits\<close>

text \<open>What a list of line edits in order does to the lines from \<open>i\<close> on.\<close>

fun apply_lines :: "string list \<Rightarrow> nat \<Rightarrow> lineEdit list \<Rightarrow> string list" where
  "apply_lines src i [] = drop i src"
| "apply_lines src i (e # es) = slice src i (aStart e) @ new_lines e @ apply_lines src (aEnd e) es"

fun edits_ok :: "nat \<Rightarrow> lineEdit list \<Rightarrow> nat \<Rightarrow> bool" where
  "edits_ok i [] n \<longleftrightarrow> i \<le> n"
| "edits_ok i (e # es) n \<longleftrightarrow> i \<le> aStart e \<and> aStart e \<le> aEnd e \<and> edits_ok (aEnd e) es n"

lemma edits_ok_bound: "edits_ok i es n \<Longrightarrow> i \<le> n"
  by (induction i es n rule: edits_ok.induct) auto

lemma edits_ok_lower: "edits_ok i es n \<Longrightarrow> j \<le> i \<Longrightarrow> edits_ok j es n"
  by (cases es) auto

lemma edits_ok_filter: "edits_ok i es n \<Longrightarrow> edits_ok i (filter P es) n"
proof (induction es arbitrary: i)
  case (Cons e es)
  then show ?case by (auto intro: edits_ok_lower)
qed simp

lemma edits_ok_mem: "edits_ok i es n \<Longrightarrow> e \<in> set es \<Longrightarrow> i \<le> aStart e \<and> aStart e \<le> aEnd e \<and> aEnd e \<le> n"
  by (induction i es n rule: edits_ok.induct) (auto dest: edits_ok_bound)

lemma apply_lines_skip:
  assumes "i \<le> j" "edits_ok j es (length src)"
  shows "apply_lines src i es = slice src i j @ apply_lines src j es"
proof (cases es)
  case Nil
  then show ?thesis using assms by (simp add: drop_eq_slice slice_append)
next
  case (Cons e es')
  then show ?thesis using assms by (simp add: slice_append flip: append_assoc)
qed

declare emitGap.simps [simp del]

lemma emitGap_apply:
  assumes "se - sp = de - dp" "sp \<le> se" "dp \<le> de" "se \<le> length src" "de \<le> length dst"
    "edits_ok se rest (length src)"
  shows "edits_ok sp (emitGap src dst sp dp se de @ rest) (length src) \<and>
    apply_lines src sp (emitGap src dst sp dp se de @ rest) = slice dst dp de @ apply_lines src se rest"
  using assms
proof (induction src dst sp dp se de rule: emitGap.induct)
  case (1 src dst sp dp se de)
  show ?case
  proof (cases "sp < se \<and> dp < de")
    case False
    then have "sp = se" "dp = de" using 1(2-4) by auto
    then show ?thesis using 1(7) by (simp add: emitGap.simps)
  next
    case True
    note IH = 1(1)[OF True]
    have IH': "edits_ok (Suc sp) (emitGap src dst (Suc sp) (Suc dp) se de @ rest) (length src)"
      "apply_lines src (Suc sp) (emitGap src dst (Suc sp) (Suc dp) se de @ rest) =
        slice dst (Suc dp) de @ apply_lines src se rest"
      using IH 1(2-7) True by auto
    have d: "slice dst dp de = dst ! dp # slice dst (Suc dp) de" using True 1(6) by (simp add: slice_Cons)
    have s: "slice src sp (Suc sp) = [src ! sp]" using True 1(5) by (simp add: slice_Cons)
    show ?thesis
    proof (cases "src ! sp = dst ! dp")
      case same: True
      then show ?thesis using True IH' d s apply_lines_skip[OF _ IH'(1), of sp]
        by (simp add: emitGap.simps[of src dst sp] edits_ok_lower[OF IH'(1)])
    next
      case False
      then show ?thesis using True IH' d by (simp add: emitGap.simps[of src dst sp])
    qed
  qed
qed

lemma slice_lengths:
  assumes "slice a i x = slice b j y" "x \<le> length a" "y \<le> length b"
  shows "x - i = y - j"
  using arg_cong[OF assms(1), of length] assms(2,3) by simp

text \<open>All candidate edits together turn the lines of the document into the formatted ones.\<close>

lemma hunk_edits_apply:
  assumes "script ks kd i j hs (length src) (length dst)" "length ks = length src" "length kd = length dst"
  shows "edits_ok i (hunk_edits src dst i j hs) (length src) \<and>
    apply_lines src i (hunk_edits src dst i j hs) = drop j dst"
  using assms(1)
proof (induction hs arbitrary: i j)
  case Nil
  then have "length src - i = length dst - j" using slice_lengths[of ks i _ kd j] assms(2,3) by simp
  then show ?case using Nil emitGap_apply[of "length src" i "length dst" j src dst "[]"]
    by (simp add: drop_eq_slice)
next
  case (Cons h hs)
  let ?e = "\<lparr>aStart = AStart h, aEnd = AEnd h, new_lines = slice dst (BStart h) (BEnd h), owned = False\<rparr>"
  have IH: "edits_ok (AEnd h) (hunk_edits src dst (AEnd h) (BEnd h) hs) (length src)"
    "apply_lines src (AEnd h) (hunk_edits src dst (AEnd h) (BEnd h) hs) = drop (BEnd h) dst"
    using Cons by auto
  have b: "BStart h \<le> BEnd h" "BEnd h \<le> length dst" "j \<le> BStart h" "i \<le> AStart h" "AStart h \<le> AEnd h"
    "AEnd h \<le> length src"
    using Cons.prems assms(2,3) by simp_all
  have "AStart h - i = BStart h - j" using Cons.prems assms slice_lengths[of ks i "AStart h" kd j "BStart h"]
    by simp
  then show ?case
    using emitGap_apply[of "AStart h" i "BStart h" j src dst "?e # hunk_edits src dst (AEnd h) (BEnd h) hs"]
      IH b by (simp add: drop_eq_slice slice_append flip: append_assoc)
qed


section \<open>Merging and selecting\<close>

lemma coalesce_snoc: "coalesce (es @ [e]) = coalesce_step (coalesce es) e"
  by (simp add: coalesce_def)

lemma apply_lines_merge:
  "aEnd p = aStart e \<Longrightarrow>
    apply_lines src i (m @ p\<lparr>new_lines := new_lines p @ new_lines e, owned := True, aEnd := aEnd e\<rparr> # rest)
    = apply_lines src i (m @ p # e # rest)"
  by (induction m arbitrary: i) simp_all

lemma apply_lines_coalesce_step: "apply_lines src i (coalesce_step m e @ rest) = apply_lines src i (m @ e # rest)"
proof (cases "m = [] \<or> aEnd (last m) \<noteq> aStart e")
  case False
  then obtain m' p where "m = m' @ [p]" by (cases m rule: rev_cases) auto
  then show ?thesis using False apply_lines_merge[of p e src i m' rest]
    by (simp add: coalesce_step_def)
qed (simp add: coalesce_step_def)

lemma apply_lines_coalesce: "apply_lines src i (coalesce es) = apply_lines src i es"
proof -
  have "apply_lines src i (coalesce es @ rest) = apply_lines src i (es @ rest)" for rest
  proof (induction es arbitrary: rest rule: rev_induct)
    case (snoc e es)
    then show ?case using apply_lines_coalesce_step[of src i "coalesce es" e rest]
      by (simp add: coalesce_snoc)
  qed (simp add: coalesce_def)
  from this[of "[]"] show ?thesis by simp
qed

lemma edits_ok_coalesce_step: "edits_ok i (m @ e # rest) n \<Longrightarrow> edits_ok i (coalesce_step m e @ rest) n"
proof (cases "m = [] \<or> aEnd (last m) \<noteq> aStart e")
  case False
  assume ok: "edits_ok i (m @ e # rest) n"
  obtain m' p where m: "m = m' @ [p]" using False by (cases m rule: rev_cases) auto
  have "edits_ok i (m' @ p # e # rest) n \<Longrightarrow> aEnd p = aStart e \<Longrightarrow>
    edits_ok i (m' @ p\<lparr>new_lines := ls, owned := True, aEnd := aEnd e\<rparr> # rest) n" for ls
    by (induction m' arbitrary: i) auto
  then show ?thesis using False ok by (simp add: coalesce_step_def m)
qed (simp add: coalesce_step_def)

lemma edits_ok_coalesce: "edits_ok i es n \<Longrightarrow> edits_ok i (coalesce es) n"
proof -
  assume "edits_ok i es n"
  moreover have "edits_ok i (es @ rest) n \<Longrightarrow> edits_ok i (coalesce es @ rest) n" for rest
  proof (induction es arbitrary: rest rule: rev_induct)
    case (snoc e es)
    then show ?case using edits_ok_coalesce_step[of i "coalesce es" e rest n]
      by (simp add: coalesce_snoc)
  qed (simp add: coalesce_def)
  from this[of "[]"] show ?thesis using calculation by simp
qed

text \<open>No two edits of the answer touch.\<close>

abbreviation apart :: "lineEdit \<Rightarrow> lineEdit \<Rightarrow> bool" where
  "apart e e' \<equiv> aEnd e \<noteq> aStart e'"

lemma coalesce_apart: "successively apart (coalesce es)"
proof (induction es rule: rev_induct)
  case (snoc e es)
  show ?case
  proof (cases "coalesce es = [] \<or> aEnd (last (coalesce es)) \<noteq> aStart e")
    case True
    then show ?thesis using snoc by (auto simp: coalesce_snoc coalesce_step_def successively_append_iff)
  next
    case False
    then obtain m p where "coalesce es = m @ [p]" by (cases "coalesce es" rule: rev_cases) auto
    then show ?thesis using snoc False
      by (auto simp: coalesce_snoc coalesce_step_def successively_append_iff)
  qed
qed (simp add: coalesce_def)

lemma apart_ordered:
  "edits_ok i es n \<Longrightarrow> successively apart es \<Longrightarrow> successively (\<lambda>e e'. aEnd e < aStart e') es"
  by (induction apart es arbitrary: i rule: successively.induct) auto

lemma coalesce_within:
  "\<forall>e \<in> set es. f \<le> aStart e \<and> aEnd e \<le> l \<Longrightarrow> \<forall>e \<in> set (coalesce es). f \<le> aStart e \<and> aEnd e \<le> l"
proof (induction es rule: rev_induct)
  case (snoc e es)
  show ?case
  proof (cases "coalesce es = [] \<or> aEnd (last (coalesce es)) \<noteq> aStart e")
    case True
    then show ?thesis using snoc by (auto simp: coalesce_snoc coalesce_step_def)
  next
    case False
    then obtain m p where "coalesce es = m @ [p]" by (cases "coalesce es" rule: rev_cases) auto
    then show ?thesis using snoc False by (auto simp: coalesce_snoc coalesce_step_def)
  qed
qed (simp add: coalesce_def)

lemma inRange_within:
  "c \<in> set (inRange cs f l n) \<Longrightarrow> f \<le> aStart c \<and> aEnd c \<le> l + 1"
  by (auto simp: inRange_def split: if_splits)

lemma inRange_all:
  assumes "edits_ok 0 cs n" "n \<le> l + 1"
  shows "inRange cs 0 l n = cs"
  using edits_ok_mem[OF assms(1)] assms(2) by (fastforce simp: inRange_def intro!: filter_True)

lemma apply_lines_inside:
  assumes "edits_ok i es (length src)" "i \<le> l" "\<forall>e \<in> set es. aEnd e \<le> l"
  shows "\<exists>x. apply_lines src i es = x @ drop l src"
  using assms
proof (induction es arbitrary: i)
  case Nil
  then have "drop i src = slice src i l @ drop l src"
    unfolding slice_def by (metis append_take_drop_id drop_drop le_add_diff_inverse2)
  then show ?case by auto
next
  case (Cons e es)
  then obtain x where "apply_lines src (aEnd e) es = x @ drop l src" by auto
  then show ?case by simp
qed

text \<open>Edits inside a stretch of lines leave the lines before it and after it as they are.\<close>

lemma apply_lines_outside:
  assumes "edits_ok 0 es (length src)" "f \<le> l" "\<forall>e \<in> set es. f \<le> aStart e \<and> aEnd e \<le> l"
  shows "\<exists>x. apply_lines src 0 es = take f src @ x @ drop l src"
proof (cases es)
  case Nil
  have "src = take f src @ slice src f l @ drop l src"
    using assms(2) unfolding slice_def by (metis append_take_drop_id drop_drop le_add_diff_inverse2)
  then show ?thesis using Nil by (metis apply_lines.simps(1) drop0)
next
  case (Cons e es')
  then have "f \<le> aStart e" using assms(3) by simp
  then have skip: "apply_lines src 0 es = take f src @ apply_lines src f es"
    using apply_lines_skip[of 0 f es src] assms(1) Cons by (simp add: take_eq_slice)
  have "edits_ok f es (length src)" using assms(1) Cons \<open>f \<le> aStart e\<close> by simp
  then obtain x where "apply_lines src f es = x @ drop l src"
    using apply_lines_inside[of f es src l] assms(2,3) by auto
  then show ?thesis using skip by auto
qed


section \<open>The line diff as an interface\<close>

text \<open>What range formatting relies on: the hunks, in order, account for every difference.\<close>

locale line_differ =
  fixes differ :: "string list \<Rightarrow> string list \<Rightarrow> hunk list"
  assumes differ_script: "script a b 0 0 (differ a b) (length a) (length b)"
begin

abbreviation edits_for :: "string \<Rightarrow> string \<Rightarrow> nat \<Rightarrow> nat \<Rightarrow> lineEdit list" where
  "edits_for \<equiv> range_line_edits differ"

lemma candidates:
  fixes content formatted :: string
  defines "src \<equiv> split_lines content" and "dst \<equiv> split_lines formatted"
  defines "cs \<equiv> hunk_edits src dst 0 0 (differ (trimmedLines src) (trimmedLines dst))"
  shows "edits_ok 0 cs (length src)" "apply_lines src 0 cs = dst"
  using hunk_edits_apply[of "trimmedLines src" "trimmedLines dst" 0 0 _ src dst] differ_script
  unfolding cs_def by (simp_all add: trimmedLines_def) (metis length_map)+

lemma edits_ordered:
  "edits_ok 0 (edits_for content formatted f l) (length (split_lines content)) \<and>
   successively (\<lambda>e e'. aEnd e < aStart e') (edits_for content formatted f l)"
proof -
  have ok: "edits_ok 0 (edits_for content formatted f l) (length (split_lines content))"
    unfolding range_line_edits_def Let_def inRange_def
    by (intro edits_ok_coalesce edits_ok_filter candidates)
  moreover have "successively apart (edits_for content formatted f l)"
    unfolding range_line_edits_def Let_def by (rule coalesce_apart)
  ultimately show ?thesis using apart_ordered by blast
qed

lemma edits_within: "e \<in> set (edits_for content formatted f l) \<Longrightarrow> f \<le> aStart e \<and> aEnd e \<le> l + 1"
  unfolding range_line_edits_def Let_def using coalesce_within inRange_within by (metis (no_types, lifting))

lemma edits_outside:
  "f \<le> l \<Longrightarrow> \<exists>x. apply_lines (split_lines content) 0 (edits_for content formatted f l) =
     take f (split_lines content) @ x @ drop (l + 1) (split_lines content)"
  using edits_ordered edits_within by (intro apply_lines_outside) auto

lemma edits_whole:
  "length (split_lines content) \<le> l + 1 \<Longrightarrow>
    apply_lines (split_lines content) 0 (edits_for content formatted 0 l) = split_lines formatted"
  unfolding range_line_edits_def Let_def
  by (simp add: inRange_all[OF candidates(1)] apply_lines_coalesce candidates(2))

end

interpretation hunks: line_differ Hunks
  by unfold_locales (rule Hunks_script)

section \<open>What the editor ends up with\<close>

lemma terminated_text: "(if ls = [] then [] else join [newline] ls @ [newline]) = terminated ls"
  using join_terminated by auto

text \<open>
  Applied by an editor, line edits that leave the last line of the document alone do to its text
  what they do to its lines.
\<close>

lemma textEdits_apply:
  assumes "edits_ok i es (length (split_lines content) - 1)" "i < length (split_lines content)"
  shows "apply_text_edits content (PositionToOffset content i 0) (textEdits es) =
    join [newline] (apply_lines (split_lines content) i es)"
  using assms
proof (induction es arbitrary: i)
  case Nil
  then show ?case by (simp add: textEdits_def drop_at_line)
next
  case (Cons e es)
  let ?l = "split_lines content"
  have b: "i \<le> aStart e" "aStart e \<le> aEnd e" "aEnd e < length ?l"
    using Cons.prems edits_ok_bound[of "aEnd e" es "length ?l - 1"] by auto
  have ne: "apply_lines ?l (aEnd e) es \<noteq> []"
  proof -
    have "edits_ok j fs (length ?l - 1) \<Longrightarrow> j < length ?l \<Longrightarrow> apply_lines ?l j fs \<noteq> []" for j fs
    proof (induction fs arbitrary: j)
      case (Cons f fs)
      then show ?case using edits_ok_bound[of "aEnd f" fs "length ?l - 1"] by simp
    qed simp
    then show ?thesis using Cons.prems b by simp
  qed
  have "apply_text_edits content (PositionToOffset content (aEnd e) 0) (textEdits es) =
    join [newline] (apply_lines ?l (aEnd e) es)"
    using Cons b by simp
  then show ?case using b ne join_append[OF ne, of "slice ?l i (aStart e) @ new_lines e"]
    by (simp add: textEdits_def terminated_text slice_at_lines)
qed

lemma rangeEdits_unchanged: "formatted = content \<Longrightarrow> rangeEdits content formatted f l = []"
  by (simp add: rangeEdits_def)

text \<open>
  C3: Formatting a selection never touches a line outside it: whatever the formatter did to the
  document, applying the answer to the document's lines keeps the lines before the selection and
  the lines after it.\<close>

theorem range_edits_only_selection:
  assumes "firstLine \<le> lastLine"
  shows "\<exists>x. apply_lines (split_lines content) 0 (range_line_edits Hunks content formatted firstLine lastLine) =
     take firstLine (split_lines content) @ x @ drop (lastLine + 1) (split_lines content)"
  using assms by (rule hunks.edits_outside)

theorem range_edits_only_selection_witness:
  "\<exists>x. apply_lines (split_lines (''a'' @ [newline] @ '' b'')) 0
       (range_line_edits Hunks (''a'' @ [newline] @ '' b'') (''A'' @ [newline] @ ''b'') 1 1) =
     take 1 (split_lines (''a'' @ [newline] @ '' b'')) @ x @ drop (1 + 1) (split_lines (''a'' @ [newline] @ '' b''))"
  by (rule range_edits_only_selection) simp

text \<open>
  Formatting a selection that covers the whole document gives, line for line, the formatted
  document.\<close>

theorem range_edits_whole_document:
  assumes "length (split_lines content) \<le> lastLine + 1"
  shows "apply_lines (split_lines content) 0 (range_line_edits Hunks content formatted 0 lastLine) =
    split_lines formatted"
  using assms by (rule hunks.edits_whole)

theorem range_edits_whole_document_witness:
  "apply_lines (split_lines (''a'' @ [newline] @ '' b'')) 0
     (range_line_edits Hunks (''a'' @ [newline] @ '' b'') (''A'' @ [newline] @ ''b'') 0 1) =
   split_lines (''A'' @ [newline] @ ''b'')"
  by (rule range_edits_whole_document) simp

text \<open>
  The text edits of the answer are in document order and strictly apart: no two of them share
  a position, so a client may apply them in any order.\<close>

theorem range_edits_ordered:
  "edits_ok 0 (range_line_edits Hunks content formatted firstLine lastLine) (length (split_lines content)) \<and>
   successively (\<lambda>e e'. EndLine e < StartLine e') (rangeEdits content formatted firstLine lastLine)"
proof
  show "edits_ok 0 (range_line_edits Hunks content formatted firstLine lastLine)
      (length (split_lines content))"
    using hunks.edits_ordered by blast
  have "successively (\<lambda>e e'. aEnd e < aStart e') es \<Longrightarrow> successively (\<lambda>e e'. EndLine e < StartLine e') (textEdits es)"
    for es
    by (simp add: textEdits_def successively_map)
  then show "successively (\<lambda>e e'. EndLine e < StartLine e') (rangeEdits content formatted firstLine lastLine)"
    using hunks.edits_ordered by (simp add: rangeEdits_def)
qed

text \<open>
  C4: An editor that applies the answer gets exactly the selected changes, as text: provided no
  edit reaches the last line of the document (which it does not when document and formatted text
  end in a newline and the formatter leaves no fewer trailing blank lines).\<close>

theorem range_edits_applied:
  assumes "\<forall>e \<in> set (range_line_edits Hunks content formatted firstLine lastLine).
      aEnd e < length (split_lines content)"
  shows "apply_text_edits content 0 (rangeEdits content formatted firstLine lastLine) =
    (if formatted = content then content
     else join [newline] (apply_lines (split_lines content) 0
       (range_line_edits Hunks content formatted firstLine lastLine)))"
proof -
  let ?es = "range_line_edits Hunks content formatted firstLine lastLine"
  have "edits_ok i es n \<Longrightarrow> \<forall>e \<in> set es. aEnd e < n \<Longrightarrow> i < n \<Longrightarrow> edits_ok i es (n - 1)" for i es n
    by (induction es arbitrary: i) auto
  then have "edits_ok 0 ?es (length (split_lines content) - 1)"
    using hunks.edits_ordered assms by (metis length_greater_0_conv split_lines_nonempty)
  then show ?thesis using textEdits_apply[of 0 ?es content]
    by (simp add: rangeEdits_def PositionToOffset_col0)
qed

definition sample_source :: string where
  "sample_source = ''<cfif>'' @ [newline] @ '' a'' @ [newline] @ ''</cfif>'' @ [newline]"

definition sample_formatted :: string where
  "sample_formatted = ''<cfif>'' @ [newline] @ ''  a'' @ [newline] @ ''</cfif>'' @ [newline]"

theorem range_edits_applied_witness:
  "apply_text_edits sample_source 0 (rangeEdits sample_source sample_formatted 0 3) =
    (if sample_formatted = sample_source then sample_source
     else join [newline] (apply_lines (split_lines sample_source) 0
       (range_line_edits Hunks sample_source sample_formatted 0 3)))"
  by (rule range_edits_applied) code_simp

text \<open>
  Where the last line is touched the two differ. A document whose last line has no newline gets one
  too many, and blank lines at the end of a document are not removed: an edit's text always ends in
  a newline, and a range that ends one past the last line ends at the end of the text.
\<close>

lemma range_edits_extra_newline:
  "apply_text_edits (''a'' @ [newline] @ '' b'') 0
     (rangeEdits (''a'' @ [newline] @ '' b'') (''a'' @ [newline] @ ''b'' @ [newline]) 0 1)
   = ''a'' @ [newline] @ ''b'' @ [newline, newline]"
  by code_simp

lemma range_edits_keep_blank_end:
  "apply_text_edits (''a'' @ [newline, newline]) 0
     (rangeEdits (''a'' @ [newline, newline]) (''a'' @ [newline]) 0 2) = ''a'' @ [newline, newline]"
  by code_simp

end
