(* ===== verification/Line_Edits.thy ===== *)
theory Line_Edits
  imports Client_Edits Text_Diff
begin

text \<open>
  Whole-document formatting as line edits (server/lineedits.go): a patience diff over trimmed lines,
  anchored on the lines that occur once on each side, cut down to a longest increasing run of them.
  \<open>patience\<close> recurses between anchors; its model takes a bound on the depth and is \<open>None\<close> when
  that is exceeded, which \<open>lineEdits_total\<close> shows never happens.
\<close>

section \<open>Lines and positions\<close>

definition splitLines :: "string \<Rightarrow> string list" where
  "splitLines s =
     (let ls = split_after s in if last ls = [] then butlast ls else ls)"

definition trimmedKeys :: "string list \<Rightarrow> string list" where
  "trimmedKeys ls = map TrimSpace ls"

text \<open>A position is a line and a character; a file's line count fits the protocol's 32 bits.\<close>

definition linePos :: "string list \<Rightarrow> nat \<Rightarrow> nat \<times> nat" where
  "linePos ls i =
     (if i < length ls then (i, 0)
      else if i = 0 then (0, 0)
      else if HasSuffix (last ls) [newline] then (length ls, 0)
      else (length ls - 1, utf16Len (last ls)))"

section \<open>Anchors\<close>

record line_count =
  na :: nat
  nb :: nat
  ia :: nat
  ib :: nat

definition count_a :: "string list \<Rightarrow> (string \<rightharpoonup> line_count) \<Rightarrow> nat \<Rightarrow> (string \<rightharpoonup> line_count)" where
  "count_a a counts i =
     (let c = (case counts (a ! i) of None \<Rightarrow> \<lparr>na = 0, nb = 0, ia = 0, ib = 0\<rparr> | Some c \<Rightarrow> c)
      in counts(a ! i \<mapsto> c\<lparr>na := na c + 1, ia := i\<rparr>))"

definition count_b :: "string list \<Rightarrow> (string \<rightharpoonup> line_count) \<Rightarrow> nat \<Rightarrow> (string \<rightharpoonup> line_count)" where
  "count_b b counts i =
     (case counts (b ! i) of
        None \<Rightarrow> counts
      | Some c \<Rightarrow> counts(b ! i \<mapsto> c\<lparr>nb := nb c + 1, ib := i\<rparr>))"

definition line_matches :: "string list \<Rightarrow> string list \<Rightarrow> nat \<Rightarrow> nat \<Rightarrow> nat \<Rightarrow> nat \<Rightarrow> (nat \<times> nat) list" where
  "line_matches a b alo ahi blo bhi =
     (let counts = foldl (count_b b) (foldl (count_a a) Map.empty [alo ..< ahi]) [blo ..< bhi]
      in concat (map (\<lambda>i. case counts (a ! i) of
           None \<Rightarrow> []
         | Some c \<Rightarrow> if na c = 1 \<and> nb c = 1 then [(i, ib c)] else []) [alo ..< ahi]))"

text \<open>
  The longest increasing subsequence of the matches by their line in \<open>b\<close>. \<open>tails ! k\<close> is the match
  that ends the best run of length \<open>k + 1\<close>, \<open>prev ! i\<close> the match before \<open>i\<close> on its run.
\<close>

definition lis_step ::
  "(nat \<times> nat) list \<Rightarrow> nat list \<times> nat option list \<Rightarrow> nat \<Rightarrow> nat list \<times> nat option list" where
  "lis_step matches = (\<lambda>(tails, prev) i.
     let m = matches ! i;
         k = sort_search (length tails) (\<lambda>j. snd m < snd (matches ! (tails ! j)));
         prev' = prev[i := if 0 < k then Some (tails ! (k - 1)) else None]
     in (if k = length tails then tails @ [i] else tails[k := i], prev'))"

text \<open>The last loop of \<open>uniqueCommon\<close>, which fills its result from the end.\<close>

fun walk_prev :: "nat option list \<Rightarrow> nat \<Rightarrow> nat \<Rightarrow> nat list" where
  "walk_prev prev k 0 = []"
| "walk_prev prev k (Suc 0) = [k]"
| "walk_prev prev k (Suc (Suc i)) = walk_prev prev (the (prev ! k)) (Suc i) @ [k]"

definition longest_run :: "(nat \<times> nat) list \<Rightarrow> (nat \<times> nat) list" where
  "longest_run matches =
     (let (tails, prev) = foldl (lis_step matches) ([], replicate (length matches) None) [0 ..< length matches]
      in if tails = [] then []
         else map (\<lambda>k. matches ! k) (walk_prev prev (last tails) (length tails)))"

definition uniqueCommon :: "string list \<Rightarrow> string list \<Rightarrow> nat \<Rightarrow> nat \<Rightarrow> nat \<Rightarrow> nat \<Rightarrow> (nat \<times> nat) list" where
  "uniqueCommon a b alo ahi blo bhi = longest_run (line_matches a b alo ahi blo bhi)"

section \<open>The diff\<close>

record lineDiff =
  da :: "string list"
  db :: "string list"
  ka :: "string list"
  kb :: "string list"
  edits :: "Edit list"
  lastEnd :: nat

definition replace :: "lineDiff \<Rightarrow> nat \<Rightarrow> nat \<Rightarrow> nat \<Rightarrow> nat \<Rightarrow> lineDiff" where
  "replace d alo ahi blo bhi =
     (if alo = ahi \<and> blo = bhi then d
      else if edits d \<noteq> [] \<and> lastEnd d = alo then
        let e = last (edits d); p = linePos (da d) ahi
        in d\<lparr>edits := butlast (edits d) @
               [e\<lparr>EndLine := fst p, EndChar := snd p, Text := Text e @ concat (slice (db d) blo bhi)\<rparr>],
             lastEnd := ahi\<rparr>
      else
        let p = linePos (da d) alo; q = linePos (da d) ahi
        in d\<lparr>lastEnd := ahi,
             edits := edits d @
               [\<lparr>StartLine = fst p, StartChar = snd p, EndLine = fst q, EndChar = snd q,
                 Text = concat (slice (db d) blo bhi)\<rparr>]\<rparr>)"

definition same :: "lineDiff \<Rightarrow> nat \<Rightarrow> nat \<Rightarrow> lineDiff" where
  "same d i j = (if da d ! i \<noteq> db d ! j then replace d i (i + 1) j (j + 1) else d)"

function same_head :: "lineDiff \<Rightarrow> nat \<Rightarrow> nat \<Rightarrow> nat \<Rightarrow> nat \<Rightarrow> lineDiff \<times> nat \<times> nat" where
  "same_head d alo ahi blo bhi =
     (if alo < ahi \<and> blo < bhi \<and> ka d ! alo = kb d ! blo
      then same_head (same d alo blo) (alo + 1) ahi (blo + 1) bhi
      else (d, alo, blo))"
  by pat_completeness auto
termination
  by (relation "measure (\<lambda>(d, alo, ahi, blo, bhi). ahi - alo)") auto

function same_tail :: "lineDiff \<Rightarrow> nat \<Rightarrow> nat \<Rightarrow> nat \<Rightarrow> nat \<Rightarrow> nat \<Rightarrow> nat" where
  "same_tail d alo ahi blo bhi n =
     (if alo < ahi - n \<and> blo < bhi - n \<and> ka d ! (ahi - n - 1) = kb d ! (bhi - n - 1)
      then same_tail d alo ahi blo bhi (n + 1)
      else n)"
  by pat_completeness auto
termination
  by (relation "measure (\<lambda>(d, alo, ahi, blo, bhi, n). ahi - n)") auto

text \<open>One anchor of the loop in \<open>patience\<close>, with the recursive call as a parameter.\<close>

definition anchor_step ::
  "(lineDiff \<Rightarrow> nat \<Rightarrow> nat \<Rightarrow> nat \<Rightarrow> nat \<Rightarrow> lineDiff option) \<Rightarrow>
   (lineDiff \<times> nat \<times> nat) option \<Rightarrow> nat \<times> nat \<Rightarrow> (lineDiff \<times> nat \<times> nat) option" where
  "anchor_step pat st m =
     (case st of
        None \<Rightarrow> None
      | Some (d, alo, blo) \<Rightarrow>
          (case pat d alo (fst m) blo (snd m) of
             None \<Rightarrow> None
           | Some d' \<Rightarrow> Some (same d' (fst m) (snd m), fst m + 1, snd m + 1)))"

primrec patience :: "nat \<Rightarrow> lineDiff \<Rightarrow> nat \<Rightarrow> nat \<Rightarrow> nat \<Rightarrow> nat \<Rightarrow> lineDiff option" where
  "patience 0 d alo ahi blo bhi = None"
| "patience (Suc fuel) d alo0 ahi0 blo0 bhi0 =
     (let (d, alo, blo) = same_head d alo0 ahi0 blo0 bhi0;
          n = same_tail d alo ahi0 blo bhi0 0;
          ahi = ahi0 - n; bhi = bhi0 - n;
          anchors = uniqueCommon (ka d) (kb d) alo ahi blo bhi;
          middle =
            (if alo = ahi \<or> blo = bhi \<or> anchors = [] then Some (replace d alo ahi blo bhi)
             else (case foldl (anchor_step (patience fuel)) (Some (d, alo, blo)) anchors of
                     None \<Rightarrow> None
                   | Some (d, alo, blo) \<Rightarrow> patience fuel d alo ahi blo bhi))
      in map_option (\<lambda>d. foldl (\<lambda>d k. same d (ahi + k) (bhi + k)) d [0 ..< n]) middle)"

definition lineEdits :: "string \<Rightarrow> string \<Rightarrow> Edit list option" where
  "lineEdits beforeText afterText =
     (let a = splitLines beforeText; b = splitLines afterText;
          d = \<lparr>da = a, db = b, ka = trimmedKeys a, kb = trimmedKeys b, edits = [], lastEnd = 0\<rparr>
      in map_option edits (patience (length a + 1) d 0 (length a) 0 (length b)))"


declare same_head.simps [simp del] same_tail.simps [simp del]

section \<open>Positions of lines\<close>

lemma skip_lines_split_after:
  "skip_lines s 0 k =
    (if k < length (split_after s) then Some (length (concat (take k (split_after s)))) else None)"
proof (induction k arbitrary: s)
  case (Suc k)
  show ?case
  proof (cases "index_byte s newline")
    case None
    then have "split_after s = [s]" by (subst split_after_index) (simp del: index_byte_None)
    then show ?thesis using None by (simp del: index_byte_None)
  next
    case (Some i)
    then have "i < length s" by (simp add: index_byte_Some)
    moreover have "split_after s = take (Suc i) s # split_after (drop (Suc i) s)"
      using Some by (subst split_after_index) simp
    moreover have "skip_lines s 0 (Suc k) = map_option ((+) (Suc i)) (skip_lines (drop (Suc i) s) 0 k)"
      using Some skip_lines_drop[of s "Suc i" k] by simp
    ultimately show ?thesis using Suc.IH[of "drop (Suc i) s"] by simp
  qed
qed simp

lemma split_after_last: "newline \<notin> set (last (split_after s))"
  by (induction s) (auto split: list.splits)

lemma split_after_newlines: "l \<in> set (butlast (split_after s)) \<Longrightarrow> l \<noteq> [] \<and> last l = newline"
proof (induction "length s" arbitrary: s rule: less_induct)
  case less
  show ?case
  proof (cases "index_byte s newline")
    case None
    then show ?thesis using less.prems split_after_index[of s] by (simp del: index_byte_None)
  next
    case (Some i)
    then have i: "i < length s" "s ! i = newline" by (simp_all add: index_byte_Some)
    then have "last (take (Suc i) s) = newline" "length s - Suc i < length s"
      by (simp_all add: take_Suc_conv_app_nth)
    then show ?thesis
      using less.hyps[of "drop (Suc i) s"] less.prems split_after_index[of s] Some i by auto
  qed
qed

lemma concat_butlast_last: "xs \<noteq> [] \<Longrightarrow> concat (butlast xs) @ last xs = concat xs"
  by (induction xs rule: rev_induct) simp_all

lemma take_butlast_le: "n \<le> length xs - 1 \<Longrightarrow> take n (butlast xs) = take n xs"
  by (cases xs rule: rev_cases) simp_all

lemma concat_splitLines [simp]: "concat (splitLines s) = s"
  using concat_butlast_last[of "split_after s"] by (auto simp: splitLines_def Let_def)

lemma take_splitLines:
  "i \<le> length (splitLines s) \<Longrightarrow> take i (splitLines s) = take i (split_after s)"
  by (auto simp: splitLines_def Let_def take_butlast_le)

lemma seek_to_end: "newline \<notin> set t \<Longrightarrow> fst (seek t (l, c) (l, c + utf16Len t)) = length t"
proof (induction t arbitrary: c rule: rune_induct)
  case (rune t)
  then have hd: "hd t \<noteq> newline" by (cases t) auto
  have "newline \<notin> set (drop (rune_size t) t)" using rune(3) by (meson in_set_dropD)
  then show ?case using rune(2)[of "c + utf16Units (fst (decode_rune t))"] rune_size_le[of t]
    by (simp add: seek_rune[OF rune(1) hd] utf16Len_rune[OF rune(1)] posBefore_def Let_def add.assoc)
qed simp

lemma linePos_offset:
  assumes "i \<le> length (splitLines s)"
  shows "PositionToOffset s (fst (linePos (splitLines s) i)) (snd (linePos (splitLines s) i)) =
    length (concat (take i (splitLines s)))"
proof -
  let ?l = "splitLines s"
  have start: "PositionToOffset s k 0 = length (concat (take k (split_after s)))"
    if "k < length (split_after s)" for k
    using that by (simp add: PositionToOffset_col0 skip_lines_split_after)
  have len: "length ?l \<le> length (split_after s)" "length (split_after s) \<le> length ?l + 1"
    by (auto simp: splitLines_def Let_def)
  show ?thesis
  proof (cases "i < length ?l")
    case True
    then show ?thesis using start[of i] len take_splitLines[of i s] by (simp add: linePos_def)
  next
    case False
    then have i: "i = length ?l" using assms by simp
    show ?thesis
    proof (cases "i = 0")
      case True
      then show ?thesis using start[of 0] by (simp add: linePos_def)
    next
      case ne: False
      then have l: "?l \<noteq> []" using i by auto
      show ?thesis
      proof (cases "last (split_after s) = []")
        case True
        then have b: "?l = butlast (split_after s)" by (simp add: splitLines_def)
        then have "last ?l \<in> set (butlast (split_after s))" using l by (metis last_in_set)
        then have "last ?l \<noteq> [] \<and> last (last ?l) = newline" by (rule split_after_newlines)
        then have "HasSuffix (last ?l) [newline]"
          by (metis append_butlast_last_id append_eq_conv_conj length_append_singleton length_butlast
              Suc_le_mono le0 list.size(3) list.size(4) One_nat_def add_0 diff_Suc_1 length_Cons)
        then show ?thesis using start[of i] i ne b l take_splitLines[of i s]
          by (simp add: linePos_def)
      next
        case False
        then have b: "?l = split_after s" by (simp add: splitLines_def)
        then have nn: "newline \<notin> set (last ?l)" using split_after_last by simp
        have "\<not> HasSuffix (last ?l) [newline]"
        proof
          assume h: "HasSuffix (last ?l) [newline]"
          then have "newline \<in> set (drop (length (last ?l) - length [newline]) (last ?l))" by simp
          then show False using nn by (meson in_set_dropD)
        qed
        then have pos: "linePos ?l i = (length ?l - 1, utf16Len (last ?l))"
          using i ne by (auto simp: linePos_def)
        let ?off = "length (concat (take (length ?l - 1) ?l))"
        have skip: "skip_lines s 0 (length ?l - 1) = Some ?off"
          using l b by (simp add: skip_lines_split_after)
        have cut: "concat (take (length ?l - 1) ?l) @ last ?l = s"
          using l by (metis append_butlast_last_id butlast_conv_take concat.simps concat_append
              concat_splitLines append_Nil2)
        then have d: "drop ?off s = last ?l" by (metis append_eq_conv_conj)
        have "?off \<le> length s" using cut by (metis length_append le_add1)
        then have "PositionToOffset s (length ?l - 1) (utf16Len (last ?l)) = ?off + length (last ?l)"
          using walk_chars_seek[of ?off s 0 "utf16Len (last ?l)" 0] seek_to_end[OF nn, of 0 0] skip d
          by (simp add: PositionToOffset_def)
        then show ?thesis using cut i pos by (metis concat_splitLines fst_conv length_append order_refl
              snd_conv take_all)
      qed
    qed
  qed
qed


section \<open>The longest run\<close>

text \<open>The run of \<open>n + 1\<close> matches that ends in \<open>k\<close>, through \<open>prev\<close>, increases on both sides.\<close>

fun chain_ok :: "(nat \<times> nat) list \<Rightarrow> nat option list \<Rightarrow> nat \<Rightarrow> nat \<Rightarrow> bool" where
  "chain_ok ms prev k 0 \<longleftrightarrow> True"
| "chain_ok ms prev k (Suc n) \<longleftrightarrow>
     (case prev ! k of
        None \<Rightarrow> False
      | Some p \<Rightarrow> p < k \<and> snd (ms ! p) < snd (ms ! k) \<and> chain_ok ms prev p n)"

lemma chain_ok_update:
  "k < i \<Longrightarrow> chain_ok ms (prev[i := x]) k n = chain_ok ms prev k n"
proof (induction n arbitrary: k)
  case (Suc n)
  show ?case
  proof (cases "prev ! k")
    case (Some p)
    then show ?thesis using Suc by (cases "p < k") auto
  qed (use Suc in simp)
qed simp

definition lis_inv :: "(nat \<times> nat) list \<Rightarrow> nat \<Rightarrow> nat list \<times> nat option list \<Rightarrow> bool" where
  "lis_inv ms i = (\<lambda>(tails, prev).
     length prev = length ms \<and>
     (\<forall>j < length tails. tails ! j < i \<and> chain_ok ms prev (tails ! j) j) \<and>
     (\<forall>j j'. j < j' \<and> j' < length tails \<longrightarrow> snd (ms ! (tails ! j)) \<le> snd (ms ! (tails ! j'))))"

lemma lis_step_inv:
  assumes inv: "lis_inv ms i (tails, prev)" and i: "i < length ms" and dist: "distinct (map snd ms)"
  shows "lis_inv ms (Suc i) (lis_step ms (tails, prev) i)"
proof -
  let ?f = "\<lambda>j. snd (ms ! i) < snd (ms ! (tails ! j))"
  define k where "k = sort_search (length tails) ?f"
  define prev' where "prev' = prev[i := if 0 < k then Some (tails ! (k - 1)) else None]"
  have ord: "snd (ms ! (tails ! j)) \<le> snd (ms ! (tails ! j'))" if "j < j'" "j' < length tails" for j j'
    using inv that by (simp add: lis_inv_def)
  have mono: "\<And>x y. x \<le> y \<Longrightarrow> y < length tails \<Longrightarrow> ?f x \<Longrightarrow> ?f y"
    using ord by (metis le_neq_implies_less less_le_trans)
  have least: "k \<le> length tails" "k < length tails \<Longrightarrow> ?f k"
    unfolding k_def by (rule sort_search_least, erule (2) mono)+
  have before_k: "\<not> ?f x" if "x < k" for x
    using sort_search_least(2)[of "length tails" ?f x] mono that unfolding k_def by blast
  have low: "snd (ms ! (tails ! j)) \<le> snd (ms ! i)" if "j < k" for j
    using before_k that by (simp add: not_less)
  have old: "tails ! j < i" "chain_ok ms prev' (tails ! j) j" if "j < length tails" for j
    using inv that unfolding lis_inv_def prev'_def by (auto simp: chain_ok_update)
  have new: "chain_ok ms prev' i k"
  proof (cases k)
    case (Suc n)
    then have n: "n < length tails" using least(1) by simp
    have "snd (ms ! (tails ! n)) \<noteq> snd (ms ! i)"
      using nth_eq_iff_index_eq[OF dist, of "tails ! n" i] old(1)[OF n] i by simp
    then have "snd (ms ! (tails ! n)) < snd (ms ! i)" using low[of n] Suc by simp
    moreover have "prev' ! i = Some (tails ! n)" using inv i Suc by (simp add: prev'_def lis_inv_def)
    ultimately show ?thesis using Suc old[OF n] by simp
  qed simp
  have step: "lis_step ms (tails, prev) i = (if k = length tails then tails @ [i] else tails[k := i], prev')"
    by (simp add: lis_step_def k_def prev'_def Let_def)
  have high: "snd (ms ! i) \<le> snd (ms ! (tails ! j))" if "k < j" "j < length tails" for j
    using least(2) ord[of k j] that by simp
  have len: "length prev' = length ms" using inv by (simp add: prev'_def lis_inv_def)
  show ?thesis
  proof (cases "k = length tails")
    case True
    then show ?thesis using step len old new low ord
      unfolding lis_inv_def by (auto simp: nth_append less_Suc_eq)
  next
    case False
    then have "k < length tails" using least(1) by simp
    then show ?thesis using step len old new low ord high False
      unfolding lis_inv_def by (auto simp: nth_list_update less_Suc_eq)
  qed
qed

lemma lis_inv_final:
  assumes dist: "distinct (map snd ms)"
  shows "n \<le> length ms \<Longrightarrow>
    lis_inv ms n (foldl (lis_step ms) ([], replicate (length ms) None) [0 ..< n])"
proof (induction n)
  case (Suc n)
  moreover obtain tails prev where
    "foldl (lis_step ms) ([], replicate (length ms) None) [0 ..< n] = (tails, prev)"
    by (cases "foldl (lis_step ms) ([], replicate (length ms) None) [0 ..< n]")
  ultimately show ?case using lis_step_inv[OF _ _ dist, of n tails prev] by simp
qed (simp add: lis_inv_def)

lemma walk_prev_chain:
  assumes "chain_ok ms prev k n"
  shows "last (walk_prev prev k (Suc n)) = k \<and> walk_prev prev k (Suc n) \<noteq> [] \<and>
    (\<forall>j \<in> set (walk_prev prev k (Suc n)). j \<le> k) \<and>
    sorted_wrt (\<lambda>x y. x < y \<and> snd (ms ! x) < snd (ms ! y)) (walk_prev prev k (Suc n))"
  using assms
proof (induction n arbitrary: k)
  case (Suc n)
  then obtain p where p: "prev ! k = Some p" "p < k" "snd (ms ! p) < snd (ms ! k)" "chain_ok ms prev p n"
    by (auto split: option.splits)
  let ?w = "walk_prev prev p (Suc n)"
  have IH: "last ?w = p" "?w \<noteq> []" "\<forall>j \<in> set ?w. j \<le> p"
    "sorted_wrt (\<lambda>x y. x < y \<and> snd (ms ! x) < snd (ms ! y)) ?w"
    using Suc.IH[OF p(4)] by simp_all
  have "?w = butlast ?w @ [p]" using IH(1,2) by (metis append_butlast_last_id)
  then have "sorted_wrt (\<lambda>x y. x < y \<and> snd (ms ! x) < snd (ms ! y)) (butlast ?w @ [p])"
    using IH(4) by simp
  then have low: "\<forall>x \<in> set (butlast ?w). x < p \<and> snd (ms ! x) < snd (ms ! p)"
    by (simp add: sorted_wrt_append)
  have "x < k \<and> snd (ms ! x) < snd (ms ! k)" if "x \<in> set ?w" for x
  proof (cases "x = p")
    case False
    then have "x \<in> set (butlast ?w)" using that \<open>?w = butlast ?w @ [p]\<close>
      by (metis Un_iff empty_iff insert_iff list.set set_append)
    then have "x < p" "snd (ms ! x) < snd (ms ! p)" using low by auto
    then show ?thesis using p(2,3) by simp
  qed (use p in simp)
  then have "sorted_wrt (\<lambda>x y. x < y \<and> snd (ms ! x) < snd (ms ! y)) (?w @ [k])"
    "\<forall>j \<in> set (?w @ [k]). j \<le> k"
    using IH(4) by (auto simp: sorted_wrt_append less_imp_le)
  then show ?case using p(1) by simp
qed simp


section \<open>The anchors\<close>

lemma count_a_fold:
  "foldl (count_a a) Map.empty xs s =
    (let occ = filter (\<lambda>i. a ! i = s) xs
     in if occ = [] then None else Some \<lparr>na = length occ, nb = 0, ia = last occ, ib = 0\<rparr>)"
  by (induction xs rule: rev_induct) (auto simp: count_a_def Let_def)

lemma count_b_fold:
  "foldl (count_b b) m xs s =
    (case m s of
       None \<Rightarrow> None
     | Some c \<Rightarrow> (let occ = filter (\<lambda>i. b ! i = s) xs
                 in Some (if occ = [] then c else c\<lparr>nb := nb c + length occ, ib := last occ\<rparr>)))"
  by (induction xs rule: rev_induct) (auto simp: count_b_def Let_def split: option.splits)

text \<open>A match is a line that occurs once in each range.\<close>

lemma line_matches_eq:
  "line_matches a b alo ahi blo bhi =
    map (\<lambda>i. (i, hd (filter (\<lambda>j. b ! j = a ! i) [blo ..< bhi])))
      (filter (\<lambda>i. length (filter (\<lambda>j. a ! j = a ! i) [alo ..< ahi]) = 1 \<and>
                   length (filter (\<lambda>j. b ! j = a ! i) [blo ..< bhi]) = 1) [alo ..< ahi])"
proof -
  let ?counts = "foldl (count_b b) (foldl (count_a a) Map.empty [alo ..< ahi]) [blo ..< bhi]"
  have one: "(case ?counts (a ! i) of None \<Rightarrow> []
      | Some c \<Rightarrow> if na c = 1 \<and> nb c = 1 then [(i, ib c)] else []) =
    (if length (filter (\<lambda>j. a ! j = a ! i) [alo ..< ahi]) = 1 \<and>
        length (filter (\<lambda>j. b ! j = a ! i) [blo ..< bhi]) = 1
     then [(i, hd (filter (\<lambda>j. b ! j = a ! i) [blo ..< bhi]))] else [])"
    if "i \<in> set [alo ..< ahi]" for i
  proof -
    have "filter (\<lambda>j. a ! j = a ! i) [alo ..< ahi] \<noteq> []" using that by (auto simp: filter_empty_conv)
    then show ?thesis
      by (auto simp: count_b_fold count_a_fold Let_def length_Suc_conv)
  qed
  have collect: "concat (map f xs) = map g (filter P xs)" if "\<And>i. i \<in> set xs \<Longrightarrow> f i = (if P i then [g i] else [])"
    for f and g :: "nat \<Rightarrow> nat \<times> nat" and P xs
    using that by (induction xs) auto
  show ?thesis unfolding line_matches_def Let_def by (rule collect, rule one)
qed

lemma line_matches_mem:
  assumes "(i, j) \<in> set (line_matches a b alo ahi blo bhi)"
  shows "alo \<le> i \<and> i < ahi \<and> blo \<le> j \<and> j < bhi \<and> b ! j = a ! i \<and>
    (\<forall>i' \<in> {alo ..< ahi}. a ! i' = a ! i \<longrightarrow> i' = i)"
proof -
  let ?fb = "filter (\<lambda>k. b ! k = a ! i) [blo ..< bhi]" and ?fa = "filter (\<lambda>k. a ! k = a ! i) [alo ..< ahi]"
  have i: "alo \<le> i" "i < ahi" "length ?fa = 1" "length ?fb = 1" "j = hd ?fb"
    using assms by (auto simp: line_matches_eq)
  then obtain x where x: "?fa = [x]" by (auto simp: length_Suc_conv)
  have "?fb = [j]" using i by (auto simp: length_Suc_conv)
  then have "j \<in> set ?fb" by simp
  then have j: "blo \<le> j" "j < bhi" "b ! j = a ! i" by simp_all
  have only: "i' = x" if "i' \<in> {alo ..< ahi}" "a ! i' = a ! i" for i'
  proof -
    have "i' \<in> set ?fa" using that by simp
    then show ?thesis unfolding x by simp
  qed
  have "i = x" using only[of i] i(1,2) by simp
  then have "\<forall>i' \<in> {alo ..< ahi}. a ! i' = a ! i \<longrightarrow> i' = i" using only by blast
  then show ?thesis using i(1,2) j by blast
qed

lemma line_matches_sorted: "sorted_wrt (<) (map fst (line_matches a b alo ahi blo bhi))"
  by (simp add: line_matches_eq comp_def sorted_wrt_filter)

lemma line_matches_distinct: "distinct (map snd (line_matches a b alo ahi blo bhi))"
proof -
  let ?ms = "line_matches a b alo ahi blo bhi"
  have "inj_on snd (set ?ms)"
  proof (rule inj_onI)
    fix x y assume xy: "x \<in> set ?ms" "y \<in> set ?ms" "snd x = snd y"
    obtain i i' j where p: "x = (i, j)" "y = (i', j)" using xy(3) by (cases x, cases y) auto
    have x: "a ! i = b ! j" "i \<in> {alo ..< ahi}" using line_matches_mem[OF xy(1)[unfolded p]] by simp_all
    have y: "a ! i' = b ! j" "\<forall>k \<in> {alo ..< ahi}. a ! k = a ! i' \<longrightarrow> k = i'"
      using line_matches_mem[OF xy(2)[unfolded p]] by simp_all
    show "x = y" using x y unfolding p by metis
  qed
  moreover have "distinct ?ms"
    using line_matches_sorted[of a b alo ahi blo bhi] strict_sorted_iff distinct_map by metis
  ultimately show ?thesis by (simp add: distinct_map)
qed

text \<open>The anchors lie in both ranges, on equal lines, and increase on both sides.\<close>

lemma uniqueCommon_anchors:
  shows "sorted_wrt (\<lambda>m m'. fst m < fst m' \<and> snd m < snd m') (uniqueCommon a b alo ahi blo bhi)"
    and "m \<in> set (uniqueCommon a b alo ahi blo bhi) \<Longrightarrow>
      alo \<le> fst m \<and> fst m < ahi \<and> blo \<le> snd m \<and> snd m < bhi \<and> b ! snd m = a ! fst m"
proof -
  let ?ms = "line_matches a b alo ahi blo bhi"
  obtain tails prev where fold: "foldl (lis_step ?ms) ([], replicate (length ?ms) None) [0 ..< length ?ms] = (tails, prev)"
    by (cases "foldl (lis_step ?ms) ([], replicate (length ?ms) None) [0 ..< length ?ms]")
  have inv: "lis_inv ?ms (length ?ms) (tails, prev)"
    using lis_inv_final[OF line_matches_distinct[of a b alo ahi blo bhi] order_refl] fold by simp
  define w where "w = (if tails = [] then [] else walk_prev prev (last tails) (length tails))"
  have run: "uniqueCommon a b alo ahi blo bhi = map (\<lambda>k. ?ms ! k) w"
    by (simp add: uniqueCommon_def longest_run_def fold w_def)
  have w: "sorted_wrt (\<lambda>x y. x < y \<and> snd (?ms ! x) < snd (?ms ! y)) w \<and> (\<forall>k \<in> set w. k < length ?ms)"
  proof (cases "tails = []")
    case False
    then obtain n where n: "length tails = Suc n" by (cases tails) auto
    then have "last tails = tails ! n" using False by (simp add: last_conv_nth)
    then have "chain_ok ?ms prev (last tails) n" "last tails < length ?ms" using inv n by (simp_all add: lis_inv_def)
    then show ?thesis using walk_prev_chain[of ?ms prev "last tails" n] n False
      by (auto simp: w_def intro: le_less_trans)
  qed (simp add: w_def)
  have "fst (?ms ! x) < fst (?ms ! y)" if "x < y" "y < length ?ms" for x y
    using line_matches_sorted[of a b alo ahi blo bhi] that by (simp add: sorted_wrt_iff_nth_less)
  then show "sorted_wrt (\<lambda>m m'. fst m < fst m' \<and> snd m < snd m') (uniqueCommon a b alo ahi blo bhi)"
    unfolding run sorted_wrt_map using w by (auto elim!: sorted_wrt_mono_rel[rotated])
  assume "m \<in> set (uniqueCommon a b alo ahi blo bhi)"
  then have "m \<in> set ?ms" using w unfolding run by auto
  then show "alo \<le> fst m \<and> fst m < ahi \<and> blo \<le> snd m \<and> snd m < bhi \<and> b ! snd m = a ! fst m"
    using line_matches_mem[of "fst m" "snd m"] by simp
qed


section \<open>The recursion\<close>

text \<open>A stretch of lines as a hunk, and the edit it stands for.\<close>

definition seg_edit :: "string list \<Rightarrow> string list \<Rightarrow> hunk \<Rightarrow> Edit" where
  "seg_edit a b h =
     \<lparr>StartLine = fst (linePos a (AStart h)), StartChar = snd (linePos a (AStart h)),
      EndLine = fst (linePos a (AEnd h)), EndChar = snd (linePos a (AEnd h)),
      Text = concat (slice b (BStart h) (BEnd h))\<rparr>"

text \<open>The edits so far account for the first \<open>i\<close> lines of one side and \<open>j\<close> of the other.\<close>

definition diff_at :: "lineDiff \<Rightarrow> nat \<Rightarrow> nat \<Rightarrow> bool" where
  "diff_at d i j \<longleftrightarrow> (\<exists>segs. edits d = map (seg_edit (da d) (db d)) segs \<and>
     script (da d) (db d) 0 0 segs i j \<and> (segs \<noteq> [] \<longrightarrow> lastEnd d = AEnd (last segs)))"

definition same_lines :: "lineDiff \<Rightarrow> lineDiff \<Rightarrow> bool" where
  "same_lines d d' \<longleftrightarrow> da d' = da d \<and> db d' = db d \<and> ka d' = ka d \<and> kb d' = kb d"

lemma same_lines_refl [simp]: "same_lines d d"
  by (simp add: same_lines_def)

lemma same_lines_trans: "same_lines d e \<Longrightarrow> same_lines e f \<Longrightarrow> same_lines d f"
  by (simp add: same_lines_def)

lemma same_lines_replace [simp]: "same_lines d (replace d alo ahi blo bhi)"
  by (simp add: same_lines_def replace_def Let_def)

lemma same_lines_same [simp]: "same_lines d (same d i j)"
  by (simp add: same_def)

lemma diff_at_bounds: "diff_at d i j \<Longrightarrow> i \<le> length (da d) \<and> j \<le> length (db d)"
  unfolding diff_at_def using script_bounds by blast

lemma replace_at:
  assumes "diff_at d alo blo" "alo \<le> ahi" "ahi \<le> length (da d)" "blo \<le> bhi" "bhi \<le> length (db d)"
  shows "diff_at (replace d alo ahi blo bhi) ahi bhi"
proof -
  obtain segs where segs: "edits d = map (seg_edit (da d) (db d)) segs" "script (da d) (db d) 0 0 segs alo blo"
    "segs \<noteq> [] \<Longrightarrow> lastEnd d = AEnd (last segs)"
    using assms(1) by (auto simp: diff_at_def)
  consider "alo = ahi \<and> blo = bhi" | "\<not> (alo = ahi \<and> blo = bhi)" "edits d \<noteq> []" "lastEnd d = alo"
    | "\<not> (alo = ahi \<and> blo = bhi)" "\<not> (edits d \<noteq> [] \<and> lastEnd d = alo)" by blast
  then show ?thesis
  proof cases
    case 1
    then show ?thesis using assms(1) by (simp add: replace_def)
  next
    case 2
    then obtain hs h where h: "segs = hs @ [h]" using segs(1) by (cases segs rule: rev_cases) auto
    have sc: "script (da d) (db d) 0 0 hs (AStart h) (BStart h)" "AStart h \<le> AEnd h" "BStart h \<le> BEnd h"
      "AEnd h \<le> alo" "BEnd h \<le> blo" "slice (da d) (AEnd h) alo = slice (db d) (BEnd h) blo"
      using segs(2) unfolding h script_append by simp_all
    have a: "AEnd h = alo" using 2 segs(3) h by simp
    then have "length (slice (db d) (BEnd h) blo) = 0" using sc(6) by (metis list.size(3) slice_empty)
    then have b: "BEnd h = blo" using sc(5) assms(4,5) by simp
    let ?h = "h\<lparr>AEnd := ahi, BEnd := bhi\<rparr>"
    have "AStart h \<le> ahi" "BStart h \<le> bhi" using sc a b assms by simp_all
    then have sc': "script (da d) (db d) 0 0 (hs @ [?h]) ahi bhi"
      using sc(1) assms(3,5) unfolding script_append by simp
    have "slice (db d) (BStart h) bhi = slice (db d) (BStart h) (BEnd h) @ slice (db d) blo bhi"
      using sc(3) b assms(4) by (simp add: slice_append)
    then have joined: "concat (slice (db d) (BStart h) bhi) =
        concat (slice (db d) (BStart h) (BEnd h)) @ concat (slice (db d) blo bhi)" by simp
    have "edits d = map (seg_edit (da d) (db d)) hs @ [seg_edit (da d) (db d) h]" using segs(1) h by simp
    then have "edits (replace d alo ahi blo bhi) = map (seg_edit (da d) (db d)) (hs @ [?h])"
      using 2(1,3) joined unfolding replace_def if_not_P[OF 2(1)]
      by (simp add: Let_def seg_edit_def)
    moreover have "lastEnd (replace d alo ahi blo bhi) = ahi" using 2 by (simp add: replace_def Let_def)
    moreover note sc'
    ultimately show ?thesis unfolding diff_at_def
      by (intro exI[of _ "hs @ [?h]"]) (use same_lines_replace in \<open>simp add: same_lines_def\<close>)
  next
    case 3
    let ?h = "\<lparr>AStart = alo, AEnd = ahi, BStart = blo, BEnd = bhi\<rparr>"
    have "script (da d) (db d) 0 0 (segs @ [?h]) ahi bhi"
      using segs(2) assms unfolding script_append by simp
    moreover have "edits (replace d alo ahi blo bhi) = map (seg_edit (da d) (db d)) (segs @ [?h])"
      using 3 segs(1) unfolding replace_def if_not_P[OF 3(1)] if_not_P[OF 3(2)]
      by (simp add: Let_def seg_edit_def)
    moreover have "lastEnd (replace d alo ahi blo bhi) = ahi"
      unfolding replace_def if_not_P[OF 3(1)] if_not_P[OF 3(2)] by (simp add: Let_def)
    ultimately show ?thesis unfolding diff_at_def
      by (intro exI[of _ "segs @ [?h]"]) (use same_lines_replace in \<open>simp add: same_lines_def\<close>)
  qed
qed

lemma same_at:
  assumes "diff_at d i j" "i < length (da d)" "j < length (db d)"
  shows "diff_at (same d i j) (Suc i) (Suc j)"
proof (cases "da d ! i = db d ! j")
  case True
  obtain segs where segs: "edits d = map (seg_edit (da d) (db d)) segs" "script (da d) (db d) 0 0 segs i j"
    "segs \<noteq> [] \<Longrightarrow> lastEnd d = AEnd (last segs)"
    using assms(1) by (auto simp: diff_at_def)
  have "slice (da d) i (Suc i) = slice (db d) j (Suc j)" using True assms(2,3) by (simp add: slice_Cons)
  then have "script (da d) (db d) 0 0 segs (Suc i) (Suc j)"
    using script_extend[OF segs(2)] assms(2,3) by simp
  then show ?thesis using True segs by (auto simp: same_def diff_at_def)
next
  case False
  then show ?thesis using replace_at[OF assms(1), of "Suc i" "Suc j"] assms(2,3) by (simp add: same_def)
qed


text \<open>The promise of every walk: it takes the diff on to \<open>i\<close> and \<open>j\<close> and leaves the lines alone.\<close>

definition reaches :: "lineDiff \<Rightarrow> lineDiff \<Rightarrow> nat \<Rightarrow> nat \<Rightarrow> bool" where
  "reaches d d' i j \<longleftrightarrow> diff_at d' i j \<and> same_lines d d'"

lemma reaches_trans: "reaches d e i j \<Longrightarrow> reaches e f i' j' \<Longrightarrow> reaches d f i' j'"
  unfolding reaches_def using same_lines_trans by blast

lemma reaches_same:
  assumes "reaches d e i j" "i < length (da d)" "j < length (db d)"
  shows "reaches d (same e i j) (Suc i) (Suc j)"
proof -
  have "da e = da d" "db e = db d" using assms(1) by (simp_all add: reaches_def same_lines_def)
  then have "reaches e (same e i j) (Suc i) (Suc j)"
    using assms same_at[of e i j] by (simp add: reaches_def)
  then show ?thesis using assms(1) reaches_trans by blast
qed

lemma same_head_reaches:
  assumes "diff_at d alo blo" "alo \<le> ahi" "ahi \<le> length (da d)" "blo \<le> bhi" "bhi \<le> length (db d)"
    "same_head d alo ahi blo bhi = (d', i, j)"
  shows "reaches d d' i j \<and> alo \<le> i \<and> i \<le> ahi \<and> blo \<le> j \<and> j \<le> bhi"
  using assms
proof (induction d alo ahi blo bhi rule: same_head.induct)
  case (1 d alo ahi blo bhi)
  show ?case
  proof (cases "alo < ahi \<and> blo < bhi \<and> ka d ! alo = kb d ! blo")
    case True
    let ?e = "same d alo blo"
    have e: "reaches d ?e (Suc alo) (Suc blo)"
      using reaches_same[of d d alo blo] 1(2-6) True by (simp add: reaches_def)
    then have l: "da ?e = da d" "db ?e = db d" by (simp_all add: reaches_def same_lines_def)
    have "same_head ?e (alo + 1) ahi (blo + 1) bhi = (d', i, j)"
      using 1(7) True by (simp add: same_head.simps[of d alo])
    then have "reaches ?e d' i j \<and> alo + 1 \<le> i \<and> i \<le> ahi \<and> blo + 1 \<le> j \<and> j \<le> bhi"
      using 1(1)[OF True] e l 1(4,6) True by (simp add: reaches_def)
    then show ?thesis using e reaches_trans by (metis Suc_eq_plus1 Suc_leD)
  next
    case False
    then have "d' = d" "i = alo" "j = blo" using 1(7) by (auto simp: same_head.simps[of d alo])
    then show ?thesis using 1(2-5) by (simp add: reaches_def)
  qed
qed

lemma same_tail_bounds:
  "n \<le> ahi - alo \<Longrightarrow> n \<le> bhi - blo \<Longrightarrow>
    same_tail d alo ahi blo bhi n \<le> ahi - alo \<and> same_tail d alo ahi blo bhi n \<le> bhi - blo"
proof (induction d alo ahi blo bhi n rule: same_tail.induct)
  case (1 d alo ahi blo bhi n)
  show ?case
  proof (cases "alo < ahi - n \<and> blo < bhi - n \<and> ka d ! (ahi - n - 1) = kb d ! (bhi - n - 1)")
    case True
    then have "n + 1 \<le> ahi - alo" "n + 1 \<le> bhi - blo" by linarith+
    then show ?thesis using 1(1)[OF True] unfolding same_tail.simps[of d alo ahi blo bhi n] if_P[OF True] by simp
  next
    case False
    then show ?thesis using 1(2,3) unfolding same_tail.simps[of d alo ahi blo bhi n] if_not_P[OF False] by simp
  qed
qed

lemma same_rest_reaches:
  assumes "reaches d e i j" "i + n \<le> length (da d)" "j + n \<le> length (db d)"
  shows "reaches d (foldl (\<lambda>e k. same e (i + k) (j + k)) e [0 ..< n]) (i + n) (j + n)"
  using assms(2,3)
proof (induction n)
  case (Suc n)
  then show ?case using reaches_same[of d _ "i + n" "j + n"] by simp
qed (use assms in simp)

definition walks :: "nat \<Rightarrow> (lineDiff \<Rightarrow> nat \<Rightarrow> nat \<Rightarrow> nat \<Rightarrow> nat \<Rightarrow> lineDiff option) \<Rightarrow> bool" where
  "walks n pat \<longleftrightarrow> (\<forall>d alo ahi blo bhi. diff_at d alo blo \<longrightarrow> alo \<le> ahi \<longrightarrow> ahi \<le> length (da d) \<longrightarrow>
     blo \<le> bhi \<longrightarrow> bhi \<le> length (db d) \<longrightarrow> ahi - alo < n \<longrightarrow>
     (\<exists>d'. pat d alo ahi blo bhi = Some d' \<and> reaches d d' ahi bhi))"

lemma anchors_reach:
  assumes "walks n pat" "reaches d e i j" "ahi \<le> length (da d)" "bhi \<le> length (db d)"
    "i \<le> ahi" "j \<le> bhi" "ahi - i \<le> n"
    "sorted_wrt (\<lambda>m m'. fst m < fst m' \<and> snd m < snd m') ms"
    "\<forall>m \<in> set ms. i \<le> fst m \<and> fst m < ahi \<and> j \<le> snd m \<and> snd m < bhi"
  shows "\<exists>d' i' j'. foldl (anchor_step pat) (Some (e, i, j)) ms = Some (d', i', j') \<and>
    reaches d d' i' j' \<and> i + (if ms = [] then 0 else 1) \<le> i' \<and> i' \<le> ahi \<and> j' \<le> bhi"
  using assms(2,5-9)
proof (induction ms arbitrary: e i j)
  case Nil
  then show ?case by auto
next
  case (Cons m ms)
  have m: "i \<le> fst m" "fst m < ahi" "j \<le> snd m" "snd m < bhi" using Cons.prems(6) by auto
  have l: "da e = da d" "db e = db d" "diff_at e i j"
    using Cons.prems(1) by (simp_all add: reaches_def same_lines_def)
  have "fst m - i < n" using m Cons.prems(4) by linarith
  then obtain e' where e': "pat e i (fst m) j (snd m) = Some e'" "reaches e e' (fst m) (snd m)"
    using assms(1)[unfolded walks_def, rule_format, of e i j "fst m" "snd m"] assms(3,4) m l by auto
  have r: "reaches d (same e' (fst m) (snd m)) (Suc (fst m)) (Suc (snd m))"
    using reaches_same[of d e' "fst m" "snd m"] reaches_trans[OF Cons.prems(1) e'(2)] m assms(3,4) by simp
  have "\<exists>d' i' j'. foldl (anchor_step pat) (Some (same e' (fst m) (snd m), Suc (fst m), Suc (snd m))) ms =
      Some (d', i', j') \<and> reaches d d' i' j' \<and> Suc (fst m) + (if ms = [] then 0 else 1) \<le> i' \<and> i' \<le> ahi \<and> j' \<le> bhi"
  proof (rule Cons.IH[OF r])
    show "Suc (fst m) \<le> ahi" "Suc (snd m) \<le> bhi" using m by simp_all
    show "ahi - Suc (fst m) \<le> n" using m Cons.prems(4) by linarith
    show "sorted_wrt (\<lambda>m m'. fst m < fst m' \<and> snd m < snd m') ms" using Cons.prems(5) by simp
    show "\<forall>m' \<in> set ms. Suc (fst m) \<le> fst m' \<and> fst m' < ahi \<and> Suc (snd m) \<le> snd m' \<and> snd m' < bhi"
      using Cons.prems(5,6) by auto
  qed
  moreover have "anchor_step pat (Some (e, i, j)) m = Some (same e' (fst m) (snd m), Suc (fst m), Suc (snd m))"
    using e'(1) by (simp add: anchor_step_def)
  ultimately show ?case using m(1) by (auto split: if_splits) 
qed

lemma patience_walks: "walks n (patience n)"
proof (induction n)
  case (Suc n)
  show ?case unfolding walks_def
  proof (intro allI impI)
    fix d alo0 ahi0 blo0 bhi0
    assume h: "diff_at d alo0 blo0" "alo0 \<le> ahi0" "ahi0 \<le> length (da d)" "blo0 \<le> bhi0"
      "bhi0 \<le> length (db d)" "ahi0 - alo0 < Suc n"
    obtain e i j where head: "same_head d alo0 ahi0 blo0 bhi0 = (e, i, j)"
      by (cases "same_head d alo0 ahi0 blo0 bhi0")
    have e: "reaches d e i j" "alo0 \<le> i" "i \<le> ahi0" "blo0 \<le> j" "j \<le> bhi0"
      using same_head_reaches[OF h(1-5) head] by auto
    then have l: "da e = da d" "db e = db d" "diff_at e i j" by (simp_all add: reaches_def same_lines_def)
    define k where "k = same_tail e i ahi0 j bhi0 0"
    have k: "k \<le> ahi0 - i" "k \<le> bhi0 - j" using same_tail_bounds[of 0] by (simp_all add: k_def)
    let ?ahi = "ahi0 - k" and ?bhi = "bhi0 - k"
    let ?ms = "uniqueCommon (ka e) (kb e) i ?ahi j ?bhi"
    have b: "i \<le> ?ahi" "j \<le> ?bhi" "?ahi \<le> length (da d)" "?bhi \<le> length (db d)" "?ahi - i \<le> n"
      using k e h by linarith+
    define middle where "middle = (if i = ?ahi \<or> j = ?bhi \<or> ?ms = [] then Some (replace e i ?ahi j ?bhi)
      else (case foldl (anchor_step (patience n)) (Some (e, i, j)) ?ms of
              None \<Rightarrow> None | Some (d, alo, blo) \<Rightarrow> patience n d alo ?ahi blo ?bhi))"
    have "\<exists>f. middle = Some f \<and> reaches d f ?ahi ?bhi"
    proof (cases "i = ?ahi \<or> j = ?bhi \<or> ?ms = []")
      case True
      have "reaches e (replace e i ?ahi j ?bhi) ?ahi ?bhi"
        using replace_at[OF l(3), of ?ahi ?bhi] b l by (simp add: reaches_def)
      then show ?thesis unfolding middle_def if_P[OF True] using reaches_trans[OF e(1)] by blast
    next
      case False
      have in_range: "\<forall>m \<in> set ?ms. i \<le> fst m \<and> fst m < ?ahi \<and> j \<le> snd m \<and> snd m < ?bhi"
        using uniqueCommon_anchors(2) by blast
      obtain d' i' j' where f: "foldl (anchor_step (patience n)) (Some (e, i, j)) ?ms = Some (d', i', j')"
        "reaches d d' i' j'" "i + 1 \<le> i'" "i' \<le> ?ahi" "j' \<le> ?bhi"
        using anchors_reach[OF Suc.IH e(1) b(3,4,1,2,5) uniqueCommon_anchors(1) in_range] False by auto
      have l': "da d' = da d" "db d' = db d" "diff_at d' i' j'"
        using f(2) by (simp_all add: reaches_def same_lines_def)
      have "?ahi - i' < n" using f(3,4) b(5) by linarith
      then obtain g where "patience n d' i' ?ahi j' ?bhi = Some g" "reaches d' g ?ahi ?bhi"
        using Suc.IH[unfolded walks_def, rule_format, of d' i' j' ?ahi ?bhi] f(4,5) b(3,4) l' by auto
      then show ?thesis unfolding middle_def if_not_P[OF False] f(1) using reaches_trans[OF f(2)] by auto
    qed
    then obtain f where f: "middle = Some f" "reaches d f ?ahi ?bhi" by blast
    have "patience (Suc n) d alo0 ahi0 blo0 bhi0 =
        Some (foldl (\<lambda>d m. same d (?ahi + m) (?bhi + m)) f [0 ..< k])"
      using f(1) unfolding patience.simps head middle_def k_def by (simp add: Let_def)
    moreover have "reaches d (foldl (\<lambda>d m. same d (?ahi + m) (?bhi + m)) f [0 ..< k]) ahi0 bhi0"
      using same_rest_reaches[OF f(2), of k] k h e by simp
    ultimately show "\<exists>d'. patience (Suc n) d alo0 ahi0 blo0 bhi0 = Some d' \<and> reaches d d' ahi0 bhi0"
      by blast
  qed
qed (simp add: walks_def)


section \<open>What the editor ends up with\<close>

lemma seg_edits_apply:
  assumes "script (splitLines s) b i j segs (length (splitLines s)) (length b)"
  shows "apply_text_edits s (length (concat (take i (splitLines s)))) (map (seg_edit (splitLines s) b) segs) =
    concat (drop j b)"
  using assms
proof (induction segs arbitrary: i j)
  case Nil
  let ?l = "splitLines s"
  have "concat (take i ?l) @ concat (drop i ?l) = s" by (metis append_take_drop_id concat_append concat_splitLines)
  then have "drop (length (concat (take i ?l))) s = concat (drop i ?l)" by (metis append_eq_conv_conj)
  moreover have "drop i ?l = drop j b" using Nil by (simp add: drop_eq_slice)
  ultimately show ?case by simp
next
  case (Cons h segs)
  let ?l = "splitLines s"
  let ?o = "\<lambda>k. length (concat (take k ?l))"
  have b: "i \<le> AStart h" "AStart h \<le> AEnd h" "AEnd h \<le> length ?l" "j \<le> BStart h" "BStart h \<le> BEnd h"
    "BEnd h \<le> length b" and gap: "slice ?l i (AStart h) = slice b j (BStart h)"
    and rest: "script ?l b (AEnd h) (BEnd h) segs (length ?l) (length b)"
    using Cons.prems by simp_all
  have off: "PositionToOffset s (fst (linePos ?l k)) (snd (linePos ?l k)) = ?o k" if "k \<le> length ?l" for k
    by (rule linePos_offset[OF that])
  have pre: "concat (take k ?l) = take (?o k) s" for k
    by (metis append_eq_conv_conj append_take_drop_id concat_append concat_splitLines)
  have "concat (take (AStart h) ?l) = concat (take i ?l) @ concat (slice ?l i (AStart h))"
    using b(1) by (metis concat_append slice_append take_eq_slice zero_le)
  then have "slice s (?o i) (?o (AStart h)) = concat (slice b j (BStart h))"
    using gap pre[of "AStart h"] unfolding slice_def
    by (metis append_eq_conv_conj drop_take)
  moreover have "concat (drop j b) = concat (slice b j (BStart h)) @ concat (slice b (BStart h) (BEnd h)) @
      concat (drop (BEnd h) b)"
    using b(4-6) by (metis concat_append drop_eq_slice le_trans slice_append)
  ultimately show ?case using Cons.IH[OF rest] b off by (simp add: seg_edit_def)
qed

lemma lineEdits_segs:
  obtains segs where
    "lineEdits s t = Some (map (seg_edit (splitLines s) (splitLines t)) segs)"
    "script (splitLines s) (splitLines t) 0 0 segs (length (splitLines s)) (length (splitLines t))"
proof -
  let ?a = "splitLines s" and ?b = "splitLines t"
  let ?d = "\<lparr>da = ?a, db = ?b, ka = trimmedKeys ?a, kb = trimmedKeys ?b, edits = [], lastEnd = 0\<rparr>"
  have "diff_at ?d 0 0" unfolding diff_at_def by (intro exI[of _ "[]"]) simp
  then obtain d' where d': "patience (length ?a + 1) ?d 0 (length ?a) 0 (length ?b) = Some d'"
    "reaches ?d d' (length ?a) (length ?b)"
    using patience_walks[of "length ?a + 1", unfolded walks_def, rule_format, of ?d 0 0 "length ?a" "length ?b"]
    by auto
  then show ?thesis using that unfolding reaches_def diff_at_def same_lines_def lineEdits_def Let_def by auto
qed

text \<open>
  C2: The line edits a formatting response carries turn the document into the formatted text: an
  editor that applies them to any \<open>beforeText\<close> ends up with exactly \<open>afterText\<close>, final newline or
  not, whatever lines the diff matched up.\<close>

theorem lineEdits_turns_before_into_after:
  "\<exists>es. lineEdits beforeText afterText = Some es \<and> apply_text_edits beforeText 0 es = afterText"
proof -
  obtain segs where segs: "lineEdits beforeText afterText = Some (map (seg_edit (splitLines beforeText) (splitLines afterText)) segs)"
    "script (splitLines beforeText) (splitLines afterText) 0 0 segs (length (splitLines beforeText)) (length (splitLines afterText))"
    by (rule lineEdits_segs)
  then show ?thesis using seg_edits_apply[OF segs(2)] by simp
qed

text \<open>
  The recursion between anchors always ends: its depth never exceeds the number of lines.\<close>

theorem lineEdits_total: "lineEdits beforeText afterText \<noteq> None"
  using lineEdits_segs[of beforeText afterText] by (metis option.distinct(1))

text \<open>
  The anchors of the diff are lines equal in both ranges that increase strictly on both sides,
  so the recursive calls cover disjoint stretches in order.\<close>

theorem uniqueCommon_increasing:
  "sorted_wrt (\<lambda>m m'. fst m < fst m' \<and> snd m < snd m') (uniqueCommon a b alo ahi blo bhi) \<and>
   list_all (\<lambda>m. alo \<le> fst m \<and> fst m < ahi \<and> blo \<le> snd m \<and> snd m < bhi \<and> b ! snd m = a ! fst m)
     (uniqueCommon a b alo ahi blo bhi)"
  using uniqueCommon_anchors by (simp add: list_all_iff)

end
