(* ===== verification/Ast.thy ===== *)
theory Ast
  imports Go_Strings
begin

text \<open>
  The declarations the parser hands on (internal/parser/ast.go, delegates.go): functions, component
  references and WireBox delegations, with every field of the source, and the copies
  \<open>CompactDefs\<close> and \<open>CompactRefs\<close> (parser/compact.go) take of them for the index. Lines are 32-bit.
\<close>

type_synonym uri = string

record Argument =
  argName :: string
  argType :: string
  argHint :: string
  argComponent :: string
  argRequired :: bool

record ReturnSource =
  rsComponent :: string
  rsMethods :: "string list"

record FunctionDef =
  fnName :: string
  fnURI :: uri
  fnLine :: "32 word"
  fnArguments :: "Argument list"
  fnReturnType :: string
  fnReturnSources :: "ReturnSource list"
  fnReturnComponent :: string
  fnElementComponent :: string
  fnDocReturn :: string
  fnReturnVar :: string
  fnReturnLine :: "32 word"
  fnReturnsStruct :: bool

record ComponentRef =
  refVariable :: string
  refComponent :: string
  refURI :: uri
  refLine :: "32 word"
  refThis :: bool
  refRebinds :: bool
  refBaseGuess :: bool
  refStrictChain :: bool
  refChainBase :: string
  refChainMethod :: string
  refChainRest :: "string list"
  refVisibleFrom :: "32 word"
  refVisibleTo :: "32 word"

definition VisibleAt :: "ComponentRef \<Rightarrow> 32 word \<Rightarrow> bool" where
  "VisibleAt r line \<longleftrightarrow> refVisibleTo r = 0 \<or> refVisibleFrom r \<le> line \<and> line \<le> refVisibleTo r"

record Delegate =
  dgTarget :: string
  dgPrefix :: string
  dgSuffix :: string
  dgIncludes :: "string list"
  dgExcludes :: "string list"
  dgLine :: "32 word"

text \<open>
  The copies. A cloned string is the same string, so what is left of \<open>CompactDefs\<close> is the
  structure, and \<open>CompactRefs\<close> drops the rest of a call chain.
\<close>

definition CompactDef :: "FunctionDef \<Rightarrow> FunctionDef" where
  "CompactDef d = d\<lparr>
     fnReturnSources := map (\<lambda>src. \<lparr>rsComponent = rsComponent src, rsMethods = rsMethods src\<rparr>) (fnReturnSources d),
     fnArguments := map (\<lambda>a. \<lparr>argName = argName a, argType = argType a, argHint = argHint a,
       argComponent = argComponent a, argRequired = argRequired a\<rparr>) (fnArguments d)\<rparr>"

definition CompactDefs :: "FunctionDef list \<Rightarrow> FunctionDef list" where
  "CompactDefs defs = map CompactDef defs"

definition CompactRefs :: "ComponentRef list \<Rightarrow> ComponentRef list" where
  "CompactRefs refs = map (\<lambda>r. r\<lparr>refChainRest := []\<rparr>) refs"

lemma CompactDef_id [simp]: "CompactDef d = d"
proof -
  have "(\<lambda>src. \<lparr>rsComponent = rsComponent src, rsMethods = rsMethods src\<rparr>) = id"
    "(\<lambda>a. \<lparr>argName = argName a, argType = argType a, argHint = argHint a,
       argComponent = argComponent a, argRequired = argRequired a\<rparr>) = id"
    by (rule ext, simp)+
  then show ?thesis unfolding CompactDef_def by (cases d) (simp only: FunctionDef.simps list.map_id)
qed

lemma CompactDefs_id [simp]: "CompactDefs ds = ds"
  by (simp add: CompactDefs_def CompactDef_id[abs_def] map_idI)

section \<open>Delegated methods\<close>

definition listHasFold :: "string list \<Rightarrow> string \<Rightarrow> bool" where
  "listHasFold l s \<longleftrightarrow> list_ex (\<lambda>v. EqualFold v s) l"

definition coreDelegateExclusions :: "string list" where
  "coreDelegateExclusions =
    [''init'', ''$init'', ''ondicomplete'', ''setinjector'', ''setbeanfactory'', ''setcoldbox'']"

definition DelegatedMethod :: "Delegate \<Rightarrow> string \<Rightarrow> string" where
  "DelegatedMethod d name =
     (let p = length (dgPrefix d); q = length (dgSuffix d) in
      if length name \<le> p + q \<or>
         \<not> EqualFold (take p name) (dgPrefix d) \<or>
         \<not> EqualFold (drop (length name - q) name) (dgSuffix d)
      then []
      else let inner = slice name p (length name - q) in
        if ToLower inner \<in> set coreDelegateExclusions \<or> listHasFold (dgExcludes d) inner then []
        else if dgIncludes d \<noteq> [] \<and> \<not> listHasFold (dgIncludes d) inner then []
        else inner)"

text \<open>A delegated name is the method's name between the delegation's prefix and suffix.\<close>

lemma DelegatedMethod_inner:
  assumes "DelegatedMethod d name = m" "m \<noteq> []"
  shows "name = take (length (dgPrefix d)) name @ m @ drop (length name - length (dgSuffix d)) name \<and>
    EqualFold (take (length (dgPrefix d)) name) (dgPrefix d) \<and>
    EqualFold (drop (length name - length (dgSuffix d)) name) (dgSuffix d) \<and>
    \<not> listHasFold (dgExcludes d) m \<and> (dgIncludes d = [] \<or> listHasFold (dgIncludes d) m)"
proof -
  let ?p = "length (dgPrefix d)" and ?q = "length (dgSuffix d)"
  have c: "\<not> length name \<le> ?p + ?q" "EqualFold (take ?p name) (dgPrefix d)"
    "EqualFold (drop (length name - ?q) name) (dgSuffix d)"
    and m: "m = slice name ?p (length name - ?q)"
    and l: "\<not> listHasFold (dgExcludes d) m" "dgIncludes d = [] \<or> listHasFold (dgIncludes d) m"
    using assms unfolding DelegatedMethod_def Let_def by (auto split: if_splits)
  have "?p \<le> length name - ?q" "length name - ?q \<le> length name" using c(1) by simp_all
  then have "name = slice name 0 ?p @ slice name ?p (length name - ?q) @
      slice name (length name - ?q) (length name)"
    using slice_append by (metis slice_full le0 order_trans)
  then have "name = take ?p name @ m @ drop (length name - ?q) name"
    unfolding m take_eq_slice using drop_eq_slice[of "length name - ?q" name] by simp
  then show ?thesis using c l by blast
qed

end
