(* ===== verification/Uris.thy ===== *)
theory Uris
  imports Go_Strings
begin

text \<open>
  Document URIs: the key the index files a document under (\<open>uriKey\<close>, index/index.go) and the distance
  between two documents (\<open>URIDistance\<close>, path/uri.go).
\<close>

section \<open>Percent escapes\<close>

definition hex_value :: "char \<Rightarrow> nat option" where
  "hex_value c =
     (let b = byte c in
      if 48 \<le> b \<and> b \<le> 57 then Some (b - 48)
      else if 65 \<le> b \<and> b \<le> 70 then Some (b - 55)
      else if 97 \<le> b \<and> b \<le> 102 then Some (b - 87)
      else None)"

text \<open>\<open>url.PathUnescape\<close>; \<open>None\<close> for its error.\<close>

fun path_unescape :: "string \<Rightarrow> string option" where
  "path_unescape [] = Some []"
| "path_unescape (c # s) =
     (if c = CHR ''%''
      then (case s of
              h # l # s' \<Rightarrow>
                (case (hex_value h, hex_value l) of
                   (Some x, Some y) \<Rightarrow> map_option ((#) (char_of (16 * x + y))) (path_unescape s')
                 | _ \<Rightarrow> None)
            | _ \<Rightarrow> None)
      else map_option ((#) c) (path_unescape s))"

definition uriKey :: "string \<Rightarrow> string" where
  "uriKey u = ToLower (case path_unescape u of None \<Rightarrow> u | Some d \<Rightarrow> d)"

text \<open>Escapes and case make no difference to a key once they are decoded.\<close>

lemma path_unescape_plain: "CHR ''%'' \<notin> set s \<Longrightarrow> path_unescape s = Some s"
  by (induction s rule: path_unescape.induct) auto

lemma uriKey_plain: "CHR ''%'' \<notin> set s \<Longrightarrow> uriKey s = ToLower s"
  by (simp add: uriKey_def path_unescape_plain)

section \<open>Paths\<close>

text \<open>\<open>path.Base\<close> and \<open>path.Ext\<close>.\<close>

definition path_base :: "string \<Rightarrow> string" where
  "path_base p =
     (if p = [] then ''.''
      else let q = TrimRight p (CHR ''/'');
               r = (case last_index_byte q (CHR ''/'') of None \<Rightarrow> q | Some i \<Rightarrow> drop (i + 1) q)
           in if r = [] then ''/'' else r)"

definition path_ext :: "string \<Rightarrow> string" where
  "path_ext p =
     (let tail = (case last_index_byte p (CHR ''/'') of None \<Rightarrow> p | Some i \<Rightarrow> drop (i + 1) p)
      in case last_index_byte tail (CHR ''.'') of None \<Rightarrow> [] | Some i \<Rightarrow> drop i tail)"

section \<open>Distance\<close>

definition foldByte :: "char \<Rightarrow> char" where
  "foldByte c = (if CHR ''A'' \<le> c \<and> c \<le> CHR ''Z'' then char_of (byte c + (97 - 65) :: nat) else c)"

fun common_folded :: "string \<Rightarrow> string \<Rightarrow> nat" where
  "common_folded (x # a) (y # b) = (if foldByte x = foldByte y then Suc (common_folded a b) else 0)"
| "common_folded a b = 0"

definition URIDistance :: "string \<Rightarrow> string \<Rightarrow> nat" where
  "URIDistance a b =
     (let n = common_folded a b;
          cut = (case last_index_byte (take n a) (CHR ''/'') of None \<Rightarrow> 0 | Some i \<Rightarrow> i + 1)
      in count_list (drop cut a) (CHR ''/'') + count_list (drop cut b) (CHR ''/''))"

lemma common_folded_sym: "common_folded a b = common_folded b a"
  by (induction a b rule: common_folded.induct) auto

lemma common_folded_le: "common_folded a b \<le> length a \<and> common_folded a b \<le> length b"
  by (induction a b rule: common_folded.induct) auto

lemma foldByte_slash [simp]: "foldByte c = CHR ''/'' \<longleftrightarrow> c = CHR ''/''"
proof
  assume "foldByte c = CHR ''/''"
  then show "c = CHR ''/''"
  proof (cases "CHR ''A'' \<le> c \<and> c \<le> CHR ''Z''")
    case True
    then have b: "65 \<le> (byte c :: nat)" "(byte c :: nat) \<le> 90" by (simp_all add: less_eq_char_def)
    have "char_of (byte c + 32 :: nat) = CHR ''/''"
      using \<open>foldByte c = _\<close> True by (simp add: foldByte_def)
    then have "(of_char (char_of (byte c + 32 :: nat)) :: nat) = 47" by simp
    then show ?thesis using b by simp
  qed (simp add: foldByte_def)
qed (simp add: foldByte_def less_eq_char_def)

lemma common_folded_slashes:
  "n \<le> common_folded a b \<Longrightarrow> last_index_byte (take n a) (CHR ''/'') = last_index_byte (take n b) (CHR ''/'')"
proof (induction a b arbitrary: n rule: common_folded.induct)
  case (1 x a y b)
  show ?case
  proof (cases n)
    case (Suc m)
    then have f: "foldByte x = foldByte y" "m \<le> common_folded a b" using 1(2) by (auto split: if_splits)
    then have "x = CHR ''/'' \<longleftrightarrow> y = CHR ''/''" by (metis foldByte_slash)
    then show ?thesis using 1(1)[OF f] Suc by (simp add: last_index_byte_Cons)
  qed simp
qed simp_all

text \<open>Distance is symmetric.\<close>

lemma URIDistance_commute: "URIDistance a b = URIDistance b a"
  using common_folded_slashes[of "common_folded a b" a b]
  by (simp add: URIDistance_def Let_def common_folded_sym[of b a] add.commute)

end
