(* ===== verification/Go_Maps.thy ===== *)
theory Go_Maps
  imports Prelude "HOL-Library.AList" "HOL-Library.Multiset"
begin

text \<open>
  Go maps and slices of pointers.

  A map is an association list with distinct keys; the order of the list stands for the order a
  \<open>range\<close> loop happens to visit the keys in. A slice valued map read at a missing key gives the
  nil slice, \<open>get_list\<close>.

  A pointer is a pair of an allocation number and what it points to. The code that keeps them never
  writes through a pointer it has stored, it stores a new one instead, so the contents can travel
  with the number, and comparing two pairs is comparing two pointers.
\<close>

section \<open>Maps\<close>

type_synonym ('k, 'v) gomap = "('k \<times> 'v) list"

abbreviation get :: "('k, 'v) gomap \<Rightarrow> 'k \<Rightarrow> 'v option" where
  "get m k \<equiv> map_of m k"

abbreviation put :: "'k \<Rightarrow> 'v \<Rightarrow> ('k, 'v) gomap \<Rightarrow> ('k, 'v) gomap" where
  "put k v m \<equiv> AList.update k v m"

abbreviation del :: "'k \<Rightarrow> ('k, 'v) gomap \<Rightarrow> ('k, 'v) gomap" where
  "del k m \<equiv> AList.delete k m"

abbreviation distinct_keys :: "('k, 'v) gomap \<Rightarrow> bool" where
  "distinct_keys m \<equiv> distinct (map fst m)"

definition get_list :: "('k, 'v list) gomap \<Rightarrow> 'k \<Rightarrow> 'v list" where
  "get_list m k = (case get m k of None \<Rightarrow> [] | Some l \<Rightarrow> l)"

lemma get_put [simp]: "get (put k v m) k' = (if k' = k then Some v else get m k')"
  by (simp add: update_conv')

lemma get_del [simp]: "get (del k m) k' = (if k' = k then None else get m k')"
  by (simp add: delete_conv')

lemma get_list_put [simp]: "get_list (put k l m) k' = (if k' = k then l else get_list m k')"
  by (simp add: get_list_def)

lemma get_list_del [simp]: "get_list (del k m) k' = (if k' = k then [] else get_list m k')"
  by (simp add: get_list_def)

lemma get_list_empty [simp]: "get_list [] k = []"
  by (simp add: get_list_def)

lemma distinct_keys_put [simp]: "distinct_keys m \<Longrightarrow> distinct_keys (put k v m)"
  by (rule distinct_update)

lemma distinct_keys_del [simp]: "distinct_keys m \<Longrightarrow> distinct_keys (del k m)"
  by (rule distinct_delete)

lemma get_filter_key: "get (filter (\<lambda>p. P (fst p)) m) k = (if P k then get m k else None)"
  by (induction m) auto

lemma get_list_filter_key: "get_list (filter (\<lambda>p. P (fst p)) m) k = (if P k then get_list m k else [])"
  by (simp add: get_list_def get_filter_key)

text \<open>A bucket that becomes empty is deleted rather than kept.\<close>

definition put_bucket :: "'k \<Rightarrow> 'v list \<Rightarrow> ('k, 'v list) gomap \<Rightarrow> ('k, 'v list) gomap" where
  "put_bucket k l m = (if l = [] then del k m else put k l m)"

lemma get_list_put_bucket [simp]: "get_list (put_bucket k l m) k' = (if k' = k then l else get_list m k')"
  by (simp add: put_bucket_def)

lemma distinct_keys_put_bucket [simp]: "distinct_keys m \<Longrightarrow> distinct_keys (put_bucket k l m)"
  by (simp add: put_bucket_def)

text \<open>A \<open>range\<close> loop that filters every bucket and deletes the ones left empty.\<close>

definition filter_buckets :: "('v \<Rightarrow> bool) \<Rightarrow> ('k, 'v list) gomap \<Rightarrow> ('k, 'v list) gomap" where
  "filter_buckets P m = filter (\<lambda>(k, l). l \<noteq> []) (map (\<lambda>(k, l). (k, filter P l)) m)"

lemma get_filter_buckets:
  "distinct_keys m \<Longrightarrow> get (filter_buckets P m) k =
    (case get m k of None \<Rightarrow> None | Some l \<Rightarrow> if filter P l = [] then None else Some (filter P l))"
proof (induction m)
  case (Cons p m)
  obtain k' l where p: "p = (k', l)" by (cases p)
  have step: "filter_buckets P (p # m) =
      (if filter P l = [] then filter_buckets P m else (k', filter P l) # filter_buckets P m)"
    by (simp add: filter_buckets_def p)
  have "get m k' = None" using Cons.prems by (simp add: p map_of_eq_None_iff)
  then show ?case using Cons unfolding step by (cases "k = k'") (simp_all add: p)
qed (simp add: filter_buckets_def)

lemma get_list_filter_buckets [simp]:
  "distinct_keys m \<Longrightarrow> get_list (filter_buckets P m) k = filter P (get_list m k)"
  by (cases "get m k") (simp_all add: get_list_def get_filter_buckets)

lemma distinct_keys_filter_buckets [simp]:
  fixes m :: "('k, 'v list) gomap"
  assumes "distinct_keys m"
  shows "distinct_keys (filter_buckets P m)"
proof -
  have "map fst (map (\<lambda>(k, l). (k, filter P l)) m) = map fst m" by (induction m) auto
  then have "distinct_keys (map (\<lambda>(k, l). (k, filter P l)) m)"
    using assms by (simp only:)
  then have "distinct (map fst (filter Q (map (\<lambda>(k, l). (k, filter P l)) m)))" for Q
    by (rule distinct_map_filter)
  then show ?thesis by (simp add: filter_buckets_def)
qed

section \<open>Slices of pointers\<close>

type_synonym 'a ptr = "nat \<times> 'a"

text \<open>\<open>slices.Index\<close>.\<close>

fun slice_index :: "'a list \<Rightarrow> 'a \<Rightarrow> nat option" where
  "slice_index [] x = None"
| "slice_index (y # ys) x = (if y = x then Some 0 else map_option Suc (slice_index ys x))"

lemma slice_index_None [simp]: "slice_index xs x = None \<longleftrightarrow> x \<notin> set xs"
  by (induction xs) auto

lemma slice_index_Some: "slice_index xs x = Some i \<Longrightarrow> i < length xs \<and> xs ! i = x"
  by (induction xs arbitrary: i) (auto split: if_splits)

text \<open>Removal of the entry at \<open>i\<close> by swapping the last one into its place.\<close>

definition swap_remove :: "'a list \<Rightarrow> nat \<Rightarrow> 'a list" where
  "swap_remove xs i = butlast (xs[i := last xs])"

lemma mset_swap_remove: "i < length xs \<Longrightarrow> mset (swap_remove xs i) = mset xs - {#xs ! i#}"
proof (cases xs rule: rev_cases)
  case (snoc ys y)
  assume i: "i < length xs"
  show ?thesis
  proof (cases "i = length ys")
    case True
    then show ?thesis by (simp add: snoc swap_remove_def list_update_append)
  next
    case False
    then have "i < length ys" using i snoc by simp
    then show ?thesis
      by (simp add: snoc swap_remove_def list_update_append mset_update nth_append)
  qed
qed simp

definition drop_entry :: "'a list \<Rightarrow> 'a \<Rightarrow> 'a list" where
  "drop_entry entries g = (case slice_index entries g of None \<Rightarrow> entries | Some i \<Rightarrow> swap_remove entries i)"

lemma mset_drop_entry: "mset (drop_entry xs g) = mset xs - {#g#}"
  by (cases "slice_index xs g")
    (auto simp: drop_entry_def mset_swap_remove dest!: slice_index_Some simp del: slice_index_None,
     simp add: diff_single_trivial)

lemma mset_drop_entries: "mset (foldl drop_entry xs gs) = mset xs - mset gs"
  by (induction gs arbitrary: xs) (simp_all add: mset_drop_entry)

lemma distinct_minus:
  assumes "distinct xs" "mset ys = mset xs - {#g#}"
  shows "distinct ys \<and> set ys = set xs - {g}"
proof -
  have c: "count (mset ys) a = (if a \<in> set xs \<and> a \<noteq> g then 1 else 0)" for a
    using assms by (simp add: distinct_count_atmost_1)
  then have "a \<in> set ys \<longleftrightarrow> a \<in> set xs \<and> a \<noteq> g" for a
    using c[of a] by (metis count_mset_0_iff zero_neq_one)
  then show ?thesis using c by (auto simp: distinct_count_atmost_1)
qed

lemma set_drop_entries:
  "distinct xs \<Longrightarrow> set (foldl drop_entry xs gs) = set xs - set gs \<and> distinct (foldl drop_entry xs gs)"
proof (induction gs arbitrary: xs)
  case (Cons g gs)
  then show ?case using distinct_minus[OF Cons.prems mset_drop_entry, of g] by auto
qed simp

end
