(* ===== verification/Index.thy ===== *)
theory Index
  imports Ast Uris Go_Maps Conv
begin

text \<open>
  The function index (internal/index/index.go): definitions and component references of a
  workspace, each filed twice, in a bucket under its lowercased name and in the list of its file.
  Both views hold the same pointers. Every operation that takes the write lock is one function on
  the state; \<open>next_ptr\<close> numbers the allocations and \<open>writes\<close> counts the write locks.
\<close>

section \<open>State\<close>

record fileIncludes =
  incURI :: uri
  incPaths :: "string list"

type_synonym def_ptr = "FunctionDef ptr"
type_synonym ref_ptr = "ComponentRef ptr"

record index =
  funcs :: "(string, def_ptr list) gomap"
  fileFuncs :: "(string, def_ptr list) gomap"
  comprefs :: "(string, ref_ptr list) gomap"
  fileRefs :: "(string, ref_ptr list) gomap"
  thisVars :: "(string, string list) gomap"
  scopeRefs :: "(string, (string, ref_ptr list) gomap) gomap"
  extendsMap :: "(string, string) gomap"
  delegates :: "(string, Delegate list) gomap"
  fileURIs :: "(string, uri) gomap"
  beans :: "(string, string) gomap"
  entities :: "(string, uri) gomap"
  defaultEntities :: "(string, uri list) gomap"
  includeMap :: "(string, fileIncludes) gomap"
  includeGen :: nat
  writes :: nat
  next_ptr :: nat

definition New :: index where
  "New = \<lparr>funcs = [], fileFuncs = [], comprefs = [], fileRefs = [], thisVars = [], scopeRefs = [],
     extendsMap = [], delegates = [], fileURIs = [], beans = [], entities = [], defaultEntities = [],
     includeMap = [], includeGen = 0, writes = 0, next_ptr = 0\<rparr>"

abbreviation locked :: "index \<Rightarrow> index" where
  "locked s \<equiv> s\<lparr>writes := Suc (writes s)\<rparr>"

definition Generation :: "index \<Rightarrow> nat" where
  "Generation s = writes s"

abbreviation def_key :: "def_ptr \<Rightarrow> string" where
  "def_key p \<equiv> ToLower (fnName (snd p))"

abbreviation ref_key :: "ref_ptr \<Rightarrow> string" where
  "ref_key p \<equiv> ToLower (refVariable (snd p))"

section \<open>Entries in both views\<close>

text \<open>\<open>groupFuncsByName\<close> and \<open>groupRefsByVariable\<close>: one file's entries by bucket.\<close>

definition group_by :: "('e \<Rightarrow> string) \<Rightarrow> 'e list \<Rightarrow> (string, 'e list) gomap" where
  "group_by key es = foldl (\<lambda>m e. put (key e) (get_list m (key e) @ [e]) m) [] es"

definition dropEntries :: "'e list \<Rightarrow> 'e list \<Rightarrow> 'e list" where
  "dropEntries entries grp = foldl drop_entry entries grp"

text \<open>The two sweeps of \<open>removeFileEntries\<close>: every bucket one of the file's entries is in.\<close>

definition drop_groups ::
  "(string, 'e list) gomap \<Rightarrow> (string, 'e list) gomap \<Rightarrow> (string, 'e list) gomap" where
  "drop_groups buckets groups =
     foldl (\<lambda>b (name, grp). put_bucket name (dropEntries (get_list b name) grp) b) buckets groups"

text \<open>Filing new entries: into their buckets one by one.\<close>

definition file_entries ::
  "('e \<Rightarrow> string) \<Rightarrow> (string, 'e list) gomap \<Rightarrow> 'e list \<Rightarrow> (string, 'e list) gomap" where
  "file_entries key buckets es = foldl (\<lambda>b e. put (key e) (get_list b (key e) @ [e]) b) buckets es"

definition alloc :: "nat \<Rightarrow> 'a list \<Rightarrow> 'a ptr list" where
  "alloc n xs = zip [n ..< n + length xs] xs"

definition removeFileEntries :: "uri \<Rightarrow> index \<Rightarrow> index" where
  "removeFileEntries fileURI s =
     (let key = uriKey fileURI in
      s\<lparr>thisVars := del key (thisVars s),
        scopeRefs := del key (scopeRefs s),
        extendsMap := del key (extendsMap s),
        delegates := del key (delegates s),
        funcs := drop_groups (funcs s) (group_by def_key (get_list (fileFuncs s) key)),
        fileFuncs := del key (fileFuncs s),
        fileURIs := del key (fileURIs s),
        comprefs := drop_groups (comprefs s) (group_by ref_key (get_list (fileRefs s) key)),
        fileRefs := del key (fileRefs s)\<rparr>)"

text \<open>The part \<open>IndexFileFromResult\<close> and \<open>indexParseResult\<close> share: new pointers for every entry.\<close>

definition file_all :: "uri \<Rightarrow> FunctionDef list \<Rightarrow> ComponentRef list \<Rightarrow> index \<Rightarrow> index" where
  "file_all fileURI fs rs s =
     (let fk = uriKey fileURI;
          ds = alloc (next_ptr s) fs;
          ps = alloc (next_ptr s + length fs) rs
      in s\<lparr>funcs := file_entries def_key (funcs s) ds,
           fileFuncs := put fk ds (fileFuncs s),
           fileURIs := put fk fileURI (fileURIs s),
           comprefs := file_entries ref_key (comprefs s) ps,
           fileRefs := put fk ps (fileRefs s),
           next_ptr := next_ptr s + length fs + length rs\<rparr>)"

definition IndexFileFromResult :: "uri \<Rightarrow> FunctionDef list \<Rightarrow> ComponentRef list \<Rightarrow> index \<Rightarrow> index" where
  "IndexFileFromResult fileURI fs rs s =
     file_all fileURI (CompactDefs fs) (CompactRefs rs) (removeFileEntries fileURI (locked s))"

section \<open>Includes\<close>

definition setIncludesLocked :: "uri \<Rightarrow> string list \<Rightarrow> index \<Rightarrow> index" where
  "setIncludesLocked fileURI paths s =
     (let key = uriKey fileURI; prev = get (includeMap s) key in
      if paths = [] then
        (if prev \<noteq> None
         then s\<lparr>includeMap := del key (includeMap s), includeGen := includeGen s + 1\<rparr>
         else s)
      else if (case prev of Some p \<Rightarrow> incPaths p = paths | None \<Rightarrow> False) then s
      else s\<lparr>includeMap := put key \<lparr>incURI = fileURI, incPaths = paths\<rparr> (includeMap s),
             includeGen := includeGen s + 1\<rparr>)"

definition SetIncludes :: "uri \<Rightarrow> string list \<Rightarrow> index \<Rightarrow> index" where
  "SetIncludes fileURI paths s = setIncludesLocked fileURI paths (locked s)"

definition IncludeGeneration :: "index \<Rightarrow> nat" where
  "IncludeGeneration s = includeGen s"

definition IncludesForFile :: "index \<Rightarrow> uri \<Rightarrow> string list" where
  "IncludesForFile s fileURI =
     (case get (includeMap s) (uriKey fileURI) of None \<Rightarrow> [] | Some p \<Rightarrow> incPaths p)"

definition ForEachInclude :: "index \<Rightarrow> (uri \<Rightarrow> string list \<Rightarrow> 'a \<Rightarrow> 'a) \<Rightarrow> 'a \<Rightarrow> 'a \<times> nat" where
  "ForEachInclude s fn a =
     (foldl (\<lambda>a p. fn (incURI (snd p)) (incPaths (snd p)) a) a (includeMap s), includeGen s)"

section \<open>Indexing a parse\<close>

text \<open>What \<open>indexParseResult\<close> reads of a parse: \<open>parser.ParseResult\<close> and the file's includes.\<close>

record parse_info =
  prFuncs :: "FunctionDef list"
  prRefs :: "ComponentRef list"
  prThisVars :: "string list"
  prExtends :: string
  prDelegates :: "Delegate list"
  prEntityName :: string
  prPersistent :: bool
  prIncludes :: "string list"

definition default_entity_name :: "uri \<Rightarrow> string" where
  "default_entity_name fileURI = ToLower (TrimSuffix (path_base fileURI) (path_ext fileURI))"

definition register_entity :: "uri \<Rightarrow> parse_info \<Rightarrow> index \<Rightarrow> index" where
  "register_entity fileURI pr s =
     (if prEntityName pr \<noteq> [] \<and> prPersistent pr
      then s\<lparr>entities := put (ToLower (prEntityName pr)) fileURI (entities s)\<rparr>
      else if prPersistent pr then
        let name = default_entity_name fileURI
        in s\<lparr>defaultEntities := put name (get_list (defaultEntities s) name @ [fileURI]) (defaultEntities s)\<rparr>
      else s)"

definition indexParseResult :: "uri \<Rightarrow> parse_info \<Rightarrow> index \<Rightarrow> index" where
  "indexParseResult fileURI pr s =
     (let fs = CompactDefs (prFuncs pr); rs = CompactRefs (prRefs pr);
          fk = uriKey fileURI;
          s1 = removeFileEntries fileURI (locked s);
          s2 = s1\<lparr>thisVars := put fk (prThisVars pr) (thisVars s1),
                  extendsMap := put fk (prExtends pr) (extendsMap s1),
                  delegates := put fk (prDelegates pr) (delegates s1)\<rparr>
      in file_all fileURI fs rs (setIncludesLocked fileURI (prIncludes pr) (register_entity fileURI pr s2)))"

section \<open>Removal\<close>

definition RemoveFile :: "uri \<Rightarrow> index \<Rightarrow> index" where
  "RemoveFile fileURI s =
     (let s1 = setIncludesLocked fileURI [] (removeFileEntries fileURI (locked s));
          key = uriKey fileURI;
          s2 = s1\<lparr>entities := filter (\<lambda>p. uriKey (snd p) \<noteq> key) (entities s1)\<rparr>;
          name = default_entity_name fileURI;
          l = get_list (defaultEntities s2) name
      in if l = [] then s2
         else s2\<lparr>defaultEntities := put name (filter (\<lambda>u. uriKey u \<noteq> key) l) (defaultEntities s2)\<rparr>)"

definition RemoveFilesUnder :: "string \<Rightarrow> index \<Rightarrow> index" where
  "RemoveFilesUnder pre s0 =
     (let s = locked s0;
          fileKey = uriKey pre;
          out = (\<lambda>key. HasPrefix key fileKey);
          swept = (\<lambda>key. out key \<and>
             (key \<in> fst ` set (fileFuncs s) \<or> key \<in> fst ` set (fileRefs s) \<or> key \<in> fst ` set (thisVars s)))
      in s\<lparr>funcs := filter_buckets (\<lambda>e. \<not> HasPrefix (fnURI (snd e)) pre) (funcs s),
           comprefs := filter_buckets (\<lambda>e. \<not> HasPrefix (refURI (snd e)) pre) (comprefs s),
           fileURIs := filter (\<lambda>p. \<not> (out (fst p) \<and> fst p \<in> fst ` set (fileFuncs s))) (fileURIs s),
           fileFuncs := filter (\<lambda>p. \<not> out (fst p)) (fileFuncs s),
           fileRefs := filter (\<lambda>p. \<not> out (fst p)) (fileRefs s),
           thisVars := filter (\<lambda>p. \<not> out (fst p)) (thisVars s),
           scopeRefs := filter (\<lambda>p. \<not> swept (fst p)) (scopeRefs s),
           includeGen := includeGen s + length (filter (\<lambda>p. out (fst p)) (includeMap s)),
           includeMap := filter (\<lambda>p. \<not> out (fst p)) (includeMap s)\<rparr>)"

section \<open>Line shifts\<close>

text \<open>\<open>remap\<close>: each replacement written over the entry it replaces.\<close>

definition remap_one :: "'e list \<Rightarrow> 'e \<times> 'e \<Rightarrow> 'e list" where
  "remap_one entries r = (case slice_index entries (fst r) of None \<Rightarrow> entries | Some i \<Rightarrow> entries[i := snd r])"

definition remap :: "('e \<times> 'e) list \<Rightarrow> 'e list \<Rightarrow> 'e list" where
  "remap reps entries = foldl remap_one entries reps"

text \<open>\<open>conv.Uint32(int(line) + delta)\<close> and the test \<open>int(line) > afterLine\<close>.\<close>

definition shifted_line :: "32 word \<Rightarrow> 64 word \<Rightarrow> 32 word" where
  "shifted_line line delta = Uint32 (ucast line + delta)"

definition line_after :: "32 word \<Rightarrow> 64 word \<Rightarrow> bool" where
  "line_after line afterLine \<longleftrightarrow> sint afterLine < sint (ucast line :: 64 word)"

text \<open>The loop that collects the replacements of one file: a new pointer for every entry below.\<close>

fun shift_reps ::
  "('a \<Rightarrow> 32 word) \<Rightarrow> ('a \<Rightarrow> 'a) \<Rightarrow> 64 word \<Rightarrow> nat \<Rightarrow> 'a ptr list \<Rightarrow> ('a ptr \<times> 'a ptr) list" where
  "shift_reps line shift afterLine n [] = []"
| "shift_reps line shift afterLine n (p # ps) =
     (if line_after (line (snd p)) afterLine
      then (p, (n, shift (snd p))) # shift_reps line shift afterLine (Suc n) ps
      else shift_reps line shift afterLine n ps)"

definition remap_buckets ::
  "('e \<Rightarrow> string) \<Rightarrow> ('e \<times> 'e) list \<Rightarrow> (string, 'e list) gomap \<Rightarrow> (string, 'e list) gomap" where
  "remap_buckets key reps buckets =
     map (\<lambda>(name, entries). (name, remap (filter (\<lambda>r. key (fst r) = name) reps) entries)) buckets"

definition remap_at :: "'k \<Rightarrow> ('e \<times> 'e) list \<Rightarrow> ('k, 'e list) gomap \<Rightarrow> ('k, 'e list) gomap" where
  "remap_at k reps m = map (\<lambda>(k', entries). (k', if k' = k then remap reps entries else entries)) m"

definition ShiftLines :: "uri \<Rightarrow> 64 word \<Rightarrow> 64 word \<Rightarrow> index \<Rightarrow> index" where
  "ShiftLines fileURI afterLine delta s0 =
     (let s = locked s0; key = uriKey fileURI;
          funcReps = shift_reps fnLine (\<lambda>d. d\<lparr>fnLine := shifted_line (fnLine d) delta\<rparr>) afterLine
            (next_ptr s) (get_list (fileFuncs s) key);
          n = next_ptr s + length funcReps;
          refReps = shift_reps refLine (\<lambda>r. r\<lparr>refLine := shifted_line (refLine r) delta\<rparr>) afterLine
            n (get_list (fileRefs s) key)
      in if funcReps = [] \<and> refReps = [] then s
         else s\<lparr>funcs := remap_buckets def_key funcReps (funcs s),
                fileFuncs := remap_at key funcReps (fileFuncs s),
                comprefs := remap_buckets ref_key refReps (comprefs s),
                fileRefs := remap_at key refReps (fileRefs s),
                scopeRefs := map (\<lambda>(k, sc). (k, if k = key then map (\<lambda>(x, es). (x, remap refReps es)) sc else sc))
                  (scopeRefs s),
                next_ptr := n + length refReps\<rparr>)"


section \<open>References inside functions\<close>

definition uniq :: "'a list \<Rightarrow> 'a list" where
  "uniq xs = remdups xs"

text \<open>The sweep of \<open>SetFuncRefs\<close> over the buckets the dropped references are in.\<close>

definition sweep ::
  "('e \<Rightarrow> bool) \<Rightarrow> string list \<Rightarrow> (string, 'e list) gomap \<Rightarrow> (string, 'e list) gomap" where
  "sweep keep keys buckets = foldl (\<lambda>b k. put_bucket k (filter keep (get_list b k)) b) buckets keys"

definition SetFuncRefs :: "uri \<Rightarrow> string \<Rightarrow> ComponentRef list \<Rightarrow> index \<Rightarrow> index" where
  "SetFuncRefs fileURI scopeKey refs0 s0 =
     (let refs = CompactRefs refs0; s = locked s0; fk = uriKey fileURI;
          scopes = (case get (scopeRefs s) fk of None \<Rightarrow> [] | Some m \<Rightarrow> m);
          prev = get_list scopes scopeKey;
          keep = (\<lambda>e. e \<notin> set prev);
          s1 = (if prev = [] then s
                else s\<lparr>comprefs := sweep keep (uniq (map ref_key prev)) (comprefs s),
                       fileRefs := sweep keep (uniq (map (\<lambda>r. uriKey (refURI (snd r))) prev)) (fileRefs s)\<rparr>);
          added = alloc (next_ptr s1) refs
      in s1\<lparr>comprefs := file_entries ref_key (comprefs s1) added,
            fileRefs := file_entries (\<lambda>r. uriKey (refURI (snd r))) (fileRefs s1) added,
            scopeRefs := put fk (put scopeKey added scopes) (scopeRefs s1),
            next_ptr := next_ptr s1 + length refs\<rparr>)"

section \<open>Single-valued records\<close>

definition SetThisVars :: "uri \<Rightarrow> string list \<Rightarrow> index \<Rightarrow> index" where
  "SetThisVars fileURI vars s = (locked s)\<lparr>thisVars := put (uriKey fileURI) vars (thisVars s)\<rparr>"

definition SetBeans :: "(string, string) gomap \<Rightarrow> index \<Rightarrow> index" where
  "SetBeans m s = (locked s)\<lparr>beans := m\<rparr>"

definition SetEntity :: "string \<Rightarrow> uri \<Rightarrow> index \<Rightarrow> index" where
  "SetEntity name fileURI s = (locked s)\<lparr>entities := put (ToLower name) fileURI (entities s)\<rparr>"

definition SetExtends :: "uri \<Rightarrow> string \<Rightarrow> index \<Rightarrow> index" where
  "SetExtends fileURI ext s = (locked s)\<lparr>extendsMap := put (uriKey fileURI) ext (extendsMap s)\<rparr>"

definition SetDelegates :: "uri \<Rightarrow> Delegate list \<Rightarrow> index \<Rightarrow> index" where
  "SetDelegates fileURI ds s = (locked s)\<lparr>delegates := put (uriKey fileURI) ds (delegates s)\<rparr>"

section \<open>Readers\<close>

definition Lookup :: "index \<Rightarrow> string \<Rightarrow> def_ptr list" where
  "Lookup s name = get_list (funcs s) (ToLower name)"

definition CountFunctions :: "index \<Rightarrow> string \<Rightarrow> nat" where
  "CountFunctions s name = length (get_list (funcs s) (ToLower name))"

text \<open>The predicate is asked once per bucket; \<open>None\<close> is Go's nil, which matches every name.\<close>

definition FunctionsMatching :: "index \<Rightarrow> (string \<Rightarrow> bool) option \<Rightarrow> def_ptr list" where
  "FunctionsMatching s match =
     concat (map snd (filter (\<lambda>p. case match of None \<Rightarrow> True | Some m \<Rightarrow> m (fst p)) (funcs s)))"

definition AllFunctions :: "index \<Rightarrow> def_ptr list" where
  "AllFunctions s = FunctionsMatching s None"

definition FunctionsForFile :: "index \<Rightarrow> uri \<Rightarrow> def_ptr list" where
  "FunctionsForFile s fileURI = get_list (fileFuncs s) (uriKey fileURI)"

definition HasFile :: "index \<Rightarrow> uri \<Rightarrow> bool" where
  "HasFile s fileURI \<longleftrightarrow> get (fileFuncs s) (uriKey fileURI) \<noteq> None"

definition LookupComponentRef :: "index \<Rightarrow> string \<Rightarrow> ref_ptr list" where
  "LookupComponentRef s variable = get_list (comprefs s) (ToLower variable)"

definition RefsForFile :: "index \<Rightarrow> uri \<Rightarrow> ref_ptr list" where
  "RefsForFile s fileURI = get_list (fileRefs s) (uriKey fileURI)"

definition ThisVarsForFile :: "index \<Rightarrow> uri \<Rightarrow> string list" where
  "ThisVarsForFile s fileURI = get_list (thisVars s) (uriKey fileURI)"

text \<open>\<open>nearestTo\<close>: the nearest by directory, the lowest URI among equals; the list is not empty.\<close>

definition nearer :: "uri \<Rightarrow> def_ptr \<times> nat \<Rightarrow> def_ptr \<Rightarrow> def_ptr \<times> nat" where
  "nearer ref = (\<lambda>(best, bestDist) d.
     let dist = URIDistance ref (fnURI (snd d))
     in if dist < bestDist \<or> dist = bestDist \<and> fnURI (snd d) < fnURI (snd best) then (d, dist)
        else (best, bestDist))"

definition nearestTo :: "def_ptr list \<Rightarrow> uri \<Rightarrow> def_ptr" where
  "nearestTo defs preferURI =
     (let b = hd defs in fst (foldl (nearer preferURI) (b, URIDistance preferURI (fnURI (snd b))) (tl defs)))"

definition LookupPreferred :: "index \<Rightarrow> string \<Rightarrow> uri \<Rightarrow> def_ptr option \<times> bool \<times> nat" where
  "LookupPreferred s name preferURI =
     (let defs = get_list (funcs s) (ToLower name)
      in if defs = [] then (None, False, 0)
         else (case List.find (\<lambda>d. EqualFold (fnName (snd d)) name) (get_list (fileFuncs s) (uriKey preferURI)) of
                 Some d \<Rightarrow> (Some d, True, length defs)
               | None \<Rightarrow> (Some (nearestTo defs preferURI), False, length defs)))"

definition better_ref :: "string \<Rightarrow> 32 word \<Rightarrow> ref_ptr option \<Rightarrow> ref_ptr \<Rightarrow> ref_ptr option" where
  "better_ref variable line best r =
     (if line < refLine (snd r) \<or> \<not> EqualFold (refVariable (snd r)) variable then best
      else (case best of
              None \<Rightarrow> Some r
            | Some b \<Rightarrow> if refLine (snd b) < refLine (snd r) then Some r else best))"

definition LookupComponentRefInFile :: "index \<Rightarrow> string \<Rightarrow> uri \<Rightarrow> 32 word \<Rightarrow> ref_ptr option" where
  "LookupComponentRefInFile s variable fileURI line =
     foldl (better_ref variable line) None (get_list (fileRefs s) (uriKey fileURI))"

definition LookupBean :: "index \<Rightarrow> string \<Rightarrow> string" where
  "LookupBean s name = (case get (beans s) (ToLower name) of None \<Rightarrow> [] | Some d \<Rightarrow> d)"

definition EntityCandidates :: "index \<Rightarrow> string \<Rightarrow> uri list" where
  "EntityCandidates s name =
     (case get (entities s) (ToLower name) of
        Some u \<Rightarrow> [u]
      | None \<Rightarrow> sort (get_list (defaultEntities s) (ToLower name)))"

definition LookupEntity :: "index \<Rightarrow> string \<Rightarrow> uri" where
  "LookupEntity s name = (case get (entities s) (ToLower name) of None \<Rightarrow> [] | Some u \<Rightarrow> u)"

definition basename_path :: "index \<Rightarrow> string \<times> def_ptr list \<Rightarrow> string list" where
  "basename_path s = (\<lambda>(key, defs).
     let real = (case get (fileURIs s) key of None \<Rightarrow> [] | Some u \<Rightarrow> TrimPrefix u ''file://'');
         stored = (if defs = [] then [] else TrimPrefix (fnURI (snd (hd defs))) ''file://'');
         lowered = TrimPrefix key ''file://''
     in if real \<noteq> [] then [real] else if stored \<noteq> [] then [stored]
        else if lowered \<noteq> [] then [lowered] else [])"

definition FindFilesByBasename :: "index \<Rightarrow> string \<Rightarrow> string list" where
  "FindFilesByBasename s name =
     (let suf = ''/'' @ ToLower name @ ''.cfc''
      in sort (concat (map (basename_path s) (filter (\<lambda>p. HasSuffix (fst p) suf) (fileFuncs s)))))"

definition ExtendsForFile :: "index \<Rightarrow> uri \<Rightarrow> string option" where
  "ExtendsForFile s fileURI = get (extendsMap s) (uriKey fileURI)"

definition FilesExtendingName :: "index \<Rightarrow> string \<Rightarrow> string list" where
  "FilesExtendingName s name =
     sort (concat (map (\<lambda>(key, ext).
       let last_part = (case last_index_byte ext (CHR ''.'') of None \<Rightarrow> ext | Some i \<Rightarrow> drop (i + 1) ext)
       in if ext \<noteq> [] \<and> EqualFold last_part name
          then (case get (fileURIs s) key of None \<Rightarrow> [] | Some u \<Rightarrow> [u])
          else []) (extendsMap s)))"

definition DelegatesForFile :: "index \<Rightarrow> uri \<Rightarrow> Delegate list option" where
  "DelegatesForFile s fileURI = get (delegates s) (uriKey fileURI)"

end
