(* ===== verification/Index_Views.thy ===== *)
theory Index_Views
  imports Index
begin

text \<open>
  The invariant of the index: the buckets by name and the lists by file hold the same pointers, each
  once. \<open>views_ok\<close> states it for one kind of entry; the lemmas below show it kept by each of the
  steps the index's operations are made of (dropping a file, filing new entries, sweeping a scope,
  replacing pointers), and \<open>index_ok\<close> puts both kinds together.
\<close>

definition entries :: "(string, 'e list) gomap \<Rightarrow> 'e set" where
  "entries f = {e. \<exists>k. e \<in> set (get_list f k)}"

definition views_ok :: "('e \<Rightarrow> string) \<Rightarrow> (string, 'e list) gomap \<Rightarrow> (string, 'e list) gomap \<Rightarrow> bool" where
  "views_ok key b f \<longleftrightarrow> distinct_keys b \<and> distinct_keys f \<and>
     (\<forall>n e. e \<in> set (get_list b n) \<longleftrightarrow> key e = n \<and> e \<in> entries f) \<and>
     (\<forall>n. distinct (get_list b n)) \<and> (\<forall>k. distinct (get_list f k)) \<and>
     (\<forall>e k k'. e \<in> set (get_list f k) \<longrightarrow> e \<in> set (get_list f k') \<longrightarrow> k = k')"

lemma views_okI:
  assumes "distinct_keys b" "distinct_keys f"
    "\<And>n e. e \<in> set (get_list b n) \<longleftrightarrow> key e = n \<and> e \<in> entries f"
    "\<And>n. distinct (get_list b n)" "\<And>k. distinct (get_list f k)"
    "\<And>e k k'. e \<in> set (get_list f k) \<Longrightarrow> e \<in> set (get_list f k') \<Longrightarrow> k = k'"
  shows "views_ok key b f"
  using assms unfolding views_ok_def by blast

lemma views_okD:
  assumes "views_ok key b f"
  shows "distinct_keys b" "distinct_keys f"
    "e \<in> set (get_list b n) \<longleftrightarrow> key e = n \<and> e \<in> entries f"
    "distinct (get_list b n)" "distinct (get_list f k)"
    "e \<in> set (get_list f k) \<Longrightarrow> e \<in> set (get_list f k') \<Longrightarrow> k = k'"
  using assms unfolding views_ok_def by blast+

section \<open>Filing\<close>

lemma get_list_file_entries [simp]:
  "get_list (file_entries key b es) n = get_list b n @ filter (\<lambda>e. key e = n) es"
  by (induction es arbitrary: b) (auto simp: file_entries_def)

lemma distinct_keys_file_entries [simp]: "distinct_keys b \<Longrightarrow> distinct_keys (file_entries key b es)"
  by (induction es arbitrary: b) (simp_all add: file_entries_def)

lemma entries_put: "get_list f k = [] \<Longrightarrow> entries (put k es f) = entries f \<union> set es"
  by (auto simp: entries_def split: if_splits) (metis empty_iff empty_set)

lemma entries_file: "entries (file_entries fkey f es) = entries f \<union> set es"
  by (auto simp: entries_def)

lemma views_add:
  assumes ok: "views_ok key b f" and es: "distinct es" "set es \<inter> entries f = {}" and k: "get_list f k = []"
  shows "views_ok key (file_entries key b es) (put k es f)"
proof (rule views_okI)
  show "e \<in> set (get_list (file_entries key b es) n) \<longleftrightarrow> key e = n \<and> e \<in> entries (put k es f)" for n e
    using views_okD(3)[OF ok] k by (auto simp: entries_put)
  show "distinct (get_list (file_entries key b es) n)" for n
    using views_okD(3,4)[OF ok] es by auto
  show "distinct (get_list (put k es f) k')" for k' using views_okD(5)[OF ok] es by simp
  show "i = j" if "e \<in> set (get_list (put k es f) i)" "e \<in> set (get_list (put k es f) j)" for e i j
    using that views_okD(6)[OF ok] es(2) by (auto simp: entries_def split: if_splits)
qed (use views_okD[OF ok] in simp_all)

lemma views_add_own:
  assumes ok: "views_ok key b f" and es: "distinct es" "set es \<inter> entries f = {}"
  shows "views_ok key (file_entries key b es) (file_entries fkey f es)"
proof (rule views_okI)
  show "e \<in> set (get_list (file_entries key b es) n) \<longleftrightarrow> key e = n \<and> e \<in> entries (file_entries fkey f es)" for n e
    using views_okD(3)[OF ok] by (auto simp: entries_file)
  show "distinct (get_list (file_entries key b es) n)" for n
    using views_okD(3,4)[OF ok] es by auto
  show "distinct (get_list (file_entries fkey f es) k')" for k'
    using views_okD(5)[OF ok] es by (auto simp: entries_def)
  show "i = j" if "e \<in> set (get_list (file_entries fkey f es) i)" "e \<in> set (get_list (file_entries fkey f es) j)" for e i j
    using that views_okD(6)[OF ok] es(2) by (auto simp: entries_def)
qed (use views_okD[OF ok] in simp_all)

section \<open>Dropping a file\<close>

lemma get_list_group_by: "get_list (group_by key es) n = filter (\<lambda>e. key e = n) es"
  using get_list_file_entries[of key "[]" es n] by (simp add: group_by_def file_entries_def)

lemma distinct_keys_group_by: "distinct_keys (group_by key es)"
  using distinct_keys_file_entries[of "[]" key es] by (simp add: group_by_def file_entries_def)

lemma get_list_drop_groups:
  "distinct_keys g \<Longrightarrow> get_list (drop_groups b g) n = dropEntries (get_list b n) (get_list g n)"
proof (induction g arbitrary: b)
  case (Cons p g)
  obtain k l where p: "p = (k, l)" by (cases p)
  have "get g k = None" using Cons.prems by (simp add: p map_of_eq_None_iff)
  then have k: "get_list g k = []" by (simp add: get_list_def)
  have "drop_groups b (p # g) = drop_groups (put_bucket k (dropEntries (get_list b k) l) b) g"
    by (simp add: drop_groups_def p)
  moreover have "get_list (p # g) n = (if n = k then l else get_list g n)" by (auto simp: p get_list_def)
  ultimately show ?case using Cons k by (auto simp: p) (simp add: dropEntries_def)
qed (simp add: drop_groups_def dropEntries_def)

lemma distinct_keys_drop_groups: "distinct_keys b \<Longrightarrow> distinct_keys (drop_groups b g)"
  by (induction g arbitrary: b) (auto simp: drop_groups_def)

lemma entries_del: "entries (del k f) = {e. \<exists>k'. k' \<noteq> k \<and> e \<in> set (get_list f k')}"
  by (auto simp: entries_def split: if_splits)

lemma entries_del_views: "views_ok key b f \<Longrightarrow> entries (del k f) = entries f - set (get_list f k)"
proof -
  assume "views_ok key b f"
  then have "e \<in> set (get_list f k') \<Longrightarrow> e \<in> set (get_list f k) \<Longrightarrow> k' = k" for e k'
    by (rule views_okD(6))
  then have only: "(\<exists>k'. k' \<noteq> k \<and> e \<in> set (get_list f k')) \<longleftrightarrow>
      (\<exists>k'. e \<in> set (get_list f k')) \<and> e \<notin> set (get_list f k)" for e
    by metis
  show ?thesis unfolding entries_del only by (auto simp: entries_def)
qed

lemma views_drop:
  assumes ok: "views_ok key b f"
  shows "views_ok key (drop_groups b (group_by key (get_list f k))) (del k f)"
proof (rule views_okI)
  let ?b = "drop_groups b (group_by key (get_list f k))"
  have l: "get_list ?b n = foldl drop_entry (get_list b n) (filter (\<lambda>e. key e = n) (get_list f k))" for n
    by (simp add: get_list_drop_groups distinct_keys_group_by get_list_group_by dropEntries_def)
  have s: "set (get_list ?b n) = set (get_list b n) - set (get_list f k) \<and> distinct (get_list ?b n)" for n
    using set_drop_entries[OF views_okD(4)[OF ok], of n "filter (\<lambda>e. key e = n) (get_list f k)"]
      views_okD(3)[OF ok] unfolding l by auto
  show "e \<in> set (get_list ?b n) \<longleftrightarrow> key e = n \<and> e \<in> entries (del k f)" for n e
    using s views_okD(3)[OF ok] entries_del_views[OF ok] by auto
  show "distinct (get_list ?b n)" for n using s by blast
  show "distinct_keys ?b" using views_okD(1)[OF ok] by (rule distinct_keys_drop_groups)
  show "i = j" if "e \<in> set (get_list (del k f) i)" "e \<in> set (get_list (del k f) j)" for e i j
    using that views_okD(6)[OF ok] by (auto split: if_splits)
qed (use views_okD[OF ok] in simp_all)

section \<open>Filtering\<close>

lemma views_filter:
  assumes ok: "views_ok key b f"
    and agree: "\<And>k e. e \<in> set (get_list f k) \<Longrightarrow> P e \<longleftrightarrow> \<not> out k"
  shows "views_ok key (filter_buckets P b) (filter (\<lambda>p. \<not> out (fst p)) f)"
proof (rule views_okI)
  let ?f = "filter (\<lambda>p. \<not> out (fst p)) f"
  have fl: "get_list ?f k = (if \<not> out k then get_list f k else [])" for k
    by (rule get_list_filter_key[where P = "\<lambda>k. \<not> out k"])
  show "e \<in> set (get_list (filter_buckets P b) n) \<longleftrightarrow> key e = n \<and> e \<in> entries ?f" for n e
    using views_okD(1,3)[OF ok] agree by (auto simp: entries_def fl split: if_splits)
  show "distinct (get_list (filter_buckets P b) n)" for n using views_okD(1,4)[OF ok] by simp
  show "distinct (get_list ?f k)" for k using views_okD(5)[OF ok] by (simp add: fl)
  show "i = j" if "e \<in> set (get_list ?f i)" "e \<in> set (get_list ?f j)" for e i j
    using that views_okD(6)[OF ok] by (auto simp: fl split: if_splits)
  show "distinct_keys ?f" using views_okD(2)[OF ok] by (rule distinct_map_filter)
qed (use views_okD[OF ok] in simp)

lemma get_list_sweep:
  "distinct ks \<Longrightarrow> get_list (sweep keep ks b) n = (if n \<in> set ks then filter keep (get_list b n) else get_list b n)"
  by (induction ks arbitrary: b) (auto simp: sweep_def)

lemma distinct_keys_sweep: "distinct_keys b \<Longrightarrow> distinct_keys (sweep keep ks b)"
  by (induction ks arbitrary: b) (auto simp: sweep_def)

lemma views_sweep:
  assumes ok: "views_ok key b f"
    and own: "\<And>e k. e \<in> set prev \<Longrightarrow> e \<in> set (get_list f k) \<Longrightarrow> k = fkey e"
  shows "views_ok key (sweep (\<lambda>e. e \<notin> set prev) (uniq (map key prev)) b)
    (sweep (\<lambda>e. e \<notin> set prev) (uniq (map fkey prev)) f)"
proof (rule views_okI)
  let ?b = "sweep (\<lambda>e. e \<notin> set prev) (uniq (map key prev)) b"
  let ?f = "sweep (\<lambda>e. e \<notin> set prev) (uniq (map fkey prev)) f"
  have b: "set (get_list ?b n) = set (get_list b n) - set prev" for n
    using views_okD(3)[OF ok] by (auto simp: get_list_sweep uniq_def)
  have f: "set (get_list ?f k) = set (get_list f k) - set prev" for k
    using own by (auto simp: get_list_sweep uniq_def)
  show "e \<in> set (get_list ?b n) \<longleftrightarrow> key e = n \<and> e \<in> entries ?f" for n e
    using views_okD(3)[OF ok] by (auto simp: b f entries_def)
  show "i = j" if "e \<in> set (get_list ?f i)" "e \<in> set (get_list ?f j)" for e i j
    using that views_okD(6)[OF ok] by (auto simp: f)
qed (use views_okD[OF ok] in \<open>simp_all add: get_list_sweep uniq_def distinct_keys_sweep\<close>)

section \<open>Replacing pointers\<close>

definition subst :: "('e \<times> 'e) list \<Rightarrow> 'e \<Rightarrow> 'e" where
  "subst reps e = (case map_of reps e of None \<Rightarrow> e | Some e' \<Rightarrow> e')"

lemma remap_map:
  assumes "distinct es" "distinct (map fst reps)" "snd ` set reps \<inter> (set es \<union> fst ` set reps) = {}"
    "distinct (map snd reps)"
  shows "remap reps es = map (subst reps) es"
  using assms
proof (induction reps arbitrary: es)
  case (Cons r reps)
  obtain x y where r: "r = (x, y)" by (cases r)
  let ?es = "remap_one es r"
  have y: "y \<notin> set es" "y \<notin> fst ` set reps" "y \<noteq> x" "y \<notin> snd ` set reps" "x \<notin> fst ` set reps"
    using Cons.prems by (auto simp: r)
  have es': "?es = map (\<lambda>e. if e = x then y else e) es"
  proof (cases "slice_index es x")
    case None
    then show ?thesis by (auto simp: remap_one_def r intro!: map_idI[symmetric] simp del: slice_index_None)
        (metis slice_index_None)
  next
    case (Some i)
    then have i: "i < length es" "es ! i = x" using slice_index_Some by fastforce+
    then show ?thesis using Some Cons.prems(1)
      by (auto simp: remap_one_def r nth_list_update nth_eq_iff_index_eq intro!: nth_equalityI)
  qed
  have "distinct ?es" using Cons.prems(1) y(1) unfolding es' by (auto simp: distinct_map inj_on_def)
  moreover have "snd ` set reps \<inter> (set ?es \<union> fst ` set reps) = {}"
    using Cons.prems(3) y unfolding es' by (auto simp: r)
  ultimately have "remap reps ?es = map (subst reps) ?es" using Cons by simp
  moreover have "subst reps (if e = x then y else e) = subst (r # reps) e" if "e \<in> set es" for e
  proof -
    have "map_of reps y = None" using y(2) by (simp add: map_of_eq_None_iff)
    then show ?thesis by (auto simp: subst_def r)
  qed
  moreover have "remap (r # reps) es = remap reps ?es" by (simp add: remap_def)
  ultimately show ?case unfolding es' by simp
qed (simp add: remap_def subst_def[abs_def])

lemma views_map:
  assumes ok: "views_ok key b f" and inj: "inj_on h (entries f)" and key: "\<And>e. e \<in> entries f \<Longrightarrow> key (h e) = key e"
    and b': "\<And>n. get_list b' n = map h (get_list b n)" "distinct_keys b'"
    and f': "\<And>k. get_list f' k = map h (get_list f k)" "distinct_keys f'"
  shows "views_ok key b' f'"
proof (rule views_okI)
  have sub: "set (get_list b n) \<subseteq> entries f" "set (get_list f k) \<subseteq> entries f" for n k
    using views_okD(3)[OF ok] by (auto simp: entries_def)
  have ent: "entries f' = h ` entries f" by (auto simp: entries_def f')
  show "e \<in> set (get_list b' n) \<longleftrightarrow> key e = n \<and> e \<in> entries f'" for n e
    using views_okD(3)[OF ok] key by (auto simp: b' ent)
  show "distinct (get_list b' n)" for n
    using views_okD(4)[OF ok] inj_on_subset[OF inj sub(1)] by (simp add: b' distinct_map)
  show "distinct (get_list f' k)" for k
    using views_okD(5)[OF ok] inj_on_subset[OF inj sub(2)] by (simp add: f' distinct_map)
  show "i = j" if e: "e \<in> set (get_list f' i)" "e \<in> set (get_list f' j)" for e i j
  proof -
    obtain x y where x: "x \<in> set (get_list f i)" "e = h x" and y: "y \<in> set (get_list f j)" "e = h y"
      using e by (auto simp: f')
    then have "x = y" using inj sub(2) by (metis inj_onD subsetD)
    then show ?thesis using x y views_okD(6)[OF ok] by blast
  qed
qed (fact b' f')+


section \<open>The index\<close>

definition ids_ok :: "nat \<Rightarrow> (string, 'a ptr list) gomap \<Rightarrow> bool" where
  "ids_ok n f \<longleftrightarrow> (\<forall>e \<in> entries f. fst e < n)"

text \<open>A scope's references were filed under their own file, and were allocated.\<close>

definition scopes_ok :: "index \<Rightarrow> bool" where
  "scopes_ok s \<longleftrightarrow> (\<forall>k m x e. get (scopeRefs s) k = Some m \<longrightarrow> e \<in> set (get_list m x) \<longrightarrow>
     fst e < next_ptr s \<and> (\<forall>k'. e \<in> set (get_list (fileRefs s) k') \<longrightarrow> k' = uriKey (refURI (snd e))))"

definition index_ok :: "index \<Rightarrow> bool" where
  "index_ok s \<longleftrightarrow> views_ok def_key (funcs s) (fileFuncs s) \<and> views_ok ref_key (comprefs s) (fileRefs s) \<and>
     ids_ok (next_ptr s) (fileFuncs s) \<and> ids_ok (next_ptr s) (fileRefs s) \<and> scopes_ok s"

lemma entries_nil [simp]: "entries [] = {}"
  by (simp add: entries_def)

lemma New_ok: "index_ok New"
  by (auto simp: index_ok_def New_def views_ok_def ids_ok_def scopes_ok_def)

text \<open>An operation that leaves these fields alone keeps the invariant.\<close>

lemma index_ok_frame:
  assumes "index_ok s" "funcs t = funcs s" "fileFuncs t = fileFuncs s" "comprefs t = comprefs s"
    "fileRefs t = fileRefs s" "scopeRefs t = scopeRefs s" "next_ptr t = next_ptr s"
  shows "index_ok t"
  using assms by (simp add: index_ok_def scopes_ok_def)

lemma locked_ok [simp]: "index_ok (locked s) = index_ok s"
  by (simp add: index_ok_def scopes_ok_def)

lemma alloc_props:
  "distinct (alloc n xs)" "e \<in> set (alloc n xs) \<Longrightarrow> n \<le> fst e \<and> fst e < n + length xs"
  "map snd (alloc n xs) = xs" "length (alloc n xs) = length xs"
proof -
  have "map fst (alloc n xs) = [n ..< n + length xs]" by (simp add: alloc_def)
  then show "distinct (alloc n xs)" by (metis distinct_map distinct_upt)
  show "n \<le> fst e \<and> fst e < n + length xs" if "e \<in> set (alloc n xs)"
  proof -
    have "(fst e, snd e) \<in> set (zip [n ..< n + length xs] xs)" using that by (simp add: alloc_def)
    then have "fst e \<in> set [n ..< n + length xs]" by (rule set_zip_leftD)
    then show ?thesis by simp
  qed
qed (simp_all add: alloc_def)

lemma alloc_fresh: "ids_ok n f \<Longrightarrow> n \<le> m \<Longrightarrow> set (alloc m xs) \<inter> entries f = {}"
proof (rule equals0I)
  fix e assume ids: "ids_ok n f" "n \<le> m" and e: "e \<in> set (alloc m xs) \<inter> entries f"
  then have "m \<le> fst e" "fst e < n" using alloc_props(2)[of e m xs] by (auto simp: ids_ok_def)
  then show False using ids by simp
qed

section \<open>Every operation keeps the invariant\<close>

lemma ids_ok_mono: "ids_ok n f \<Longrightarrow> n \<le> m \<Longrightarrow> entries g \<subseteq> entries f \<Longrightarrow> ids_ok m g"
  unfolding ids_ok_def by (meson less_le_trans subsetD)

lemma scopes_okD:
  assumes "scopes_ok s" "get (scopeRefs s) k = Some m" "e \<in> set (get_list m x)"
  shows "fst e < next_ptr s" "e \<in> set (get_list (fileRefs s) k') \<Longrightarrow> k' = uriKey (refURI (snd e))"
  using assms unfolding scopes_ok_def by blast+

lemma removeFileEntries_ok:
  assumes "index_ok s"
  shows "index_ok (removeFileEntries u s)"
proof -
  have ok: "views_ok def_key (funcs s) (fileFuncs s)" "views_ok ref_key (comprefs s) (fileRefs s)"
    "ids_ok (next_ptr s) (fileFuncs s)" "ids_ok (next_ptr s) (fileRefs s)" "scopes_ok s"
    using assms by (simp_all add: index_ok_def)
  have sub: "entries (del k f) \<subseteq> entries f" for k and f :: "(string, 'e list) gomap"
    by (auto simp: entries_def split: if_splits)
  have "scopes_ok (removeFileEntries u s)"
    using ok(5) unfolding scopes_ok_def removeFileEntries_def Let_def by (auto split: if_splits)
  then show ?thesis using views_drop[OF ok(1)] views_drop[OF ok(2)] ids_ok_mono[OF ok(3) order_refl sub]
      ids_ok_mono[OF ok(4) order_refl sub]
    by (simp add: index_ok_def removeFileEntries_def Let_def)
qed

lemma removeFileEntries_gone:
  "get_list (fileFuncs (removeFileEntries u s)) (uriKey u) = []"
  "get_list (fileRefs (removeFileEntries u s)) (uriKey u) = []"
  "next_ptr (removeFileEntries u s) = next_ptr s"
  by (simp_all add: removeFileEntries_def Let_def)

lemma file_all_ok:
  assumes "index_ok s" "get_list (fileFuncs s) (uriKey u) = []" "get_list (fileRefs s) (uriKey u) = []"
  shows "index_ok (file_all u fs rs s)"
proof -
  have ok: "views_ok def_key (funcs s) (fileFuncs s)" "views_ok ref_key (comprefs s) (fileRefs s)"
    "ids_ok (next_ptr s) (fileFuncs s)" "ids_ok (next_ptr s) (fileRefs s)" "scopes_ok s"
    using assms by (simp_all add: index_ok_def)
  let ?n = "next_ptr s" and ?t = "file_all u fs rs s"
  have f: "funcs ?t = file_entries def_key (funcs s) (alloc ?n fs)"
    "fileFuncs ?t = put (uriKey u) (alloc ?n fs) (fileFuncs s)"
    "comprefs ?t = file_entries ref_key (comprefs s) (alloc (?n + length fs) rs)"
    "fileRefs ?t = put (uriKey u) (alloc (?n + length fs) rs) (fileRefs s)"
    "next_ptr ?t = ?n + length fs + length rs" "scopeRefs ?t = scopeRefs s"
    by (simp_all add: file_all_def Let_def)
  have "views_ok def_key (funcs ?t) (fileFuncs ?t)" unfolding f
    by (rule views_add[OF ok(1) alloc_props(1) alloc_fresh[OF ok(3) order_refl] assms(2)])
  moreover have "views_ok ref_key (comprefs ?t) (fileRefs ?t)" unfolding f
    by (rule views_add[OF ok(2) alloc_props(1) alloc_fresh[OF ok(4)] assms(3)]) simp
  moreover have "ids_ok (next_ptr ?t) (fileFuncs ?t)" unfolding f
    using ok(3) alloc_props(2)[of _ ?n fs] by (force simp: ids_ok_def entries_put[OF assms(2)])
  moreover have "ids_ok (next_ptr ?t) (fileRefs ?t)" unfolding f
    using ok(4) alloc_props(2)[of _ "?n + length fs" rs] by (force simp: ids_ok_def entries_put[OF assms(3)])
  moreover have "scopes_ok ?t" unfolding scopes_ok_def f
  proof (intro allI impI)
    fix k m x e assume m: "get (scopeRefs s) k = Some m" "e \<in> set (get_list m x)"
    then have e: "fst e < ?n" "\<forall>k'. e \<in> set (get_list (fileRefs s) k') \<longrightarrow> k' = uriKey (refURI (snd e))"
      using scopes_okD[OF ok(5) m] by blast+
    then have "e \<notin> set (alloc (?n + length fs) rs)" using alloc_props(2) by fastforce
    then show "fst e < ?n + length fs + length rs \<and>
        (\<forall>k'. e \<in> set (get_list (put (uriKey u) (alloc (?n + length fs) rs) (fileRefs s)) k') \<longrightarrow>
          k' = uriKey (refURI (snd e)))"
      using e by auto
  qed
  ultimately show ?thesis by (simp add: index_ok_def)
qed

lemma IndexFileFromResult_ok: "index_ok s \<Longrightarrow> index_ok (IndexFileFromResult u fs rs s)"
  unfolding IndexFileFromResult_def
  by (intro file_all_ok removeFileEntries_ok removeFileEntries_gone) simp

lemma setIncludesLocked_frame:
  "funcs (setIncludesLocked u ps s) = funcs s" "fileFuncs (setIncludesLocked u ps s) = fileFuncs s"
  "comprefs (setIncludesLocked u ps s) = comprefs s" "fileRefs (setIncludesLocked u ps s) = fileRefs s"
  "scopeRefs (setIncludesLocked u ps s) = scopeRefs s" "next_ptr (setIncludesLocked u ps s) = next_ptr s"
  by (simp_all add: setIncludesLocked_def Let_def)

lemma register_entity_frame:
  "funcs (register_entity u pr s) = funcs s" "fileFuncs (register_entity u pr s) = fileFuncs s"
  "comprefs (register_entity u pr s) = comprefs s" "fileRefs (register_entity u pr s) = fileRefs s"
  "scopeRefs (register_entity u pr s) = scopeRefs s" "next_ptr (register_entity u pr s) = next_ptr s"
  by (simp_all add: register_entity_def Let_def)

lemmas frames = setIncludesLocked_frame register_entity_frame

lemma indexParseResult_ok: "index_ok s \<Longrightarrow> index_ok (indexParseResult u pr s)"
  unfolding indexParseResult_def Let_def
proof (rule file_all_ok)
  let ?s = "removeFileEntries u (locked s)"
  let ?t = "?s\<lparr>thisVars := put (uriKey u) (prThisVars pr) (thisVars ?s),
    extendsMap := put (uriKey u) (prExtends pr) (extendsMap ?s),
    delegates := put (uriKey u) (prDelegates pr) (delegates ?s)\<rparr>"
  assume "index_ok s"
  then have "index_ok ?s" by (intro removeFileEntries_ok) simp
  then show "index_ok (setIncludesLocked u (prIncludes pr) (register_entity u pr ?t))"
    by (rule index_ok_frame) (simp_all add: frames)
qed (simp_all add: frames removeFileEntries_gone)

lemma RemoveFile_ok: "index_ok s \<Longrightarrow> index_ok (RemoveFile u s)"
  by (rule index_ok_frame[OF removeFileEntries_ok[of "locked s" u]])
    (simp_all add: RemoveFile_def Let_def frames)

lemma SetIncludes_ok: "index_ok s \<Longrightarrow> index_ok (SetIncludes u ps s)"
  by (erule index_ok_frame) (simp_all add: SetIncludes_def frames)

lemma setters_ok:
  assumes "index_ok s"
  shows "index_ok (SetThisVars u vs s)" "index_ok (SetBeans m s)" "index_ok (SetEntity n u s)"
    "index_ok (SetExtends u x s)" "index_ok (SetDelegates u ds s)"
  by (rule index_ok_frame[OF assms];
      simp add: SetThisVars_def SetBeans_def SetEntity_def SetExtends_def SetDelegates_def)+


section \<open>References of a function\<close>

lemma SetFuncRefs_ok:
  assumes "index_ok s0"
  shows "index_ok (SetFuncRefs u scopeKey refs s0)"
proof -
  define s where "s = locked s0"
  have ok: "views_ok def_key (funcs s) (fileFuncs s)" "views_ok ref_key (comprefs s) (fileRefs s)"
    "ids_ok (next_ptr s) (fileFuncs s)" "ids_ok (next_ptr s) (fileRefs s)" "scopes_ok s"
    using assms by (simp_all add: s_def index_ok_def scopes_ok_def)
  let ?own = "\<lambda>r. uriKey (refURI (snd r))"
  define scopes where "scopes = (case get (scopeRefs s) (uriKey u) of None \<Rightarrow> [] | Some m \<Rightarrow> m)"
  define prev where "prev = get_list scopes scopeKey"
  have own: "k = ?own e" if "e \<in> set prev" "e \<in> set (get_list (fileRefs s) k)" for e k
    using that scopes_okD(2)[OF ok(5)] by (auto simp: prev_def scopes_def split: option.splits)
  let ?b = "if prev = [] then comprefs s else sweep (\<lambda>e. e \<notin> set prev) (uniq (map ref_key prev)) (comprefs s)"
  let ?f = "if prev = [] then fileRefs s else sweep (\<lambda>e. e \<notin> set prev) (uniq (map ?own prev)) (fileRefs s)"
  have v: "views_ok ref_key ?b ?f" using ok(2) views_sweep[OF ok(2) own] by simp
  have sub: "set (get_list ?f k) \<subseteq> set (get_list (fileRefs s) k)" for k
    by (auto simp: get_list_sweep uniq_def)
  then have "entries ?f \<subseteq> entries (fileRefs s)" unfolding entries_def by blast
  then have ids: "ids_ok (next_ptr s) ?f" by (rule ids_ok_mono[OF ok(4) order_refl])
  let ?new = "alloc (next_ptr s) (CompactRefs refs)"
  have t: "SetFuncRefs u scopeKey refs s0 = s\<lparr>comprefs := file_entries ref_key ?b ?new,
      fileRefs := file_entries ?own ?f ?new,
      scopeRefs := put (uriKey u) (put scopeKey ?new scopes) (scopeRefs s),
      next_ptr := next_ptr s + length (CompactRefs refs)\<rparr>"
    by (simp add: SetFuncRefs_def Let_def s_def prev_def scopes_def)
  let ?n = "next_ptr s + length (CompactRefs refs)"
  have "views_ok ref_key (file_entries ref_key ?b ?new) (file_entries ?own ?f ?new)"
    by (rule views_add_own[OF v alloc_props(1) alloc_fresh[OF ids order_refl]])
  moreover have "ids_ok ?n (file_entries ?own ?f ?new)"
    unfolding ids_ok_def entries_file
  proof (intro ballI)
    fix e assume "e \<in> entries ?f \<union> set ?new"
    then show "fst e < ?n"
    proof
      assume "e \<in> entries ?f"
      then have "fst e < next_ptr s" using ids unfolding ids_ok_def by (rule bspec[rotated])
      then show ?thesis by simp
    next
      assume "e \<in> set ?new"
      then show ?thesis using alloc_props(2) by blast
    qed
  qed
  moreover have "scopes_ok (SetFuncRefs u scopeKey refs s0)" unfolding scopes_ok_def
  proof (intro allI impI)
    fix k m x e
    assume m: "get (scopeRefs (SetFuncRefs u scopeKey refs s0)) k = Some m" "e \<in> set (get_list m x)"
    consider "e \<in> set ?new" | m' where "get (scopeRefs s) k = Some m'" "e \<in> set (get_list m' x)"
    proof (cases "k = uriKey u \<and> x = scopeKey")
      case True
      then have "e \<in> set ?new" using m unfolding t by auto
      then show thesis by (rule that(1))
    next
      case False
      have "\<exists>m'. get (scopeRefs s) k = Some m' \<and> e \<in> set (get_list m' x)"
      proof (cases "k = uriKey u")
        case True
        then have "m = put scopeKey ?new scopes" using m(1) unfolding t by simp
        then have "e \<in> set (get_list scopes x)" using m(2) False True by simp
        then show ?thesis using True by (cases "get (scopeRefs s) (uriKey u)") (simp_all add: scopes_def)
      qed (use m in \<open>simp add: t\<close>)
      then show thesis using that(2) by blast
    qed
    then have e: "fst e < ?n \<and> (\<forall>k'. e \<in> set (get_list (file_entries ?own ?f ?new) k') \<longrightarrow> k' = ?own e)"
    proof cases
      case 1
      then have "e \<notin> entries ?f" "fst e < ?n"
        using alloc_fresh[OF ids order_refl] alloc_props(2) by (blast, blast)
      then show ?thesis by (auto simp: entries_def)
    next
      case 2
      have lt: "fst e < next_ptr s" by (rule scopes_okD(1)[OF ok(5) 2])
      then have "e \<notin> set ?new" using alloc_props(2)[of e "next_ptr s" "CompactRefs refs"] by auto
      moreover have "k' = ?own e" if "e \<in> set (get_list ?f k')" for k'
        using scopes_okD(2)[OF ok(5) 2] sub that by blast
      ultimately show ?thesis using lt by auto
    qed
    then show "fst e < next_ptr (SetFuncRefs u scopeKey refs s0) \<and>
        (\<forall>k'. e \<in> set (get_list (fileRefs (SetFuncRefs u scopeKey refs s0)) k') \<longrightarrow> k' = uriKey (refURI (snd e)))"
      unfolding t by simp
  qed
  ultimately show ?thesis using ok(1,3) ids_ok_mono[OF ok(3), of ?n "fileFuncs s"]
    unfolding index_ok_def by (simp add: t)
qed

section \<open>Shifted lines\<close>

lemma get_list_map_value:
  "(\<And>k. g k [] = []) \<Longrightarrow> get_list (map (\<lambda>(k, l). (k, g k l)) m) k = g k (get_list m k)"
  by (induction m) (auto simp: get_list_def)

lemma keys_map_value: "map fst (map (\<lambda>(k, l). (k, g k l)) m) = map fst m"
  by (induction m) auto

lemma remap_Nil [simp]: "remap reps [] = []"
  by (induction reps) (simp_all add: remap_def remap_one_def)

lemma set_remap:
  assumes "snd ` set reps \<inter> fst ` set reps = {}" "e \<in> set (remap reps es)"
  shows "e \<in> set es \<or> (\<exists>r \<in> set reps. fst r \<in> set es \<and> snd r = e)"
  using assms
proof (induction reps arbitrary: es)
  case (Cons r reps)
  have one: "x \<in> set es \<or> fst r \<in> set es \<and> x = snd r" if x: "x \<in> set (remap_one es r)" for x
  proof (cases "slice_index es (fst r)")
    case None
    then show ?thesis using x by (simp add: remap_one_def del: slice_index_None)
  next
    case (Some i)
    then have "fst r \<in> set es" by (metis nth_mem slice_index_Some)
    moreover have "x \<in> insert (snd r) (set es)"
      using x Some set_update_subset_insert[of es i "snd r"] by (auto simp: remap_one_def)
    ultimately show ?thesis by auto
  qed
  have "e \<in> set (remap reps (remap_one es r))" using Cons.prems(2) by (simp add: remap_def)
  then have "e \<in> set (remap_one es r) \<or> (\<exists>r' \<in> set reps. fst r' \<in> set (remap_one es r) \<and> snd r' = e)"
    using Cons.IH Cons.prems(1) by auto
  moreover have "fst r' \<noteq> snd r" if "r' \<in> set reps" for r'
  proof -
    have "fst r' \<in> fst ` set (r # reps)" "snd r \<in> snd ` set (r # reps)" using that by auto
    then show ?thesis using Cons.prems(1) by (metis disjoint_iff)
  qed
  ultimately show ?case using one by (metis list.set_intros(1,2))
qed (simp add: remap_def)

lemma shift_reps_props:
  "map fst (shift_reps line shift al n ps) = filter (\<lambda>p. line_after (line (snd p)) al) ps"
  "map (fst \<circ> snd) (shift_reps line shift al n ps) = [n ..< n + length (shift_reps line shift al n ps)]"
  "r \<in> set (shift_reps line shift al n ps) \<Longrightarrow> snd (snd r) = shift (snd (fst r))"
proof (induction ps arbitrary: n)
  case (Cons p ps)
  {
    case 1
    show ?case using Cons.IH(1) by simp
  next
    case 2
    show ?case
    proof (cases "line_after (line (snd p)) al")
      case True
      have "[n ..< n + Suc k] = n # [Suc n ..< Suc n + k]" for k by (simp add: upt_conv_Cons del: upt_Suc)
      then show ?thesis using Cons.IH(2)[of "Suc n"] True by (simp del: upt_Suc)
    qed (use Cons.IH(2)[of n] in simp)
  next
    case 3
    then show ?case using Cons.IH(3) by (auto split: if_splits)
  }
qed simp_all

text \<open>Both views of one kind of entry, with one file's entries replaced by shifted copies.\<close>

lemma views_shift:
  fixes b f :: "(string, 'a ptr list) gomap" and line :: "'a \<Rightarrow> 32 word" and shift :: "'a \<Rightarrow> 'a"
    and k :: string and al :: "64 word" and m :: nat
  assumes ok: "views_ok key b f" and ids: "ids_ok n f" and nm: "n \<le> m"
    and key: "\<And>i j x. key (i, shift x) = key (j, x)"
  defines "reps \<equiv> shift_reps line shift al m (get_list f k)"
  shows "get_list (remap_buckets key reps b) x = map (subst reps) (get_list b x)"
    and "get_list (remap_at k reps f) y = map (subst reps) (get_list f y)"
    and "views_ok key (remap_buckets key reps b) (remap_at k reps f)"
    and "ids_ok (m + length reps) (remap_at k reps f)"
    and "snd ` set reps \<inter> fst ` set reps = {}"
    and "e \<in> snd ` set reps \<Longrightarrow> m \<le> fst e \<and> fst e < m + length reps"
proof -
  have olds: "fst ` set reps \<subseteq> set (get_list f k)"
    using shift_reps_props(1)[of line shift al m "get_list f k"] unfolding reps_def
    by (metis filter_is_subset list.set_map)
  have old_ids: "fst e < m" if "e \<in> entries f" for e using ids nm that by (auto simp: ids_ok_def)
  have new_ids: "m \<le> fst e \<and> fst e < m + length reps" if "e \<in> snd ` set reps" for e
  proof -
    have "fst e \<in> set (map (fst \<circ> snd) reps)" using that by auto
    then show ?thesis unfolding reps_def shift_reps_props(2) by simp
  qed
  then show "e \<in> snd ` set reps \<Longrightarrow> m \<le> fst e \<and> fst e < m + length reps" by blast
  have sub: "set (get_list f j) \<subseteq> entries f" "set (get_list b j) \<subseteq> entries f" for j
    using views_okD(3)[OF ok] by (auto simp: entries_def)
  have new_fresh: "snd ` set reps \<inter> entries f = {}" using new_ids old_ids by (meson disjoint_iff not_le)
  then show disj: "snd ` set reps \<inter> fst ` set reps = {}" using olds sub(1) by blast
  have d_old: "distinct (map fst reps)" using views_okD(5)[OF ok, of k]
    by (simp add: reps_def shift_reps_props(1))
  have "distinct (map (fst \<circ> snd) reps)" unfolding reps_def shift_reps_props(2) by simp
  then have d_new: "distinct (map snd reps)" by (metis distinct_map list.map_comp)
  have bucket: "remap (filter (\<lambda>r. key (fst r) = x) reps) (get_list b x) = map (subst reps) (get_list b x)" for x
  proof -
    let ?r = "filter (\<lambda>r. key (fst r) = x) reps"
    have "remap ?r (get_list b x) = map (subst ?r) (get_list b x)"
    proof (rule remap_map)
      show "distinct (get_list b x)" by (rule views_okD(4)[OF ok])
      show "distinct (map fst ?r)" "distinct (map snd ?r)"
        using d_old d_new by (auto intro: distinct_map_filter)
      have "snd ` set ?r \<subseteq> snd ` set reps" "fst ` set ?r \<subseteq> fst ` set reps" by auto
      then show "snd ` set ?r \<inter> (set (get_list b x) \<union> fst ` set ?r) = {}"
        using new_fresh disj sub(2)[of x] by blast
    qed
    moreover have "subst ?r e = subst reps e" if "e \<in> set (get_list b x)" for e
      using that views_okD(3)[OF ok] get_filter_key[of "\<lambda>e. key e = x" reps e] by (simp add: subst_def)
    ultimately show ?thesis by simp
  qed
  show b': "get_list (remap_buckets key reps b) x = map (subst reps) (get_list b x)" for x
    unfolding remap_buckets_def using bucket[of x]
    by (subst get_list_map_value[where g = "\<lambda>x. remap (filter (\<lambda>r. key (fst r) = x) reps)"]) simp_all
  have same: "subst reps e = e" if "e \<in> set (get_list f y)" "y \<noteq> k" for e y
  proof -
    have "e \<notin> fst ` set reps" using olds that views_okD(6)[OF ok] by blast
    then show ?thesis by (simp add: subst_def map_of_eq_None_iff[THEN iffD2])
  qed
  have "remap reps (get_list f k) = map (subst reps) (get_list f k)"
    using new_fresh disj sub(1)[of k] by (intro remap_map views_okD(5)[OF ok] d_old d_new) blast
  then show f': "get_list (remap_at k reps f) y = map (subst reps) (get_list f y)" for y
    unfolding remap_at_def using same[of _ y]
    by (subst get_list_map_value[where g = "\<lambda>k' es. if k' = k then remap reps es else es"])
      (auto intro!: map_idI[symmetric])
  have key': "key (subst reps e) = key e" for e
  proof (cases "map_of reps e")
    case (Some e')
    then have "(e, e') \<in> set reps" by (rule map_of_SomeD)
    then have "snd e' = shift (snd e)" using shift_reps_props(3) unfolding reps_def by fastforce
    then have "e' = (fst e', shift (snd e))" by (simp add: prod_eq_iff)
    then have "key e' = key (fst e, snd e)" using key[of "fst e'" "snd e" "fst e"] by metis
    then show ?thesis using Some by (simp add: subst_def)
  qed (simp add: subst_def)
  have inj: "inj_on (subst reps) (entries f)"
  proof (rule inj_onI)
    fix e e' assume e: "e \<in> entries f" "e' \<in> entries f" "subst reps e = subst reps e'"
    have cases: "subst reps d \<in> entries f \<and> subst reps d = d \<or> (d, subst reps d) \<in> set reps" if "d \<in> entries f" for d
      using that by (cases "map_of reps d") (auto simp: subst_def dest: map_of_SomeD)
    have "x = y" if "(x, z) \<in> set reps" "(y, z) \<in> set reps" for x y z
      using d_new that by (metis distinct_map inj_onD prod.inject snd_conv)
    then show "e = e'" using cases[OF e(1)] cases[OF e(2)] e(3) new_fresh
      by (metis disjoint_iff image_eqI snd_conv)
  qed
  show "views_ok key (remap_buckets key reps b) (remap_at k reps f)"
    by (rule views_map[OF ok inj key' b' _ f'])
      (use views_okD(1,2)[OF ok] in \<open>simp_all add: remap_buckets_def remap_at_def keys_map_value
        del: map_map list.map_comp\<close>)
  show "ids_ok (m + length reps) (remap_at k reps f)" unfolding ids_ok_def entries_def
  proof (intro ballI)
    fix e assume "e \<in> {e. \<exists>y. e \<in> set (get_list (remap_at k reps f) y)}"
    then obtain y d where d: "d \<in> set (get_list f y)" "e = subst reps d" by (auto simp: f')
    show "fst e < m + length reps"
    proof (cases "map_of reps d")
      case None
      then show ?thesis using d sub(1)[of y] old_ids[of d] by (auto simp: subst_def)
    next
      case (Some e')
      then have "e \<in> snd ` set reps" using d(2) by (force simp: subst_def dest: map_of_SomeD)
      then show ?thesis using new_ids by blast
    qed
  qed
qed

end
