(* ===== verification/Index_Props.thy ===== *)
theory Index_Props
  imports Index_Views
begin

text \<open>
  What the index promises its callers: every operation keeps the two views of an entry together,
  a line shift moves exactly the entries of the edited file below the edit, re-indexing replaces,
  and the lookups that search one view answer for both. The readers rest on the interface
  \<open>two_views\<close>, interpreted on the functions and on the component references of the index.
\<close>

section \<open>The readers' interface\<close>

locale two_views =
  fixes bucket :: "'s \<Rightarrow> string \<Rightarrow> 'e list" and in_file :: "'s \<Rightarrow> string \<Rightarrow> 'e list"
    and key :: "'e \<Rightarrow> string" and ok :: "'s \<Rightarrow> bool"
  assumes agree: "ok s \<Longrightarrow> e \<in> set (bucket s n) \<longleftrightarrow> key e = n \<and> (\<exists>k. e \<in> set (in_file s k))"
    and one_file: "ok s \<Longrightarrow> e \<in> set (in_file s k) \<Longrightarrow> e \<in> set (in_file s k') \<Longrightarrow> k = k'"
begin

text \<open>Searching a file for a name finds what searching the name's bucket for the file would.\<close>

lemma same_candidates:
  "ok s \<Longrightarrow> {e \<in> set (in_file s k). key e = n} = {e \<in> set (bucket s n). e \<in> set (in_file s k)}"
  by (auto simp: agree)

text \<open>Replacing one file's list replaces its entries in every bucket and touches no other.\<close>

lemma replaced:
  assumes "ok s" "ok t" "\<And>k. in_file t k = (if k = f then new else in_file s k)"
  shows "set (bucket t n) = set (bucket s n) - set (in_file s f) \<union> {e \<in> set new. key e = n}"
proof (rule set_eqI)
  fix e
  have "(\<exists>k. e \<in> set (in_file t k)) \<longleftrightarrow> e \<in> set new \<or> (\<exists>k. k \<noteq> f \<and> e \<in> set (in_file s k))"
    unfolding assms(3) by auto
  moreover have "(\<exists>k. k \<noteq> f \<and> e \<in> set (in_file s k)) \<longleftrightarrow>
      (\<exists>k. e \<in> set (in_file s k)) \<and> e \<notin> set (in_file s f)"
    using one_file[OF assms(1), of e] by metis
  ultimately show "e \<in> set (bucket t n) \<longleftrightarrow>
      e \<in> set (bucket s n) - set (in_file s f) \<union> {e \<in> set new. key e = n}"
    using agree[OF assms(1), of e n] agree[OF assms(2), of e n] by auto
qed

lemma no_candidates: "ok s \<Longrightarrow> bucket s n = [] \<Longrightarrow> e \<in> set (in_file s k) \<Longrightarrow> key e \<noteq> n"
  using agree[of s e n] by auto

end

lemma views_laws:
  assumes "views_ok key b f"
  shows "e \<in> set (get_list b n) \<longleftrightarrow> key e = n \<and> (\<exists>k. e \<in> set (get_list f k))"
    "e \<in> set (get_list f k) \<Longrightarrow> e \<in> set (get_list f k') \<Longrightarrow> k = k'"
  using views_okD(3,6)[OF assms] by (simp add: entries_def, blast)

lemma index_okD:
  assumes "index_ok s"
  shows "views_ok def_key (funcs s) (fileFuncs s)" "views_ok ref_key (comprefs s) (fileRefs s)"
    "ids_ok (next_ptr s) (fileFuncs s)" "ids_ok (next_ptr s) (fileRefs s)" "scopes_ok s"
  using assms by (simp_all add: index_ok_def)

interpretation defs: two_views "\<lambda>s. get_list (funcs s)" "\<lambda>s. get_list (fileFuncs s)" def_key index_ok
  by unfold_locales (rule views_laws, erule index_okD, erule (2) views_laws(2)[OF index_okD(1)])

interpretation refs: two_views "\<lambda>s. get_list (comprefs s)" "\<lambda>s. get_list (fileRefs s)" ref_key index_ok
  by unfold_locales (rule views_laws, erule index_okD, erule (2) views_laws(2)[OF index_okD(2)])

section \<open>The remaining operations keep the invariant\<close>

definition fn_shift :: "64 word \<Rightarrow> FunctionDef \<Rightarrow> FunctionDef" where
  "fn_shift delta d = d\<lparr>fnLine := shifted_line (fnLine d) delta\<rparr>"

definition ref_shift :: "64 word \<Rightarrow> ComponentRef \<Rightarrow> ComponentRef" where
  "ref_shift delta r = r\<lparr>refLine := shifted_line (refLine r) delta\<rparr>"

lemma shift_fields [simp]:
  "fnName (fn_shift delta d) = fnName d" "refVariable (ref_shift delta r) = refVariable r"
  "refURI (ref_shift delta r) = refURI r"
  by (simp_all add: fn_shift_def ref_shift_def)

definition func_reps :: "uri \<Rightarrow> 64 word \<Rightarrow> 64 word \<Rightarrow> index \<Rightarrow> (def_ptr \<times> def_ptr) list" where
  "func_reps u al delta s = shift_reps fnLine (fn_shift delta) al (next_ptr s) (get_list (fileFuncs s) (uriKey u))"

definition ref_reps :: "uri \<Rightarrow> 64 word \<Rightarrow> 64 word \<Rightarrow> index \<Rightarrow> (ref_ptr \<times> ref_ptr) list" where
  "ref_reps u al delta s = shift_reps refLine (ref_shift delta) al
     (next_ptr s + length (func_reps u al delta s)) (get_list (fileRefs s) (uriKey u))"

lemma locked_fields:
  "funcs (locked s) = funcs s" "fileFuncs (locked s) = fileFuncs s" "comprefs (locked s) = comprefs s"
  "fileRefs (locked s) = fileRefs s" "scopeRefs (locked s) = scopeRefs s" "next_ptr (locked s) = next_ptr s"
  by simp_all

lemma ShiftLines_eq:
  "ShiftLines u al delta s =
    (let fr = func_reps u al delta s; rr = ref_reps u al delta s in
     if fr = [] \<and> rr = [] then locked s
     else (locked s)\<lparr>funcs := remap_buckets def_key fr (funcs s), fileFuncs := remap_at (uriKey u) fr (fileFuncs s),
            comprefs := remap_buckets ref_key rr (comprefs s), fileRefs := remap_at (uriKey u) rr (fileRefs s),
            scopeRefs := map (\<lambda>(k, sc). (k, if k = uriKey u then map (\<lambda>(x, es). (x, remap rr es)) sc else sc))
              (scopeRefs s),
            next_ptr := next_ptr s + length fr + length rr\<rparr>)"
  unfolding ShiftLines_def func_reps_def ref_reps_def fn_shift_def[abs_def] ref_shift_def[abs_def] Let_def
    locked_fields
  by (rule refl)

lemma subst_nil [simp]: "subst [] = (\<lambda>e. e)"
  by (simp add: subst_def fun_eq_iff)

lemma get_map_value: "get (map (\<lambda>(k, v). (k, g k v)) m) k = map_option (g k) (get m k)"
  by (induction m) auto

lemma key_ref: "ref_key (i, ref_shift delta x) = ref_key (j, x)"
  by simp

lemma ShiftLines_views:
  fixes s :: index and u :: uri and al delta :: "64 word"
  assumes ok: "index_ok s"
  defines "fr \<equiv> func_reps u al delta s" and "rr \<equiv> ref_reps u al delta s" and "t \<equiv> ShiftLines u al delta s"
  shows "get_list (funcs t) n = map (subst fr) (get_list (funcs s) n)"
    and "get_list (fileFuncs t) k = map (subst fr) (get_list (fileFuncs s) k)"
    and "get_list (comprefs t) n = map (subst rr) (get_list (comprefs s) n)"
    and "get_list (fileRefs t) k = map (subst rr) (get_list (fileRefs s) k)"
    and "index_ok t"
proof -
  have ok': "views_ok def_key (funcs s) (fileFuncs s)" "views_ok ref_key (comprefs s) (fileRefs s)"
    "ids_ok (next_ptr s) (fileFuncs s)" "ids_ok (next_ptr s) (fileRefs s)" "scopes_ok s"
    using ok by (simp_all add: index_ok_def)
  let ?m = "next_ptr s + length fr"
  have ids: "ids_ok ?m (fileRefs s)" by (rule ids_ok_mono[OF ok'(4)]) simp_all
  note F = views_shift[OF ok'(1) ok'(3) order_refl, where shift = "fn_shift delta" and line = fnLine and al = al
      and k = "uriKey u",
      folded func_reps_def, folded fr_def]
  note R = views_shift[OF ok'(2) ids order_refl, where shift = "ref_shift delta" and line = refLine and al = al
      and k = "uriKey u"]
  have rr: "rr = shift_reps refLine (ref_shift delta) al ?m (get_list (fileRefs s) (uriKey u))"
    by (simp add: rr_def fr_def ref_reps_def)
  note R = R[folded rr]
  have t: "t = (if fr = [] \<and> rr = [] then locked s
     else (locked s)\<lparr>funcs := remap_buckets def_key fr (funcs s), fileFuncs := remap_at (uriKey u) fr (fileFuncs s),
            comprefs := remap_buckets ref_key rr (comprefs s), fileRefs := remap_at (uriKey u) rr (fileRefs s),
            scopeRefs := map (\<lambda>(k, sc). (k, if k = uriKey u then map (\<lambda>(x, es). (x, remap rr es)) sc else sc))
              (scopeRefs s),
            next_ptr := next_ptr s + length fr + length rr\<rparr>)"
    unfolding t_def fr_def rr_def ShiftLines_eq Let_def by (rule refl)
  show lists: "get_list (funcs t) n = map (subst fr) (get_list (funcs s) n)"
    "get_list (fileFuncs t) k = map (subst fr) (get_list (fileFuncs s) k)"
    "get_list (comprefs t) n = map (subst rr) (get_list (comprefs s) n)"
    "get_list (fileRefs t) k = map (subst rr) (get_list (fileRefs s) k)" for n k
    using F(1,2) R(1,2) by (simp_all add: t)
  show "index_ok t"
  proof (cases "fr = [] \<and> rr = []")
    case True
    then show ?thesis using ok by (simp add: t)
  next
    case False
    have fields: "funcs t = remap_buckets def_key fr (funcs s)" "fileFuncs t = remap_at (uriKey u) fr (fileFuncs s)"
      "comprefs t = remap_buckets ref_key rr (comprefs s)" "fileRefs t = remap_at (uriKey u) rr (fileRefs s)"
      "next_ptr t = ?m + length rr"
      "scopeRefs t = map (\<lambda>(k, sc). (k, if k = uriKey u then map (\<lambda>(x, es). (x, remap rr es)) sc else sc)) (scopeRefs s)"
      unfolding t if_not_P[OF False] by simp_all
    have v: "views_ok def_key (funcs t) (fileFuncs t)" "views_ok ref_key (comprefs t) (fileRefs t)"
      unfolding fields by (rule F(3), simp, rule R(3), simp)
    have i: "ids_ok (next_ptr t) (fileFuncs t)" "ids_ok (next_ptr t) (fileRefs t)"
      unfolding fields using F(4) R(4) by (auto intro: ids_ok_mono)
    have "scopes_ok t" unfolding scopes_ok_def
    proof (intro allI impI)
      fix k m x e assume m: "get (scopeRefs t) k = Some m" "e \<in> set (get_list m x)"
      obtain sc where sc: "get (scopeRefs s) k = Some sc"
        "e \<in> set (get_list sc x) \<or> e \<in> set (remap rr (get_list sc x))"
        using m get_list_map_value[where g = "\<lambda>x. remap rr" and m = "the (get (scopeRefs s) k)" and k = x]
        unfolding fields get_map_value by (auto split: if_splits)
      have filed: "e \<in> set (get_list (fileRefs s) k') \<and> fst e < next_ptr s \<or>
          (\<exists>d. d \<in> set (get_list (fileRefs s) k') \<and> (d, e) \<in> set rr)"
        if "e \<in> set (get_list (fileRefs t) k')" for k'
      proof -
        obtain d where d: "d \<in> set (get_list (fileRefs s) k')" "e = subst rr d"
          using \<open>e \<in> set (get_list (fileRefs t) k')\<close> unfolding lists by auto
        then have "fst d < next_ptr s" using ok'(4) unfolding ids_ok_def entries_def by blast
        show ?thesis
        proof (cases "map_of rr d")
          case None
          then show ?thesis using d \<open>fst d < next_ptr s\<close> by (simp add: subst_def)
        next
          case (Some d')
          then have "(d, e) \<in> set rr" using d(2) by (auto simp: subst_def dest: map_of_SomeD)
          then show ?thesis using d(1) by blast
        qed
      qed
      have new: "?m \<le> fst e' \<and> fst e' < next_ptr t" if "e' \<in> snd ` set rr" for e'
        using R(6)[of e'] that key_ref by (simp add: fields)
      have old: "d \<in> set (get_list (fileRefs s) (uriKey u))" "snd d' = ref_shift delta (snd d)"
        if "(d, d') \<in> set rr" for d d'
      proof -
        have "d \<in> set (map fst rr)" using that by force
        then show "d \<in> set (get_list (fileRefs s) (uriKey u))" unfolding rr shift_reps_props(1) by simp
        show "snd d' = ref_shift delta (snd d)"
          using shift_reps_props(3)[of "(d, d')" refLine "ref_shift delta"] that unfolding rr by simp
      qed
      have "e \<in> set (get_list sc x) \<or> (\<exists>d. (d, e) \<in> set rr \<and> d \<in> set (get_list sc x))"
        using sc(2) set_remap[OF R(5), of e "get_list sc x"] key_ref by auto
      then show "fst e < next_ptr t \<and> (\<forall>k'. e \<in> set (get_list (fileRefs t) k') \<longrightarrow> k' = uriKey (refURI (snd e)))"
      proof (elim disjE exE conjE)
        assume e: "e \<in> set (get_list sc x)"
        then have lt: "fst e < next_ptr s" by (rule scopes_okD(1)[OF ok'(5) sc(1)])
        then have "e \<notin> snd ` set rr" using new[of e] by auto
        then show ?thesis using filed scopes_okD(2)[OF ok'(5) sc(1) e] lt by (force simp: fields)
      next
        fix d assume d: "(d, e) \<in> set rr" "d \<in> set (get_list sc x)"
        then have e: "?m \<le> fst e" "fst e < next_ptr t" using new[of e] by force+
        have key: "uriKey u = uriKey (refURI (snd e))"
          using scopes_okD(2)[OF ok'(5) sc(1) d(2) old(1)[OF d(1)]] old(2)[OF d(1)] by simp
        have "k' = uriKey u" if k': "e \<in> set (get_list (fileRefs t) k')" for k'
        proof -
          have "\<not> fst e < next_ptr s" using e(1) by simp
          then obtain d' where "d' \<in> set (get_list (fileRefs s) k')" "(d', e) \<in> set rr"
            using filed[OF k'] by blast
          then show ?thesis using views_okD(6)[OF ok'(2) _ old(1)] by blast
        qed
        then show ?thesis using e(2) key by simp
      qed
    qed
    then show ?thesis using v i by (simp add: index_ok_def)
  qed
qed


text \<open>
  Dropping a folder keeps the views together when the folder's prefix says the same of an entry's
  URI, which the buckets are filtered by, and of the key of its file, which the lists are.
\<close>

definition prefix_agrees :: "string \<Rightarrow> index \<Rightarrow> bool" where
  "prefix_agrees pre s \<longleftrightarrow>
     list_all (\<lambda>(k, ds). list_all (\<lambda>d. HasPrefix (fnURI (snd d)) pre \<longleftrightarrow> HasPrefix k (uriKey pre)) ds) (fileFuncs s) \<and>
     list_all (\<lambda>(k, rs). list_all (\<lambda>r. HasPrefix (refURI (snd r)) pre \<longleftrightarrow> HasPrefix k (uriKey pre)) rs) (fileRefs s)"

lemma get_list_mem: "e \<in> set (get_list m k) \<Longrightarrow> \<exists>l. (k, l) \<in> set m \<and> e \<in> set l"
  by (cases "get m k") (auto simp: get_list_def dest: map_of_SomeD)

lemma get_list_filter_sub: "set (get_list (filter P m) k) \<subseteq> set (get_list m k)" if "distinct_keys m"
proof
  fix e assume "e \<in> set (get_list (filter P m) k)"
  then obtain l where "(k, l) \<in> set m" "e \<in> set l" using get_list_mem by fastforce
  then show "e \<in> set (get_list m k)" using that by (simp add: get_list_def map_of_is_SomeI)
qed

lemma RemoveFilesUnder_ok:
  assumes "index_ok s" "prefix_agrees pre s"
  shows "index_ok (RemoveFilesUnder pre s)"
proof -
  note ok = index_okD[OF assms(1)]
  let ?t = "RemoveFilesUnder pre s" and ?out = "\<lambda>k. HasPrefix k (uriKey pre)"
  have f: "funcs ?t = filter_buckets (\<lambda>e. \<not> HasPrefix (fnURI (snd e)) pre) (funcs s)"
    "fileFuncs ?t = filter (\<lambda>p. \<not> ?out (fst p)) (fileFuncs s)"
    "comprefs ?t = filter_buckets (\<lambda>e. \<not> HasPrefix (refURI (snd e)) pre) (comprefs s)"
    "fileRefs ?t = filter (\<lambda>p. \<not> ?out (fst p)) (fileRefs s)" "next_ptr ?t = next_ptr s"
    by (simp_all add: RemoveFilesUnder_def Let_def)
  have p: "HasPrefix (fnURI (snd e)) pre \<longleftrightarrow> ?out k" if e: "e \<in> set (get_list (fileFuncs s) k)" for e k
  proof -
    obtain l where "(k, l) \<in> set (fileFuncs s)" "e \<in> set l" using get_list_mem[OF e] by blast
    then show ?thesis using assms(2) unfolding prefix_agrees_def list_all_iff by blast
  qed
  have q: "HasPrefix (refURI (snd e)) pre \<longleftrightarrow> ?out k" if e: "e \<in> set (get_list (fileRefs s) k)" for e k
  proof -
    obtain l where "(k, l) \<in> set (fileRefs s)" "e \<in> set l" using get_list_mem[OF e] by blast
    then show ?thesis using assms(2) unfolding prefix_agrees_def list_all_iff by blast
  qed
  have v: "views_ok def_key (funcs ?t) (fileFuncs ?t)" unfolding f
    by (rule views_filter[OF ok(1)]) (use p in blast)
  have w: "views_ok ref_key (comprefs ?t) (fileRefs ?t)" unfolding f
    by (rule views_filter[OF ok(2)]) (use q in blast)
  have sub: "entries (fileFuncs ?t) \<subseteq> entries (fileFuncs s)" "entries (fileRefs ?t) \<subseteq> entries (fileRefs s)"
    unfolding f entries_def
    using get_list_filter_sub[OF views_okD(2)[OF ok(1)]] get_list_filter_sub[OF views_okD(2)[OF ok(2)]]
    by (blast, blast)
  have "ids_ok (next_ptr s) (fileFuncs ?t)" "ids_ok (next_ptr s) (fileRefs ?t)"
    by (rule ids_ok_mono[OF ok(3) order_refl sub(1)], rule ids_ok_mono[OF ok(4) order_refl sub(2)])
  moreover have "scopes_ok ?t" unfolding scopes_ok_def f(5)
  proof (intro allI impI)
    fix k m x e assume m: "get (scopeRefs ?t) k = Some m" "e \<in> set (get_list m x)"
    obtain Q where "scopeRefs ?t = filter (\<lambda>p. Q (fst p)) (scopeRefs s)"
      by (simp add: RemoveFilesUnder_def Let_def)
    then have m': "get (scopeRefs s) k = Some m" using m(1) by (simp add: get_filter_key split: if_splits)
    have "k' = uriKey (refURI (snd e))" if "e \<in> set (get_list (fileRefs ?t) k')" for k'
      using scopes_okD(2)[OF ok(5) m' m(2)] that get_list_filter_sub[OF views_okD(2)[OF ok(2)]] unfolding f by blast
    then show "fst e < next_ptr s \<and> (\<forall>k'. e \<in> set (get_list (fileRefs ?t) k') \<longrightarrow> k' = uriKey (refURI (snd e)))"
      using scopes_okD(1)[OF ok(5) m' m(2)] by blast
  qed
  ultimately show ?thesis using v w by (simp add: index_ok_def f(5))
qed

section \<open>Reachable states\<close>

text \<open>
  One operation of the index. Nothing guards an operation but the argument \<open>may_drop\<close>, which says of
  a prefix and a state whether a folder of that prefix may be dropped there: with \<open>every_drop\<close> the
  steps are those of the program, which tests nothing before it drops one (\<open>reached\<close>), and with
  \<open>prefix_agrees\<close> those of the histories whose folders are spelled as their files are
  (\<open>reachable\<close>), where the views stay together.
\<close>

inductive index_step :: "(string \<Rightarrow> index \<Rightarrow> bool) \<Rightarrow> index \<Rightarrow> index \<Rightarrow> bool" for may_drop where
  index_file: "index_step may_drop s (indexParseResult u pr s)"
| index_result: "index_step may_drop s (IndexFileFromResult u fs rs s)"
| remove_file: "index_step may_drop s (RemoveFile u s)"
| remove_under: "may_drop pre s \<Longrightarrow> index_step may_drop s (RemoveFilesUnder pre s)"
| shift_lines: "index_step may_drop s (ShiftLines u al delta s)"
| func_refs: "index_step may_drop s (SetFuncRefs u k rs s)"
| this_vars: "index_step may_drop s (SetThisVars u vs s)"
| bean_map: "index_step may_drop s (SetBeans m s)"
| entity: "index_step may_drop s (SetEntity n u s)"
| extends: "index_step may_drop s (SetExtends u x s)"
| delegate_list: "index_step may_drop s (SetDelegates u ds s)"
| include_list: "index_step may_drop s (SetIncludes u ps s)"

definition every_drop :: "string \<Rightarrow> index \<Rightarrow> bool" where
  "every_drop pre s \<longleftrightarrow> True"

text \<open>The states the program reaches, and those reached while every dropped folder's prefix agrees.\<close>

definition reached :: "index \<Rightarrow> bool" where
  "reached s \<longleftrightarrow> (index_step every_drop)\<^sup>*\<^sup>* New s"

definition reachable :: "index \<Rightarrow> bool" where
  "reachable s \<longleftrightarrow> (index_step prefix_agrees)\<^sup>*\<^sup>* New s"

lemma index_step_mono:
  "index_step may_drop s t \<Longrightarrow> (\<And>pre s. may_drop pre s \<Longrightarrow> may_drop' pre s) \<Longrightarrow> index_step may_drop' s t"
  by (induction rule: index_step.induct) (blast intro: index_step.intros)+

lemma reachable_reached: "reachable s \<Longrightarrow> reached s"
  unfolding reachable_def reached_def
  by (erule mono_rtranclp[rule_format, rotated]) (erule index_step_mono, simp add: every_drop_def)

lemma reached_step: "reached s \<Longrightarrow> index_step every_drop s t \<Longrightarrow> reached t"
  unfolding reached_def by (rule rtranclp.rtrancl_into_rtrancl)

lemma index_step_ok: "index_step prefix_agrees s t \<Longrightarrow> index_ok s \<Longrightarrow> index_ok t"
  by (induction rule: index_step.induct)
    (auto intro: indexParseResult_ok IndexFileFromResult_ok RemoveFile_ok RemoveFilesUnder_ok
      ShiftLines_views(5) SetFuncRefs_ok setters_ok SetIncludes_ok)

lemma reachable_ok: "reachable s \<Longrightarrow> index_ok s"
proof -
  assume "reachable s"
  then have "(index_step prefix_agrees)\<^sup>*\<^sup>* New s" by (simp add: reachable_def)
  then show ?thesis by (induction rule: rtranclp_induct) (auto intro: New_ok index_step_ok)
qed

lemma reachable_New [simp]: "reachable New"
  by (simp add: reachable_def)

lemma reachable_step: "reachable s \<Longrightarrow> index_step prefix_agrees s t \<Longrightarrow> reachable t"
  unfolding reachable_def by (rule rtranclp.rtrancl_into_rtrancl)


section \<open>Contents after an operation\<close>

lemma subst_shift_reps:
  assumes "distinct ps"
  shows "snd (subst (shift_reps line shift al n ps) p) =
    (if p \<in> set ps \<and> line_after (line (snd p)) al then shift (snd p) else snd p)"
proof -
  let ?r = "shift_reps line shift al n ps"
  have dom: "fst ` set ?r = {p \<in> set ps. line_after (line (snd p)) al}"
    using arg_cong[OF shift_reps_props(1)[of line shift al n ps], of set] by auto
  show ?thesis
  proof (cases "map_of ?r p")
    case None
    then have "p \<notin> fst ` set ?r" by (simp add: map_of_eq_None_iff)
    then have "\<not> (p \<in> set ps \<and> line_after (line (snd p)) al)" unfolding dom by simp
    moreover have "subst ?r p = p" using None by (simp add: subst_def)
    ultimately show ?thesis by (simp only: if_False)
  next
    case (Some p')
    then have m: "(p, p') \<in> set ?r" by (rule map_of_SomeD)
    then have "p \<in> fst ` set ?r" by force
    then have "p \<in> set ps \<and> line_after (line (snd p)) al" unfolding dom by simp
    moreover have "snd p' = shift (snd p)" using shift_reps_props(3)[OF m] by simp
    moreover have "subst ?r p = p'" using Some by (simp add: subst_def)
    ultimately show ?thesis by simp
  qed
qed

lemma Lookup_set: "index_ok s \<Longrightarrow> e \<in> set (Lookup s name) \<longleftrightarrow>
    EqualFold (fnName (snd e)) name \<and> (\<exists>k. e \<in> set (get_list (fileFuncs s) k))"
  unfolding Lookup_def by (simp add: defs.agree EqualFold_def)

lemma LookupComponentRef_set: "index_ok s \<Longrightarrow> e \<in> set (LookupComponentRef s v) \<longleftrightarrow>
    EqualFold (refVariable (snd e)) v \<and> (\<exists>k. e \<in> set (get_list (fileRefs s) k))"
  unfolding LookupComponentRef_def by (simp add: refs.agree EqualFold_def)

lemma IndexFileFromResult_files:
  "get_list (fileFuncs (IndexFileFromResult u fs rs s)) k =
    (if k = uriKey u then alloc (next_ptr s) fs else get_list (fileFuncs s) k)"
  "get_list (fileRefs (IndexFileFromResult u fs rs s)) k =
    (if k = uriKey u then alloc (next_ptr s + length fs) (CompactRefs rs) else get_list (fileRefs s) k)"
  by (simp_all add: IndexFileFromResult_def file_all_def removeFileEntries_def Let_def)

lemma RemoveFile_files:
  "fileFuncs (RemoveFile u s) = del (uriKey u) (fileFuncs s)"
  "fileRefs (RemoveFile u s) = del (uriKey u) (fileRefs s)"
  by (simp_all add: RemoveFile_def removeFileEntries_def Let_def frames)

section \<open>When dropping a folder keeps the views together\<close>

definition views_agree :: "index \<Rightarrow> bool" where
  "views_agree s \<longleftrightarrow>
     (\<forall>name e. e \<in> set (Lookup s name) \<longleftrightarrow>
        EqualFold (fnName (snd e)) name \<and> (\<exists>k. e \<in> set (get_list (fileFuncs s) k))) \<and>
     (\<forall>var r. r \<in> set (LookupComponentRef s var) \<longleftrightarrow>
        EqualFold (refVariable (snd r)) var \<and> (\<exists>k. r \<in> set (get_list (fileRefs s) k))) \<and>
     (\<forall>name. distinct (Lookup s name)) \<and> (\<forall>var. distinct (LookupComponentRef s var))"

lemma views_agree_ok: "index_ok s \<Longrightarrow> views_agree s"
  using views_okD(4)[OF index_okD(1)[of s]] views_okD(4)[OF index_okD(2)[of s]]
  by (simp add: views_agree_def Lookup_set LookupComponentRef_set) (simp add: Lookup_def LookupComponentRef_def)

text \<open>The files of one kind of entry, filtered by key, agree with the filtered buckets only if so.\<close>

lemma filtered_views_agree:
  assumes ok: "views_ok key b f" and mem: "(k, es) \<in> set f" "e \<in> set es"
    and agree: "e \<in> set (get_list (filter_buckets P b) (key e)) \<longleftrightarrow>
      (\<exists>k'. e \<in> set (get_list (filter (\<lambda>p. \<not> out (fst p)) f) k'))"
  shows "P e \<longleftrightarrow> \<not> out k"
proof -
  have e: "e \<in> set (get_list f k)" using mem views_okD(2)[OF ok] by (simp add: get_list_def map_of_is_SomeI)
  then have "e \<in> set (get_list b (key e))" using views_okD(3)[OF ok] by (auto simp: entries_def)
  then have "e \<in> set (get_list (filter_buckets P b) (key e)) \<longleftrightarrow> P e" using views_okD(1)[OF ok] by simp
  moreover have "e \<in> set (get_list f k') \<longleftrightarrow> k' = k" for k' using e views_okD(6)[OF ok] by blast
  then have "(\<exists>k'. e \<in> set (get_list (filter (\<lambda>p. \<not> out (fst p)) f) k')) \<longleftrightarrow> \<not> out k"
    by (auto simp: get_list_filter_key[where P = "\<lambda>k. \<not> out k"] split: if_splits)
  ultimately show ?thesis using agree by blast
qed

lemma RemoveFilesUnder_agrees_iff:
  assumes ok: "index_ok s"
  shows "views_agree (RemoveFilesUnder pre s) \<longleftrightarrow> prefix_agrees pre s"
proof
  show "views_agree (RemoveFilesUnder pre s)" if "prefix_agrees pre s"
    by (rule views_agree_ok[OF RemoveFilesUnder_ok[OF ok that]])
next
  let ?t = "RemoveFilesUnder pre s" and ?out = "\<lambda>k. HasPrefix k (uriKey pre)"
  assume t: "views_agree ?t"
  have f: "funcs ?t = filter_buckets (\<lambda>e. \<not> HasPrefix (fnURI (snd e)) pre) (funcs s)"
    "fileFuncs ?t = filter (\<lambda>p. \<not> ?out (fst p)) (fileFuncs s)"
    "comprefs ?t = filter_buckets (\<lambda>e. \<not> HasPrefix (refURI (snd e)) pre) (comprefs s)"
    "fileRefs ?t = filter (\<lambda>p. \<not> ?out (fst p)) (fileRefs s)"
    by (simp_all add: RemoveFilesUnder_def Let_def)
  have defs: "e \<in> set (get_list (funcs ?t) (def_key e)) \<longleftrightarrow> (\<exists>k. e \<in> set (get_list (fileFuncs ?t) k))" for e
    using t unfolding views_agree_def Lookup_def EqualFold_def by blast
  have refs: "e \<in> set (get_list (comprefs ?t) (ref_key e)) \<longleftrightarrow> (\<exists>k. e \<in> set (get_list (fileRefs ?t) k))" for e
    using t unfolding views_agree_def LookupComponentRef_def EqualFold_def by blast
  show "prefix_agrees pre s" unfolding prefix_agrees_def list_all_iff
    using filtered_views_agree[OF index_okD(1)[OF ok] _ _ defs[unfolded f]]
      filtered_views_agree[OF index_okD(2)[OF ok] _ _ refs[unfolded f]] by fast
qed

section \<open>The references recorded for a scope\<close>

definition scope_prev :: "index \<Rightarrow> uri \<Rightarrow> string \<Rightarrow> ref_ptr list" where
  "scope_prev s u k = get_list (case get (scopeRefs s) (uriKey u) of None \<Rightarrow> [] | Some m \<Rightarrow> m) k"

text \<open>No scope lists a reference twice, so a replacement written over the first copy replaces it.\<close>

definition scope_lists_distinct :: "index \<Rightarrow> bool" where
  "scope_lists_distinct s \<longleftrightarrow> (\<forall>k m x. get (scopeRefs s) k = Some m \<longrightarrow> distinct (get_list m x))"

lemma scope_lists_frame:
  "scope_lists_distinct s \<Longrightarrow> (\<And>k m. get (scopeRefs t) k = Some m \<Longrightarrow> get (scopeRefs s) k = Some m) \<Longrightarrow>
   scope_lists_distinct t"
  unfolding scope_lists_distinct_def by blast

lemma subst_new:
  assumes "index_ok s" "e' \<in> snd ` set (ref_reps u al delta s)"
  shows "next_ptr s \<le> fst e'"
proof -
  have "fst e' \<in> set (map (fst \<circ> snd) (ref_reps u al delta s))" using assms(2) by auto
  then show ?thesis unfolding ref_reps_def shift_reps_props(2) by simp
qed

lemma scope_remap:
  assumes ok: "index_ok s" and sc: "get (scopeRefs s) k = Some m" "distinct (get_list m x)"
  shows "remap (ref_reps u al delta s) (get_list m x) = map (subst (ref_reps u al delta s)) (get_list m x)"
    and "distinct (remap (ref_reps u al delta s) (get_list m x))"
proof -
  let ?r = "ref_reps u al delta s"
  have old: "fst e < next_ptr s" if "e \<in> set (get_list m x) \<union> fst ` set ?r" for e
  proof -
    have "fst ` set ?r \<subseteq> set (get_list (fileRefs s) (uriKey u))"
      unfolding ref_reps_def by (metis filter_is_subset list.set_map shift_reps_props(1))
    then have "fst ` set ?r \<subseteq> entries (fileRefs s)" by (auto simp: entries_def)
    then show ?thesis using that scopes_okD(1)[OF index_okD(5)[OF ok] sc(1), of e x] index_okD(4)[OF ok]
      unfolding ids_ok_def by blast
  qed
  have fresh: "snd ` set ?r \<inter> (set (get_list m x) \<union> fst ` set ?r) = {}"
    using old subst_new[OF ok] by (meson disjoint_iff not_le)
  have olds: "distinct (map fst ?r)" using views_okD(5)[OF index_okD(2)[OF ok]]
    by (simp add: ref_reps_def shift_reps_props(1))
  have "distinct (map (fst \<circ> snd) ?r)" unfolding ref_reps_def shift_reps_props(2) by simp
  then have news: "distinct (map snd ?r)" by (metis distinct_map list.map_comp)
  show eq: "remap ?r (get_list m x) = map (subst ?r) (get_list m x)"
    by (rule remap_map[OF sc(2) olds fresh news])
  have "inj_on (subst ?r) (set (get_list m x))"
  proof (rule inj_onI)
    fix e f assume e: "e \<in> set (get_list m x)" "f \<in> set (get_list m x)" "subst ?r e = subst ?r f"
    have cases: "subst ?r d = d \<or> (d, subst ?r d) \<in> set ?r" for d
      by (cases "map_of ?r d") (auto simp: subst_def dest: map_of_SomeD)
    have "x = y" if "(x, z) \<in> set ?r" "(y, z) \<in> set ?r" for x y z
      using news that by (metis distinct_map inj_onD prod.inject snd_conv)
    then show "e = f" using cases[of e] cases[of f] e fresh by (metis IntI UnI1 empty_iff image_eqI snd_conv)
  qed
  then show "distinct (remap ?r (get_list m x))" using sc(2) unfolding eq by (simp add: distinct_map)
qed

lemma ShiftLines_scopeRefs:
  "scopeRefs (ShiftLines u al delta s) = (if func_reps u al delta s = [] \<and> ref_reps u al delta s = [] then scopeRefs s
   else map (\<lambda>(k, sc). (k, if k = uriKey u then map (\<lambda>(x, es). (x, remap (ref_reps u al delta s) es)) sc else sc))
     (scopeRefs s))"
  by (simp add: ShiftLines_eq Let_def)

lemma get_list_remap: "get_list (map (\<lambda>(x, es). (x, remap r es)) m) x = remap r (get_list m x)"
  by (rule get_list_map_value) simp

lemma remap_no_reps [simp]: "remap [] es = es"
  by (simp add: remap_def)

lemma get_ShiftLines_scopes:
  "get (scopeRefs (ShiftLines u al delta s)) k = map_option (\<lambda>m. if k = uriKey u \<and> \<not> (func_reps u al delta s = [] \<and>
     ref_reps u al delta s = []) then map (\<lambda>(x, es). (x, remap (ref_reps u al delta s) es)) m else m) (get (scopeRefs s) k)"
  unfolding ShiftLines_scopeRefs by (cases "get (scopeRefs s) k") (auto simp: get_map_value)

lemma scope_prev_ShiftLines:
  assumes "index_ok s" "scope_lists_distinct s"
  shows "scope_prev (ShiftLines u al delta s) v k =
    (if uriKey v = uriKey u then map (subst (ref_reps u al delta s)) (scope_prev s v k) else scope_prev s v k)"
proof (cases "get (scopeRefs s) (uriKey v)")
  case None
  then show ?thesis by (cases "uriKey v = uriKey u") (simp_all add: scope_prev_def get_ShiftLines_scopes)
next
  case (Some m)
  have "distinct (get_list m k)" using assms(2) Some unfolding scope_lists_distinct_def by blast
  note eq = scope_remap(1)[OF assms(1) Some this, of u al delta]
  show ?thesis using eq Some by (auto simp: scope_prev_def get_ShiftLines_scopes get_list_remap)
qed

lemma index_step_scope_lists:
  "index_step may_drop s t \<Longrightarrow> index_ok s \<Longrightarrow> scope_lists_distinct s \<Longrightarrow> scope_lists_distinct t"
proof (induction rule: index_step.induct)
  case (shift_lines s u al delta)
  show ?case unfolding scope_lists_distinct_def
  proof (intro allI impI)
    fix k m x assume "get (scopeRefs (ShiftLines u al delta s)) k = Some m"
    then obtain m0 where m0: "get (scopeRefs s) k = Some m0"
      "m = m0 \<or> m = map (\<lambda>(x, es). (x, remap (ref_reps u al delta s) es)) m0"
      by (auto simp: get_ShiftLines_scopes split: if_splits)
    then have "distinct (get_list m0 x)" using shift_lines.prems(2) unfolding scope_lists_distinct_def by blast
    then show "distinct (get_list m x)"
      using m0(2) scope_remap(2)[OF shift_lines.prems(1) m0(1)] by (auto simp: get_list_remap)
  qed
next
  case (func_refs s u k rs)
  let ?new = "alloc (next_ptr s) (CompactRefs rs)"
    and ?m = "case get (scopeRefs s) (uriKey u) of None \<Rightarrow> [] | Some m \<Rightarrow> m"
  have sr: "scopeRefs (SetFuncRefs u k rs s) = put (uriKey u) (put k ?new ?m) (scopeRefs s)"
    by (simp add: SetFuncRefs_def Let_def)
  have "distinct (get_list ?m x)" for x
    using func_refs.prems(2) unfolding scope_lists_distinct_def by (cases "get (scopeRefs s) (uriKey u)") simp_all
  then show ?case using func_refs.prems(2) alloc_props(1)
    unfolding scope_lists_distinct_def sr by simp
next
  case (remove_under pre s)
  obtain Q where "scopeRefs (RemoveFilesUnder pre s) = filter (\<lambda>p. Q (fst p)) (scopeRefs s)"
    by (simp add: RemoveFilesUnder_def Let_def)
  then show ?case using remove_under.prems(2)
    by (auto simp: scope_lists_distinct_def get_filter_key split: if_splits)
qed (erule scope_lists_frame, force simp: indexParseResult_def IndexFileFromResult_def file_all_def
    removeFileEntries_def RemoveFile_def SetThisVars_def SetBeans_def SetEntity_def
    SetExtends_def SetDelegates_def SetIncludes_def Let_def frames get_filter_key split: if_splits)+

lemma reachable_scope_lists: "reachable s \<Longrightarrow> scope_lists_distinct s"
proof -
  assume "reachable s"
  then have "(index_step prefix_agrees)\<^sup>*\<^sup>* New s" by (simp add: reachable_def)
  then show ?thesis
  proof (induction rule: rtranclp_induct)
    case base
    show ?case by (simp add: scope_lists_distinct_def New_def)
  next
    case (step s t)
    then show ?case using index_step_scope_lists[OF step(2)] reachable_ok[unfolded reachable_def] by blast
  qed
qed

section \<open>A workspace of two files\<close>

definition sample_fn :: "string \<Rightarrow> uri \<Rightarrow> 32 word \<Rightarrow> FunctionDef" where
  "sample_fn name u line = \<lparr>fnName = name, fnURI = u, fnLine = line, fnArguments = [], fnReturnType = [],
     fnReturnSources = [], fnReturnComponent = [], fnElementComponent = [], fnDocReturn = [],
     fnReturnVar = [], fnReturnLine = 0, fnReturnsStruct = False\<rparr>"

abbreviation file_a :: uri where "file_a \<equiv> ''file:///w/a.cfc''"
abbreviation file_b :: uri where "file_b \<equiv> ''file:///w/sub/b.cfc''"

definition sample_index :: index where
  "sample_index =
     IndexFileFromResult file_b [sample_fn ''get'' file_b 7] []
       (IndexFileFromResult file_a [sample_fn ''init'' file_a 3, sample_fn ''Get'' file_a 9] [] New)"

lemma sample_reachable: "reachable sample_index"
  unfolding sample_index_def by (intro reachable_step[OF _ index_result] reachable_New)

definition sample_ref :: "string \<Rightarrow> ComponentRef" where
  "sample_ref v = \<lparr>refVariable = v, refComponent = ''models.Svc'', refURI = file_a, refLine = 4, refThis = False,
     refRebinds = False, refBaseGuess = False, refStrictChain = False, refChainBase = [], refChainMethod = [],
     refChainRest = [], refVisibleFrom = 0, refVisibleTo = 0\<rparr>"

definition sample_refs_index :: index where
  "sample_refs_index = SetFuncRefs file_a ''3-8'' [sample_ref ''svc''] sample_index"

lemma sample_refs_reachable: "reachable sample_refs_index"
  unfolding sample_refs_index_def by (rule reachable_step[OF sample_reachable func_refs])

section \<open>Properties\<close>

text \<open>
  C5: After any sequence of indexing, removals of files, removals of folders, line shifts and lazily
  indexed functions in which every removed folder's prefix says the same of its entries' URIs, which
  the name buckets are filtered by, and of their files' keys, which the file lists are
  (\<open>prefix_agrees\<close>), the two views of the index agree: a definition is in a name's bucket exactly
  when it has that name and some file lists it, the same holds of component references, and no bucket
  holds an entry twice. The restriction on folders is needed and exact: the code does not test the
  prefix, and from such a state a removal of a folder leaves the views agreeing exactly when its
  prefix agrees (a state the program reaches where they do not: \<open>reached_views_part\<close>).\<close>

theorem index_views_agree:
  assumes "reachable s"
  shows "(e \<in> set (Lookup s name) \<longleftrightarrow>
      EqualFold (fnName (snd e)) name \<and> (\<exists>k. e \<in> set (get_list (fileFuncs s) k))) \<and>
    (r \<in> set (LookupComponentRef s var) \<longleftrightarrow>
      EqualFold (refVariable (snd r)) var \<and> (\<exists>k. r \<in> set (get_list (fileRefs s) k))) \<and>
    distinct (Lookup s name) \<and> distinct (LookupComponentRef s var) \<and>
    (views_agree (RemoveFilesUnder pre s) \<longleftrightarrow> prefix_agrees pre s)"
proof -
  have ok: "index_ok s" by (rule reachable_ok[OF assms])
  show ?thesis using views_agree_ok[OF ok] RemoveFilesUnder_agrees_iff[OF ok]
    unfolding views_agree_def by blast
qed

theorem index_views_agree_witness:
  "distinct (Lookup sample_index ''get'') \<and>
   map (\<lambda>e. fnURI (snd e)) (Lookup sample_index ''get'') = [file_a, file_b] \<and>
   views_agree (RemoveFilesUnder ''file:///w/sub/'' sample_index) \<and>
   \<not> views_agree (RemoveFilesUnder ''file:///W/'' sample_index)"
proof (intro conjI)
  show "distinct (Lookup sample_index ''get'')"
    using index_views_agree[OF sample_reachable, where name = "''get''"] by blast
  show "map (\<lambda>e. fnURI (snd e)) (Lookup sample_index ''get'') = [file_a, file_b]" by code_simp
  have "prefix_agrees ''file:///w/sub/'' sample_index" "\<not> prefix_agrees ''file:///W/'' sample_index"
    by code_simp+
  then show "views_agree (RemoveFilesUnder ''file:///w/sub/'' sample_index)"
    "\<not> views_agree (RemoveFilesUnder ''file:///W/'' sample_index)"
    using index_views_agree[OF sample_reachable] by blast+
qed

text \<open>
  C6: A line shift moves exactly the definitions and the component references of the edited file that
  stand below the edit, by the given number of lines, in the file's lists, in the buckets by name and
  in the references recorded for the file's scopes, and leaves every other entry, every other file
  and the order of every list as they were. It holds of every state reached by operations whose removed folders'
  prefixes agree (\<open>reachable\<close>).\<close>

theorem ShiftLines_moves_entries:
  assumes "reachable s"
  shows "map snd (FunctionsForFile (ShiftLines u al delta s) u) =
      map (\<lambda>d. if line_after (fnLine d) al then fn_shift delta d else d) (map snd (FunctionsForFile s u)) \<and>
    (uriKey v = uriKey u \<or> map snd (FunctionsForFile (ShiftLines u al delta s) v) = map snd (FunctionsForFile s v)) \<and>
    map snd (Lookup (ShiftLines u al delta s) name) =
      map (\<lambda>p. if p \<in> set (FunctionsForFile s u) \<and> line_after (fnLine (snd p)) al
               then fn_shift delta (snd p) else snd p) (Lookup s name) \<and>
    map snd (RefsForFile (ShiftLines u al delta s) u) =
      map (\<lambda>r. if line_after (refLine r) al then ref_shift delta r else r) (map snd (RefsForFile s u)) \<and>
    (uriKey v = uriKey u \<or> map snd (RefsForFile (ShiftLines u al delta s) v) = map snd (RefsForFile s v)) \<and>
    map snd (LookupComponentRef (ShiftLines u al delta s) var) =
      map (\<lambda>p. if p \<in> set (RefsForFile s u) \<and> line_after (refLine (snd p)) al
               then ref_shift delta (snd p) else snd p) (LookupComponentRef s var) \<and>
    map snd (scope_prev (ShiftLines u al delta s) u k) =
      map (\<lambda>p. if p \<in> set (RefsForFile s u) \<and> line_after (refLine (snd p)) al
               then ref_shift delta (snd p) else snd p) (scope_prev s u k) \<and>
    (uriKey v = uriKey u \<or> scope_prev (ShiftLines u al delta s) v k = scope_prev s v k)"
proof -
  have ok: "index_ok s" by (rule reachable_ok[OF assms])
  have one: "snd (subst (func_reps u al delta s) p) =
      (if p \<in> set (FunctionsForFile s u) \<and> line_after (fnLine (snd p)) al then fn_shift delta (snd p) else snd p)" for p
    unfolding func_reps_def FunctionsForFile_def
    by (rule subst_shift_reps) (rule views_okD(5)[OF index_okD(1)[OF ok]])
  have ref: "snd (subst (ref_reps u al delta s) p) =
      (if p \<in> set (RefsForFile s u) \<and> line_after (refLine (snd p)) al then ref_shift delta (snd p) else snd p)" for p
    unfolding ref_reps_def RefsForFile_def
    by (rule subst_shift_reps) (rule views_okD(5)[OF index_okD(2)[OF ok]])
  have "p \<notin> set (FunctionsForFile s u)" if "uriKey v \<noteq> uriKey u" "p \<in> set (FunctionsForFile s v)" for p
    using that defs.one_file[OF ok, of p] unfolding FunctionsForFile_def by blast
  moreover have "p \<notin> set (RefsForFile s u)" if "uriKey v \<noteq> uriKey u" "p \<in> set (RefsForFile s v)" for p
    using that refs.one_file[OF ok, of p] unfolding RefsForFile_def by blast
  ultimately show ?thesis using one ref
    by (auto simp: FunctionsForFile_def Lookup_def RefsForFile_def LookupComponentRef_def
        ShiftLines_views[OF ok] scope_prev_ShiftLines[OF ok reachable_scope_lists[OF assms]] comp_def)
qed

theorem ShiftLines_moves_entries_witness:
  "map snd (FunctionsForFile (ShiftLines file_a 3 2 sample_refs_index) file_a) =
     [sample_fn ''init'' file_a 3, sample_fn ''Get'' file_a 11] \<and>
   map (\<lambda>r. refLine (snd r)) (RefsForFile (ShiftLines file_a 3 2 sample_refs_index) file_a) = [6] \<and>
   map (\<lambda>r. refLine (snd r)) (LookupComponentRef (ShiftLines file_a 3 2 sample_refs_index) ''svc'') = [6]"
proof (intro conjI)
  let ?s = sample_refs_index
  have "map snd (FunctionsForFile (ShiftLines file_a 3 2 ?s) file_a) =
      map (\<lambda>d. if line_after (fnLine d) 3 then fn_shift 2 d else d) (map snd (FunctionsForFile ?s file_a))"
    using ShiftLines_moves_entries[OF sample_refs_reachable] by blast
  also have "\<dots> = [sample_fn ''init'' file_a 3, sample_fn ''Get'' file_a 11]" by code_simp
  finally show "map snd (FunctionsForFile (ShiftLines file_a 3 2 ?s) file_a) =
    [sample_fn ''init'' file_a 3, sample_fn ''Get'' file_a 11]" .
  have "map snd (RefsForFile (ShiftLines file_a 3 2 ?s) file_a) =
      map (\<lambda>r. if line_after (refLine r) 3 then ref_shift 2 r else r) (map snd (RefsForFile ?s file_a))"
    using ShiftLines_moves_entries[OF sample_refs_reachable] by blast
  then have "map refLine (map snd (RefsForFile (ShiftLines file_a 3 2 ?s) file_a)) =
      map refLine (map (\<lambda>r. if line_after (refLine r) 3 then ref_shift 2 r else r) (map snd (RefsForFile ?s file_a)))"
    by (rule arg_cong)
  also have "\<dots> = [6]" by code_simp
  finally show "map (\<lambda>r. refLine (snd r)) (RefsForFile (ShiftLines file_a 3 2 ?s) file_a) = [6]"
    by (simp add: comp_def)
  have "map snd (LookupComponentRef (ShiftLines file_a 3 2 ?s) ''svc'') =
      map (\<lambda>p. if p \<in> set (RefsForFile ?s file_a) \<and> line_after (refLine (snd p)) 3
        then ref_shift 2 (snd p) else snd p) (LookupComponentRef ?s ''svc'')"
    using ShiftLines_moves_entries[OF sample_refs_reachable] by blast
  then have "map refLine (map snd (LookupComponentRef (ShiftLines file_a 3 2 ?s) ''svc'')) =
      map refLine (map (\<lambda>p. if p \<in> set (RefsForFile ?s file_a) \<and> line_after (refLine (snd p)) 3
        then ref_shift 2 (snd p) else snd p) (LookupComponentRef ?s ''svc''))"
    by (rule arg_cong)
  also have "\<dots> = [6]" by code_simp
  finally show "map (\<lambda>r. refLine (snd r)) (LookupComponentRef (ShiftLines file_a 3 2 ?s) ''svc'') = [6]"
    by (simp add: comp_def)
qed

text \<open>
  C7: Indexing a file replaces it: afterwards the index lists exactly the parse's functions and
  references for the file, in order, other files are untouched, and a name's bucket holds what it
  held of other files and the file's new functions of that name. It holds of every state reached by
  operations whose removed folders' prefixes agree (\<open>reachable\<close>).\<close>

theorem IndexFileFromResult_replaces:
  assumes "reachable s"
  shows "map snd (FunctionsForFile (IndexFileFromResult u fs rs s) u) = fs \<and>
    map snd (RefsForFile (IndexFileFromResult u fs rs s) u) = CompactRefs rs \<and>
    (uriKey v = uriKey u \<or> FunctionsForFile (IndexFileFromResult u fs rs s) v = FunctionsForFile s v \<and>
       RefsForFile (IndexFileFromResult u fs rs s) v = RefsForFile s v) \<and>
    set (Lookup (IndexFileFromResult u fs rs s) name) =
      set (Lookup s name) - set (FunctionsForFile s u) \<union>
      {e \<in> set (FunctionsForFile (IndexFileFromResult u fs rs s) u). EqualFold (fnName (snd e)) name}"
proof -
  have ok: "index_ok s" by (rule reachable_ok[OF assms])
  let ?t = "IndexFileFromResult u fs rs s"
  have t: "index_ok ?t" by (rule IndexFileFromResult_ok[OF ok])
  have "set (Lookup ?t name) = set (Lookup s name) - set (FunctionsForFile s u) \<union>
      {e \<in> set (FunctionsForFile ?t u). EqualFold (fnName (snd e)) name}"
    unfolding Lookup_def FunctionsForFile_def EqualFold_def
    by (rule defs.replaced[OF ok t]) (simp add: IndexFileFromResult_files)
  then show ?thesis
    by (auto simp: FunctionsForFile_def RefsForFile_def IndexFileFromResult_files alloc_props(3))
qed

theorem IndexFileFromResult_replaces_witness:
  "map snd (FunctionsForFile (IndexFileFromResult file_a [sample_fn ''get'' file_a 1] [] sample_index) file_a) =
     [sample_fn ''get'' file_a 1] \<and>
   map (\<lambda>e. fnLine (snd e)) (Lookup (IndexFileFromResult file_a [sample_fn ''get'' file_a 1] [] sample_index) ''get'')
     = [7, 1]"
proof
  show "map snd (FunctionsForFile (IndexFileFromResult file_a [sample_fn ''get'' file_a 1] [] sample_index) file_a) =
      [sample_fn ''get'' file_a 1]"
    using IndexFileFromResult_replaces[OF sample_reachable] by blast
  show "map (\<lambda>e. fnLine (snd e)) (Lookup (IndexFileFromResult file_a [sample_fn ''get'' file_a 1] [] sample_index) ''get'')
     = [7, 1]" by code_simp
qed

text \<open>
  Removing a file leaves nothing of it: no functions, no references, no includes, no entity
  registered by it, and its definitions are gone from every bucket while all others stay.\<close>

theorem RemoveFile_removes:
  assumes "reachable s"
  shows "\<not> HasFile (RemoveFile u s) u \<and> RefsForFile (RemoveFile u s) u = [] \<and>
    IncludesForFile (RemoveFile u s) u = [] \<and>
    list_all (\<lambda>p. uriKey (snd p) \<noteq> uriKey u) (entities (RemoveFile u s)) \<and>
    set (Lookup (RemoveFile u s) name) = set (Lookup s name) - set (FunctionsForFile s u) \<and>
    set (LookupComponentRef (RemoveFile u s) name) = set (LookupComponentRef s name) - set (RefsForFile s u)"
proof -
  have ok: "index_ok s" by (rule reachable_ok[OF assms])
  let ?t = "RemoveFile u s"
  have t: "index_ok ?t" by (rule RemoveFile_ok[OF ok])
  have "set (Lookup ?t name) = set (Lookup s name) - set (FunctionsForFile s u)"
    using defs.replaced[OF ok t, of "uriKey u" "[]"] by (simp add: Lookup_def FunctionsForFile_def RemoveFile_files)
  moreover have "set (LookupComponentRef ?t name) = set (LookupComponentRef s name) - set (RefsForFile s u)"
    using refs.replaced[OF ok t, of "uriKey u" "[]"] by (simp add: LookupComponentRef_def RefsForFile_def RemoveFile_files)
  moreover have "get (includeMap ?t) (uriKey u) = None"
    by (auto simp: RemoveFile_def Let_def setIncludesLocked_def removeFileEntries_def)
  moreover have "list_all (\<lambda>p. uriKey (snd p) \<noteq> uriKey u) (entities ?t)"
    by (simp add: RemoveFile_def Let_def list_all_iff)
  ultimately show ?thesis
    by (simp add: HasFile_def RefsForFile_def IncludesForFile_def RemoveFile_files)
qed

theorem RemoveFile_removes_witness:
  "\<not> HasFile (RemoveFile file_a sample_index) file_a \<and>
   map (\<lambda>e. fnURI (snd e)) (Lookup (RemoveFile file_a sample_index) ''get'') = [file_b]"
proof
  show "\<not> HasFile (RemoveFile file_a sample_index) file_a"
    using RemoveFile_removes[OF sample_reachable] by blast
  show "map (\<lambda>e. fnURI (snd e)) (Lookup (RemoveFile file_a sample_index) ''get'') = [file_b]" by code_simp
qed


section \<open>Readers\<close>

definition no_farther :: "uri \<Rightarrow> def_ptr \<Rightarrow> def_ptr \<Rightarrow> bool" where
  "no_farther u d e \<longleftrightarrow> URIDistance u (fnURI (snd d)) < URIDistance u (fnURI (snd e)) \<or>
     URIDistance u (fnURI (snd d)) = URIDistance u (fnURI (snd e)) \<and> fnURI (snd d) \<le> fnURI (snd e)"

lemma no_farther_refl [simp]: "no_farther u d d"
  by (simp add: no_farther_def)

lemma no_farther_trans: "no_farther u d e \<Longrightarrow> no_farther u e f \<Longrightarrow> no_farther u d f"
  unfolding no_farther_def using order_trans by fastforce

lemma nearer_step:
  "nearer u (b, URIDistance u (fnURI (snd b))) d =
    (if no_farther u b d then (b, URIDistance u (fnURI (snd b))) else (d, URIDistance u (fnURI (snd d)))) "
  by (auto simp: nearer_def no_farther_def Let_def)

lemma not_no_farther: "\<not> no_farther u b d \<Longrightarrow> no_farther u d b"
  by (auto simp: no_farther_def)

lemma nearer_fold:
  "\<exists>d \<in> set (b # ds). foldl (nearer u) (b, URIDistance u (fnURI (snd b))) ds = (d, URIDistance u (fnURI (snd d))) \<and>
    (\<forall>e \<in> set (b # ds). no_farther u d e)"
proof (induction ds arbitrary: b)
  case (Cons x ds)
  let ?c = "if no_farther u b x then b else x"
  have c: "no_farther u ?c b" "no_farther u ?c x" using not_no_farther by auto
  obtain d where d: "d \<in> set (?c # ds)"
    "foldl (nearer u) (?c, URIDistance u (fnURI (snd ?c))) ds = (d, URIDistance u (fnURI (snd d)))"
    "\<forall>e \<in> set (?c # ds). no_farther u d e"
    using Cons.IH by blast
  have "no_farther u d ?c" using d(3) by simp
  then have "no_farther u d b" "no_farther u d x" using c no_farther_trans by blast+
  then have "\<forall>e \<in> set (b # x # ds). no_farther u d e" using d(3) by auto
  moreover have "d \<in> set (b # x # ds)" using d(1) by (auto split: if_splits)
  moreover have "foldl (nearer u) (b, URIDistance u (fnURI (snd b))) (x # ds) = (d, URIDistance u (fnURI (snd d)))"
    using d(2) by (simp add: nearer_step split: if_splits)
  ultimately show ?case by blast
qed simp

lemma nearestTo_nearest:
  "defs \<noteq> [] \<Longrightarrow> nearestTo defs u \<in> set defs \<and> (\<forall>e \<in> set defs. no_farther u (nearestTo defs u) e)"
  using nearer_fold[of "hd defs" "tl defs" u] by (auto simp: nearestTo_def Let_def)

text \<open>
  C8: The definition shown for a bare name is one of the candidates; it is the requesting file's own
  exactly when that file declares the name, and otherwise the one in the nearest directory, the
  lowest URI among equals, so the answer does not depend on the order files were indexed in. It holds
  of every state reached by operations whose removed folders' prefixes agree (\<open>reachable\<close>).\<close>

theorem LookupPreferred_nearest:
  assumes "reachable s"
  shows "case LookupPreferred s name u of (found, inFile, n) \<Rightarrow>
    n = length (Lookup s name) \<and>
    (case found of
       None \<Rightarrow> Lookup s name = []
     | Some d \<Rightarrow> d \<in> set (Lookup s name) \<and>
         (inFile \<longleftrightarrow> (\<exists>e \<in> set (Lookup s name). e \<in> set (FunctionsForFile s u))) \<and>
         (if inFile then d \<in> set (FunctionsForFile s u)
          else list_all (no_farther u d) (Lookup s name)))"
proof -
  have ok: "index_ok s" by (rule reachable_ok[OF assms])
  let ?l = "Lookup s name" and ?f = "FunctionsForFile s u"
  have own: "d \<in> set ?l" if "d \<in> set ?f" "EqualFold (fnName (snd d)) name" for d
    using that Lookup_set[OF ok] by (auto simp: FunctionsForFile_def)
  show ?thesis
  proof (cases "List.find (\<lambda>d. EqualFold (fnName (snd d)) name) ?f")
    case None
    then have "\<not> EqualFold (fnName (snd e)) name" if "e \<in> set ?f" for e
      using that None unfolding find_None_iff by blast
    then have "\<not> (\<exists>e \<in> set ?l. e \<in> set ?f)" using Lookup_set[OF ok] by blast
    then show ?thesis using None nearestTo_nearest[of ?l u]
      by (auto simp: LookupPreferred_def Let_def list_all_iff simp flip: Lookup_def FunctionsForFile_def)
  next
    case (Some d)
    then have "d \<in> set ?f" "EqualFold (fnName (snd d)) name" by (auto simp: find_Some_iff)
    then show ?thesis using Some own[of d]
      by (auto simp: LookupPreferred_def Let_def simp flip: Lookup_def FunctionsForFile_def)
  qed
qed

theorem LookupPreferred_nearest_witness:
  "case LookupPreferred sample_index ''GET'' ''file:///w/sub/z.cfc'' of (found, inFile, n) \<Rightarrow>
    n = length (Lookup sample_index ''GET'') \<and>
    (case found of
       None \<Rightarrow> Lookup sample_index ''GET'' = []
     | Some d \<Rightarrow> d \<in> set (Lookup sample_index ''GET'') \<and>
         (inFile \<longleftrightarrow> (\<exists>e \<in> set (Lookup sample_index ''GET''). e \<in> set (FunctionsForFile sample_index ''file:///w/sub/z.cfc''))) \<and>
         (if inFile then d \<in> set (FunctionsForFile sample_index ''file:///w/sub/z.cfc'')
          else list_all (no_farther ''file:///w/sub/z.cfc'' d) (Lookup sample_index ''GET'')))"
  by (rule LookupPreferred_nearest[OF sample_reachable])

lemma better_ref_fold:
  "case foldl (better_ref v line) b rs of
     None \<Rightarrow> b = None \<and> (\<forall>r \<in> set rs. line < refLine (snd r) \<or> \<not> EqualFold (refVariable (snd r)) v)
   | Some d \<Rightarrow> (Some d = b \<or> d \<in> set rs \<and> refLine (snd d) \<le> line \<and> EqualFold (refVariable (snd d)) v) \<and>
       (case b of None \<Rightarrow> True | Some b' \<Rightarrow> refLine (snd b') \<le> refLine (snd d)) \<and>
       (\<forall>r \<in> set rs. refLine (snd r) \<le> line \<longrightarrow> EqualFold (refVariable (snd r)) v \<longrightarrow> refLine (snd r) \<le> refLine (snd d))"
proof (induction rs arbitrary: b)
  case Nil
  then show ?case by (cases b) simp_all
next
  case (Cons r rs)
  note IH = Cons[of "better_ref v line b r"]
  show ?case
  proof (cases "line < refLine (snd r) \<or> \<not> EqualFold (refVariable (snd r)) v")
    case True
    then have "better_ref v line b r = b" by (simp add: better_ref_def)
    then show ?thesis using IH True by (auto split: option.splits)
  next
    case False
    then have r: "refLine (snd r) \<le> line" "EqualFold (refVariable (snd r)) v" by auto
    show ?thesis
    proof (cases b)
      case None
      then have "better_ref v line b r = Some r" using False by (simp add: better_ref_def)
      then show ?thesis using IH r None by (auto split: option.splits)
    next
      case (Some b')
      then have "better_ref v line b r = Some (if refLine (snd b') < refLine (snd r) then r else b')"
        using False by (simp add: better_ref_def)
      then show ?thesis using IH r Some by (auto split: option.splits if_splits)
    qed
  qed
qed

definition refs_upto :: "string \<Rightarrow> 32 word \<Rightarrow> ref_ptr list \<Rightarrow> ref_ptr list" where
  "refs_upto v line = filter (\<lambda>r. refLine (snd r) \<le> line \<and> EqualFold (refVariable (snd r)) v)"

text \<open>
  The component a variable holds at a line is taken from the latest assignment at or before that
  line in the file, and there is none exactly when the file assigns the variable only later.\<close>

theorem LookupComponentRefInFile_latest:
  "case LookupComponentRefInFile s v u line of
     None \<Rightarrow> refs_upto v line (RefsForFile s u) = []
   | Some d \<Rightarrow> d \<in> set (refs_upto v line (RefsForFile s u)) \<and>
       list_all (\<lambda>r. refLine (snd r) \<le> refLine (snd d)) (refs_upto v line (RefsForFile s u))"
proof -
  have "case foldl (better_ref v line) None (RefsForFile s u) of
     None \<Rightarrow> (\<forall>r \<in> set (RefsForFile s u). line < refLine (snd r) \<or> \<not> EqualFold (refVariable (snd r)) v)
   | Some d \<Rightarrow> (d \<in> set (RefsForFile s u) \<and> refLine (snd d) \<le> line \<and> EqualFold (refVariable (snd d)) v) \<and>
       (\<forall>r \<in> set (RefsForFile s u). refLine (snd r) \<le> line \<longrightarrow> EqualFold (refVariable (snd r)) v \<longrightarrow>
          refLine (snd r) \<le> refLine (snd d))"
    using better_ref_fold[where b = None and v = v and line = line and rs = "RefsForFile s u"]
    by (cases "foldl (better_ref v line) None (RefsForFile s u)") simp_all
  then show ?thesis
    unfolding LookupComponentRefInFile_def RefsForFile_def[symmetric] refs_upto_def list_all_iff
    by (auto split: option.splits simp: not_le filter_empty_conv)
qed

section \<open>Scopes\<close>

lemma map_snd_filter_alloc: "map snd (filter (\<lambda>e. P (snd e)) (alloc n xs)) = filter P xs"
  by (metis (no_types, lifting) alloc_props(3) comp_apply filter_cong filter_map)

lemma SetFuncRefs_buckets:
  assumes "index_ok s"
  shows "get_list (comprefs (SetFuncRefs u k rs s)) v =
    filter (\<lambda>e. e \<notin> set (scope_prev s u k)) (get_list (comprefs s) v) @
    filter (\<lambda>e. ref_key e = v) (alloc (next_ptr s) (CompactRefs rs))"
proof -
  have "filter (\<lambda>e. e \<notin> set (scope_prev s u k)) (get_list (comprefs s) v) = get_list (comprefs s) v"
    if "v \<notin> ref_key ` set (scope_prev s u k)"
  proof (rule filter_True)
    show "\<forall>e \<in> set (get_list (comprefs s) v). e \<notin> set (scope_prev s u k)"
    proof
      fix e assume "e \<in> set (get_list (comprefs s) v)"
      then have "ref_key e = v" by (simp add: refs.agree[OF assms])
      then show "e \<notin> set (scope_prev s u k)" using that by auto
    qed
  qed
  then have "get_list (if scope_prev s u k = [] then comprefs s
      else sweep (\<lambda>e. e \<notin> set (scope_prev s u k)) (uniq (map ref_key (scope_prev s u k))) (comprefs s)) v =
    filter (\<lambda>e. e \<notin> set (scope_prev s u k)) (get_list (comprefs s) v)"
    by (auto simp: get_list_sweep uniq_def)
  moreover have "comprefs (SetFuncRefs u k rs s) = file_entries ref_key
      (if scope_prev s u k = [] then comprefs s
       else sweep (\<lambda>e. e \<notin> set (scope_prev s u k)) (uniq (map ref_key (scope_prev s u k))) (comprefs s))
      (alloc (next_ptr s) (CompactRefs rs))"
    by (simp add: SetFuncRefs_def Let_def scope_prev_def)
  ultimately show ?thesis by simp
qed

lemma SetFuncRefs_scope:
  "scope_prev (SetFuncRefs u k rs s) u k = alloc (next_ptr s) (CompactRefs rs)"
  by (simp add: scope_prev_def SetFuncRefs_def Let_def)

text \<open>
  Indexing a function's references again replaces what was recorded for it: recording \<open>rs'\<close> and
  then \<open>rs\<close> for one scope leaves every variable's bucket as recording \<open>rs\<close> alone would, so editing
  and hovering in turn never accumulates copies.\<close>

theorem SetFuncRefs_replaces:
  assumes "reachable s"
  shows "map snd (LookupComponentRef (SetFuncRefs u k rs (SetFuncRefs u k rs' s)) v) =
    map snd (LookupComponentRef (SetFuncRefs u k rs s) v)"
proof -
  have ok: "index_ok s" by (rule reachable_ok[OF assms])
  have ok': "index_ok (SetFuncRefs u k rs' s)" by (rule SetFuncRefs_ok[OF ok])
  let ?n = "next_ptr s" and ?v = "ToLower v"
  let ?new = "alloc ?n (CompactRefs rs')"
  have "set (get_list (comprefs s) ?v) \<inter> set ?new = {}"
    using alloc_fresh[OF index_okD(4)[OF ok] order_refl, of "CompactRefs rs'"]
    by (auto simp: refs.agree[OF ok] entries_def simp del: split_paired_All)
  then have keep: "filter (\<lambda>e. e \<notin> set ?new) (filter (\<lambda>e. e \<notin> set (scope_prev s u k)) (get_list (comprefs s) ?v)) =
      filter (\<lambda>e. e \<notin> set (scope_prev s u k)) (get_list (comprefs s) ?v)"
    by (intro filter_True) auto
  have none: "filter (\<lambda>e. e \<notin> set ?new) (filter (\<lambda>e. ref_key e = ?v) ?new) = []"
    by (simp add: filter_empty_conv)
  have new: "map snd (filter (\<lambda>e. ref_key e = ?v) (alloc m (CompactRefs rs))) =
      filter (\<lambda>r. ToLower (refVariable r) = ?v) (CompactRefs rs)" for m
    by (rule map_snd_filter_alloc[where P = "\<lambda>r. ToLower (refVariable r) = ?v"])
  show ?thesis
    unfolding LookupComponentRef_def SetFuncRefs_buckets[OF ok'] SetFuncRefs_scope
      SetFuncRefs_buckets[OF ok] filter_append keep none map_append new by simp
qed

theorem SetFuncRefs_replaces_witness:
  "map snd (LookupComponentRef (SetFuncRefs file_a ''3-8'' [sample_ref ''svc'']
      (SetFuncRefs file_a ''3-8'' [sample_ref ''svc'', sample_ref ''dao''] sample_index)) ''svc'') =
   map snd (LookupComponentRef (SetFuncRefs file_a ''3-8'' [sample_ref ''svc''] sample_index) ''svc'')"
  by (rule SetFuncRefs_replaces[OF sample_reachable])


section \<open>Where the views come apart\<close>

text \<open>
  \<open>RemoveFilesUnder\<close> filters the buckets by the entries' URIs as written and the files by their
  keys, which are decoded and lowercased. A folder URI spelled differently from the files' leaves
  their definitions in the buckets while the files are gone; and a folder without a slash at its
  end takes a sibling whose name starts like it along.
\<close>

lemma RemoveFilesUnder_splits_views:
  "FunctionsForFile (RemoveFilesUnder ''file:///W'' sample_index) file_a = [] \<and>
   length (Lookup (RemoveFilesUnder ''file:///W'' sample_index) ''get'') = 2"
  by code_simp

lemma reached_views_part: "\<exists>s. reached s \<and> \<not> views_agree s"
proof -
  have "\<not> prefix_agrees ''file:///W'' sample_index" by code_simp
  then have "\<not> views_agree (RemoveFilesUnder ''file:///W'' sample_index)"
    using RemoveFilesUnder_agrees_iff[OF reachable_ok[OF sample_reachable]] by blast
  moreover have "reached (RemoveFilesUnder ''file:///W'' sample_index)"
    by (rule reached_step[OF reachable_reached[OF sample_reachable] remove_under]) (simp add: every_drop_def)
  ultimately show ?thesis by blast
qed

lemma RemoveFilesUnder_sibling:
  "Lookup (RemoveFilesUnder ''file:///ws/app''
     (IndexFileFromResult ''file:///ws/app2/a.cfc'' [sample_fn ''get'' ''file:///ws/app2/a.cfc'' 1] [] New)) ''get'' = []"
  by code_simp

text \<open>A persistent component without an entity name is registered again by every re-index.\<close>

definition sample_parse :: parse_info where
  "sample_parse = \<lparr>prFuncs = [], prRefs = [], prThisVars = [], prExtends = [], prDelegates = [],
     prEntityName = [], prPersistent = True, prIncludes = []\<rparr>"

lemma default_entity_duplicated:
  "EntityCandidates (indexParseResult file_a sample_parse (indexParseResult file_a sample_parse New)) ''a'' =
    [file_a, file_a]"
  by code_simp

end
