(* ===== verification/Go_Path.thy ===== *)
theory Go_Path
  imports Go_Strings
begin

text \<open>
  Go's slash separated paths (package \<open>path\<close>): \<open>path.Clean\<close>, \<open>path.Dir\<close> and \<open>path.Join\<close>.
\<close>

section \<open>Cleaning\<close>

text \<open>
  \<open>path.Clean\<close> keeps the elements of the path on a stack: an empty element and a dot are dropped,
  two dots take the element before them away, or stay where there is none and the path is relative.
\<close>

definition clean_step :: "bool \<Rightarrow> string list \<Rightarrow> string \<Rightarrow> string list" where
  "clean_step rooted stack e =
     (if e = [] \<or> e = ''.'' then stack
      else if e = ''..'' then
        (if stack \<noteq> [] \<and> last stack \<noteq> ''..'' then butlast stack
         else if rooted then stack else stack @ [e])
      else stack @ [e])"

definition path_clean :: "string \<Rightarrow> string" where
  "path_clean p =
     (if p = [] then ''.''
      else let rooted = HasPrefix p ''/'';
               elems = foldl (clean_step rooted) [] (split_on (CHR ''/'') p);
               body = join ''/'' elems
           in if rooted then CHR ''/'' # body else if body = [] then ''.'' else body)"

text \<open>\<open>path.Dir\<close>: what comes before the last slash, cleaned.\<close>

definition path_dir :: "string \<Rightarrow> string" where
  "path_dir p = path_clean (case last_index_byte p (CHR ''/'') of None \<Rightarrow> [] | Some i \<Rightarrow> take (i + 1) p)"

definition path_join :: "string list \<Rightarrow> string" where
  "path_join es = (case filter (\<lambda>e. e \<noteq> []) es of [] \<Rightarrow> [] | xs \<Rightarrow> path_clean (join ''/'' xs))"

lemma path_dir_examples:
  "path_dir ''a/b/c.cfc'' = ''a/b''" "path_dir ''c.cfc'' = ''.''" "path_dir ''/c'' = ''/''"
  "path_clean ''a//b/../../..'' = ''..''" "path_clean ''/../a/./b/'' = ''/a/b''"
  by code_simp+

end
