(* ===== verification/Code_Map.thy ===== *)
theory Code_Map
  imports Go_Maps Go_Path Uris "HOL-Library.Product_Lexorder"
begin

text \<open>
  The whole-project map (internal/codemap): nodes and edges, the annotation pass that labels islands,
  reachable code and roots (annotate.go), and the views cut from a map (views.go).
\<close>

section \<open>The map\<close>

datatype NodeKind = KindFunction | KindFile | KindExternal | KindPackage

datatype EdgeKind = EdgeCalls | EdgeInstantiates | EdgeExtends | EdgeIncludes | EdgeRoute | EdgeContains

fun kind_string :: "EdgeKind \<Rightarrow> string" where
  "kind_string EdgeCalls = ''calls''"
| "kind_string EdgeInstantiates = ''instantiates''"
| "kind_string EdgeExtends = ''extends''"
| "kind_string EdgeIncludes = ''includes''"
| "kind_string EdgeRoute = ''route''"
| "kind_string EdgeContains = ''contains''"

datatype Level = LevelFunction | LevelFile | LevelPackage | LevelCall

record Node =
  ID :: string
  Kind :: NodeKind
  Name :: string
  File :: string
  Line :: "32 word"
  Access :: string
  Component :: string
  Entry :: bool
  Abstract :: bool
  IslandNo :: nat
  Reachable :: bool
  Root :: bool
  Utility :: bool
  Boundary :: bool

record Edge =
  From :: string
  To :: string
  EKind :: EdgeKind
  Count :: nat
  Dynamic :: bool

text \<open>The counters of \<open>Stats\<close>; the views copy them and the annotation sets the last two.\<close>

record Stats =
  sFiles :: nat
  sFunctions :: nat
  sCallSites :: nat
  sResolved :: nat
  sDynamic :: nat
  sUnresolved :: nat
  sBuiltin :: nat
  sUnreadable :: nat
  sRoutes :: nat
  sRoutesUnresolved :: nat
  sUtility :: nat
  sCached :: nat
  sBuildMillis :: nat
  sIslands :: nat
  sDetached :: nat

record Map =
  mRoot :: string
  mLevel :: Level
  mFingerprint :: string
  mNodes :: "Node list"
  mEdges :: "Edge list"
  mStats :: Stats

section \<open>Identifiers\<close>

definition FuncID :: "string \<Rightarrow> string \<Rightarrow> string" where
  "FuncID relFile name = relFile @ ''::'' @ ToLower name"

definition FileID :: "string \<Rightarrow> string" where
  "FileID relFile = relFile"

definition ExternalID :: "string \<Rightarrow> string" where
  "ExternalID label = ''?'' @ ToLower label"

definition PackageID :: "string \<Rightarrow> string" where
  "PackageID dir = (if dir = [] \<or> dir = ''.'' then ''.'' else dir)"

definition dirOf :: "Node \<Rightarrow> string" where
  "dirOf n = (if File n = [] then ''.'' else PackageID (path_dir (File n)))"

definition structural :: "EdgeKind \<Rightarrow> bool" where
  "structural k \<longleftrightarrow> k \<noteq> EdgeContains"

definition invokes :: "EdgeKind \<Rightarrow> bool" where
  "invokes k \<longleftrightarrow> k = EdgeCalls \<or> k = EdgeRoute"

section \<open>Breadth first\<close>

type_synonym adj = "(string, string list) gomap"

definition add_edge :: "string \<Rightarrow> string \<Rightarrow> adj \<Rightarrow> adj" where
  "add_edge a b m = put a (get_list m a @ [b]) m"

text \<open>\<open>Map.adjacency\<close>, and the loops like it in \<open>markReachable\<close>.\<close>

definition adjacency :: "bool \<Rightarrow> Map \<Rightarrow> adj" where
  "adjacency structuralOnly m =
     foldl (\<lambda>a e. if structuralOnly \<and> \<not> structural (EKind e) then a else add_edge (From e) (To e) a) []
       (mEdges m)"

text \<open>
  The loop \<open>for len(queue) > 0\<close> of \<open>assignIslands\<close>, \<open>markReachable\<close> and \<open>Map.Reachable\<close>: nodes not
  marked yet get the mark \<open>v\<close> and join the queue.
\<close>

definition visit :: "'v \<Rightarrow> (string, 'v) gomap \<times> string list \<Rightarrow> string \<Rightarrow> (string, 'v) gomap \<times> string list" where
  "visit v = (\<lambda>(marks, queue) n.
     if get marks n \<noteq> None then (marks, queue) else (put n v marks, queue @ [n]))"

definition unmarked :: "adj \<Rightarrow> (string, 'v) gomap \<Rightarrow> string set" where
  "unmarked a marks = {n. \<exists>k. n \<in> set (get_list a k)} - dom (get marks)"

lemma finite_targets: "finite {n. \<exists>k. n \<in> set (get_list a k)}"
proof -
  have "{n. \<exists>k. n \<in> set (get_list a k)} \<subseteq> (\<Union>l \<in> snd ` set a. set l)"
    by (auto simp: get_list_def split: option.splits dest!: map_of_SomeD)
      (metis image_eqI map_of_SomeD snd_conv)
  then show ?thesis by (rule finite_subset) simp
qed

lemma visit_unmarked:
  "set ns \<subseteq> {n. \<exists>k. n \<in> set (get_list a k)} \<Longrightarrow>
    (case foldl (visit v) (marks, queue) ns of (marks', queue') \<Rightarrow>
       card (unmarked a marks') + length queue' = card (unmarked a marks) + length queue)"
proof (induction ns arbitrary: marks queue)
  case (Cons n ns)
  have n: "n \<in> {n. \<exists>k. n \<in> set (get_list a k)}" using Cons.prems by simp
  show ?case
  proof (cases "get marks n")
    case None
    then have "unmarked a (put n v marks) = unmarked a marks - {n}" "n \<in> unmarked a marks"
      using n by (auto simp: unmarked_def split: if_splits)
    moreover have "finite (unmarked a marks)" by (simp add: unmarked_def finite_targets)
    ultimately have "Suc (card (unmarked a (put n v marks))) = card (unmarked a marks)"
      by (metis card_Suc_Diff1)
    moreover have "visit v (marks, queue) n = (put n v marks, queue @ [n])" using None by (simp add: visit_def)
    ultimately show ?thesis using Cons.IH[of "put n v marks" "queue @ [n]"] Cons.prems by auto
  next
    case (Some y)
    then have "visit v (marks, queue) n = (marks, queue)" by (simp add: visit_def)
    then show ?thesis using Cons by simp
  qed
qed simp

function (sequential) bfs :: "'v \<Rightarrow> adj \<Rightarrow> (string, 'v) gomap \<Rightarrow> string list \<Rightarrow> (string, 'v) gomap" where
  "bfs v a marks [] = marks"
| "bfs v a marks (cur # queue) =
     (let (marks', queue') = foldl (visit v) (marks, queue) (get_list a cur) in bfs v a marks' queue')"
  by pat_completeness auto
termination
proof (relation "measure (\<lambda>(v, a, marks, queue). card (unmarked a marks) + length queue)")
  fix v :: 'v and a :: adj and marks :: "(string, 'v) gomap" and cur queue x marks' queue'
  assume eq: "x = foldl (visit v) (marks, queue) (get_list a cur)" "(marks', queue') = x"
  have "set (get_list a cur) \<subseteq> {n. \<exists>k. n \<in> set (get_list a k)}" by auto
  from visit_unmarked[OF this, where v = v and marks = marks and queue = queue]
  have "card (unmarked a marks') + length queue' = card (unmarked a marks) + length queue"
    using eq by (auto split: prod.splits)
  then show "((v, a, marks', queue'), v, a, marks, cur # queue)
      \<in> measure (\<lambda>(v, a, marks, queue). card (unmarked a marks) + length queue)" by simp
qed simp

section \<open>Annotation\<close>

text \<open>\<open>assignIslands\<close>: every edge both ways, components numbered in the order of the ids.\<close>

definition undirected :: "Map \<Rightarrow> adj" where
  "undirected m = foldl (\<lambda>a e. add_edge (To e) (From e) (add_edge (From e) (To e) a)) [] (mEdges m)"

definition island_step :: "adj \<Rightarrow> (string, nat) gomap \<times> nat \<Rightarrow> string \<Rightarrow> (string, nat) gomap \<times> nat" where
  "island_step a = (\<lambda>(island, next) ident.
     if get island ident \<noteq> None then (island, next)
     else (bfs next a (put ident next island) [ident], next + 1))"

definition islands_of :: "Map \<Rightarrow> (string, nat) gomap \<times> nat" where
  "islands_of m = foldl (island_step (undirected m)) ([], 0) (sort (map ID (mNodes m)))"

definition get_int :: "(string, nat) gomap \<Rightarrow> string \<Rightarrow> nat" where
  "get_int m k = (case get m k of None \<Rightarrow> 0 | Some n \<Rightarrow> n)"

definition assignIslands :: "Map \<Rightarrow> Map \<times> nat" where
  "assignIslands m =
     (let (island, n) = islands_of m
      in (m\<lparr>mNodes := map (\<lambda>x. x\<lparr>IslandNo := get_int island (ID x)\<rparr>) (mNodes m)\<rparr>, n))"

text \<open>\<open>markReachable\<close>.\<close>

definition entry_queue :: "Node list \<Rightarrow> (string, bool) gomap \<times> string list" where
  "entry_queue ns = foldl (visit True) ([], []) (map ID (filter Entry ns))"

definition reached_from_entries :: "Map \<Rightarrow> (string, bool) gomap" where
  "reached_from_entries m = (let (seen, queue) = entry_queue (mNodes m) in bfs True (adjacency True m) seen queue)"

definition markReachable :: "Map \<Rightarrow> Map" where
  "markReachable m =
     (let seen = reached_from_entries m
      in m\<lparr>mNodes := map (\<lambda>x. x\<lparr>Reachable := get seen (ID x) = Some True\<rparr>) (mNodes m)\<rparr>)"

text \<open>\<open>in\<close>, the number of dependency edges that point at each node.\<close>

definition InDegree :: "Map \<Rightarrow> (string, nat) gomap" where
  "InDegree m =
     foldl (\<lambda>d e. if structural (EKind e) then put (To e) (get_int d (To e) + 1) d else d) [] (mEdges m)"

definition set_roots :: "(string, nat) gomap \<Rightarrow> Node list \<Rightarrow> Node list" where
  "set_roots d ns = map (\<lambda>n. n\<lparr>Root := get_int d (ID n) = 0\<rparr>) ns"

definition has_root :: "Node list \<Rightarrow> nat set" where
  "has_root ns = set (map IslandNo (filter Root ns))"

definition lowest_step :: "(nat, string) gomap \<Rightarrow> Node \<Rightarrow> (nat, string) gomap" where
  "lowest_step low n =
     (case get low (IslandNo n) of
        None \<Rightarrow> put (IslandNo n) (ID n) low
      | Some cur \<Rightarrow> if ID n < cur then put (IslandNo n) (ID n) low else low)"

definition lowest_of :: "Node list \<Rightarrow> (nat, string) gomap" where
  "lowest_of ns = foldl lowest_step [] ns"

definition markRoots :: "Map \<Rightarrow> Map" where
  "markRoots m =
     (let ns = set_roots (InDegree m) (mNodes m); hasRoot = has_root ns; low = lowest_of ns
      in m\<lparr>mNodes := map (\<lambda>n. if IslandNo n \<notin> hasRoot \<and> get low (IslandNo n) = Some (ID n)
             then n\<lparr>Root := True\<rparr> else n) ns\<rparr>)"

definition Annotate :: "Map \<Rightarrow> Map" where
  "Annotate m =
     (let (m1, islands) = assignIslands m;
          m2 = markRoots (markReachable m1)
      in m2\<lparr>mStats := (mStats m2)\<lparr>sIslands := islands,
             sDetached := length (filter (\<lambda>n. \<not> Reachable n) (mNodes m2))\<rparr>\<rparr>)"

text \<open>\<open>Islands\<close>.\<close>

record Island =
  iID :: nat
  iNodes :: "string list"
  iRoots :: "string list"
  iReachable :: bool

definition island_add :: "(nat, Island) gomap \<Rightarrow> Node \<Rightarrow> (nat, Island) gomap" where
  "island_add m n =
     (let isl = (case get m (IslandNo n) of
                   None \<Rightarrow> \<lparr>iID = IslandNo n, iNodes = [], iRoots = [], iReachable = False\<rparr> | Some i \<Rightarrow> i)
      in put (IslandNo n)
           (isl\<lparr>iNodes := iNodes isl @ [ID n], iRoots := (if Root n then iRoots isl @ [ID n] else iRoots isl),
                iReachable := iReachable isl \<or> Reachable n\<rparr>) m)"

definition Islands :: "Map \<Rightarrow> Island list" where
  "Islands m =
     sort_key (\<lambda>i. (- int (length (iNodes i)), iID i))
       (map (\<lambda>p. (snd p)\<lparr>iNodes := sort (iNodes (snd p)), iRoots := sort (iRoots (snd p))\<rparr>)
          (foldl island_add [] (mNodes m)))"

section \<open>Views\<close>

definition subgraph :: "(string \<Rightarrow> bool) \<Rightarrow> Map \<Rightarrow> Map" where
  "subgraph keep m =
     Annotate (m\<lparr>mNodes := filter (\<lambda>n. keep (ID n)) (mNodes m),
                 mEdges := filter (\<lambda>e. keep (From e) \<and> keep (To e)) (mEdges m)\<rparr>)"

definition Detached :: "Map \<Rightarrow> Map" where
  "Detached m = subgraph (\<lambda>i. i \<in> set (map ID (filter (\<lambda>n. \<not> Reachable n) (mNodes m)))) m"

definition reach_roots :: "string list \<Rightarrow> Map \<Rightarrow> string list" where
  "reach_roots from m = (if from = [] then map ID (filter Entry (mNodes m)) else from)"

definition ReachableFrom :: "string list \<Rightarrow> Map \<Rightarrow> Map" where
  "ReachableFrom from m =
     (let (seen, queue) = foldl (visit True) ([], []) (reach_roots from m);
          marks = bfs True (adjacency True m) seen queue
      in subgraph (\<lambda>i. get marks i \<noteq> None) m)"

definition Orphans :: "Map \<Rightarrow> Node list" where
  "Orphans m =
     (let reached = To ` {e \<in> set (mEdges m). structural (EKind e)}
      in filter (\<lambda>n. \<not> (Kind n = KindExternal \<or> Entry n \<or> ID n \<in> reached)) (mNodes m))"

definition NodeIndex :: "Map \<Rightarrow> (string, Node) gomap" where
  "NodeIndex m = foldl (\<lambda>d n. put (ID n) n d) [] (mNodes m)"

definition HubsWhere :: "nat \<Rightarrow> (Node \<Rightarrow> bool) option \<Rightarrow> Map \<Rightarrow> Node list" where
  "HubsWhere limit keep m =
     (let d = InDegree m; idx = NodeIndex m;
          ranked = concat (map (\<lambda>p. case get idx (fst p) of
              None \<Rightarrow> []
            | Some n \<Rightarrow> if (case keep of Some k \<Rightarrow> \<not> k n | None \<Rightarrow> False) then [] else [n]) d);
          sorted = sort_key (\<lambda>n. (- int (get_int d (ID n)), ID n)) ranked
      in if 0 < limit \<and> limit < length sorted then take limit sorted else sorted)"

definition Hubs :: "nat \<Rightarrow> Map \<Rightarrow> Node list" where
  "Hubs limit m = HubsWhere limit None m"

definition in_prefix :: "string \<Rightarrow> Node \<Rightarrow> bool" where
  "in_prefix pre n \<longleftrightarrow> HasPrefix (File n) pre \<or> HasPrefix (ID n) pre"

definition FilterUnder :: "string \<Rightarrow> Map \<Rightarrow> Map" where
  "FilterUnder pre m =
     (if pre = [] then m
      else let inScope = set (map ID (filter (in_prefix pre) (mNodes m)));
               es = filter (\<lambda>e. structural (EKind e)) (mEdges m);
               keep = inScope \<union> set (map To (filter (\<lambda>e. From e \<in> inScope) es)) \<union>
                      set (map From (filter (\<lambda>e. To e \<in> inScope) es));
               out = subgraph (\<lambda>i. i \<in> keep) m
           in out\<lparr>mNodes := map (\<lambda>n. n\<lparr>Boundary := ID n \<notin> inScope\<rparr>) (mNodes out)\<rparr>)"

definition Filter :: "string \<Rightarrow> Map \<Rightarrow> Map" where
  "Filter pre m =
     (if pre = [] then m
      else subgraph (\<lambda>i. i \<in> set (map ID (filter (in_prefix pre) (mNodes m)))) m)"

definition CallGraph :: "Map \<Rightarrow> Map" where
  "CallGraph m =
     (let es = filter (\<lambda>e. invokes (EKind e)) (mEdges m);
          calls = set (map From es) \<union> set (map To es);
          keep = set (map ID (filter (\<lambda>n. Kind n = KindFunction \<or> Kind n = KindExternal \<or> ID n \<in> calls) (mNodes m)))
      in Annotate (m\<lparr>mLevel := LevelCall,
           mNodes := filter (\<lambda>n. ID n \<in> keep) (mNodes m),
           mEdges := filter (\<lambda>e. invokes (EKind e) \<and> From e \<in> keep \<and> To e \<in> keep) (mEdges m)\<rparr>))"

section \<open>Collapsing\<close>

definition empty_node :: Node where
  "empty_node = \<lparr>ID = [], Kind = KindFile, Name = [], File = [], Line = 0, Access = [], Component = [],
     Entry = False, Abstract = False, IslandNo = 0, Reachable = False, Root = False, Utility = False,
     Boundary = False\<rparr>"

definition collapseTarget :: "Level \<Rightarrow> Node \<Rightarrow> Node" where
  "collapseTarget level n =
     (case level of
        LevelFile \<Rightarrow>
          (if Kind n = KindExternal \<or> File n = [] then n
           else empty_node\<lparr>ID := FileID (File n), Kind := KindFile, Name := path_base (File n), File := File n,
                  Component := Component n, Entry := Entry n \<and> Kind n \<noteq> KindFunction, Utility := Utility n\<rparr>)
      | LevelPackage \<Rightarrow>
          (if Kind n = KindExternal then n
           else let dir = dirOf n
             in empty_node\<lparr>ID := PackageID dir, Kind := KindPackage, Name := dir, File := dir, Entry := Entry n,
                  Abstract := True, Utility := Utility n\<rparr>)
      | LevelFunction \<Rightarrow> n
      | LevelCall \<Rightarrow> n)"

definition merge_node :: "Level \<Rightarrow> (string, Node) gomap \<Rightarrow> Node \<Rightarrow> (string, Node) gomap" where
  "merge_node level merged n =
     (let target = collapseTarget level n
      in case get merged (ID target) of
           None \<Rightarrow> put (ID target) target merged
         | Some existing \<Rightarrow>
             put (ID target) (existing\<lparr>Entry := Entry existing \<or> Entry target,
                                       Utility := Utility existing \<and> Utility target\<rparr>) merged)"

type_synonym edgeKey = "string \<times> string \<times> EdgeKind"

definition merge_edge :: "(string, string) gomap \<Rightarrow> (edgeKey, Edge) gomap \<Rightarrow> Edge \<Rightarrow> (edgeKey, Edge) gomap" where
  "merge_edge remap edges e =
     (if \<not> structural (EKind e) then edges
      else let from = (case get remap (From e) of None \<Rightarrow> [] | Some i \<Rightarrow> i);
               to = (case get remap (To e) of None \<Rightarrow> [] | Some i \<Rightarrow> i)
        in if from = [] \<or> to = [] \<or> from = to then edges
           else let k = (from, to, EKind e)
             in case get edges k of
                  None \<Rightarrow> put k \<lparr>From = from, To = to, EKind = EKind e, Count = Count e, Dynamic = Dynamic e\<rparr> edges
                | Some x \<Rightarrow> put k (x\<lparr>Count := Count x + Count e,
                                      Dynamic := (if \<not> Dynamic e then False else Dynamic x)\<rparr>) edges)"

definition sortedNodes :: "(string, Node) gomap \<Rightarrow> Node list" where
  "sortedNodes m = sort_key ID (map snd m)"

definition sortedEdges :: "(edgeKey, Edge) gomap \<Rightarrow> Edge list" where
  "sortedEdges m = sort_key (\<lambda>e. (From e, To e, kind_string (EKind e))) (map snd m)"

definition remap_of :: "Level \<Rightarrow> Node list \<Rightarrow> (string, string) gomap" where
  "remap_of level ns = foldl (\<lambda>r n. put (ID n) (ID (collapseTarget level n)) r) [] ns"

definition Collapse :: "Level \<Rightarrow> Map \<Rightarrow> Map" where
  "Collapse level m =
     (if level = mLevel m \<or> level = LevelFunction then m
      else let remap = remap_of level (mNodes m);
               merged = foldl (merge_node level) [] (mNodes m);
               edges = foldl (merge_edge remap) [] (mEdges m)
           in Annotate (m\<lparr>mLevel := level, mNodes := sortedNodes merged, mEdges := sortedEdges edges\<rparr>))"

end
