(* ===== verification/Code_Map_Props.thy ===== *)
theory Code_Map_Props
  imports Code_Map
begin

text \<open>
  What the annotation and the views of the whole-project map guarantee: reachability and islands are
  the graph notions, every island can be drawn from a root, a scoped view keeps the edges across its
  border, and a collapse loses no call.
\<close>

section \<open>Breadth first search visits what can be reached\<close>

definition arcs :: "adj \<Rightarrow> (string \<times> string) set" where
  "arcs a = {(x, y). y \<in> set (get_list a x)}"

lemma visit_list:
  "foldl (visit v) (marks, queue) ns = (marks', queue') \<Longrightarrow>
     get marks' n = (if get marks n = None \<and> n \<in> set ns then Some v else get marks n) \<and>
     set queue' = set queue \<union> (set ns - dom (get marks))"
proof (induction ns arbitrary: marks queue)
  case (Cons x ns)
  show ?case
  proof (cases "get marks x")
    case None
    then have "foldl (visit v) (put x v marks, queue @ [x]) ns = (marks', queue')"
      using Cons.prems by (simp add: visit_def)
    from Cons.IH[OF this] None show ?thesis by auto
  next
    case (Some y)
    then have "foldl (visit v) (marks, queue) ns = (marks', queue')"
      using Cons.prems by (simp add: visit_def)
    from Cons.IH[OF this] Some show ?thesis by auto
  qed
qed simp

lemma closed_rtrancl: "(x, y) \<in> R\<^sup>* \<Longrightarrow> x \<in> S \<Longrightarrow> R `` S \<subseteq> S \<Longrightarrow> y \<in> S"
  by (induction rule: rtrancl_induct) auto

lemma bfs_get:
  "set queue \<subseteq> dom (get marks) \<Longrightarrow> arcs a `` (dom (get marks) - set queue) \<subseteq> dom (get marks) \<Longrightarrow>
   get (bfs v a marks queue) n =
     (if get marks n = None \<and> n \<in> (arcs a)\<^sup>* `` set queue then Some v else get marks n)"
proof (induction v a marks queue rule: bfs.induct)
  case (2 v a marks cur queue)
  obtain marks' queue' where step: "foldl (visit v) (marks, queue) (get_list a cur) = (marks', queue')"
    by fastforce
  let ?R = "arcs a"
  have marks': "get marks' n = (if get marks n = None \<and> (cur, n) \<in> ?R then Some v else get marks n)" for n
    using visit_list[OF step, of n] by (simp add: arcs_def)
  have queue': "set queue' = set queue \<union> (?R `` {cur} - dom (get marks))"
    using visit_list[OF step] by (auto simp: arcs_def)
  have dom': "dom (get marks') = dom (get marks) \<union> ?R `` {cur}"
    by (auto simp: marks' dom_def split: if_splits)
  have closed': "?R `` (dom (get marks') - set queue') \<subseteq> dom (get marks')"
    using "2.prems"(2) unfolding dom' queue' by auto
  have IH: "get (bfs v a marks' queue') n =
      (if get marks' n = None \<and> n \<in> ?R\<^sup>* `` set queue' then Some v else get marks' n)"
  proof (rule "2.IH"[OF step[symmetric] refl _ closed'])
    show "set queue' \<subseteq> dom (get marks')" using "2.prems"(1) unfolding dom' queue' by auto
  qed
  have reach: "n \<in> ?R\<^sup>* `` set queue' \<longleftrightarrow> n \<in> ?R\<^sup>* `` set (cur # queue)" if "get marks' n = None"
  proof
    assume "n \<in> ?R\<^sup>* `` set queue'"
    then show "n \<in> ?R\<^sup>* `` set (cur # queue)"
      unfolding queue' by (auto intro: converse_rtrancl_into_rtrancl)
  next
    assume "n \<in> ?R\<^sup>* `` set (cur # queue)"
    then obtain y where "y \<in> set (cur # queue)" "(y, n) \<in> ?R\<^sup>*" by auto
    moreover have "y \<in> dom (get marks') \<union> ?R\<^sup>* `` set queue'"
      using calculation(1) "2.prems"(1) dom' by auto
    moreover have "?R `` (dom (get marks') \<union> ?R\<^sup>* `` set queue') \<subseteq> dom (get marks') \<union> ?R\<^sup>* `` set queue'"
    proof
      fix z assume "z \<in> ?R `` (dom (get marks') \<union> ?R\<^sup>* `` set queue')"
      then obtain x where x: "(x, z) \<in> ?R" "x \<in> dom (get marks') - set queue' \<or> x \<in> ?R\<^sup>* `` set queue'"
        by blast
      then show "z \<in> dom (get marks') \<union> ?R\<^sup>* `` set queue'"
        using closed' by (blast intro: rtrancl_into_rtrancl)
    qed
    ultimately have "n \<in> dom (get marks') \<union> ?R\<^sup>* `` set queue'" by (elim closed_rtrancl)
    then show "n \<in> ?R\<^sup>* `` set queue'" using that by auto
  qed
  have result: "bfs v a marks (cur # queue) = bfs v a marks' queue'" using step by simp
  have "n \<in> ?R\<^sup>* `` set (cur # queue)" if "(cur, n) \<in> ?R" using that by auto
  then show ?case
    unfolding result IH using reach by (cases "get marks' n") (auto simp: marks' split: if_splits)
qed auto

declare bfs.simps [simp del]

section \<open>Adjacency\<close>

lemma arcs_Nil [simp]: "arcs [] = {}"
  by (simp add: arcs_def)

lemma arcs_add_edge [simp]: "arcs (add_edge x y a) = insert (x, y) (arcs a)"
  by (auto simp: arcs_def add_edge_def split: if_splits)

definition dependencies :: "Edge list \<Rightarrow> (string \<times> string) set" where
  "dependencies es = {(From e, To e) |e. e \<in> set es \<and> structural (EKind e)}"

definition linked :: "Edge list \<Rightarrow> (string \<times> string) set" where
  "linked es = {(From e, To e) |e. e \<in> set es} \<union> {(To e, From e) |e. e \<in> set es}"

lemma arcs_adjacency: "arcs (adjacency True m) = dependencies (mEdges m)"
proof -
  have "arcs (foldl (\<lambda>a e. if True \<and> \<not> structural (EKind e) then a else add_edge (From e) (To e) a) a es) =
      arcs a \<union> dependencies es" for a es
    by (induction es arbitrary: a) (auto simp: dependencies_def)
  then show ?thesis by (simp add: adjacency_def)
qed

lemma arcs_undirected: "arcs (undirected m) = linked (mEdges m)"
proof -
  have "arcs (foldl (\<lambda>a e. add_edge (To e) (From e) (add_edge (From e) (To e) a)) a es) =
      arcs a \<union> linked es" for a es
    by (induction es arbitrary: a) (auto simp: linked_def)
  then show ?thesis by (simp add: undirected_def)
qed

lemma linked_sym: "(x, y) \<in> (linked es)\<^sup>* \<Longrightarrow> (y, x) \<in> (linked es)\<^sup>*"
proof -
  assume "(x, y) \<in> (linked es)\<^sup>*"
  moreover have "sym (linked es)" by (auto simp: linked_def sym_def)
  ultimately show ?thesis by (meson sym_rtrancl symD)
qed

section \<open>Reachability\<close>

lemma reached_from_entries_get:
  "get (reached_from_entries m) n =
     (if \<exists>e \<in> set (mNodes m). Entry e \<and> (ID e, n) \<in> (dependencies (mEdges m))\<^sup>* then Some True else None)"
proof -
  obtain seen queue where eq: "entry_queue (mNodes m) = (seen, queue)" by fastforce
  have seen: "get seen k = (if k \<in> ID ` {e \<in> set (mNodes m). Entry e} then Some True else None)" for k
    using visit_list[OF eq[unfolded entry_queue_def], of k] by auto
  have queue: "set queue = ID ` {e \<in> set (mNodes m). Entry e}"
    using visit_list[OF eq[unfolded entry_queue_def]] by auto
  have dom: "dom (get seen) = set queue" by (auto simp: dom_def seen queue split: if_splits)
  have "get (reached_from_entries m) n =
     (if get seen n = None \<and> n \<in> (dependencies (mEdges m))\<^sup>* `` set queue then Some True else get seen n)"
    using bfs_get[of queue seen "adjacency True m" True n] dom
    by (simp add: reached_from_entries_def eq arcs_adjacency)
  then show ?thesis by (auto simp: seen queue)
qed

section \<open>Islands\<close>

text \<open>
  What the loop over the sorted ids keeps: the labelled nodes are exactly those linked to an id seen so
  far, two of them carry the same number exactly when they are linked, and the numbers in use are the
  ones below the next.
\<close>

definition islands_ok :: "(string \<times> string) set \<Rightarrow> string set \<Rightarrow> (string, nat) gomap \<times> nat \<Rightarrow> bool" where
  "islands_ok R ids = (\<lambda>(island, n).
     dom (get island) = R\<^sup>* `` ids \<and> get island ` ids = Some ` {..<n} \<and>
     (\<forall>x \<in> dom (get island). \<forall>y \<in> dom (get island). get island x = get island y \<longleftrightarrow> (x, y) \<in> R\<^sup>*))"

lemma islands_ok_same:
  "islands_ok R ids (island, n) \<Longrightarrow> x \<in> dom (get island) \<Longrightarrow> y \<in> dom (get island) \<Longrightarrow>
     get island x = get island y \<longleftrightarrow> (x, y) \<in> R\<^sup>*"
  unfolding islands_ok_def by blast

lemma islands_ok_dom: "islands_ok R ids (island, n) \<Longrightarrow> dom (get island) = R\<^sup>* `` ids"
  unfolding islands_ok_def by blast

lemma islands_ok_range: "islands_ok R ids (island, n) \<Longrightarrow> get island ` ids = Some ` {..<n}"
  unfolding islands_ok_def by blast

lemma islands_ok_less:
  assumes "islands_ok R ids (island, n)" "get island x = Some k"
  shows "k < n"
proof -
  obtain i where i: "i \<in> ids" "(i, x) \<in> R\<^sup>*" using assms islands_ok_dom by fastforce
  have "i \<in> dom (get island)" using i islands_ok_dom[OF assms(1)] by auto
  then have "get island i = get island x" using islands_ok_same[OF assms(1)] i assms(2) by blast
  then have "Some k \<in> get island ` ids" using i assms(2) by force
  then show ?thesis using islands_ok_range[OF assms(1)] by auto
qed

lemma island_step_ok:
  assumes ok: "islands_ok (linked es) ids (island, n)" and a: "arcs a = linked es"
  shows "islands_ok (linked es) (insert i ids) (island_step a (island, n) i)"
proof (cases "get island i")
  case (Some k)
  let ?R = "linked es"
  have "i \<in> ?R\<^sup>* `` ids" using Some islands_ok_dom[OF ok] by blast
  then have "?R\<^sup>* `` insert i ids = ?R\<^sup>* `` ids" by (auto intro: rtrancl_trans)
  moreover have "get island ` insert i ids = get island ` ids"
    using islands_ok_range[OF ok] islands_ok_less[OF ok Some] Some by auto
  ultimately show ?thesis using ok Some by (simp add: island_step_def islands_ok_def)
next
  case None
  let ?R = "linked es" and ?m = "put i n island"
  let ?r = "bfs n a ?m [i]"
  have new: "i \<notin> ?R\<^sup>* `` ids" using None islands_ok_dom[OF ok] by blast
  have closed: "x \<notin> dom (get island)" if "(i, x) \<in> ?R\<^sup>*" for x
    using that new islands_ok_dom[OF ok] linked_sym[OF that] by (auto simp: Image_iff intro: rtrancl_trans)
  have "arcs a `` (dom (get ?m) - set [i]) \<subseteq> dom (get ?m)"
  proof
    fix y assume "y \<in> arcs a `` (dom (get ?m) - set [i])"
    then obtain x where "(x, y) \<in> ?R" "x \<in> dom (get ?m) - {i}" unfolding a by auto
    then have "(x, y) \<in> ?R" "x \<in> dom (get island)" by auto
    then have "y \<in> ?R\<^sup>* `` ids" unfolding islands_ok_dom[OF ok] by (auto intro: rtrancl_into_rtrancl)
    then have "y \<in> dom (get island)" unfolding islands_ok_dom[OF ok] .
    then show "y \<in> dom (get ?m)" by auto
  qed
  moreover have "set [i] \<subseteq> dom (get ?m)" by auto
  ultimately have "get ?r x = (if get ?m x = None \<and> x \<in> ?R\<^sup>* `` set [i] then Some n else get ?m x)" for x
    unfolding a[symmetric] by (intro bfs_get)
  then have r: "get ?r x = (if (i, x) \<in> ?R\<^sup>* then Some n else get island x)" for x
    using closed[of x] by (auto simp: dom_def)
  have domr: "dom (get ?r) = ?R\<^sup>* `` insert i ids"
    using islands_ok_dom[OF ok] by (auto simp: r dom_def split: if_splits)
  have "get ?r x = get island x" if "x \<in> ids" for x
    using closed[of x] that islands_ok_dom[OF ok] by (auto simp: r)
  then have "get ?r ` ids = Some ` {..<n}" using islands_ok_range[OF ok] by (simp cong: image_cong)
  then have ran: "get ?r ` insert i ids = Some ` {..<n + 1}" by (auto simp: r less_Suc_eq)
  have same: "get ?r x = get ?r y \<longleftrightarrow> (x, y) \<in> ?R\<^sup>*" if xy: "x \<in> dom (get ?r)" "y \<in> dom (get ?r)" for x y
  proof (cases "(i, x) \<in> ?R\<^sup>*")
    case True
    then have "(i, y) \<in> ?R\<^sup>* \<longleftrightarrow> (x, y) \<in> ?R\<^sup>*" using linked_sym by (meson rtrancl_trans)
    moreover have "get island y \<noteq> Some n" using islands_ok_less[OF ok, of y n] by blast
    ultimately show ?thesis using True by (auto simp: r)
  next
    case False
    show ?thesis
    proof (cases "(i, y) \<in> ?R\<^sup>*")
      case True
      then have "(x, y) \<notin> ?R\<^sup>*" using False linked_sym by (meson rtrancl_trans)
      moreover have "get island x \<noteq> Some n" using islands_ok_less[OF ok, of x n] by blast
      ultimately show ?thesis using True False by (simp add: r)
    next
      case no: False
      then have "x \<in> dom (get island)" "y \<in> dom (get island)" using xy False by (auto simp: r dom_def)
      then show ?thesis using False no islands_ok_same[OF ok] by (simp add: r)
    qed
  qed
  have "island_step a (island, n) i = (?r, n + 1)" using None by (simp add: island_step_def)
  then show ?thesis using domr ran same by (simp add: islands_ok_def)
qed

lemma islands_of_ok: "islands_ok (linked (mEdges m)) (ID ` set (mNodes m)) (islands_of m)"
proof -
  have fold: "islands_ok (linked es) (ids \<union> set xs) (foldl (island_step a) s xs)"
    if "islands_ok (linked es) ids s" "arcs a = linked es" for es ids s a xs
    using that
  proof (induction xs arbitrary: ids s)
    case (Cons x xs)
    have "islands_ok (linked es) (insert x ids) (island_step a s x)"
      using island_step_ok[of es ids "fst s" "snd s"] Cons.prems by simp
    from Cons.IH[OF this] show ?case using Cons.prems by simp
  qed simp
  have "islands_ok (linked (mEdges m)) {} ([], 0)" by (simp add: islands_ok_def)
  from fold[OF this arcs_undirected, of "sort (map ID (mNodes m))"] show ?thesis
    by (simp add: islands_of_def)
qed

section \<open>Roots\<close>

lemma InDegree_count:
  "get_int (InDegree m) k = length (filter (\<lambda>e. structural (EKind e) \<and> To e = k) (mEdges m))"
proof -
  have "get_int (foldl (\<lambda>d e. if structural (EKind e) then put (To e) (get_int d (To e) + 1) d else d) d es) k =
      get_int d k + length (filter (\<lambda>e. structural (EKind e) \<and> To e = k) es)" for d es
    by (induction es arbitrary: d) (auto simp: get_int_def)
  from this[of "[]" "mEdges m"] show ?thesis by (simp add: InDegree_def get_int_def)
qed

definition unneeded :: "Edge list \<Rightarrow> string \<Rightarrow> bool" where
  "unneeded es k \<longleftrightarrow> filter (\<lambda>e. structural (EKind e) \<and> To e = k) es = []"

lemma unneeded_iff: "unneeded es k \<longleftrightarrow> k \<notin> Range (dependencies es)"
  by (auto simp: unneeded_def dependencies_def filter_empty_conv Range_iff)

lemma InDegree_0: "get_int (InDegree m) k = 0 \<longleftrightarrow> unneeded (mEdges m) k"
  by (simp add: InDegree_count unneeded_def)

lemma lowest_of_get:
  "get (lowest_of ns) k =
     (let ids = ID ` {n \<in> set ns. IslandNo n = k} in if ids = {} then None else Some (Min ids))"
proof (induction ns rule: rev_induct)
  case (snoc x ns)
  let ?ids = "ID ` {n \<in> set ns. IslandNo n = k}"
  have fin: "finite ?ids" by simp
  have ins: "ID ` {n \<in> set (ns @ [x]). IslandNo n = k} =
      (if IslandNo x = k then insert (ID x) ?ids else ?ids)" by auto
  have low: "lowest_of (ns @ [x]) = lowest_step (lowest_of ns) x" by (simp add: lowest_of_def)
  show ?case
  proof (cases "IslandNo x = k")
    case True
    define I where "I = ?ids"
    have I: "get (lowest_of ns) k = (if I = {} then None else Some (Min I))" "finite I"
      using snoc fin by (simp_all add: I_def Let_def)
    show ?thesis unfolding low ins lowest_step_def True I_def[symmetric]
      by (cases "I = {}") (auto simp: I Let_def True Min_insert min_def simp del: Min_less_iff Min_le_iff Min_ge_iff Min_gr_iff)
  next
    case False
    then have "get (lowest_step (lowest_of ns) x) k = get (lowest_of ns) k"
      by (simp add: lowest_step_def split: option.split)
    then show ?thesis using snoc False unfolding low ins by simp
  qed
qed (simp add: lowest_of_def)

text \<open>Which nodes \<open>markRoots\<close> marks, among nodes that carry their island numbers.\<close>

definition root_of :: "Edge list \<Rightarrow> Node list \<Rightarrow> Node \<Rightarrow> bool" where
  "root_of es ns n \<longleftrightarrow> unneeded es (ID n) \<or>
     (\<forall>x \<in> set ns. IslandNo x = IslandNo n \<longrightarrow> \<not> unneeded es (ID x) \<and> ID n \<le> ID x)"

lemma markRoots_nodes:
  "mNodes (markRoots m) = map (\<lambda>n. n\<lparr>Root := root_of (mEdges m) (mNodes m) n\<rparr>) (mNodes m)"
proof -
  let ?ns = "set_roots (InDegree m) (mNodes m)"
  have mem: "k \<in> has_root ?ns \<longleftrightarrow> (\<exists>x \<in> set (mNodes m). IslandNo x = k \<and> unneeded (mEdges m) (ID x))" for k
  proof -
    have "has_root ?ns = IslandNo ` {n \<in> set (mNodes m). unneeded (mEdges m) (ID n)}"
      by (simp add: has_root_def set_roots_def InDegree_0 filter_map image_image comp_def)
    then show ?thesis by auto
  qed
  have ids: "ID ` {n \<in> set ?ns. IslandNo n = k} = ID ` {n \<in> set (mNodes m). IslandNo n = k}" for k
  proof -
    have "{x \<in> f ` S. IslandNo x = k} = f ` {x \<in> S. IslandNo (f x) = k}" for f :: "Node \<Rightarrow> Node" and S
      by auto
    then show ?thesis by (simp add: set_roots_def image_image)
  qed
  have low: "get (lowest_of ?ns) (IslandNo n) = Some (ID n) \<longleftrightarrow>
      (\<forall>x \<in> set (mNodes m). IslandNo x = IslandNo n \<longrightarrow> ID n \<le> ID x)" if "n \<in> set (mNodes m)" for n
  proof -
    let ?I = "ID ` {x \<in> set (mNodes m). IslandNo x = IslandNo n}"
    have I: "ID n \<in> ?I" "finite ?I" using that by auto
    have "Min ?I = ID n \<longleftrightarrow> (\<forall>i \<in> ?I. ID n \<le> i)"
    proof
      assume "Min ?I = ID n"
      then show "\<forall>i \<in> ?I. ID n \<le> i" using Min_le[OF I(2)] by simp
    next
      assume "\<forall>i \<in> ?I. ID n \<le> i"
      then show "Min ?I = ID n" using I by (intro Min_eqI) blast+
    qed
    moreover have "get (lowest_of ?ns) (IslandNo n) = Some (Min ?I)"
      using I(1) unfolding lowest_of_get ids Let_def by (metis empty_iff)
    ultimately show ?thesis by auto
  qed
  have node: "(if IslandNo n \<notin> has_root ?ns \<and> get (lowest_of ?ns) (IslandNo n) = Some (ID n)
      then n\<lparr>Root := True\<rparr> else n\<lparr>Root := unneeded (mEdges m) (ID n)\<rparr>) =
      n\<lparr>Root := root_of (mEdges m) (mNodes m) n\<rparr>" if "n \<in> set (mNodes m)" for n
  proof -
    have "IslandNo n \<notin> has_root ?ns \<Longrightarrow> \<not> unneeded (mEdges m) (ID n)" using mem that by blast
    moreover have "root_of (mEdges m) (mNodes m) n \<longleftrightarrow> unneeded (mEdges m) (ID n) \<or>
        IslandNo n \<notin> has_root ?ns \<and> get (lowest_of ?ns) (IslandNo n) = Some (ID n)"
      unfolding mem low[OF that] root_of_def by blast
    ultimately show ?thesis by simp
  qed
  have "mNodes (markRoots m) = map (\<lambda>n.
      if IslandNo n \<notin> has_root ?ns \<and> get (lowest_of ?ns) (IslandNo n) = Some (ID n)
      then n\<lparr>Root := True\<rparr> else n\<lparr>Root := unneeded (mEdges m) (ID n)\<rparr>) (mNodes m)"
    by (simp add: markRoots_def Let_def set_roots_def InDegree_0 comp_def)
  then show ?thesis using node by simp
qed

section \<open>What a map looks like after the annotation\<close>

definition labelled :: "Map \<Rightarrow> Node \<Rightarrow> Node" where
  "labelled m n = n\<lparr>IslandNo := get_int (fst (islands_of m)) (ID n),
     Reachable := (\<exists>e \<in> set (mNodes m). Entry e \<and> (ID e, ID n) \<in> (dependencies (mEdges m))\<^sup>*)\<rparr>"

lemma labelled_simps [simp]: "ID (labelled m n) = ID n" "Entry (labelled m n) = Entry n"
  by (simp_all add: labelled_def)

lemma Annotate_nodes:
  "mNodes (Annotate m) =
     map (\<lambda>n. (labelled m n)\<lparr>Root := root_of (mEdges m) (map (labelled m) (mNodes m)) (labelled m n)\<rparr>) (mNodes m)"
proof -
  obtain island n where i: "islands_of m = (island, n)" by fastforce
  let ?m1 = "m\<lparr>mNodes := map (\<lambda>x. x\<lparr>IslandNo := get_int island (ID x)\<rparr>) (mNodes m)\<rparr>"
  have "mNodes (markReachable ?m1) = map (labelled m) (mNodes m)"
    by (simp add: markReachable_def Let_def reached_from_entries_get labelled_def i comp_def)
  moreover have "mEdges (markReachable ?m1) = mEdges m" by (simp add: markReachable_def Let_def)
  moreover have "mNodes (Annotate m) = mNodes (markRoots (markReachable ?m1))"
    by (simp add: Annotate_def assignIslands_def i Let_def)
  ultimately show ?thesis by (simp add: markRoots_nodes comp_def)
qed

lemma Annotate_edges [simp]: "mEdges (Annotate m) = mEdges m"
  by (simp add: Annotate_def assignIslands_def markReachable_def markRoots_def Let_def split: prod.split)

lemma Annotate_ids [simp]: "map ID (mNodes (Annotate m)) = map ID (mNodes m)"
  by (simp add: Annotate_nodes comp_def)

lemma Annotate_entries [simp]: "map Entry (mNodes (Annotate m)) = map Entry (mNodes m)"
  by (simp add: Annotate_nodes comp_def)

lemma Annotate_stats:
  "sIslands (mStats (Annotate m)) = snd (islands_of m)"
  "sDetached (mStats (Annotate m)) = length (filter (\<lambda>n. \<not> Reachable n) (mNodes (Annotate m)))"
  by (simp_all add: Annotate_def assignIslands_def markReachable_def markRoots_def Let_def split: prod.split)

section \<open>The labels mean what they say\<close>

text \<open>
  C9: After \<open>Annotate\<close> a node is marked reachable exactly when a path of dependency edges, the
  containment of a function in its file not being one, leads to it from an entry point, and \<open>Detached\<close>
  counts the nodes for which there is no such path. Nodes and edges are otherwise untouched.
\<close>

theorem Annotate_reachable:
  "map (\<lambda>n. (ID n, Entry n, Reachable n)) (mNodes (Annotate m)) =
     map (\<lambda>n. (ID n, Entry n, \<exists>e \<in> set (mNodes m). Entry e \<and> (ID e, ID n) \<in> (dependencies (mEdges m))\<^sup>*))
       (mNodes m) \<and>
   mEdges (Annotate m) = mEdges m \<and>
   sDetached (mStats (Annotate m)) =
     length (filter (\<lambda>n. \<not> (\<exists>e \<in> set (mNodes m). Entry e \<and> (ID e, ID n) \<in> (dependencies (mEdges m))\<^sup>*))
       (mNodes m))"
  by (simp add: Annotate_stats) (simp add: Annotate_nodes filter_map comp_def labelled_def)

lemma labelled_island:
  assumes "n \<in> set (mNodes m)"
  shows "get (fst (islands_of m)) (ID n) = Some (IslandNo (labelled m n))"
proof -
  obtain island k where i: "islands_of m = (island, k)" by fastforce
  have "ID n \<in> dom (get island)"
    using islands_ok_dom[OF islands_of_ok[of m, unfolded i]] assms by auto
  then show ?thesis by (auto simp: labelled_def i get_int_def)
qed

lemma labelled_same:
  assumes "x \<in> set (mNodes m)" "y \<in> set (mNodes m)"
  shows "IslandNo (labelled m x) = IslandNo (labelled m y) \<longleftrightarrow> (ID x, ID y) \<in> (linked (mEdges m))\<^sup>*"
proof -
  obtain island k where i: "islands_of m = (island, k)" by fastforce
  note ok = islands_of_ok[of m, unfolded i]
  have "get island (ID x) = get island (ID y) \<longleftrightarrow> (ID x, ID y) \<in> (linked (mEdges m))\<^sup>*"
    using islands_ok_same[OF ok] islands_ok_dom[OF ok] assms by blast
  then show ?thesis using labelled_island[OF assms(1)] labelled_island[OF assms(2)] by (simp add: i)
qed

lemma labelled_numbers: "IslandNo ` labelled m ` set (mNodes m) = {..<snd (islands_of m)}"
proof -
  obtain island k where i: "islands_of m = (island, k)" by fastforce
  have "get island ` ID ` set (mNodes m) = Some ` {..<k}"
    by (rule islands_ok_range[OF islands_of_ok[of m, unfolded i]])
  moreover have "get island ` ID ` set (mNodes m) = Some ` IslandNo ` labelled m ` set (mNodes m)"
    using labelled_island[of _ m] by (simp add: i image_image cong: image_cong)
  ultimately show ?thesis by (simp add: i inj_image_eq_iff)
qed

text \<open>
  C10: After \<open>Annotate\<close> two nodes carry the same island number exactly when they are connected by
  edges of any kind followed in either direction, the numbers in use are 0, 1, 2 and so on without a
  gap, and \<open>Stats.Islands\<close> says how many there are.
\<close>

theorem Annotate_islands:
  assumes "x \<in> set (mNodes (Annotate m))" and "y \<in> set (mNodes (Annotate m))"
  shows "(IslandNo x = IslandNo y \<longleftrightarrow> (ID x, ID y) \<in> (linked (mEdges m))\<^sup>*) \<and>
    IslandNo ` set (mNodes (Annotate m)) = {..<sIslands (mStats (Annotate m))}"
proof
  show "IslandNo x = IslandNo y \<longleftrightarrow> (ID x, ID y) \<in> (linked (mEdges m))\<^sup>*"
    using assms labelled_same by (auto simp: Annotate_nodes)
  show "IslandNo ` set (mNodes (Annotate m)) = {..<sIslands (mStats (Annotate m))}"
    by (simp add: Annotate_nodes Annotate_stats image_image flip: labelled_numbers)
qed

text \<open>
  After \<open>Annotate\<close> every island has a root, so a tree drawing of it has somewhere to start. The
  roots are the nodes nothing depends on; an island that has none, a cycle, gets the node with the
  lowest id and no other.
\<close>

theorem Annotate_roots:
  assumes "x \<in> set (mNodes (Annotate m))"
  shows "(\<exists>r \<in> set (mNodes (Annotate m)). IslandNo r = IslandNo x \<and> Root r) \<and>
    (Root x \<longleftrightarrow> ID x \<notin> Range (dependencies (mEdges m)) \<or>
       (\<forall>y \<in> set (mNodes (Annotate m)). IslandNo y = IslandNo x \<longrightarrow>
          ID y \<in> Range (dependencies (mEdges m)) \<and> ID x \<le> ID y))"
proof -
  let ?ns = "map (labelled m) (mNodes m)" and ?es = "mEdges m"
  have mark: "set (mNodes (Annotate m)) = (\<lambda>n. n\<lparr>Root := root_of ?es ?ns n\<rparr>) ` set ?ns"
    by (simp add: Annotate_nodes image_image)
  obtain n where n: "n \<in> set ?ns" "x = n\<lparr>Root := root_of ?es ?ns n\<rparr>" using assms unfolding mark by auto
  let ?I = "{y \<in> set ?ns. IslandNo y = IslandNo n}"
  have "\<exists>r \<in> ?I. root_of ?es ?ns r"
  proof (cases "\<exists>y \<in> ?I. unneeded ?es (ID y)")
    case False
    have "finite (ID ` ?I)" "ID ` ?I \<noteq> {}" using n(1) by auto
    then obtain r where "r \<in> ?I" "ID r = Min (ID ` ?I)" by (metis (no_types, lifting) Min_in imageE)
    moreover have "ID r \<le> ID y" if "y \<in> ?I" for y
      using that calculation \<open>finite (ID ` ?I)\<close> by simp
    ultimately show ?thesis using False unfolding root_of_def by (metis (mono_tags, lifting) mem_Collect_eq)
  qed (auto simp: root_of_def)
  then have "\<exists>r \<in> set (mNodes (Annotate m)). IslandNo r = IslandNo x \<and> Root r"
    unfolding mark n(2) by force
  moreover have "Root x \<longleftrightarrow> ID x \<notin> Range (dependencies (mEdges m)) \<or>
       (\<forall>y \<in> set (mNodes (Annotate m)). IslandNo y = IslandNo x \<longrightarrow>
          ID y \<in> Range (dependencies (mEdges m)) \<and> ID x \<le> ID y)"
    unfolding mark n(2) by (simp add: root_of_def unneeded_iff)
  ultimately show ?thesis by blast
qed

text \<open>A page that calls a component, which calls itself back, and a component on its own.\<close>

definition demo_node :: "string \<Rightarrow> bool \<Rightarrow> Node" where
  "demo_node i entry = empty_node\<lparr>ID := i, File := i, Entry := entry\<rparr>"

definition demo_edge :: "string \<Rightarrow> string \<Rightarrow> Edge" where
  "demo_edge a b = \<lparr>From = a, To = b, EKind = EdgeCalls, Count = 2, Dynamic = False\<rparr>"

definition no_stats :: Stats where
  "no_stats = \<lparr>sFiles = 0, sFunctions = 0, sCallSites = 0, sResolved = 0, sDynamic = 0, sUnresolved = 0,
     sBuiltin = 0, sUnreadable = 0, sRoutes = 0, sRoutesUnresolved = 0, sUtility = 0, sCached = 0,
     sBuildMillis = 0, sIslands = 0, sDetached = 0\<rparr>"

definition demo_map :: Map where
  "demo_map = \<lparr>mRoot = [], mLevel = LevelFile, mFingerprint = [],
     mNodes = [demo_node ''a/p.cfm'' True, demo_node ''a/c.cfc'' False, demo_node ''b/d.cfc'' False],
     mEdges = [demo_edge ''a/p.cfm'' ''a/c.cfc'', demo_edge ''b/d.cfc'' ''b/d.cfc''], mStats = no_stats\<rparr>"

lemma demo_annotated:
  "map (\<lambda>n. (IslandNo n, Reachable n, Root n)) (mNodes (Annotate demo_map)) =
     [(0, True, True), (0, True, False), (1, False, True)]"
  by code_simp

lemma demo_length: "length (mNodes (Annotate demo_map)) = 3"
  by code_simp

lemma Annotate_islands_witness:
  "(''a/p.cfm'', ''a/c.cfc'') \<in> (linked (mEdges demo_map))\<^sup>* \<and> (''a/p.cfm'', ''b/d.cfc'') \<notin> (linked (mEdges demo_map))\<^sup>*"
proof -
  let ?ns = "mNodes (Annotate demo_map)"
  have mem: "?ns ! 0 \<in> set ?ns" "?ns ! 1 \<in> set ?ns" "?ns ! 2 \<in> set ?ns"
    by (simp_all add: demo_length)
  have "ID (?ns ! 0) = ''a/p.cfm''" "ID (?ns ! 1) = ''a/c.cfc''" "ID (?ns ! 2) = ''b/d.cfc''"
    "IslandNo (?ns ! 0) = IslandNo (?ns ! 1)" "IslandNo (?ns ! 0) \<noteq> IslandNo (?ns ! 2)" by code_simp+
  then show ?thesis using Annotate_islands[OF mem(1,2)] Annotate_islands[OF mem(1,3)] by simp
qed

lemma Annotate_roots_witness:
  "\<not> Root (mNodes (Annotate demo_map) ! 1) \<and> ''a/c.cfc'' \<in> Range (dependencies (mEdges demo_map))"
proof -
  let ?ns = "mNodes (Annotate demo_map)"
  have mem: "?ns ! 1 \<in> set ?ns" by (simp add: demo_length)
  have "ID (?ns ! 1) = ''a/c.cfc''" "\<not> Root (?ns ! 1)" by code_simp+
  then show ?thesis using Annotate_roots[OF mem] by simp
qed

end
