(* ===== verification/Code_Map_Views.thy ===== *)
theory Code_Map_Views
  imports Code_Map_Props
begin

text \<open>
  The views of the whole-project map: a scoped view shows every dependency across its border, a
  collapse keeps every call between the merged nodes and forgets no entry point.
\<close>

section \<open>Scoping\<close>

definition in_scope :: "string \<Rightarrow> Map \<Rightarrow> string set" where
  "in_scope pre m = set (map ID (filter (in_prefix pre) (mNodes m)))"

definition bordering :: "string \<Rightarrow> Map \<Rightarrow> string set" where
  "bordering pre m = {y. \<exists>x \<in> in_scope pre m. (x, y) \<in> dependencies (mEdges m) \<or> (y, x) \<in> dependencies (mEdges m)}"

lemma subgraph_edges: "mEdges (subgraph keep m) = filter (\<lambda>e. keep (From e) \<and> keep (To e)) (mEdges m)"
  by (simp add: subgraph_def)

lemma subgraph_ids: "map ID (mNodes (subgraph keep m)) = filter keep (map ID (mNodes m))"
  by (simp add: subgraph_def filter_map comp_def)

lemma FilterUnder_nonempty:
  assumes "pre \<noteq> []"
  shows "mEdges (FilterUnder pre m) =
      filter (\<lambda>e. From e \<in> in_scope pre m \<union> bordering pre m \<and> To e \<in> in_scope pre m \<union> bordering pre m) (mEdges m)"
    and "map (\<lambda>n. (ID n, Boundary n)) (mNodes (FilterUnder pre m)) =
      map (\<lambda>i. (i, i \<notin> in_scope pre m))
        (filter (\<lambda>i. i \<in> in_scope pre m \<union> bordering pre m) (map ID (mNodes m)))"
proof -
  let ?S = "set (map ID (filter (in_prefix pre) (mNodes m)))"
  let ?es = "filter (\<lambda>e. structural (EKind e)) (mEdges m)"
  let ?keep = "?S \<union> set (map To (filter (\<lambda>e. From e \<in> ?S) ?es)) \<union> set (map From (filter (\<lambda>e. To e \<in> ?S) ?es))"
  have S: "?S = in_scope pre m" by (simp add: in_scope_def)
  have "set (map To (filter (\<lambda>e. From e \<in> ?S) ?es)) \<union> set (map From (filter (\<lambda>e. To e \<in> ?S) ?es)) = bordering pre m"
    unfolding bordering_def dependencies_def S by auto
  then have keep: "?keep = in_scope pre m \<union> bordering pre m" using S by (metis Un_assoc)
  let ?out = "subgraph (\<lambda>i. i \<in> in_scope pre m \<union> bordering pre m) m"
  have eq: "FilterUnder pre m = ?out\<lparr>mNodes := map (\<lambda>n. n\<lparr>Boundary := ID n \<notin> in_scope pre m\<rparr>) (mNodes ?out)\<rparr>"
    using assms keep S by (simp only: FilterUnder_def Let_def if_False)
  show "mEdges (FilterUnder pre m) =
      filter (\<lambda>e. From e \<in> in_scope pre m \<union> bordering pre m \<and> To e \<in> in_scope pre m \<union> bordering pre m) (mEdges m)"
    unfolding eq by (simp add: subgraph_edges)
  have "map (\<lambda>n. (ID n, Boundary n)) (mNodes (FilterUnder pre m)) =
      map (\<lambda>i. (i, i \<notin> in_scope pre m)) (map ID (mNodes ?out))"
    unfolding eq by simp
  then show "map (\<lambda>n. (ID n, Boundary n)) (mNodes (FilterUnder pre m)) =
      map (\<lambda>i. (i, i \<notin> in_scope pre m))
        (filter (\<lambda>i. i \<in> in_scope pre m \<union> bordering pre m) (map ID (mNodes m)))"
    unfolding subgraph_ids .
qed

text \<open>
  C11: \<open>FilterUnder\<close> keeps exactly the nodes under the prefix and those one dependency edge away from
  them, marks exactly the latter as boundary, and keeps every dependency edge that has an end under
  the prefix, so no caller from outside is hidden.
\<close>

theorem FilterUnder_keeps_border:
  assumes "pre \<noteq> []"
  shows "map (\<lambda>n. (ID n, Boundary n)) (mNodes (FilterUnder pre m)) =
      map (\<lambda>i. (i, i \<notin> in_scope pre m))
        (filter (\<lambda>i. i \<in> in_scope pre m \<union> bordering pre m) (map ID (mNodes m))) \<and>
    filter (\<lambda>e. structural (EKind e) \<and> (From e \<in> in_scope pre m \<or> To e \<in> in_scope pre m))
        (mEdges (FilterUnder pre m)) =
      filter (\<lambda>e. structural (EKind e) \<and> (From e \<in> in_scope pre m \<or> To e \<in> in_scope pre m)) (mEdges m)"
proof
  have "From e \<in> bordering pre m \<or> From e \<in> in_scope pre m" "To e \<in> bordering pre m \<or> To e \<in> in_scope pre m"
    if "e \<in> set (mEdges m)" "structural (EKind e)" "From e \<in> in_scope pre m \<or> To e \<in> in_scope pre m" for e
    using that unfolding bordering_def dependencies_def by auto
  then show "filter (\<lambda>e. structural (EKind e) \<and> (From e \<in> in_scope pre m \<or> To e \<in> in_scope pre m))
        (mEdges (FilterUnder pre m)) =
      filter (\<lambda>e. structural (EKind e) \<and> (From e \<in> in_scope pre m \<or> To e \<in> in_scope pre m)) (mEdges m)"
    unfolding FilterUnder_nonempty(1)[OF assms] filter_filter by (intro filter_cong) auto
qed (rule FilterUnder_nonempty(2)[OF assms])

lemma FilterUnder_keeps_border_witness:
  "map (\<lambda>n. (ID n, Boundary n)) (mNodes (FilterUnder ''a/c'' demo_map)) = [(''a/p.cfm'', True), (''a/c.cfc'', False)]"
proof -
  have "in_scope ''a/c'' demo_map = {''a/c.cfc''}"
    by code_simp
  moreover have "bordering ''a/c'' demo_map = {''a/p.cfm''}"
  proof -
    have "dependencies (mEdges demo_map) = {(''a/p.cfm'', ''a/c.cfc''), (''b/d.cfc'', ''b/d.cfc'')}"
      by (force simp: dependencies_def demo_map_def demo_edge_def structural_def)
    then show ?thesis unfolding bordering_def calculation by auto
  qed
  ultimately show ?thesis
    using FilterUnder_keeps_border[of "''a/c''" demo_map] by (simp add: demo_map_def demo_node_def)
qed

section \<open>Collapsing\<close>

lemma remap_of_get: "get (remap_of level ns) i = map_of (rev (map (\<lambda>n. (ID n, ID (collapseTarget level n))) ns)) i"
  by (induction ns rule: rev_induct) (simp_all add: remap_of_def)

definition counted :: "(edgeKey, Edge) gomap \<Rightarrow> edgeKey \<Rightarrow> nat" where
  "counted edges k = (case get edges k of None \<Rightarrow> 0 | Some x \<Rightarrow> Count x)"

definition key_of :: "Edge \<Rightarrow> edgeKey" where
  "key_of e = (From e, To e, EKind e)"

definition keyed :: "(edgeKey, Edge) gomap \<Rightarrow> bool" where
  "keyed edges \<longleftrightarrow> distinct_keys edges \<and> (\<forall>k x. get edges k = Some x \<longrightarrow> key_of x = k)"

text \<open>Where the collapse puts an edge: nowhere when an end is gone or both ends are merged.\<close>

definition moved_to :: "(string, string) gomap \<Rightarrow> Edge \<Rightarrow> edgeKey option" where
  "moved_to remap e =
     (case (get remap (From e), get remap (To e)) of
        (Some a, Some b) \<Rightarrow>
          if structural (EKind e) \<and> a \<noteq> [] \<and> b \<noteq> [] \<and> a \<noteq> b then Some (a, b, EKind e) else None
      | _ \<Rightarrow> None)"

lemma merge_edge_moved:
  "merge_edge remap edges e =
     (case moved_to remap e of
        None \<Rightarrow> edges
      | Some (a, b, kd) \<Rightarrow>
          (case get edges (a, b, kd) of
             None \<Rightarrow> put (a, b, kd) \<lparr>From = a, To = b, EKind = kd, Count = Count e, Dynamic = Dynamic e\<rparr> edges
           | Some x \<Rightarrow> put (a, b, kd) (x\<lparr>Count := Count x + Count e,
                          Dynamic := (if \<not> Dynamic e then False else Dynamic x)\<rparr>) edges))"
  by (cases "get remap (From e)"; cases "get remap (To e)") (auto simp: merge_edge_def moved_to_def Let_def)

lemma merge_edge_counted:
  "counted (merge_edge remap edges e) k = counted edges k + (if moved_to remap e = Some k then Count e else 0)"
  by (auto simp: merge_edge_moved counted_def split: option.split prod.split)

lemma keyed_put: "keyed edges \<Longrightarrow> key_of x = k \<Longrightarrow> keyed (put k x edges)"
  by (simp add: keyed_def del: map_of_eq_Some_iff)

lemma keyed_get: "keyed edges \<Longrightarrow> get edges k = Some x \<Longrightarrow> key_of x = k"
  unfolding keyed_def by blast

lemma merge_edge_keyed: "keyed edges \<Longrightarrow> keyed (merge_edge remap edges e)"
proof (cases "moved_to remap e")
  case (Some k)
  obtain a b kd where k: "k = (a, b, kd)" by (cases k)
  assume edges: "keyed edges"
  show ?thesis
  proof (cases "get edges k")
    case None
    then show ?thesis using edges Some k by (simp add: merge_edge_moved keyed_put key_of_def)
  next
    case (Some x)
    then have "key_of x = k" using edges by (rule keyed_get[rotated])
    then show ?thesis using edges \<open>moved_to remap e = Some k\<close> Some k
      by (simp add: merge_edge_moved keyed_put key_of_def)
  qed
qed (simp add: merge_edge_moved)

lemma merge_edges:
  "keyed edges \<Longrightarrow> keyed (foldl (merge_edge remap) edges es) \<and>
     counted (foldl (merge_edge remap) edges es) k =
       counted edges k + sum_list (map Count (filter (\<lambda>e. moved_to remap e = Some k) es))"
  by (induction es arbitrary: edges) (auto simp: merge_edge_keyed merge_edge_counted)

lemma counted_sum:
  "keyed edges \<Longrightarrow> sum_list (map Count (filter (\<lambda>e. key_of e = k) (map snd edges))) = counted edges k"
proof (induction edges)
  case (Cons p edges)
  obtain k' x where p: "p = (k', x)" by fastforce
  have new: "get edges k' = None" using Cons.prems by (simp add: keyed_def p map_of_eq_None_iff)
  have x: "key_of x = k'" using Cons.prems by (rule keyed_get) (simp add: p)
  have "key_of y = j" if "get edges j = Some y" for j y
    using Cons.prems that new unfolding keyed_def p by (metis map_of_Cons_code(2) option.distinct(1))
  then have "keyed edges" using Cons.prems unfolding keyed_def p by simp
  from Cons.IH[OF this] show ?case
    using new x by (cases "k = k'") (simp_all add: p counted_def del: sum_list_eq_0_iff)
qed (simp add: counted_def)

lemma sum_list_sort_key: "sum_list (map (f :: 'a \<Rightarrow> nat) (filter P (sort_key g xs))) = sum_list (map f (filter P xs))"
proof -
  have "mset (map f (filter P (sort_key g xs))) = mset (map f (filter P xs))" by simp
  then show ?thesis by (metis sum_mset_sum_list)
qed

text \<open>
  C12: \<open>Collapse\<close> loses no call and invents none: between two merged nodes and for each kind, the calls
  counted on the collapsed edges are the calls counted on the edges between the nodes merged into
  them. Only containment edges, edges that lead nowhere and edges inside one merged node go.
\<close>

theorem Collapse_counts:
  assumes "level \<noteq> mLevel m" and "level \<noteq> LevelFunction"
  shows "sum_list (map Count (filter (\<lambda>e. key_of e = k) (mEdges (Collapse level m)))) =
    sum_list (map Count (filter (\<lambda>e. moved_to (remap_of level (mNodes m)) e = Some k) (mEdges m)))"
proof -
  let ?es = "foldl (merge_edge (remap_of level (mNodes m))) [] (mEdges m)"
  have "keyed []" by (simp add: keyed_def)
  from merge_edges[OF this] have es: "keyed ?es" "counted ?es k =
      sum_list (map Count (filter (\<lambda>e. moved_to (remap_of level (mNodes m)) e = Some k) (mEdges m)))"
    by (simp_all add: counted_def)
  have "mEdges (Collapse level m) = sortedEdges ?es" using assms by (simp add: Collapse_def Let_def)
  then show ?thesis unfolding es(2)[symmetric] by (simp add: sortedEdges_def sum_list_sort_key counted_sum[OF es(1)])
qed

lemma Collapse_counts_witness:
  "map (\<lambda>e. (From e, To e, Count e)) (mEdges (Collapse LevelPackage demo_map)) = [] \<and>
   sum_list (map Count (filter (\<lambda>e. key_of e = (''a'', ''b'', EdgeCalls)) (mEdges (Collapse LevelPackage demo_map)))) =
     sum_list (map Count (filter (\<lambda>e. moved_to (remap_of LevelPackage (mNodes demo_map)) e = Some (''a'', ''b'', EdgeCalls))
       (mEdges demo_map)))"
proof
  show "map (\<lambda>e. (From e, To e, Count e)) (mEdges (Collapse LevelPackage demo_map)) = []" by code_simp
qed (rule Collapse_counts; simp add: demo_map_def)

text \<open>The node with id \<open>k\<close> that stands for the nodes a collapse sends there.\<close>

definition stands_for :: "Level \<Rightarrow> Node list \<Rightarrow> string \<Rightarrow> Node \<Rightarrow> bool" where
  "stands_for level ns k x \<longleftrightarrow> ID x = k \<and> (\<exists>n \<in> set ns. ID (collapseTarget level n) = k) \<and>
     (Entry x \<longleftrightarrow> (\<exists>n \<in> set ns. ID (collapseTarget level n) = k \<and> Entry (collapseTarget level n))) \<and>
     (Utility x \<longleftrightarrow> \<not> (\<exists>n \<in> set ns. ID (collapseTarget level n) = k \<and> \<not> Utility (collapseTarget level n)))"

lemma stands_for_target: "stands_for level ns k x \<Longrightarrow> k \<in> (\<lambda>n. ID (collapseTarget level n)) ` set ns"
  unfolding stands_for_def by (metis (mono_tags, lifting) image_eqI)

lemma stands_for_id: "stands_for level ns k x \<Longrightarrow> ID x = k"
  by (simp add: stands_for_def)

definition merged_ok :: "Level \<Rightarrow> Node list \<Rightarrow> (string, Node) gomap \<Rightarrow> bool" where
  "merged_ok level ns merged \<longleftrightarrow> distinct_keys merged \<and>
     (\<forall>k. if get merged k = None then \<forall>n \<in> set ns. ID (collapseTarget level n) \<noteq> k
          else stands_for level ns k (the (get merged k)))"

lemma merged_ok_get: "merged_ok level ns merged \<Longrightarrow> get merged k = Some x \<Longrightarrow> stands_for level ns k x"
  unfolding merged_ok_def by (metis option.distinct(1) option.sel)

lemma merged_ok_None:
  "merged_ok level ns merged \<Longrightarrow> get merged k = None \<Longrightarrow> n \<in> set ns \<Longrightarrow> ID (collapseTarget level n) \<noteq> k"
  unfolding merged_ok_def by metis

lemma stands_for_other:
  "stands_for level ns k x \<Longrightarrow> k \<noteq> ID (collapseTarget level n) \<Longrightarrow> stands_for level (ns @ [n]) k x"
  by (auto simp: stands_for_def)

lemma stands_for_first:
  "(\<And>x. x \<in> set ns \<Longrightarrow> ID (collapseTarget level x) \<noteq> ID (collapseTarget level n)) \<Longrightarrow>
     stands_for level (ns @ [n]) (ID (collapseTarget level n)) (collapseTarget level n)"
  by (auto simp: stands_for_def)

lemma stands_for_more:
  "stands_for level ns (ID (collapseTarget level n)) x \<Longrightarrow>
     stands_for level (ns @ [n]) (ID (collapseTarget level n))
       (x\<lparr>Entry := Entry x \<or> Entry (collapseTarget level n), Utility := Utility x \<and> Utility (collapseTarget level n)\<rparr>)"
  by (auto simp: stands_for_def)

lemma merge_node_ok:
  assumes ok: "merged_ok level ns merged"
  shows "merged_ok level (ns @ [n]) (merge_node level merged n)"
proof -
  let ?t = "collapseTarget level n"
  have "\<exists>v. merge_node level merged n = put (ID ?t) v merged \<and> stands_for level (ns @ [n]) (ID ?t) v"
  proof (cases "get merged (ID ?t)")
    case None
    then have "merge_node level merged n = put (ID ?t) ?t merged" by (simp add: merge_node_def Let_def)
    then show ?thesis using stands_for_first merged_ok_None[OF ok None] by blast
  next
    case (Some x)
    then have "merge_node level merged n =
        put (ID ?t) (x\<lparr>Entry := Entry x \<or> Entry ?t, Utility := Utility x \<and> Utility ?t\<rparr>) merged"
      by (simp add: merge_node_def Let_def)
    then show ?thesis using stands_for_more merged_ok_get[OF ok Some] by blast
  qed
  then obtain v where eq: "merge_node level merged n = put (ID ?t) v merged"
    and v: "stands_for level (ns @ [n]) (ID ?t) v" by blast
  have "if get merged k = None then \<forall>x \<in> set (ns @ [n]). ID (collapseTarget level x) \<noteq> k
      else stands_for level (ns @ [n]) k (the (get merged k))" if "k \<noteq> ID ?t" for k
    using that stands_for_other merged_ok_get[OF ok, of k] merged_ok_None[OF ok, of k]
    by (cases "get merged k") auto
  then show ?thesis using ok v unfolding merged_ok_def eq by simp
qed

lemma merge_nodes_ok: "merged_ok level ns (foldl (merge_node level) [] ns)"
  by (induction ns rule: rev_induct) (simp_all add: merge_node_ok, simp add: merged_ok_def)

lemma map_sort_key_same: "map f (sort_key f xs) = sort (map f xs)"
  by (rule properties_for_sort[symmetric]) simp_all

text \<open>The labels leave the entry and utility marks alone.\<close>

lemma Annotate_marks:
  "map ID (filter Entry (mNodes (Annotate m))) = map ID (filter Entry (mNodes m))"
  "map ID (filter (\<lambda>n. \<not> Utility n) (mNodes (Annotate m))) = map ID (filter (\<lambda>n. \<not> Utility n) (mNodes m))"
  by (simp_all add: Annotate_nodes filter_map comp_def labelled_def)

text \<open>The targets on the merged nodes, in the order of their ids and by a mark that merging respects.\<close>

lemma merged_nodes:
  assumes ok: "merged_ok level ns merged"
  shows "map ID (sortedNodes merged) = sorted_list_of_set ((\<lambda>n. ID (collapseTarget level n)) ` set ns)"
    and "(\<And>k x. stands_for level ns k x \<Longrightarrow>
        P x \<longleftrightarrow> (\<exists>n \<in> set ns. ID (collapseTarget level n) = k \<and> P (collapseTarget level n))) \<Longrightarrow>
      set (map ID (filter P (sortedNodes merged))) =
        (\<lambda>n. ID (collapseTarget level n)) ` {n \<in> set ns. P (collapseTarget level n)}"
proof -
  let ?t = "collapseTarget level"
  have dist: "distinct_keys merged" using ok by (simp add: merged_ok_def)
  have get: "stands_for level ns k x" if "(k, x) \<in> set merged" for k x
    using merged_ok_get[OF ok] dist that by simp
  have hit: "\<exists>x. (ID (?t n), x) \<in> set merged" if "n \<in> set ns" for n
    using merged_ok_None[OF ok _ that] by (metis map_of_SomeD not_Some_eq)
  have keys: "set (map fst merged) = (\<lambda>n. ID (?t n)) ` set ns"
  proof (intro equalityI subsetI)
    fix k assume "k \<in> set (map fst merged)"
    then have "get merged k \<noteq> None" by (simp add: map_of_eq_None_iff)
    then obtain x where "get merged k = Some x" by (meson not_Some_eq)
    then have "stands_for level ns k x" by (rule get[OF map_of_SomeD])
    then show "k \<in> (\<lambda>n. ID (?t n)) ` set ns" by (rule stands_for_target)
  next
    fix k assume "k \<in> (\<lambda>n. ID (?t n)) ` set ns"
    then obtain x where "(k, x) \<in> set merged" using hit by blast
    then show "k \<in> set (map fst merged)" by (metis fst_conv image_eqI list.set_map)
  qed
  have "map ID (map snd merged) = map fst merged" using get by (auto simp: stands_for_def)
  then have "map ID (sortedNodes merged) = sort (map fst merged)"
    by (simp add: sortedNodes_def map_sort_key_same del: map_map)
  also have "\<dots> = sorted_list_of_set (set (map fst merged))"
    using dist by (simp add: sorted_list_of_set_sort_remdups distinct_remdups_id del: set_map)
  finally show "map ID (sortedNodes merged) = sorted_list_of_set ((\<lambda>n. ID (?t n)) ` set ns)" unfolding keys .
  assume P: "\<And>k x. stands_for level ns k x \<Longrightarrow> P x \<longleftrightarrow> (\<exists>n \<in> set ns. ID (?t n) = k \<and> P (?t n))"
  show "set (map ID (filter P (sortedNodes merged))) = (\<lambda>n. ID (?t n)) ` {n \<in> set ns. P (?t n)}"
  proof (intro equalityI subsetI)
    fix k assume "k \<in> set (map ID (filter P (sortedNodes merged)))"
    then obtain x where "x \<in> snd ` set merged" "P x" "ID x = k" unfolding sortedNodes_def by simp blast
    then obtain j where x: "(j, x) \<in> set merged" "P x" "ID x = k" by (metis imageE prod.collapse)
    then have "stands_for level ns j x" "j = k" using get[OF x(1)] stands_for_id by blast+
    then show "k \<in> (\<lambda>n. ID (?t n)) ` {n \<in> set ns. P (?t n)}" using P x(2) by blast
  next
    fix k assume "k \<in> (\<lambda>n. ID (?t n)) ` {n \<in> set ns. P (?t n)}"
    then obtain n where n: "n \<in> set ns" "P (?t n)" "k = ID (?t n)" by blast
    then obtain x where x: "(k, x) \<in> set merged" using hit by blast
    have "P x" using P[OF get[OF x]] n by blast
    moreover have "ID x = k" using get[OF x] by (rule stands_for_id)
    moreover have "x \<in> set (sortedNodes merged)" using x unfolding sortedNodes_def by (metis image_eqI set_map set_sort snd_conv)
    ultimately show "k \<in> set (map ID (filter P (sortedNodes merged)))" by auto
  qed
qed

text \<open>
  The nodes of a collapsed map are the targets of the original nodes, each once and in the order of
  their ids. A merged node is an entry point exactly when a node merged into it is one, and it is
  infrastructure exactly when all of them are.
\<close>

theorem Collapse_marks:
  assumes "level \<noteq> mLevel m" and "level \<noteq> LevelFunction"
  shows "map ID (mNodes (Collapse level m)) =
      sorted_list_of_set ((\<lambda>n. ID (collapseTarget level n)) ` set (mNodes m)) \<and>
    set (map ID (filter Entry (mNodes (Collapse level m)))) =
      (\<lambda>n. ID (collapseTarget level n)) ` {n \<in> set (mNodes m). Entry (collapseTarget level n)} \<and>
    set (map ID (filter (\<lambda>n. \<not> Utility n) (mNodes (Collapse level m)))) =
      (\<lambda>n. ID (collapseTarget level n)) ` {n \<in> set (mNodes m). \<not> Utility (collapseTarget level n)}"
proof -
  let ?m = "foldl (merge_node level) [] (mNodes m)"
  note merged = merged_nodes[OF merge_nodes_ok[of level "mNodes m"]]
  have collapse: "Collapse level m = Annotate (m\<lparr>mLevel := level, mNodes := sortedNodes ?m,
      mEdges := sortedEdges (foldl (merge_edge (remap_of level (mNodes m))) [] (mEdges m))\<rparr>)"
    using assms by (simp add: Collapse_def Let_def)
  show ?thesis
    unfolding collapse Annotate_ids Annotate_marks
    using merged(1) merged(2)[of Entry] merged(2)[of "\<lambda>n. \<not> Utility n"] by (simp add: stands_for_def)
qed

lemma Collapse_marks_witness:
  "map ID (mNodes (Collapse LevelPackage demo_map)) = [''a'', ''b''] \<and>
   set (map ID (filter Entry (mNodes (Collapse LevelPackage demo_map)))) = {''a''}"
proof -
  have "(\<lambda>n. ID (collapseTarget LevelPackage n)) ` set (mNodes demo_map) = {''a'', ''b''}"
    "(\<lambda>n. ID (collapseTarget LevelPackage n)) ` {n \<in> set (mNodes demo_map). Entry (collapseTarget LevelPackage n)} = {''a''}"
    by code_simp+
  moreover have "LevelPackage \<noteq> mLevel demo_map" by (simp add: demo_map_def)
  moreover have "sorted_list_of_set {''a'', ''b''} = [''a'', ''b'']" by code_simp
  ultimately show ?thesis using Collapse_marks[of LevelPackage demo_map] by simp
qed

section \<open>In-degrees count edges, not nodes\<close>

lemma InDegree_counts_kinds:
  "get_int (InDegree (demo_map\<lparr>mEdges := [demo_edge ''a'' ''b'', (demo_edge ''a'' ''b'')\<lparr>EKind := EdgeInstantiates\<rparr>]\<rparr>)) ''b'' = 2 \<and>
   card (Domain (dependencies [demo_edge ''a'' ''b'', (demo_edge ''a'' ''b'')\<lparr>EKind := EdgeInstantiates\<rparr>])) = 1"
proof
  show "get_int (InDegree (demo_map\<lparr>mEdges := [demo_edge ''a'' ''b'', (demo_edge ''a'' ''b'')\<lparr>EKind := EdgeInstantiates\<rparr>]\<rparr>)) ''b'' = 2"
    by code_simp
  have "dependencies [demo_edge ''a'' ''b'', (demo_edge ''a'' ''b'')\<lparr>EKind := EdgeInstantiates\<rparr>] = {(''a'', ''b'')}"
    by (force simp: dependencies_def demo_edge_def structural_def)
  then show "card (Domain (dependencies [demo_edge ''a'' ''b'', (demo_edge ''a'' ''b'')\<lparr>EKind := EdgeInstantiates\<rparr>])) = 1"
    by simp
qed

end
