(* ===== verification/Code_Map_Compact.thy ===== *)
theory Code_Map_Compact
  imports Code_Map "HOL-Library.Word"
begin

text \<open>
  The wire form of the map (compact.go) and its decoder in the report page (assets/viewer.html): strings
  are interned, an edge names its ends by position, and an id that can be derived is left out.
\<close>

unbundle bit_operations_syntax

section \<open>The encoder\<close>

fun node_kind_string :: "NodeKind \<Rightarrow> string" where
  "node_kind_string KindFunction = ''function''"
| "node_kind_string KindFile = ''file''"
| "node_kind_string KindExternal = ''external''"
| "node_kind_string KindPackage = ''package''"

record interner =
  index :: "(string, nat) gomap"
  strings :: "string list"

definition newInterner :: interner where
  "newInterner = \<lparr>index = [], strings = []\<rparr>"

definition intern :: "string \<Rightarrow> interner \<Rightarrow> int \<times> interner" where
  "intern s t =
     (if s = [] then (- 1, t)
      else case get (index t) s of
             Some i \<Rightarrow> (int i, t)
           | None \<Rightarrow> (let i = length (strings t)
               in (int i, \<lparr>index = put s i (index t), strings = strings t @ [s]\<rparr>)))"

definition indexOf :: "string list \<Rightarrow> string \<Rightarrow> int" where
  "indexOf vals v =
     (case get (foldl (\<lambda>d (i, x). put x i d) [] (enumerate 0 vals)) v of Some i \<Rightarrow> int i | None \<Rightarrow> - 1)"

definition derivedID :: "Node \<Rightarrow> string" where
  "derivedID n = (if Kind n = KindFunction then FuncID (File n) (ToLower (Name n)) else File n)"

definition node_kinds :: "string list" where
  "node_kinds = map node_kind_string [KindFunction, KindFile, KindExternal, KindPackage]"

definition edge_kinds :: "string list" where
  "edge_kinds = map kind_string [EdgeCalls, EdgeInstantiates, EdgeExtends, EdgeIncludes, EdgeRoute]"

definition flagEntry :: int where "flagEntry = 1"
definition flagReachable :: int where "flagReachable = 2"
definition flagRoot :: int where "flagRoot = 4"
definition flagAbstract :: int where "flagAbstract = 8"
definition flagBoundary :: int where "flagBoundary = 16"
definition flagUtility :: int where "flagUtility = 32"

definition node_flags :: "Node \<Rightarrow> int" where
  "node_flags n =
     (let f = 0;
          f = (if Entry n then f OR flagEntry else f);
          f = (if Reachable n then f OR flagReachable else f);
          f = (if Root n then f OR flagRoot else f);
          f = (if Abstract n then f OR flagAbstract else f);
          f = (if Boundary n then f OR flagBoundary else f);
          f = (if Utility n then f OR flagUtility else f)
      in f)"

definition compact_node :: "Node \<Rightarrow> interner \<Rightarrow> int list \<times> interner" where
  "compact_node n t =
     (let (ident, t) = (if ID n \<noteq> derivedID n then intern (ID n) t else (- 1, t));
          (name, t) = intern (Name n) t;
          (file, t) = intern (File n) t;
          (access, t) = intern (Access n) t;
          (comp, t) = intern (Component n) t
      in ([indexOf node_kinds (node_kind_string (Kind n)), name, file, uint (Line n), access, comp,
           int (IslandNo n), node_flags n, ident], t))"

fun compact_nodes :: "Node list \<Rightarrow> interner \<Rightarrow> int list list \<times> interner" where
  "compact_nodes [] t = ([], t)"
| "compact_nodes (n # ns) t =
     (let (a, t) = compact_node n t; (as, t) = compact_nodes ns t in (a # as, t))"

definition positions :: "Node list \<Rightarrow> (string, nat) gomap" where
  "positions ns = foldl (\<lambda>d (i, n). put (ID n) i d) [] (enumerate 0 ns)"

definition compact_edge :: "(string, nat) gomap \<Rightarrow> Edge \<Rightarrow> int list option" where
  "compact_edge pos e =
     (if EKind e = EdgeContains then None
      else case (get pos (From e), get pos (To e)) of
             (Some a, Some b) \<Rightarrow>
               Some [int a, int b, indexOf edge_kinds (kind_string (EKind e)), int (Count e), if Dynamic e then 1 else 0]
           | _ \<Rightarrow> None)"

record compactMap =
  cTitle :: string
  cRoot :: string
  cLevel :: Level
  cStats :: Stats
  cHideUtility :: bool
  Strings :: "string list"
  Kinds :: "string list"
  EdgeKinds :: "string list"
  cN :: "int list list"
  cE :: "int list list"

definition compact :: "string \<Rightarrow> Map \<Rightarrow> compactMap" where
  "compact title m =
     (let (ns, t) = compact_nodes (mNodes m) newInterner
      in \<lparr>cTitle = title, cRoot = mRoot m, cLevel = mLevel m, cStats = mStats m, cHideUtility = False,
          Strings = strings t, Kinds = node_kinds, EdgeKinds = edge_kinds, cN = ns,
          cE = List.map_filter (compact_edge (positions (mNodes m))) (mEdges m)\<rparr>)"

section \<open>The decoder\<close>

record JNode =
  jid :: string
  jkind :: string
  jname :: string
  jfile :: string
  jline :: int
  jaccess :: string
  jcomponent :: string
  jisland :: int
  jentry :: bool
  jreachable :: bool
  jroot :: bool
  jabstract :: bool
  jboundary :: bool
  jutility :: bool

record JEdge =
  jfrom :: string
  jto :: string
  jekind :: string
  jcount :: int
  jdynamic :: bool

definition str_at :: "string list \<Rightarrow> int \<Rightarrow> string" where
  "str_at S i = (if 0 \<le> i \<and> i < int (length S) then S ! nat i else [])"

text \<open>\<open>xs[i] || d\<close> on a list of strings: an index out of range and the empty string give \<open>d\<close>.\<close>

definition at_or :: "string list \<Rightarrow> int \<Rightarrow> string \<Rightarrow> string" where
  "at_or xs i d = (let s = str_at xs i in if s = [] then d else s)"

definition decode_node :: "string list \<Rightarrow> string list \<Rightarrow> int list \<Rightarrow> JNode" where
  "decode_node S nk a =
     (let kd = at_or nk (a ! 0) ''function''; name = str_at S (a ! 1); file = str_at S (a ! 2); fl = a ! 7
      in \<lparr>jid = (if 0 \<le> a ! 8 then str_at S (a ! 8)
                 else if kd = ''function'' then file @ ''::'' @ ToLower name else file),
          jkind = kd, jname = name, jfile = file, jline = a ! 3, jaccess = str_at S (a ! 4),
          jcomponent = str_at S (a ! 5), jisland = a ! 6,
          jentry = fl AND 1 \<noteq> 0, jreachable = fl AND 2 \<noteq> 0, jroot = fl AND 4 \<noteq> 0,
          jabstract = fl AND 8 \<noteq> 0, jboundary = fl AND 16 \<noteq> 0, jutility = fl AND 32 \<noteq> 0\<rparr>)"

definition decode_edge :: "JNode list \<Rightarrow> string list \<Rightarrow> int list \<Rightarrow> JEdge" where
  "decode_edge ns ek a =
     \<lparr>jfrom = jid (ns ! nat (a ! 0)), jto = jid (ns ! nat (a ! 1)), jekind = at_or ek (a ! 2) ''calls'',
      jcount = (if a ! 3 = 0 then 1 else a ! 3), jdynamic = a ! 4 \<noteq> 0\<rparr>"

definition decode :: "compactMap \<Rightarrow> JNode list \<times> JEdge list" where
  "decode c =
     (let ns = map (decode_node (Strings c) (Kinds c)) (cN c)
      in (ns, map (decode_edge ns (EdgeKinds c)) (cE c)))"

section \<open>What the page is meant to show\<close>

definition shown_node :: "Node \<Rightarrow> JNode" where
  "shown_node n =
     \<lparr>jid = ID n, jkind = node_kind_string (Kind n), jname = Name n, jfile = File n, jline = uint (Line n),
      jaccess = Access n, jcomponent = Component n, jisland = int (IslandNo n), jentry = Entry n,
      jreachable = Reachable n, jroot = Root n, jabstract = Abstract n, jboundary = Boundary n,
      jutility = Utility n\<rparr>"

definition shown_edge :: "Edge \<Rightarrow> JEdge" where
  "shown_edge e =
     \<lparr>jfrom = From e, jto = To e, jekind = kind_string (EKind e), jcount = int (Count e), jdynamic = Dynamic e\<rparr>"

lemma node_flags_bits:
  "(node_flags n AND 1 \<noteq> 0) = Entry n" "(node_flags n AND 2 \<noteq> 0) = Reachable n"
  "(node_flags n AND 4 \<noteq> 0) = Root n" "(node_flags n AND 8 \<noteq> 0) = Abstract n"
  "(node_flags n AND 16 \<noteq> 0) = Boundary n" "(node_flags n AND 32 \<noteq> 0) = Utility n"
  by (cases "Entry n"; cases "Reachable n"; cases "Root n"; cases "Abstract n"; cases "Boundary n"; cases "Utility n";
      simp add: node_flags_def flagEntry_def flagReachable_def flagRoot_def flagAbstract_def flagBoundary_def
        flagUtility_def)+

lemma node_kinds_decode: "at_or node_kinds (indexOf node_kinds (node_kind_string k)) d = node_kind_string k"
  by (cases k) (simp_all add: node_kinds_def at_or_def str_at_def indexOf_def Let_def)

lemma edge_kinds_decode:
  "k \<noteq> EdgeContains \<Longrightarrow> at_or edge_kinds (indexOf edge_kinds (kind_string k)) d = kind_string k"
  by (cases k) (simp_all add: edge_kinds_def at_or_def str_at_def indexOf_def Let_def)

section \<open>Interning\<close>

definition interner_ok :: "interner \<Rightarrow> bool" where
  "interner_ok t \<longleftrightarrow> (\<forall>s i. get (index t) s = Some i \<longrightarrow> i < length (strings t) \<and> strings t ! i = s)"

text \<open>What a decoder that holds at least the strings of \<open>t\<close> reads at an index.\<close>

definition reads :: "interner \<Rightarrow> int \<Rightarrow> string \<Rightarrow> bool" where
  "reads t i s \<longleftrightarrow> (\<forall>S. prefix (strings t) S \<longrightarrow> str_at S i = s)"

lemma reads_later: "reads t i s \<Longrightarrow> prefix (strings t) (strings t') \<Longrightarrow> reads t' i s"
  unfolding reads_def by (meson prefix_order.trans)

lemma reads_at: "i < length (strings t) \<Longrightarrow> strings t ! i = s \<Longrightarrow> reads t (int i) s"
  by (auto simp: reads_def str_at_def prefix_def nth_append)

lemma intern_ok:
  assumes "intern s t = (i, t')" "interner_ok t"
  shows "interner_ok t' \<and> prefix (strings t) (strings t') \<and> reads t' i s \<and> (0 \<le> i \<longleftrightarrow> s \<noteq> [])"
proof (cases "s = []")
  case True
  then show ?thesis using assms by (auto simp: intern_def reads_def str_at_def)
next
  case False
  show ?thesis
  proof (cases "get (index t) s")
    case None
    then have "i = int (length (strings t))" "t' = \<lparr>index = put s (length (strings t)) (index t), strings = strings t @ [s]\<rparr>"
      using assms(1) False by (auto simp: intern_def Let_def)
    moreover have "interner_ok t'"
      using assms(2) calculation by (auto simp: interner_ok_def nth_append dest: less_SucI)
    ultimately show ?thesis using False reads_at[of "length (strings t)" t' s] by simp
  next
    case (Some j)
    then have "i = int j" "t' = t" using assms(1) False by (auto simp: intern_def)
    moreover have "j < length (strings t)" "strings t ! j = s" using assms(2) Some by (auto simp: interner_ok_def)
    ultimately show ?thesis using assms(2) False reads_at by simp
  qed
qed

lemma derivedID_decoded:
  "(if node_kind_string (Kind n) = ''function'' then File n @ ''::'' @ ToLower (Name n) else File n) = derivedID n"
  by (cases "Kind n") (simp_all add: derivedID_def FuncID_def)

lemma compact_node_ok:
  assumes "compact_node n t = (a, t')" "interner_ok t" "ID n \<noteq> []"
  shows "interner_ok t' \<and> prefix (strings t) (strings t') \<and>
    (\<forall>S. prefix (strings t') S \<longrightarrow> decode_node S node_kinds a = shown_node n)"
proof -
  obtain ident t0 where 0: "(if ID n \<noteq> derivedID n then intern (ID n) t else (- 1, t)) = (ident, t0)" by fastforce
  obtain name t1 where 1: "intern (Name n) t0 = (name, t1)" by fastforce
  obtain path t2 where 2: "intern (File n) t1 = (path, t2)" by fastforce
  obtain access t3 where 3: "intern (Access n) t2 = (access, t3)" by fastforce
  obtain comp t4 where 4: "intern (Component n) t3 = (comp, t4)" by fastforce
  have a: "a = [indexOf node_kinds (node_kind_string (Kind n)), name, path, uint (Line n), access, comp,
       int (IslandNo n), node_flags n, ident]" "t' = t4"
    using assms(1) unfolding compact_node_def 0 by (simp_all add: 1 2 3 4)
  have t0: "interner_ok t0 \<and> prefix (strings t) (strings t0) \<and>
      (if ID n \<noteq> derivedID n then reads t0 ident (ID n) \<and> 0 \<le> ident else ident < 0)"
    using 0 intern_ok[of "ID n" t ident t0] assms(2,3) by (auto split: if_splits)
  note t1 = intern_ok[OF 1 conjunct1[OF t0]]
  note t2 = intern_ok[OF 2 conjunct1[OF t1]]
  note t3 = intern_ok[OF 3 conjunct1[OF t2]]
  note t4 = intern_ok[OF 4 conjunct1[OF t3]]
  have later: "prefix (strings t3) (strings t4)" "prefix (strings t2) (strings t4)" "prefix (strings t1) (strings t4)"
    "prefix (strings t0) (strings t4)" "prefix (strings t) (strings t4)"
    using t0 t1 t2 t3 t4 by (meson prefix_order.trans)+
  have "decode_node S node_kinds a = shown_node n" if S: "prefix (strings t4) S" for S
  proof -
    have read: "str_at S i = s" if "reads t4 i s" for i s using that S by (simp add: reads_def)
    have strs: "str_at S name = Name n" "str_at S path = File n" "str_at S access = Access n" "str_at S comp = Component n"
      using t1 t2 t3 t4 later by (meson read reads_later)+
    have "(if 0 \<le> ident then str_at S ident else derivedID n) = ID n"
      using t0 later(4) read reads_later by (smt (verit, best))
    then have "(if 0 \<le> ident then str_at S ident
        else if node_kind_string (Kind n) = ''function'' then File n @ ''::'' @ ToLower (Name n) else File n) = ID n"
      by (simp only: derivedID_decoded)
    then show ?thesis
      unfolding a decode_node_def shown_node_def Let_def
      by (simp only: strs node_flags_bits node_kinds_decode nth_Cons_numeral nth_Cons_0 nth_Cons_Suc
          numeral_nat pred_numeral_simps BitM.simps One_nat_def diff_Suc_1)
  qed
  then show ?thesis using t4 later(5) a(2) by simp
qed

lemma compact_nodes_ok:
  "compact_nodes ns t = (as, t') \<Longrightarrow> interner_ok t \<Longrightarrow> \<forall>n \<in> set ns. ID n \<noteq> [] \<Longrightarrow>
     prefix (strings t) (strings t') \<and> length as = length ns \<and>
     (\<forall>S. prefix (strings t') S \<longrightarrow> map (decode_node S node_kinds) as = map shown_node ns)"
proof (induction ns arbitrary: t as)
  case (Cons n ns)
  obtain a t1 where 1: "compact_node n t = (a, t1)" by fastforce
  obtain bs t2 where 2: "compact_nodes ns t1 = (bs, t2)" by fastforce
  have as: "as = a # bs" "t' = t2" using Cons.prems(1) by (simp_all add: 1 2)
  have "ID n \<noteq> []" using Cons.prems(3) by simp
  note n = compact_node_ok[OF 1 Cons.prems(2) this]
  have "\<forall>n \<in> set ns. ID n \<noteq> []" using Cons.prems(3) by simp
  from Cons.IH[OF _ conjunct1[OF n] this] 2 as(2)
  have ns: "prefix (strings t1) (strings t2) \<and> length bs = length ns \<and>
     (\<forall>S. prefix (strings t2) S \<longrightarrow> map (decode_node S node_kinds) bs = map shown_node ns)" by simp
  have "decode_node S node_kinds a = shown_node n" if "prefix (strings t2) S" for S
    using n ns that by (meson prefix_order.trans)
  then show ?case using n ns as by (auto intro: prefix_order.trans)
qed simp

lemma positions_get:
  "get (positions ns) k = Some i \<Longrightarrow> i < length ns \<and> ID (ns ! i) = k"
proof (induction ns arbitrary: i rule: rev_induct)
  case (snoc n ns)
  have "positions (ns @ [n]) = put (ID n) (length ns) (positions ns)"
    by (simp add: positions_def enumerate_append_eq)
  then show ?case using snoc by (auto simp: nth_append split: if_splits)
qed (simp add: positions_def)

lemma positions_None: "get (positions ns) k = None \<longleftrightarrow> k \<notin> ID ` set ns"
proof (induction ns rule: rev_induct)
  case (snoc n ns)
  have "positions (ns @ [n]) = put (ID n) (length ns) (positions ns)"
    by (simp add: positions_def enumerate_append_eq)
  then show ?case using snoc by auto
qed (simp add: positions_def)

text \<open>
  C13: The report page shows the map it was given: decoding the wire form gives back every node with all
  its fields and every edge but the containment edges and those with an end that is not in the map.
  Ids are not empty and an edge counts at least one call.
\<close>

theorem decode_compact:
  assumes ids: "\<And>n. n \<in> set (mNodes m) \<Longrightarrow> ID n \<noteq> []"
    and counts: "\<And>e. e \<in> set (mEdges m) \<Longrightarrow> 0 < Count e"
  shows "decode (compact title m) =
    (map shown_node (mNodes m),
     map shown_edge (filter (\<lambda>e. EKind e \<noteq> EdgeContains \<and> From e \<in> ID ` set (mNodes m) \<and> To e \<in> ID ` set (mNodes m))
       (mEdges m)))"
proof -
  obtain as t where c: "compact_nodes (mNodes m) newInterner = (as, t)" by fastforce
  have "interner_ok newInterner" by (simp add: interner_ok_def newInterner_def)
  then have ns: "map (decode_node (strings t) node_kinds) as = map shown_node (mNodes m)"
    using compact_nodes_ok[OF c] ids by simp
  let ?pos = "positions (mNodes m)"
  let ?P = "\<lambda>e. EKind e \<noteq> EdgeContains \<and> From e \<in> ID ` set (mNodes m) \<and> To e \<in> ID ` set (mNodes m)"
  have edge: "map_option (decode_edge (map shown_node (mNodes m)) edge_kinds) (compact_edge ?pos e) =
      (if ?P e then Some (shown_edge e) else None)" if "e \<in> set (mEdges m)" for e
  proof (cases "?P e")
    case True
    then have "get ?pos (From e) \<noteq> None" "get ?pos (To e) \<noteq> None" unfolding positions_None by blast+
    then obtain a b where "get ?pos (From e) = Some a" "get ?pos (To e) = Some b" by blast
    then show ?thesis using True counts[OF that] positions_get edge_kinds_decode
      by (simp add: compact_edge_def decode_edge_def shown_edge_def shown_node_def)
  next
    case False
    then have "EKind e = EdgeContains \<or> get ?pos (From e) = None \<or> get ?pos (To e) = None"
      using False unfolding positions_None by blast
    then have "compact_edge ?pos e = None" by (auto simp: compact_edge_def split: option.split)
    then show ?thesis using False by simp
  qed
  have "map (decode_edge (map shown_node (mNodes m)) edge_kinds) (List.map_filter (compact_edge ?pos) es) =
      map shown_edge (filter ?P es)" if "set es \<subseteq> set (mEdges m)" for es
    using that
  proof (induction es)
    case (Cons e es)
    then show ?case using edge[of e] by (cases "compact_edge ?pos e") (auto simp: map_filter_simps split: if_splits)
  qed (simp add: map_filter_simps)
  then show ?thesis by (simp add: decode_def compact_def c ns Let_def)
qed

text \<open>A page that calls a component which is not in the workspace.\<close>

definition page_map :: Map where
  "page_map =
     \<lparr>mRoot = [], mLevel = LevelFunction, mFingerprint = [],
      mNodes = [empty_node\<lparr>ID := ''a.cfm'', File := ''a.cfm'', Name := ''a.cfm'', Entry := True\<rparr>,
                empty_node\<lparr>ID := ''?log.write'', Kind := KindExternal, Name := ''Log.write''\<rparr>],
      mEdges = [\<lparr>From = ''a.cfm'', To = ''?log.write'', EKind = EdgeRoute, Count = 3, Dynamic = True\<rparr>],
      mStats = \<lparr>sFiles = 1, sFunctions = 0, sCallSites = 3, sResolved = 0, sDynamic = 3, sUnresolved = 0,
        sBuiltin = 0, sUnreadable = 0, sRoutes = 0, sRoutesUnresolved = 0, sUtility = 0, sCached = 0,
        sBuildMillis = 0, sIslands = 1, sDetached = 0\<rparr>\<rparr>"

lemma decode_compact_witness:
  "decode (compact ''Map'' page_map) = (map shown_node (mNodes page_map), map shown_edge (mEdges page_map))"
proof -
  have "ID n \<noteq> []" if "n \<in> set (mNodes page_map)" for n
    using that by (auto simp: page_map_def)
  moreover have "0 < Count e" if "e \<in> set (mEdges page_map)" for e
    using that by (auto simp: page_map_def)
  moreover have "filter (\<lambda>e. EKind e \<noteq> EdgeContains \<and> From e \<in> ID ` set (mNodes page_map) \<and>
      To e \<in> ID ` set (mNodes page_map)) (mEdges page_map) = mEdges page_map"
    by (simp add: page_map_def)
  ultimately show ?thesis using decode_compact[of page_map "''Map''"] by simp
qed

end
