(* ===== verification/Cycles.thy ===== *)
theory Cycles
  imports Code_Map_Props
begin

text \<open>
  The cycles of the project map (\<open>Map.Cycles\<close> of \<open>internal/codemap/views.go\<close>): Tarjan's algorithm with the stack of
  calls written out. The two slices used as stacks have their end, where the code pushes and pops, at
  the head of the list. Popping an empty stack panics, which is \<open>None\<close>.
\<close>

section \<open>The algorithm\<close>

record tarjan =
  counter :: nat
  stack :: "string list"
  onStack :: "(string, bool) gomap"
  indices :: "(string, nat) gomap"
  lowlink :: "(string, nat) gomap"
  found :: "string list list"

type_synonym frame = "string \<times> nat"

definition discover :: "string \<Rightarrow> tarjan \<Rightarrow> tarjan" where
  "discover n st =
     st\<lparr>indices := put n (counter st) (indices st), lowlink := put n (counter st) (lowlink st),
        counter := counter st + 1, stack := n # stack st, onStack := put n True (onStack st)\<rparr>"

definition lower :: "string \<Rightarrow> nat \<Rightarrow> tarjan \<Rightarrow> tarjan" where
  "lower n k st = st\<lparr>lowlink := put n (min (get_int (lowlink st) n) k) (lowlink st)\<rparr>"

fun pop_to :: "string \<Rightarrow> string list \<Rightarrow> (string list \<times> string list) option" where
  "pop_to node [] = None"
| "pop_to node (x # xs) =
     (if x = node then Some ([x], xs) else map_option (\<lambda>(component, rest). (x # component, rest)) (pop_to node xs))"

definition selfLoop :: "adj \<Rightarrow> string \<Rightarrow> bool" where
  "selfLoop a node \<longleftrightarrow> node \<in> set (get_list a node)"

definition close_component :: "adj \<Rightarrow> string \<Rightarrow> tarjan \<Rightarrow> tarjan option" where
  "close_component a node st =
     (if get_int (lowlink st) node = get_int (indices st) node
      then (case pop_to node (stack st) of None \<Rightarrow> None
        | Some (component, rest) \<Rightarrow>
            Some (st\<lparr>stack := rest, onStack := foldl (\<lambda>m x. put x False m) (onStack st) component,
              found := (if 1 < length component \<or> selfLoop a node then found st @ [sort component] else found st)\<rparr>))
      else Some st)"

lemma close_component_indices: "close_component a node st = Some st' \<Longrightarrow> indices st' = indices st"
  by (auto simp: close_component_def split: if_splits option.splits)

definition undiscovered :: "adj \<Rightarrow> tarjan \<Rightarrow> string set" where
  "undiscovered a st = {n. \<exists>k. n \<in> set (get_list a k)} - dom (get (indices st))"

definition left_over :: "adj \<Rightarrow> frame list \<Rightarrow> nat" where
  "left_over a work = sum_list (map (\<lambda>(n, i). length (get_list a n) - i) work)"

definition to_parent :: "string \<Rightarrow> frame list \<Rightarrow> tarjan \<Rightarrow> tarjan" where
  "to_parent node work st = (case work of [] \<Rightarrow> st | (parent, _) # _ \<Rightarrow> lower parent (get_int (lowlink st) node) st)"

lemma indices_simps [simp]:
  "indices (lower n k st) = indices st" "indices (to_parent n work st) = indices st"
  by (auto simp: lower_def to_parent_def split: list.splits)

function (sequential) tarjan_loop :: "adj \<Rightarrow> tarjan \<Rightarrow> frame list \<Rightarrow> tarjan option" where
  "tarjan_loop a st [] = Some st"
| "tarjan_loop a st ((node, i) # work) =
     (let children = get_list a node
      in if i < length children then
           let child = children ! i
           in if get (indices st) child = None
              then tarjan_loop a (discover child st) ((child, 0) # (node, i + 1) # work)
              else if get (onStack st) child = Some True
              then tarjan_loop a (lower node (get_int (indices st) child) st) ((node, i + 1) # work)
              else tarjan_loop a st ((node, i + 1) # work)
         else (case close_component a node st of None \<Rightarrow> None
           | Some st \<Rightarrow> tarjan_loop a (to_parent node work st) work))"
  by pat_completeness auto
termination
proof (relation "measures [\<lambda>(a, st, work). card (undiscovered a st), \<lambda>(a, st, work). left_over a work,
    \<lambda>(a, st, work). length work]", goal_cases)
  case (2 a st node i work children child)
  have "child \<in> set (get_list a node)" using 2 by simp
  then have "undiscovered a (discover child st) = undiscovered a st - {child}" "child \<in> undiscovered a st"
    using 2(4) by (auto simp: undiscovered_def discover_def split: if_splits)
  moreover have "finite (undiscovered a st)" by (simp add: undiscovered_def finite_targets)
  ultimately have "card (undiscovered a (discover child st)) < card (undiscovered a st)" by (metis card_Diff1_less)
  then show ?case by simp
qed (auto simp: undiscovered_def left_over_def dest: close_component_indices)

definition from_root :: "adj \<Rightarrow> tarjan option \<Rightarrow> string \<Rightarrow> tarjan option" where
  "from_root a st root =
     (case st of None \<Rightarrow> None
      | Some st \<Rightarrow> if get (indices st) root \<noteq> None then Some st else tarjan_loop a (discover root st) [(root, 0)])"

text \<open>No two components have an element in common, so no two are equal under the order they are sorted by.\<close>

definition Cycles :: "Map \<Rightarrow> string list list option" where
  "Cycles m =
     map_option (\<lambda>st. sort_key (\<lambda>c. (- int (length c), hd c)) (found st))
       (foldl (from_root (adjacency True m))
          (Some \<lparr>counter = 0, stack = [], onStack = [], indices = [], lowlink = [], found = []\<rparr>) (map ID (mNodes m)))"

end
