(* ===== verification/Cycles_Props.thy ===== *)
theory Cycles_Props
  imports Cycles
begin

text \<open>
  The cycles of the project map are the strongly connected components of its dependencies. The invariant is
  that of Tarjan's algorithm, over the numbers nodes are discovered in: a node on the stack belongs to the
  frame above which it was discovered, can be reached from it, and reaches a frame.
\<close>

section \<open>The invariant\<close>

abbreviation num :: "tarjan \<Rightarrow> string \<Rightarrow> nat" where
  "num st n \<equiv> get_int (indices st) n"

abbreviation low :: "tarjan \<Rightarrow> string \<Rightarrow> nat" where
  "low st n \<equiv> get_int (lowlink st) n"

definition seen :: "tarjan \<Rightarrow> string set" where
  "seen st = dom (get (indices st))"

definition closed :: "tarjan \<Rightarrow> string set" where
  "closed st = seen st - set (stack st)"

definition frames :: "frame list \<Rightarrow> string set" where
  "frames work = fst ` set work"

definition owner :: "tarjan \<Rightarrow> frame list \<Rightarrow> string \<Rightarrow> string \<Rightarrow> bool" where
  "owner st work x v \<longleftrightarrow> v \<in> frames work \<and> num st v \<le> num st x \<and>
     (\<forall>u \<in> frames work. num st u \<le> num st x \<longrightarrow> num st u \<le> num st v)"

definition scc_of :: "('n \<times> 'n) set \<Rightarrow> 'n \<Rightarrow> 'n set" where
  "scc_of R x = {y. (x, y) \<in> R\<^sup>* \<and> (y, x) \<in> R\<^sup>*}"

definition numbered :: "tarjan \<Rightarrow> bool" where
  "numbered st \<longleftrightarrow> set (stack st) \<subseteq> seen st \<and> sorted_wrt (\<lambda>x y. num st y < num st x) (stack st) \<and>
     (\<forall>n \<in> seen st. num st n < counter st) \<and> (\<forall>n. get (onStack st) n = Some True \<longleftrightarrow> n \<in> set (stack st))"

definition framed :: "(string \<times> string) set \<Rightarrow> tarjan \<Rightarrow> frame list \<Rightarrow> bool" where
  "framed R st work \<longleftrightarrow> frames work \<subseteq> set (stack st) \<and>
     sorted_wrt (\<lambda>v u. num st (fst u) < num st (fst v) \<and> (fst u, fst v) \<in> R\<^sup>*) work \<and>
     (\<forall>x \<in> set (stack st). \<exists>u \<in> frames work. num st u \<le> num st x \<and> (x, u) \<in> R\<^sup>*) \<and>
     (\<forall>x \<in> set (stack st). \<forall>u. owner st work x u \<longrightarrow> (u, x) \<in> R\<^sup>*)"

definition explored :: "adj \<Rightarrow> tarjan \<Rightarrow> frame list \<Rightarrow> bool" where
  "explored a st work \<longleftrightarrow> arcs a `` closed st \<subseteq> closed st \<and>
     arcs a `` (set (stack st) - frames work) \<subseteq> seen st \<and>
     (\<forall>(v, i) \<in> set work. set (take i (get_list a v)) \<subseteq> seen st)"

definition lows :: "adj \<Rightarrow> tarjan \<Rightarrow> frame list \<Rightarrow> bool" where
  "lows a st work \<longleftrightarrow>
     (\<forall>v \<in> frames work. low st v \<le> num st v \<and> (\<exists>x \<in> set (stack st). num st x = low st v \<and> (v, x) \<in> (arcs a)\<^sup>*)) \<and>
     (\<forall>x \<in> set (stack st) - frames work. \<forall>y \<in> set (stack st). (x, y) \<in> arcs a \<longrightarrow>
        (\<forall>u. owner st work x u \<longrightarrow> low st u \<le> num st y)) \<and>
     (\<forall>(v, i) \<in> set work. \<forall>y \<in> set (take i (get_list a v)). y \<in> set (stack st) \<longrightarrow> low st v \<le> num st y)"

definition cyclic_sccs :: "('n \<times> 'n) set \<Rightarrow> 'n set \<Rightarrow> 'n set set" where
  "cyclic_sccs R X = {scc_of R x |x. x \<in> X \<and> (x, x) \<in> R\<^sup>+}"

definition output_ok :: "adj \<Rightarrow> tarjan \<Rightarrow> bool" where
  "output_ok a st \<longleftrightarrow> set ` set (found st) = cyclic_sccs (arcs a) (closed st) \<and> distinct (found st) \<and>
     (\<forall>c \<in> set (found st). sorted c \<and> distinct c)"

definition tarjan_inv :: "adj \<Rightarrow> string set \<Rightarrow> tarjan \<Rightarrow> frame list \<Rightarrow> bool" where
  "tarjan_inv a ids st work \<longleftrightarrow> numbered st \<and> framed (arcs a) st work \<and> explored a st work \<and> lows a st work \<and>
     output_ok a st \<and> seen st \<subseteq> (arcs a)\<^sup>* `` ids"

section \<open>Discovery\<close>

lemma get_int_put [simp]: "get_int (put k v m) k' = (if k' = k then v else get_int m k')"
  by (simp add: get_int_def)

lemma seen_discover [simp]: "seen (discover n st) = insert n (seen st)"
  by (auto simp: seen_def discover_def)

lemma discover_simps [simp]:
  "stack (discover n st) = n # stack st" "found (discover n st) = found st" "counter (discover n st) = counter st + 1"
  "num (discover n st) x = (if x = n then counter st else num st x)"
  "low (discover n st) x = (if x = n then counter st else low st x)"
  "get (onStack (discover n st)) x = (if x = n then Some True else get (onStack st) x)"
  by (auto simp: discover_def)

lemma frames_Cons [simp]: "frames ((v, i) # work) = insert v (frames work)" "frames [] = {}"
  by (auto simp: frames_def)

lemma closed_discover [simp]: "n \<notin> seen st \<Longrightarrow> closed (discover n st) = closed st"
  by (auto simp: closed_def)

lemma numbered_stack: "numbered st \<Longrightarrow> x \<in> set (stack st) \<Longrightarrow> x \<in> seen st \<and> num st x < counter st"
  by (auto simp: numbered_def)

lemma numbered_discover:
  assumes "numbered st" "n \<notin> seen st"
  shows "numbered (discover n st)"
proof -
  have *: "x \<noteq> n \<and> num st x < counter st" if "x \<in> set (stack st)" for x using numbered_stack[OF assms(1) that] assms(2) by auto
  have "sorted_wrt (\<lambda>x y. num (discover n st) y < num (discover n st) x) (stack st)"
    by (rule sorted_wrt_mono_rel[of _ "\<lambda>x y. num st y < num st x"]) (use assms(1) * in \<open>auto simp: numbered_def\<close>)
  then show ?thesis using assms * by (auto simp: numbered_def less_Suc_eq)
qed

lemma owner_discover:
  assumes "numbered st" "n \<notin> seen st" "frames work \<subseteq> set (stack st)" "x \<in> insert n (set (stack st))"
  shows "owner (discover n st) ((n, i) # work) x u \<longleftrightarrow> (if x = n then u = n else owner st work x u)"
proof -
  have *: "y \<noteq> n \<and> num st y < counter st" if "y \<in> set (stack st)" for y using numbered_stack[OF assms(1) that] assms(2) by auto
  have f: "y \<noteq> n \<and> num st y < counter st" if "y \<in> frames work" for y using * that assms(3) by auto
  show ?thesis
  proof (cases "x = n")
    case True
    then show ?thesis using less_imp_le f by (fastforce simp: owner_def)
  next
    case False
    then have x: "num st x < counter st" using assms(4) * by auto
    then show ?thesis using f False by (auto simp: owner_def)
  qed
qed

lemma framed_discover:
  assumes inv: "numbered st" "framed R st work" and n: "n \<notin> seen st"
    and from_top: "\<And>v i w. work = (v, i) # w \<Longrightarrow> (v, n) \<in> R"
  shows "framed R (discover n st) ((n, 0) # work)"
proof -
  have sub: "frames work \<subseteq> set (stack st)" using inv(2) by (simp add: framed_def)
  have *: "y \<noteq> n \<and> num st y < counter st" if "y \<in> set (stack st)" for y using numbered_stack[OF inv(1) that] n by auto
  have f: "fst p \<noteq> n \<and> num st (fst p) < counter st" if "p \<in> set work" for p using * that sub by (auto simp: frames_def)
  have path: "(fst p, n) \<in> R\<^sup>*" if p: "p \<in> set work" for p
  proof -
    obtain v i w where w: "work = (v, i) # w" using p by (cases work) auto
    then have "(fst p, v) \<in> R\<^sup>*" using inv(2) p by (auto simp: framed_def)
    then show ?thesis using from_top[OF w] by simp
  qed
  have sorted: "sorted_wrt (\<lambda>v u. num (discover n st) (fst u) < num (discover n st) (fst v) \<and> (fst u, fst v) \<in> R\<^sup>*) work"
    by (rule sorted_wrt_mono_rel[of _ "\<lambda>v u. num st (fst u) < num st (fst v) \<and> (fst u, fst v) \<in> R\<^sup>*"])
      (use inv(2) f in \<open>auto simp: framed_def\<close>)
  have reach: "\<exists>u \<in> frames ((n, 0) # work). num (discover n st) u \<le> num (discover n st) x \<and> (x, u) \<in> R\<^sup>*"
    if x: "x \<in> insert n (set (stack st))" for x
  proof (cases "x = n")
    case False
    then obtain u where "u \<in> frames work" "num st u \<le> num st x" "(x, u) \<in> R\<^sup>*"
      using inv(2) x by (auto simp: framed_def)
    then show ?thesis using False sub * by (intro bexI[of _ u]) auto
  qed auto
  have owned: "(u, x) \<in> R\<^sup>*" if "x \<in> insert n (set (stack st))" "owner (discover n st) ((n, 0) # work) x u" for x u
    using that inv(2) unfolding owner_discover[OF inv(1) n sub that(1)] by (auto simp: framed_def split: if_splits)
  show ?thesis
    unfolding framed_def
  proof (intro conjI ballI allI impI)
    show "frames ((n, 0) # work) \<subseteq> set (stack (discover n st))" using sub by auto
    show "sorted_wrt (\<lambda>v u. num (discover n st) (fst u) < num (discover n st) (fst v) \<and> (fst u, fst v) \<in> R\<^sup>*) ((n, 0) # work)"
      using sorted f path by auto
  qed (use reach owned in auto)
qed

lemma lows_discover:
  assumes inv: "numbered st" "framed (arcs a) st work" "explored a st work" "lows a st work" and n: "n \<notin> seen st"
  shows "lows a (discover n st) ((n, 0) # work)"
proof -
  have sub: "frames work \<subseteq> set (stack st)" using inv(2) by (simp add: framed_def)
  have *: "y \<noteq> n" if "y \<in> seen st" for y using n that by auto
  have s: "y \<noteq> n" if "y \<in> set (stack st)" for y using numbered_stack[OF inv(1) that] n by auto
  have one: "low (discover n st) v \<le> num (discover n st) v \<and>
      (\<exists>x \<in> set (stack (discover n st)). num (discover n st) x = low (discover n st) v \<and> (v, x) \<in> (arcs a)\<^sup>*)"
    if v: "v \<in> frames ((n, 0) # work)" for v
  proof (cases "v = n")
    case False
    then obtain x where "x \<in> set (stack st)" "num st x = low st v" "(v, x) \<in> (arcs a)\<^sup>*" "low st v \<le> num st v"
      using v inv(4) by (auto simp: lows_def)
    then show ?thesis using False s by (auto intro!: bexI[of _ x])
  qed auto
  have two: "low (discover n st) u \<le> num (discover n st) y"
    if "x \<in> set (stack (discover n st)) - frames ((n, 0) # work)" "y \<in> set (stack (discover n st))" "(x, y) \<in> arcs a"
      "owner (discover n st) ((n, 0) # work) x u" for x y u
  proof -
    have x: "x \<in> set (stack st) - frames work" "x \<noteq> n" using that(1) by auto
    then have "y \<in> seen st" using inv(3) that(3) by (auto simp: explored_def)
    then have y: "y \<noteq> n" "y \<in> set (stack st)" using * that(2) by auto
    have o: "owner st work x u" using that(4) owner_discover[OF inv(1) n sub] x by auto
    then have "u \<noteq> n" using sub s by (auto simp: owner_def)
    then show ?thesis using o x y that(3) inv(4) by (simp add: lows_def)
  qed
  have three: "low (discover n st) v \<le> num (discover n st) y"
    if "(v, i) \<in> set ((n, 0) # work)" "y \<in> set (take i (get_list a v))" "y \<in> set (stack (discover n st))" for v i y
  proof -
    have v: "(v, i) \<in> set work" using that(1,2) by auto
    then have "y \<in> seen st" using inv(3) that(2) unfolding explored_def by blast
    then have y: "y \<noteq> n" "y \<in> set (stack st)" using * that(3) by auto
    have "v \<noteq> n" using v sub s by (force simp: frames_def)
    then show ?thesis using v y that(2) inv(4) unfolding lows_def by auto
  qed
  show ?thesis unfolding lows_def using one two three by blast
qed

lemma discover_inv:
  assumes inv: "tarjan_inv a ids st work" and n: "n \<notin> seen st" "n \<in> (arcs a)\<^sup>* `` ids"
    and from_top: "\<And>v i w. work = (v, i) # w \<Longrightarrow> (v, n) \<in> arcs a"
  shows "tarjan_inv a ids (discover n st) ((n, 0) # work)"
proof -
  have "explored a (discover n st) ((n, 0) # work)"
    using inv n(1) unfolding tarjan_inv_def explored_def by auto
  moreover have "output_ok a (discover n st)" using inv n(1) by (simp add: tarjan_inv_def output_ok_def)
  ultimately show ?thesis
    using inv n numbered_discover[of st n] framed_discover[of st "arcs a" work n, OF _ _ _ from_top] lows_discover[of st a work n]
    unfolding tarjan_inv_def by auto
qed

section \<open>Edges back\<close>

lemma lower_simps [simp]:
  "stack (lower n k st) = stack st" "found (lower n k st) = found st" "counter (lower n k st) = counter st"
  "onStack (lower n k st) = onStack st" "seen (lower n k st) = seen st" "closed (lower n k st) = closed st"
  "low (lower n k st) x = (if x = n then min (low st n) k else low st x)"
  "owner (lower n k st) work x u \<longleftrightarrow> owner st work x u"
  by (auto simp: lower_def seen_def closed_def owner_def)

lemma lower_others:
  "numbered (lower n k st) \<longleftrightarrow> numbered st" "framed R (lower n k st) work \<longleftrightarrow> framed R st work"
  "explored a (lower n k st) work \<longleftrightarrow> explored a st work" "output_ok a (lower n k st) \<longleftrightarrow> output_ok a st"
  by (simp_all add: numbered_def framed_def explored_def output_ok_def)

lemma lower_inv:
  assumes inv: "tarjan_inv a ids st work" and n: "n \<in> frames work"
    and k: "low st n \<le> k \<or> (\<exists>x \<in> set (stack st). num st x = k \<and> (n, x) \<in> (arcs a)\<^sup>*)"
  shows "tarjan_inv a ids (lower n k st) work"
proof -
  have l: "lows a st work" using inv by (simp add: tarjan_inv_def)
  have "lows a (lower n k st) work"
    unfolding lows_def
  proof (intro conjI)
    show "\<forall>v \<in> frames work. low (lower n k st) v \<le> num (lower n k st) v \<and>
        (\<exists>x \<in> set (stack (lower n k st)). num (lower n k st) x = low (lower n k st) v \<and> (v, x) \<in> (arcs a)\<^sup>*)"
      using l n k unfolding lows_def by (auto simp: min_def)
    show "\<forall>x \<in> set (stack (lower n k st)) - frames work. \<forall>y \<in> set (stack (lower n k st)). (x, y) \<in> arcs a \<longrightarrow>
        (\<forall>u. owner (lower n k st) work x u \<longrightarrow> low (lower n k st) u \<le> num (lower n k st) y)"
      using l unfolding lows_def by (auto simp: min_le_iff_disj)
    show "\<forall>(v, i) \<in> set work. \<forall>y \<in> set (take i (get_list a v)). y \<in> set (stack (lower n k st)) \<longrightarrow>
        low (lower n k st) v \<le> num (lower n k st) y"
      using l unfolding lows_def by (fastforce simp: min_le_iff_disj)
  qed
  then show ?thesis using inv by (simp add: tarjan_inv_def lower_others)
qed

lemma advance_inv:
  assumes inv: "tarjan_inv a ids st (pre @ (v, i) # work)" and i: "i < length (get_list a v)"
    and child: "get_list a v ! i \<in> seen st" "get_list a v ! i \<in> set (stack st) \<Longrightarrow> low st v \<le> num st (get_list a v ! i)"
  shows "tarjan_inv a ids st (pre @ (v, i + 1) # work)"
proof -
  have f: "frames (pre @ (v, i + 1) # work) = frames (pre @ (v, i) # work)" by (simp add: frames_def)
  then have o: "owner st (pre @ (v, i + 1) # work) = owner st (pre @ (v, i) # work)" by (simp add: owner_def fun_eq_iff)
  have t: "take (i + 1) (get_list a v) = take i (get_list a v) @ [get_list a v ! i]"
    using i by (simp add: take_Suc_conv_app_nth)
  have "framed (arcs a) st (pre @ (v, i + 1) # work)"
    using inv unfolding tarjan_inv_def framed_def f o by (simp add: sorted_wrt_append)
  moreover have "explored a st (pre @ (v, i + 1) # work)"
    using inv child(1) unfolding tarjan_inv_def explored_def f by (auto simp: t simp del: Suc_eq_plus1 add_Suc_right One_nat_def)
  moreover have "lows a st (pre @ (v, i + 1) # work)"
    using inv child(2) unfolding tarjan_inv_def lows_def f o by (auto simp: t simp del: Suc_eq_plus1 add_Suc_right One_nat_def)
  ultimately show ?thesis using inv by (simp add: tarjan_inv_def)
qed

section \<open>A node whose edges are all followed\<close>

lemma finished:
  assumes inv: "tarjan_inv a ids st ((v, i) # work)" and i: "\<not> i < length (get_list a v)"
  shows finished_on_stack: "v \<in> set (stack st)"
    and finished_last: "u \<in> frames work \<Longrightarrow> num st u < num st v"
    and finished_owner: "num st v \<le> num st x \<Longrightarrow> owner st ((v, i) # work) x u \<longleftrightarrow> u = v"
    and finished_owner_below: "num st x < num st v \<Longrightarrow> owner st ((v, i) # work) x u \<longleftrightarrow> owner st work x u"
    and finished_edges: "x \<in> set (stack st) \<Longrightarrow> num st v \<le> num st x \<Longrightarrow> (x, y) \<in> arcs a \<Longrightarrow>
      y \<in> seen st \<and> (y \<in> set (stack st) \<longrightarrow> low st v \<le> num st y)"
    and finished_reached: "x \<in> set (stack st) \<Longrightarrow> num st v \<le> num st x \<Longrightarrow> (v, x) \<in> (arcs a)\<^sup>*"
proof -
  have nf: "numbered st" "framed (arcs a) st ((v, i) # work)" "explored a st ((v, i) # work)" "lows a st ((v, i) # work)"
    using inv by (auto simp: tarjan_inv_def)
  show 1: "v \<in> set (stack st)" using nf(2) by (simp add: framed_def)
  show 2: "num st u < num st v" if "u \<in> frames work" for u using nf(2) that by (auto simp: framed_def frames_def)
  show 3: "owner st ((v, i) # work) x u \<longleftrightarrow> u = v" if "num st v \<le> num st x" for x u
  proof
    assume "owner st ((v, i) # work) x u"
    then have "u = v \<or> u \<in> frames work" "num st v \<le> num st u" using that by (auto simp: owner_def)
    then show "u = v" using 2 by force
  next
    assume "u = v"
    then show "owner st ((v, i) # work) x u" using that 2 by (auto simp: owner_def intro: less_imp_le)
  qed
  show "owner st ((v, i) # work) x u \<longleftrightarrow> owner st work x u" if "num st x < num st v"
    using that by (auto simp: owner_def)
  have t: "take i (get_list a v) = get_list a v" using i by simp
  show "y \<in> seen st \<and> (y \<in> set (stack st) \<longrightarrow> low st v \<le> num st y)"
    if x: "x \<in> set (stack st)" "num st v \<le> num st x" "(x, y) \<in> arcs a"
  proof (cases "x = v")
    case True
    then have "y \<in> set (get_list a v)" using x(3) by (simp add: arcs_def)
    then show ?thesis using nf(3,4) by (auto simp: explored_def lows_def t)
  next
    case False
    then have f: "x \<notin> frames ((v, i) # work)" using 2[of x] x(2) by auto
    then have "y \<in> seen st" using nf(3) x by (auto simp: explored_def)
    moreover have "owner st ((v, i) # work) x v" using 3[OF x(2)] by simp
    ultimately show ?thesis using nf(4) x f unfolding lows_def by blast
  qed
  show "(v, x) \<in> (arcs a)\<^sup>*" if "x \<in> set (stack st)" "num st v \<le> num st x"
    using nf(2) that 3[OF that(2)] by (simp add: framed_def)
qed

lemma owner_top:
  assumes "sorted_wrt (\<lambda>v u. num st (fst u) < num st (fst v) \<and> Q u v) ((p, j) # work)" "num st p \<le> num st x"
  shows "owner st ((p, j) # work) x u \<longleftrightarrow> u = p"
proof -
  have *: "num st u < num st p" if "u \<in> frames work" for u using assms(1) that by (auto simp: frames_def)
  show ?thesis
  proof
    assume "owner st ((p, j) # work) x u"
    then have "u = p \<or> u \<in> frames work" "num st p \<le> num st u" using assms(2) by (auto simp: owner_def)
    then show "u = p" using * by force
  next
    assume "u = p"
    then show "owner st ((p, j) # work) x u" using assms(2) * by (auto simp: owner_def intro: less_imp_le)
  qed
qed

lemma return_inv:
  assumes inv: "tarjan_inv a ids st ((v, i) # work)" and i: "\<not> i < length (get_list a v)" and not_root: "low st v \<noteq> num st v"
  shows "tarjan_inv a ids (to_parent v work st) work"
proof -
  note fin = finished[OF inv i]
  have nf: "numbered st" "framed (arcs a) st ((v, i) # work)" "explored a st ((v, i) # work)" "lows a st ((v, i) # work)"
    using inv by (auto simp: tarjan_inv_def)
  obtain x0 where x0: "x0 \<in> set (stack st)" "num st x0 = low st v" "(v, x0) \<in> (arcs a)\<^sup>*" "low st v < num st v"
    using nf(4) not_root by (fastforce simp: lows_def)
  obtain u0 where "u0 \<in> frames ((v, i) # work)" "num st u0 \<le> num st x0" "(x0, u0) \<in> (arcs a)\<^sup>*"
    using nf(2) x0(1) unfolding framed_def by blast
  then have u0: "u0 \<in> frames work" "num st u0 < num st v" "(v, u0) \<in> (arcs a)\<^sup>*" using x0 by auto
  then obtain p j rest where work: "work = (p, j) # rest" by (cases work) auto
  have sorted: "sorted_wrt (\<lambda>v u. num st (fst u) < num st (fst v) \<and> (fst u, fst v) \<in> (arcs a)\<^sup>*) work"
    and pv: "num st p < num st v" "(p, v) \<in> (arcs a)\<^sup>*"
    using nf(2) by (auto simp: framed_def work)
  have own: "owner st work x u \<longleftrightarrow> u = p" if "num st v \<le> num st x" for x u
    unfolding work by (rule owner_top[OF sorted[unfolded work]]) (use that pv in simp)
  have framed: "framed (arcs a) st work"
    unfolding framed_def
  proof (intro conjI ballI allI impI)
    show "frames work \<subseteq> set (stack st)" using nf(2) by (simp add: framed_def)
    fix x assume x: "x \<in> set (stack st)"
    show "\<exists>u \<in> frames work. num st u \<le> num st x \<and> (x, u) \<in> (arcs a)\<^sup>*"
    proof -
      obtain u where u: "u \<in> frames ((v, i) # work)" "num st u \<le> num st x" "(x, u) \<in> (arcs a)\<^sup>*"
        using nf(2) x unfolding framed_def by blast
      show ?thesis
      proof (cases "u = v")
        case True
        then show ?thesis using u u0 by (intro bexI[of _ u0]) auto
      qed (use u in auto)
    qed
    show "(u, x) \<in> (arcs a)\<^sup>*" if "owner st work x u" for u
    proof (cases "num st x < num st v")
      case True
      then show ?thesis using that fin(4)[OF True] nf(2) x unfolding framed_def by blast
    next
      case False
      then have "u = p" "(v, x) \<in> (arcs a)\<^sup>*" using own that fin(6)[OF x] by auto
      then show ?thesis using pv by auto
    qed
  qed (rule sorted)
  have explored: "explored a st work"
  proof -
    have "y \<in> seen st" if "x \<in> set (stack st) - frames work" "(x, y) \<in> arcs a" for x y
      using that fin(5)[OF fin(1), of y] nf(3) by (cases "x = v") (auto simp: explored_def)
    then show ?thesis using nf(3) unfolding explored_def by auto
  qed
  let ?st = "lower p (low st v) st"
  have "lows a ?st work"
    unfolding lows_def
  proof (intro conjI)
    have "(p, x0) \<in> (arcs a)\<^sup>*" using pv x0(3) by simp
    then show "\<forall>v \<in> frames work. low ?st v \<le> num ?st v \<and> (\<exists>x \<in> set (stack ?st). num ?st x = low ?st v \<and> (v, x) \<in> (arcs a)\<^sup>*)"
      using nf(4) x0 unfolding lows_def by (auto simp: min_def)
    show "\<forall>x \<in> set (stack ?st) - frames work. \<forall>y \<in> set (stack ?st). (x, y) \<in> arcs a \<longrightarrow>
        (\<forall>u. owner ?st work x u \<longrightarrow> low ?st u \<le> num ?st y)"
    proof (intro ballI impI allI, goal_cases)
      case (1 x y u)
      then show ?case
      proof (cases "num st x < num st v")
        case True
        then have "low st u \<le> num st y" using 1 fin(4)[OF True] nf(4) unfolding lows_def by fastforce
        then show ?thesis by (auto simp: min_le_iff_disj)
      next
        case False
        then show ?thesis using 1 own fin(5)[of x y] by (auto simp: min_le_iff_disj)
      qed
    qed
    show "\<forall>(v, i) \<in> set work. \<forall>y \<in> set (take i (get_list a v)). y \<in> set (stack ?st) \<longrightarrow> low ?st v \<le> num ?st y"
      using nf(4) unfolding lows_def by (fastforce simp: min_le_iff_disj)
  qed
  then show ?thesis
    using inv framed explored unfolding tarjan_inv_def by (simp add: to_parent_def work lower_others)
qed

section \<open>A component\<close>

lemma pop_to_split:
  "node \<in> set s \<Longrightarrow> sorted_wrt (\<lambda>x y. f y < (f x :: nat)) s \<Longrightarrow>
     \<exists>c rest. pop_to node s = Some (c, rest) \<and> s = c @ rest \<and> set c = {x \<in> set s. f node \<le> f x} \<and>
       set rest = {x \<in> set s. f x < f node}"
proof (induction s)
  case (Cons x s)
  show ?case
  proof (cases "x = node")
    case True
    then show ?thesis using Cons.prems by (auto intro: less_imp_le)
  next
    case False
    then have "node \<in> set s" "sorted_wrt (\<lambda>x y. f y < f x) s" using Cons.prems by auto
    from Cons.IH[OF this] obtain c rest where ih: "pop_to node s = Some (c, rest)" "s = c @ rest"
        "set c = {x \<in> set s. f node \<le> f x}" "set rest = {x \<in> set s. f x < f node}" by blast
    have x: "f node < f x" using Cons.prems False by auto
    have "pop_to node (x # s) = Some (x # c, rest)" "x # s = (x # c) @ rest" using ih(1,2) False by simp_all
    moreover have "set (x # c) = {y \<in> set (x # s). f node \<le> f y}" using x by (auto simp: ih(3))
    moreover have "set rest = {y \<in> set (x # s). f y < f node}" using x by (auto simp: ih(4))
    ultimately show ?thesis by blast
  qed
qed simp

lemma put_all_False: "get (foldl (\<lambda>m x. put x False m) m xs) n = (if n \<in> set xs then Some False else get m n)"
  by (induction xs arbitrary: m) auto

lemma sorted_wrt_distinct: "sorted_wrt (\<lambda>x y. f y < (f x :: nat)) s \<Longrightarrow> distinct s"
  by (induction s) auto

lemma scc_of_eq: "y \<in> scc_of R x \<Longrightarrow> scc_of R y = scc_of R x"
  by (auto simp: scc_of_def intro: rtrancl_trans)

lemma component_is_scc:
  assumes inv: "tarjan_inv a ids st ((v, i) # work)" and i: "\<not> i < length (get_list a v)" and root: "low st v = num st v"
  defines "T \<equiv> {x \<in> set (stack st). num st v \<le> num st x}"
  shows "T = scc_of (arcs a) v" "arcs a `` (closed st \<union> T) \<subseteq> closed st \<union> T"
proof -
  note fin = finished[OF inv i]
  have nf: "numbered st" "framed (arcs a) st ((v, i) # work)" "explored a st ((v, i) # work)"
    using inv by (auto simp: tarjan_inv_def)
  have v: "v \<in> T" using fin(1) by (simp add: T_def)
  have "y \<in> closed st \<union> T" if "x \<in> T" "(x, y) \<in> arcs a" for x y
    using fin(5)[of x y] that root by (auto simp: T_def closed_def)
  moreover have "arcs a `` closed st \<subseteq> closed st" using nf(3) unfolding explored_def by blast
  ultimately show cl: "arcs a `` (closed st \<union> T) \<subseteq> closed st \<union> T" by blast
  have "(x, v) \<in> (arcs a)\<^sup>*" if x: "x \<in> T" for x
  proof -
    obtain u where u: "u \<in> frames ((v, i) # work)" "(x, u) \<in> (arcs a)\<^sup>*"
      using nf(2) x unfolding framed_def T_def by blast
    have "u \<in> closed st \<union> T" using closed_rtrancl[OF u(2) _ cl] x by simp
    moreover have "u \<in> set (stack st)" using u(1) nf(2) unfolding framed_def by blast
    ultimately have "u \<in> T" by (simp add: closed_def)
    then have "u = v" using u(1) fin(2)[of u] by (auto simp: T_def)
    then show ?thesis using u(2) by simp
  qed
  moreover have "y \<in> T" if y: "(v, y) \<in> (arcs a)\<^sup>*" "(y, v) \<in> (arcs a)\<^sup>*" for y
  proof -
    have "y \<in> closed st \<union> T" using closed_rtrancl[OF y(1) _ cl] v by simp
    moreover have "y \<notin> closed st"
    proof
      assume "y \<in> closed st"
      then have "v \<in> closed st" using closed_rtrancl[OF y(2)] nf(3) unfolding explored_def by blast
      then show False using fin(1) by (simp add: closed_def)
    qed
    ultimately show ?thesis by simp
  qed
  moreover have "(v, x) \<in> (arcs a)\<^sup>*" if "x \<in> T" for x using fin(6)[of x] that by (simp add: T_def)
  ultimately show "T = scc_of (arcs a) v" unfolding scc_of_def by blast
qed

lemma on_cycle:
  assumes "scc_of R v = C"
  shows "(\<exists>x \<in> C. (x, x) \<in> R\<^sup>+) \<longleftrightarrow> C \<noteq> {v} \<or> (v, v) \<in> R" "x \<in> C \<Longrightarrow> (x, x) \<in> R\<^sup>+ \<longleftrightarrow> C \<noteq> {v} \<or> (v, v) \<in> R"
proof -
  have v: "v \<in> C" using assms by (auto simp: scc_of_def)
  have iff: "(x, x) \<in> R\<^sup>+ \<longleftrightarrow> C \<noteq> {v} \<or> (v, v) \<in> R" if x: "x \<in> C" for x
  proof (cases "C = {v}")
    case True
    have "(v, v) \<in> R" if "(v, v) \<in> R\<^sup>+"
    proof -
      obtain z where z: "(v, z) \<in> R" "(z, v) \<in> R\<^sup>*" using tranclD[OF \<open>(v, v) \<in> R\<^sup>+\<close>] by blast
      then have "z \<in> C" using assms by (auto simp: scc_of_def)
      then show ?thesis using z True by simp
    qed
    then show ?thesis using True x by auto
  next
    case False
    have C: "C = scc_of R x" using scc_of_eq[of x R v] x assms by simp
    obtain y where y: "y \<in> C" "y \<noteq> x" using False v x by blast
    then have "(x, y) \<in> R\<^sup>+" "(y, x) \<in> R\<^sup>+" unfolding C by (auto simp: scc_of_def rtrancl_eq_or_trancl)
    then show ?thesis using False by (meson trancl_trans)
  qed
  show "(\<exists>x \<in> C. (x, x) \<in> R\<^sup>+) \<longleftrightarrow> C \<noteq> {v} \<or> (v, v) \<in> R" using iff v by blast
  show "x \<in> C \<Longrightarrow> (x, x) \<in> R\<^sup>+ \<longleftrightarrow> C \<noteq> {v} \<or> (v, v) \<in> R" using iff by blast
qed

lemma cyclic_sccs_insert:
  assumes "scc_of R v = C"
  shows "cyclic_sccs R (X \<union> C) = (if C \<noteq> {v} \<or> (v, v) \<in> R then insert C (cyclic_sccs R X) else cyclic_sccs R X)"
proof -
  have "cyclic_sccs R (X \<union> C) = cyclic_sccs R X \<union> {scc_of R x |x. x \<in> C \<and> (x, x) \<in> R\<^sup>+}" by (auto simp: cyclic_sccs_def)
  also have "{scc_of R x |x. x \<in> C \<and> (x, x) \<in> R\<^sup>+} = {C |x. x \<in> C \<and> (x, x) \<in> R\<^sup>+}"
    using scc_of_eq[of _ R v] assms by blast
  also have "\<dots> = (if C \<noteq> {v} \<or> (v, v) \<in> R then {C} else {})" using on_cycle(1)[OF assms] by auto
  finally show ?thesis by simp
qed

lemma cyclic_sccs_inside: "R `` X \<subseteq> X \<Longrightarrow> C \<in> cyclic_sccs R X \<Longrightarrow> C \<subseteq> X"
  by (auto simp: cyclic_sccs_def scc_of_def elim: closed_rtrancl)

lemma several: "distinct c \<Longrightarrow> v \<in> set c \<Longrightarrow> 1 < length c \<longleftrightarrow> set c \<noteq> {v}"
proof (cases c rule: remdups_adj.cases)
  case (3 x y xs)
  then show "distinct c \<Longrightarrow> v \<in> set c \<Longrightarrow> ?thesis" by auto
qed auto

lemma close_inv:
  assumes inv: "tarjan_inv a ids st ((v, i) # work)" and i: "\<not> i < length (get_list a v)" and root: "low st v = num st v"
  shows "\<exists>st'. close_component a v st = Some st' \<and> tarjan_inv a ids st' work \<and> indices st' = indices st \<and>
    lowlink st' = lowlink st"
proof -
  note fin = finished[OF inv i]
  have nf: "numbered st" "framed (arcs a) st ((v, i) # work)" "explored a st ((v, i) # work)" "lows a st ((v, i) # work)"
      "output_ok a st" "seen st \<subseteq> (arcs a)\<^sup>* `` ids"
    using inv by (auto simp: tarjan_inv_def)
  define T where "T = {x \<in> set (stack st). num st v \<le> num st x}"
  have T: "scc_of (arcs a) v = T" "arcs a `` (closed st \<union> T) \<subseteq> closed st \<union> T"
    using component_is_scc[OF inv i root] by (simp_all add: T_def)
  have s: "sorted_wrt (\<lambda>x y. num st y < num st x) (stack st)" using nf(1) by (simp add: numbered_def)
  from pop_to_split[OF fin(1) s] obtain c rest where pop: "pop_to v (stack st) = Some (c, rest)" "stack st = c @ rest"
      "set c = T" "set rest = {x \<in> set (stack st). num st x < num st v}" unfolding T_def by blast
  have d: "distinct c" using sorted_wrt_distinct[OF s] pop(2) by simp
  define st' where "st' = st\<lparr>stack := rest, onStack := foldl (\<lambda>m x. put x False m) (onStack st) c,
    found := (if 1 < length c \<or> selfLoop a v then found st @ [sort c] else found st)\<rparr>"
  have result: "close_component a v st = Some st'"
    unfolding close_component_def st'_def root pop(1) by simp
  have st': "stack st' = rest" "indices st' = indices st" "lowlink st' = lowlink st" "counter st' = counter st"
    "seen st' = seen st" "onStack st' = foldl (\<lambda>m x. put x False m) (onStack st) c"
    by (simp_all add: st'_def seen_def)
  have rest: "set rest = set (stack st) - T" unfolding pop(4) T_def by auto
  have closed': "closed st' = closed st \<union> T"
    using nf(1) unfolding closed_def st' rest numbered_def T_def by blast
  have own: "owner st' work x u \<longleftrightarrow> owner st ((v, i) # work) x u" if "x \<in> set rest" for x u
    using fin(4)[of x u] that pop(4) by (simp add: owner_def st')
  have work: "frames work \<subseteq> set rest" "v \<notin> frames work" using nf(2) fin(2) unfolding framed_def pop(4) by auto
  have "sorted_wrt (\<lambda>x y. num st y < num st x) rest" using s unfolding pop(2) by (simp add: sorted_wrt_append)
  then have numbered: "numbered st'"
    using nf(1) unfolding numbered_def st' put_all_False pop(3) by (auto simp: rest)
  have framed: "framed (arcs a) st' work"
    unfolding framed_def st'
  proof (intro conjI ballI allI impI)
    show "sorted_wrt (\<lambda>v u. num st (fst u) < num st (fst v) \<and> (fst u, fst v) \<in> (arcs a)\<^sup>*) work"
      using nf(2) by (simp add: framed_def)
    fix x assume x: "x \<in> set rest"
    obtain u where u: "u \<in> frames ((v, i) # work)" "num st u \<le> num st x" "(x, u) \<in> (arcs a)\<^sup>*"
      using nf(2) x unfolding framed_def rest by blast
    have "num st x < num st v" using x unfolding pop(4) by simp
    then have "u \<noteq> v" using u(2) by auto
    then show "\<exists>u \<in> frames work. num st u \<le> num st x \<and> (x, u) \<in> (arcs a)\<^sup>*" using u by auto
    show "(u, x) \<in> (arcs a)\<^sup>*" if "owner st' work x u" for u
      using that x nf(2) unfolding own[OF x] framed_def rest by blast
  qed (use work in auto)
  have "x \<in> set (stack st) - frames ((v, i) # work)" if "x \<in> set rest - frames work" for x
    using that unfolding pop(4) by auto
  then have explored: "explored a st' work"
    using nf(3) T(2) unfolding explored_def closed' st' by (intro conjI) (blast, blast, simp)
  have lows: "lows a st' work"
    unfolding lows_def st'
  proof (intro conjI ballI impI allI)
    fix u assume u: "u \<in> frames work"
    then show "low st u \<le> num st u" using nf(4) by (simp add: lows_def)
    obtain x where x: "x \<in> set (stack st)" "num st x = low st u" "(u, x) \<in> (arcs a)\<^sup>*" "low st u \<le> num st u"
      using nf(4) u by (auto simp: lows_def)
    moreover have "num st u < num st v" using fin(2)[OF u] .
    ultimately have "x \<in> set rest" unfolding pop(4) by simp
    then show "\<exists>x \<in> set rest. num st x = low st u \<and> (u, x) \<in> (arcs a)\<^sup>*" using x by blast
  next
    fix x y u assume 1: "x \<in> set rest - frames work" "y \<in> set rest" "(x, y) \<in> arcs a" "owner st' work x u"
    then have "owner st ((v, i) # work) x u" "x \<in> set (stack st) - frames ((v, i) # work)" "y \<in> set (stack st)"
      using own unfolding pop(4) by auto
    then show "low st u \<le> num st y" using nf(4) 1(3) unfolding lows_def by blast
  next
    fix p assume p: "p \<in> set work"
    obtain w j where [simp]: "p = (w, j)" by fastforce
    show "case p of (v, i) \<Rightarrow> \<forall>y \<in> set (take i (get_list a v)). y \<in> set rest \<longrightarrow> low st v \<le> num st y"
      using nf(4) p unfolding lows_def rest by fastforce
  qed
  have cyc: "1 < length c \<or> selfLoop a v \<longleftrightarrow> T \<noteq> {v} \<or> (v, v) \<in> arcs a"
  proof -
    have "v \<in> set c" using pop(3) fin(1) by (simp add: T_def)
    then have "1 < length c \<longleftrightarrow> set c \<noteq> {v}" by (rule several[OF d])
    then show ?thesis by (simp add: pop(3) selfLoop_def arcs_def)
  qed
  have cl: "arcs a `` closed st \<subseteq> closed st" using nf(3) unfolding explored_def by blast
  have new: "set ` set (found st) = cyclic_sccs (arcs a) (closed st)" "v \<notin> closed st" "v \<in> T"
    using nf(5) fin(1) by (auto simp: output_ok_def closed_def T_def)
  have "sort c \<notin> set (found st)"
  proof
    assume "sort c \<in> set (found st)"
    then have "T \<in> cyclic_sccs (arcs a) (closed st)" using new(1) pop(3) by (metis imageI set_sort)
    then show False using cyclic_sccs_inside[OF cl] new by blast
  qed
  then have "output_ok a st'"
    using nf(5) d new(1) cyc unfolding output_ok_def closed' cyclic_sccs_insert[OF T(1)]
    by (auto simp: st'_def pop(3))
  then show ?thesis
    using result numbered framed explored lows nf(6) st' unfolding tarjan_inv_def by auto
qed

section \<open>The whole search\<close>

lemma get_int_Some: "get m k = Some n \<Longrightarrow> get_int m k = n"
  by (simp add: get_int_def)

declare tarjan_loop.simps(2) [simp del]

lemma tarjan_loop_inv:
  "tarjan_inv a ids st work \<Longrightarrow> \<exists>st'. tarjan_loop a st work = Some st' \<and> tarjan_inv a ids st' [] \<and> seen st \<subseteq> seen st'"
proof (induction a st work rule: tarjan_loop.induct)
  case (2 a st v i work)
  let ?child = "get_list a v ! i"
  have nf: "numbered st" "framed (arcs a) st ((v, i) # work)" "seen st \<subseteq> (arcs a)\<^sup>* `` ids" "lows a st ((v, i) # work)"
    using "2.prems" by (auto simp: tarjan_inv_def)
  have v: "v \<in> set (stack st)" using nf(2) by (simp add: framed_def)
  note step = tarjan_loop.simps(2)[of a st v i work] Let_def
  show ?case
  proof (cases "i < length (get_list a v)")
    case i: True
    then have edge: "(v, ?child) \<in> arcs a" by (simp add: arcs_def)
    show ?thesis
    proof (cases "get (indices st) ?child = None")
      case new: True
      then have n: "?child \<notin> seen st" by (auto simp: seen_def)
      have "v \<in> (arcs a)\<^sup>* `` ids" using v nf(1,3) by (auto simp: numbered_def)
      then have "?child \<in> (arcs a)\<^sup>* `` ids" using edge by (auto intro: rtrancl_into_rtrancl)
      then have "tarjan_inv a ids (discover ?child st) ([(?child, 0)] @ (v, i) # work)"
        using discover_inv[OF "2.prems" n] edge by simp
      moreover have "low st v \<le> num st v" using nf(4) unfolding lows_def frames_Cons by blast
      then have "low st v \<le> counter st" "v \<noteq> ?child" using numbered_stack[OF nf(1) v] n by auto
      ultimately have "tarjan_inv a ids (discover ?child st) ([(?child, 0)] @ (v, i + 1) # work)"
        by (intro advance_inv[OF _ i]) auto
      then have "tarjan_inv a ids (discover ?child st) ((?child, 0) # (v, i + 1) # work)" by simp
      from "2.IH"(1)[OF refl i refl new this] obtain st' where st': "tarjan_loop a (discover ?child st) ((?child, 0) # (v, i + 1) # work) = Some st'"
          "tarjan_inv a ids st' []" "seen (discover ?child st) \<subseteq> seen st'" by blast
      moreover have "tarjan_loop a st ((v, i) # work) = tarjan_loop a (discover ?child st) ((?child, 0) # (v, i + 1) # work)"
        using i new by (simp add: step)
      ultimately show ?thesis by auto
    next
      case old: False
      then obtain y where y: "get (indices st) ?child = Some y" by blast
      from old have n: "?child \<in> seen st" by (auto simp: seen_def)
      show ?thesis
      proof (cases "get (onStack st) ?child = Some True")
        case on: True
        then have s: "?child \<in> set (stack st)" using nf(1) by (simp add: numbered_def)
        let ?st = "lower v (get_int (indices st) ?child) st"
        have "tarjan_inv a ids ?st ([] @ (v, i) # work)" using lower_inv[OF "2.prems"] s edge by auto
        then have "tarjan_inv a ids ?st ([] @ (v, i + 1) # work)" by (rule advance_inv[OF _ i]) (use n in auto)
        then have "tarjan_inv a ids ?st ((v, i + 1) # work)" by simp
        from "2.IH"(2)[OF refl i refl old on this] show ?thesis using i y on by (simp add: step)
      next
        case off: False
        then have s: "?child \<notin> set (stack st)" using nf(1) by (simp add: numbered_def)
        have "tarjan_inv a ids st ([] @ (v, i + 1) # work)"
          by (rule advance_inv[OF _ i]) (use n s "2.prems" in auto)
        then have "tarjan_inv a ids st ((v, i + 1) # work)" by simp
        from "2.IH"(3)[OF refl i refl old off this] show ?thesis using i y off by (simp add: step)
      qed
    qed
  next
    case i: False
    obtain st' where st': "close_component a v st = Some st'" "tarjan_inv a ids (to_parent v work st') work" "seen st' = seen st"
    proof (cases "low st v = num st v")
      case True
      obtain st' where st': "close_component a v st = Some st'" "tarjan_inv a ids st' work" "indices st' = indices st"
          "lowlink st' = lowlink st" using close_inv[OF "2.prems" i True] by blast
      have "tarjan_inv a ids (to_parent v work st') work"
      proof (cases work)
        case (Cons f w)
        obtain p j where f: "f = (p, j)" by fastforce
        have "low st p \<le> num st p" "num st p < num st v"
          using "2.prems" finished_last[OF "2.prems" i, of p] unfolding tarjan_inv_def lows_def by (auto simp: Cons f)
        then have "low st' p \<le> low st' v" using True st'(3,4) by simp
        then show ?thesis using lower_inv[OF st'(2), of p] by (simp add: Cons f to_parent_def)
      qed (use st' in \<open>simp add: to_parent_def\<close>)
      then show ?thesis using that[OF st'(1)] st'(3) by (simp add: seen_def)
    next
      case False
      then have "close_component a v st = Some st" by (simp add: close_component_def)
      then show ?thesis by (rule that[OF _ return_inv[OF "2.prems" i False] refl])
    qed
    have "seen (to_parent v work st') = seen st" using st'(3) by (simp add: seen_def)
    with "2.IH"(4)[OF refl i st'(1) st'(2)] show ?thesis using i st'(1) by (simp add: step)
  qed
qed auto

lemma search_done:
  assumes "tarjan_inv a ids st []"
  shows "stack st = []" "closed st = seen st"
proof -
  have "set (stack st) = {}" using assms unfolding tarjan_inv_def framed_def by auto
  then show "stack st = []" "closed st = seen st" by (simp_all add: closed_def)
qed

lemma tarjan_inv_mono: "tarjan_inv a ids st work \<Longrightarrow> ids \<subseteq> ids' \<Longrightarrow> tarjan_inv a ids' st work"
  unfolding tarjan_inv_def by (meson Image_mono order_refl subset_trans)

lemma from_root_inv:
  assumes "tarjan_inv a ids st []" "ids \<subseteq> seen st"
  shows "\<exists>st'. from_root a (Some st) root = Some st' \<and> tarjan_inv a (insert root ids) st' [] \<and> insert root ids \<subseteq> seen st'"
proof (cases "get (indices st) root = None")
  case True
  then have n: "root \<notin> seen st" by (auto simp: seen_def)
  have inv: "tarjan_inv a (insert root ids) st []" using tarjan_inv_mono[OF assms(1)] by blast
  have "tarjan_inv a (insert root ids) (discover root st) [(root, 0)]" by (rule discover_inv[OF inv n]) auto
  from tarjan_loop_inv[OF this] show ?thesis using True assms(2) by (auto simp: from_root_def)
next
  case False
  moreover have "tarjan_inv a (insert root ids) st []" using tarjan_inv_mono[OF assms(1)] by blast
  ultimately show ?thesis using assms(2) by (auto simp: from_root_def seen_def)
qed

lemma from_roots_inv:
  "tarjan_inv a ids st [] \<Longrightarrow> ids \<subseteq> seen st \<Longrightarrow>
     \<exists>st'. foldl (from_root a) (Some st) roots = Some st' \<and> tarjan_inv a (ids \<union> set roots) st' [] \<and> ids \<union> set roots \<subseteq> seen st'"
proof (induction roots arbitrary: ids st)
  case (Cons r roots)
  obtain st' where "from_root a (Some st) r = Some st'" "tarjan_inv a (insert r ids) st' []" "insert r ids \<subseteq> seen st'"
    using from_root_inv[OF Cons.prems] by blast
  with Cons.IH[of "insert r ids" st'] show ?case by simp
qed simp

text \<open>
  C31: The cycles of the map, found without ever popping an empty stack, are exactly the strongly connected
  components, among the nodes and what they depend on, that hold a node lying on a cycle of
  dependencies: each once, its members each once and in order, the largest first and equal sizes by
  their first member.\<close>

theorem Cycles_exact:
  "\<exists>cycles. Cycles m = Some cycles \<and>
     set ` set cycles = {scc_of (dependencies (mEdges m)) x |x.
        x \<in> (dependencies (mEdges m))\<^sup>* `` (ID ` set (mNodes m)) \<and> (x, x) \<in> (dependencies (mEdges m))\<^sup>+} \<and>
     distinct cycles \<and> list_all (\<lambda>c. sorted c \<and> distinct c) cycles \<and>
     sorted (map (\<lambda>c. (- int (length c), hd c)) cycles)"
proof -
  let ?a = "adjacency True m" and ?ids = "ID ` set (mNodes m)"
  let ?st = "\<lparr>counter = 0, stack = [], onStack = [], indices = [], lowlink = [], found = []\<rparr>"
  have "tarjan_inv ?a {} ?st []"
    by (simp add: tarjan_inv_def numbered_def framed_def explored_def lows_def output_ok_def closed_def seen_def cyclic_sccs_def)
  from from_roots_inv[OF this, of "map ID (mNodes m)"] obtain st
    where st: "foldl (from_root ?a) (Some ?st) (map ID (mNodes m)) = Some st" "tarjan_inv ?a ?ids st []" "?ids \<subseteq> seen st"
    by auto
  have inv: "output_ok ?a st" "seen st \<subseteq> (arcs ?a)\<^sup>* `` ?ids" "arcs ?a `` seen st \<subseteq> seen st"
    using st(2) search_done[OF st(2)] by (auto simp: tarjan_inv_def explored_def)
  have "(arcs ?a)\<^sup>* `` ?ids \<subseteq> seen st" using closed_rtrancl[OF _ _ inv(3)] st(3) by blast
  then have "closed st = (dependencies (mEdges m))\<^sup>* `` ?ids"
    using inv(2) search_done(2)[OF st(2)] by (simp add: arcs_adjacency)
  then show ?thesis
    using inv(1) unfolding Cycles_def st(1) output_ok_def arcs_adjacency cyclic_sccs_def by (auto simp: list_all_iff)
qed

end
