(* ===== verification/Map_Store.thy ===== *)
theory Map_Store
  imports Code_Map
begin

text \<open>
  The shortest path between two symbols of a saved project map (\<open>Store.Path\<close> of \<open>internal/codemap/store/query.go\<close>).
  The two queries it makes are parameters: \<open>NodeRows\<close> is the symbols with an id, \<open>ExpandRows\<close> the pairs of
  ids of the edges out of some nodes, in the order the database returns them.
\<close>

record Symbol =
  symID :: string
  symKind :: string
  symName :: string
  symFile :: string
  symLine :: "32 word"
  symAccess :: string
  symComponent :: string
  symEntry :: bool
  symReachable :: bool
  symUtility :: bool
  symIsland :: int
  symInDegree :: int
  symOutDegree :: int

datatype store_error = DBError string | NotFound string

record store =
  NodeRows :: "string \<Rightarrow> store_error + Symbol list"
  ExpandRows :: "string list \<Rightarrow> store_error + (string \<times> string) list"

definition Store_Node :: "store \<Rightarrow> string \<Rightarrow> store_error + Symbol" where
  "Store_Node s ident =
     (case NodeRows s ident of Inl e \<Rightarrow> Inl e
      | Inr [] \<Rightarrow> Inl (NotFound ident)
      | Inr (found # _) \<Rightarrow> Inr found)"

fun Store_Nodes :: "store \<Rightarrow> string list \<Rightarrow> store_error + Symbol list" where
  "Store_Nodes s [] = Inr []"
| "Store_Nodes s (i # is) =
     (case Store_Node s i of Inl e \<Rightarrow> Inl e
      | Inr found \<Rightarrow> (case Store_Nodes s is of Inl e \<Rightarrow> Inl e | Inr out \<Rightarrow> Inr (found # out)))"

text \<open>The rows of one query; \<open>True\<close> when the target is among them.\<close>

type_synonym predecessors = "(string, string) gomap"

fun collectFrontier :: "(string \<times> string) list \<Rightarrow> string \<Rightarrow> predecessors \<Rightarrow> string list \<Rightarrow> bool \<times> predecessors \<times> string list" where
  "collectFrontier [] target came next = (False, came, next)"
| "collectFrontier ((fromID, toID) # rows) target came next =
     (if get came toID \<noteq> None then collectFrontier rows target came next
      else let came = put toID fromID came
           in if toID = target then (True, came, next)
              else collectFrontier rows target came (next @ [toID]))"

definition sqlBatch :: nat where "sqlBatch = 400"

function expand_from :: "store \<Rightarrow> string list \<Rightarrow> string \<Rightarrow> predecessors \<Rightarrow> string list \<Rightarrow> store_error + bool \<times> predecessors \<times> string list" where
  "expand_from s frontier target came next =
     (if frontier = [] then Inr (False, came, next)
      else (case ExpandRows s (take sqlBatch frontier) of Inl e \<Rightarrow> Inl e
        | Inr rows \<Rightarrow>
            (case collectFrontier rows target came next of
               (True, came, _) \<Rightarrow> Inr (True, came, [])
             | (False, came, next) \<Rightarrow> expand_from s (drop sqlBatch frontier) target came next)))"
  by pat_completeness auto
termination by (relation "measure (\<lambda>(s, frontier, target, came, next). length frontier)") (auto simp: sqlBatch_def)

declare expand_from.simps [simp del]

definition expand :: "store \<Rightarrow> string list \<Rightarrow> string \<Rightarrow> predecessors \<Rightarrow> store_error + bool \<times> predecessors \<times> string list" where
  "expand s frontier target came = expand_from s frontier target came []"

text \<open>
  The walk back from the target, at most one step for every node reached; \<open>None\<close> is a walk that has not
  come to an end by then.
\<close>

fun walk_back :: "nat \<Rightarrow> predecessors \<Rightarrow> string \<Rightarrow> string \<Rightarrow> string list option" where
  "walk_back n came from i =
     (if i = [] then Some []
      else if i = from then Some [i]
      else (case n of 0 \<Rightarrow> None
        | Suc n \<Rightarrow> map_option ((#) i) (walk_back n came from (case get came i of None \<Rightarrow> [] | Some p \<Rightarrow> p))))"

declare walk_back.simps [simp del]

definition rebuild :: "store \<Rightarrow> predecessors \<Rightarrow> string \<Rightarrow> string \<Rightarrow> (store_error + Symbol list) option" where
  "rebuild s came from to = map_option (\<lambda>ids. Store_Nodes s (rev ids)) (walk_back (length came) came from to)"

fun search_levels :: "nat \<Rightarrow> store \<Rightarrow> string \<Rightarrow> string \<Rightarrow> predecessors \<Rightarrow> string list \<Rightarrow> (store_error + Symbol list) option" where
  "search_levels 0 s from to came frontier = Some (Inr [])"
| "search_levels (Suc d) s from to came frontier =
     (if frontier = [] then Some (Inr [])
      else (case expand s frontier to came of Inl e \<Rightarrow> Some (Inl e)
        | Inr (True, came, _) \<Rightarrow> rebuild s came from to
        | Inr (False, came, next) \<Rightarrow> search_levels d s from to came next))"

definition path_depth :: "int \<Rightarrow> nat" where
  "path_depth maxDepth = (if maxDepth \<le> 0 then 12 else nat maxDepth)"

definition Path :: "store \<Rightarrow> string \<Rightarrow> string \<Rightarrow> int \<Rightarrow> (store_error + Symbol list) option" where
  "Path s from to maxDepth =
     (if from = to then Some (case Store_Node s from of Inl e \<Rightarrow> Inl e | Inr found \<Rightarrow> Inr [found])
      else search_levels (path_depth maxDepth) s from to [(from, [])] [from])"

section \<open>One level\<close>

text \<open>What reading the edges \<open>E\<close> out of a frontier does to what is known.\<close>

definition grown ::
  "(string \<times> string) set \<Rightarrow> string \<Rightarrow> predecessors \<Rightarrow> string list \<Rightarrow> bool \<Rightarrow> predecessors \<Rightarrow> string list \<Rightarrow> bool" where
  "grown E target came next b came' next' \<longleftrightarrow>
     (\<forall>n p. get came n = Some p \<longrightarrow> get came' n = Some p) \<and>
     (\<forall>n p. get came n = None \<longrightarrow> get came' n = Some p \<longrightarrow> (p, n) \<in> E) \<and>
     (b \<longleftrightarrow> target \<in> Range E) \<and> (b \<longrightarrow> get came' target \<noteq> None) \<and>
     (\<not> b \<longrightarrow> dom (get came') = dom (get came) \<union> Range E \<and> set next' = set next \<union> (Range E - dom (get came))) \<and>
     length came \<le> length came' \<and> (dom (get came') = dom (get came) \<or> length came < length came')"

lemma length_put: "length (put k v m) = (if get m k = None then Suc (length m) else length m)"
  by (induction m) auto

lemma grown_empty: "grown {} target came next False came next"
  by (simp add: grown_def)

lemma grownD:
  assumes "grown E target came next b came' next'"
  shows "\<And>n p. get came n = Some p \<Longrightarrow> get came' n = Some p" "\<And>n p. get came n = None \<Longrightarrow> get came' n = Some p \<Longrightarrow> (p, n) \<in> E"
    "b \<longleftrightarrow> target \<in> Range E" "b \<Longrightarrow> get came' target \<noteq> None"
    "\<not> b \<Longrightarrow> dom (get came') = dom (get came) \<union> Range E" "\<not> b \<Longrightarrow> set next' = set next \<union> (Range E - dom (get came))"
    "length came \<le> length came'" "dom (get came') = dom (get came) \<or> length came < length came'"
  using assms unfolding grown_def by blast+

lemma grown_trans:
  assumes "grown E target came next False came1 next1" "grown F target came1 next1 b came2 next2"
  shows "grown (E \<union> F) target came next b came2 next2"
proof -
  note 1 = grownD[OF assms(1)] and 2 = grownD[OF assms(2)]
  have new: "(p, n) \<in> E \<union> F" if "get came n = None" "get came2 n = Some p" for n p
    using that 1(2)[of n] 2(1)[of n] 2(2)[of n] by (cases "get came1 n") auto
  show ?thesis
    unfolding grown_def
  proof (intro conjI allI impI)
    show "set next2 = set next \<union> (Range (E \<union> F) - dom (get came))" if "\<not> b"
      using 1(5,6) 2(6)[OF that] by auto
    show "dom (get came2) = dom (get came) \<union> Range (E \<union> F)" if "\<not> b" using 1(5) 2(5)[OF that] by auto
    show "dom (get came2) = dom (get came) \<or> length came < length came2" using 1(7,8) 2(7,8) by (elim disjE) simp_all
    show "get came2 n = Some p" if "get came n = Some p" for n p using 1(1) 2(1) that by blast
    show "(p, n) \<in> E \<union> F" if "get came n = None" "get came2 n = Some p" for n p by (rule new[OF that])
    show "b \<longleftrightarrow> target \<in> Range (E \<union> F)" using 1(3) 2(3) by blast
    show "length came \<le> length came2" using 1(7) 2(7) by (rule order_trans)
  qed (rule 2(4))
qed

lemma collectFrontier_grown:
  "get came target = None \<Longrightarrow> collectFrontier rows target came next = (b, came', next') \<Longrightarrow>
     grown (set rows) target came next b came' next'"
proof (induction rows target came "next" rule: collectFrontier.induct)
  case (1 target came "next")
  then show ?case by (simp add: grown_empty)
next
  case (2 fromID toID rows target came "next")
  show ?case
  proof (cases "get came toID")
    case (Some p)
    have "grown (set rows) target came next b came' next'" by (rule "2.IH"(1)) (use "2.prems" Some in simp_all)
    moreover have "grown {(fromID, toID)} target came next False came next"
      using Some "2.prems"(1) by (auto simp: grown_def)
    ultimately show ?thesis using grown_trans by fastforce
  next
    case None
    show ?thesis
    proof (cases "toID = target")
      case True
      then show ?thesis using None "2.prems" by (auto simp: grown_def Let_def length_put split: if_splits)
    next
      case False
      have "grown (set rows) target (put toID fromID came) (next @ [toID]) b came' next'"
        by (rule "2.IH"(2)[OF _ refl False]) (use "2.prems" None False in \<open>simp_all add: Let_def\<close>)
      moreover have "grown {(fromID, toID)} target came next False (put toID fromID came) (next @ [toID])"
        using None False "2.prems"(1) by (auto simp: grown_def length_put split: if_splits)
      ultimately show ?thesis using grown_trans by fastforce
    qed
  qed
qed

definition answers :: "store \<Rightarrow> (string \<times> string) set \<Rightarrow> bool" where
  "answers s R \<longleftrightarrow> (\<forall>ids. \<exists>rows. ExpandRows s ids = Inr rows \<and> set rows = {(x, y) \<in> R. x \<in> set ids})"

lemma expand_from_grown:
  "answers s R \<Longrightarrow> get came target = None \<Longrightarrow>
     \<exists>b came' next'. expand_from s frontier target came next = Inr (b, came', next') \<and>
       grown {(x, y) \<in> R. x \<in> set frontier} target came next b came' next'"
proof (induction s frontier target came "next" rule: expand_from.induct)
  case (1 s frontier target came "next")
  show ?case
  proof (cases "frontier = []")
    case True
    then show ?thesis using grown_empty[of target came "next"] by (intro exI[of _ False]) (simp add: expand_from.simps)
  next
    case False
    obtain rows where rows: "ExpandRows s (take sqlBatch frontier) = Inr rows" "set rows = {(x, y) \<in> R. x \<in> set (take sqlBatch frontier)}"
      using "1.prems"(1) by (auto simp: answers_def)
    obtain b came1 next1 where c: "collectFrontier rows target came next = (b, came1, next1)" by (cases "collectFrontier rows target came next") auto
    note g = collectFrontier_grown[OF "1.prems"(2) c, unfolded rows(2)]
    have sets: "{(x, y) \<in> R. x \<in> set frontier} =
        {(x, y) \<in> R. x \<in> set (take sqlBatch frontier)} \<union> {(x, y) \<in> R. x \<in> set (drop sqlBatch frontier)}"
      using set_append[of "take sqlBatch frontier" "drop sqlBatch frontier"] by auto
    show ?thesis
    proof (cases b)
      case True
      then have "grown {(x, y) \<in> R. x \<in> set frontier} target came next True came1 []"
        using g unfolding grown_def sets by auto
      then show ?thesis using False rows(1) c True by (intro exI[of _ True]) (simp add: expand_from.simps[of s frontier])
    next
      case b: False
      have "dom (get came1) = dom (get came) \<union> Range {(x, y) \<in> R. x \<in> set (take sqlBatch frontier)}"
          "target \<notin> Range {(x, y) \<in> R. x \<in> set (take sqlBatch frontier)}"
        using grownD(3,5)[OF g] b by simp_all
      moreover have "target \<notin> dom (get came)" using "1.prems"(2) by blast
      ultimately have "get came1 target = None" by blast
      have bF: "b = False" using b by simp
      from "1.IH"[OF False rows(1) c[symmetric] bF refl "1.prems"(1) \<open>get came1 target = None\<close>]
      obtain b' came' next' where r: "expand_from s (drop sqlBatch frontier) target came1 next1 = Inr (b', came', next')"
          "grown {(x, y) \<in> R. x \<in> set (drop sqlBatch frontier)} target came1 next1 b' came' next'" using b by auto
      have "grown {(x, y) \<in> R. x \<in> set frontier} target came next b' came' next'"
        unfolding sets by (rule grown_trans[OF g[unfolded bF] r(2)])
      then show ?thesis using False rows(1) c b r(1) by (simp add: expand_from.simps[of s frontier])
    qed
  qed
qed

section \<open>The walk back\<close>

fun chain :: "predecessors \<Rightarrow> string \<Rightarrow> (string \<times> string) set \<Rightarrow> nat \<Rightarrow> string \<Rightarrow> bool" where
  "chain came from R 0 n \<longleftrightarrow> n = from"
| "chain came from R (Suc k) n \<longleftrightarrow> n \<noteq> from \<and> (\<exists>p. get came n = Some p \<and> (p, n) \<in> R \<and> chain came from R k p)"

lemma chain_mono:
  "chain came from R k n \<Longrightarrow> (\<And>n p. get came n = Some p \<Longrightarrow> get came' n = Some p) \<Longrightarrow> chain came' from R k n"
  by (induction k arbitrary: n) auto

definition joined :: "('n \<times> 'n) set \<Rightarrow> 'n list \<Rightarrow> bool" where
  "joined R = successively (\<lambda>x y. (x, y) \<in> R)"

lemma walk_back_chain:
  "chain came from R k n \<Longrightarrow> k \<le> fuel \<Longrightarrow> from \<noteq> [] \<Longrightarrow> [] \<notin> Range R \<Longrightarrow>
     \<exists>ids. walk_back fuel came from n = Some ids \<and> length ids = Suc k \<and> ids \<noteq> [] \<and> hd ids = n \<and> last ids = from \<and>
       joined R (rev ids) \<and> set ids \<subseteq> insert from (Range R)"
proof (induction k arbitrary: n fuel)
  case 0
  then show ?case by (simp add: walk_back.simps joined_def)
next
  case (Suc k)
  obtain p where p: "get came n = Some p" "(p, n) \<in> R" "chain came from R k p" "n \<noteq> from" using Suc.prems(1) by auto
  obtain m where m: "fuel = Suc m" "k \<le> m" using Suc.prems(2) by (cases fuel) auto
  obtain ids where ids: "walk_back m came from p = Some ids" "length ids = Suc k" "ids \<noteq> []" "hd ids = p" "last ids = from"
      "joined R (rev ids)" "set ids \<subseteq> insert from (Range R)"
    using Suc.IH[OF p(3) m(2) Suc.prems(3,4)] by blast
  have "n \<noteq> []" using p(2) Suc.prems(4) by auto
  then have "walk_back fuel came from n = Some (n # ids)" unfolding m(1) using ids(1) p(1,4) by (simp add: walk_back.simps[of "Suc m"])
  moreover have "joined R (rev (n # ids))"
    using ids(3,4,6) p(2) by (simp add: joined_def successively_append_iff last_rev)
  ultimately show ?case using ids p(2) by auto
qed

section \<open>The search\<close>

definition within :: "('n \<times> 'n) set \<Rightarrow> 'n \<Rightarrow> nat \<Rightarrow> 'n set" where
  "within R x k = (\<Union>j \<le> k. (R ^^ j) `` {x})"

lemma within_Suc: "within R x (Suc k) = within R x k \<union> R `` within R x k"
proof -
  have "within R x (Suc k) = {x} \<union> (\<Union>j \<le> k. (R ^^ Suc j) `` {x})"
    unfolding within_def atMost_Suc_eq_insert_0 by auto
  moreover have "{x} \<union> R `` within R x k \<union> within R x k = {x} \<union> R `` within R x k" 
  proof -
    have "(R ^^ j) `` {x} \<subseteq> {x} \<union> R `` within R x k" if "j \<le> k" for j
    proof (cases j)
      case (Suc i)
      then have "(R ^^ i) `` {x} \<subseteq> within R x k" using that by (auto simp: within_def intro!: bexI[of _ i])
      then show ?thesis using Suc by auto
    qed simp
    then show ?thesis by (auto simp: within_def)
  qed
  moreover have "R `` within R x k = (\<Union>j \<le> k. (R ^^ Suc j) `` {x})" by (auto simp: within_def)
  moreover have "x \<in> within R x k" by (auto simp: within_def intro!: bexI[of _ 0])
  ultimately show ?thesis by auto
qed

definition level_ok :: "(string \<times> string) set \<Rightarrow> string \<Rightarrow> nat \<Rightarrow> predecessors \<Rightarrow> string list \<Rightarrow> bool" where
  "level_ok R from d came frontier \<longleftrightarrow> dom (get came) = within R from d \<and> set frontier \<subseteq> dom (get came) \<and>
     R `` (dom (get came) - set frontier) \<subseteq> dom (get came) \<and>
     (\<forall>n \<in> set frontier. chain came from R d n) \<and> (frontier = [] \<or> d < length came)"

lemma search_levels_finds:
  assumes a: "answers s R" "from \<noteq> []" "[] \<notin> Range R"
  shows "level_ok R from d came frontier \<Longrightarrow> to \<notin> dom (get came) \<Longrightarrow>
     (to \<notin> within R from (d + n) \<and> search_levels n s from to came frontier = Some (Inr [])) \<or>
     (\<exists>k ids. d < k \<and> k \<le> d + n \<and> to \<in> within R from k \<and> to \<notin> within R from (k - 1) \<and>
       search_levels n s from to came frontier = Some (Store_Nodes s ids) \<and> length ids = Suc k \<and> ids \<noteq> [] \<and> hd ids = from \<and>
       last ids = to \<and> joined R ids \<and> set ids \<subseteq> insert from (Range R))"
proof (induction n arbitrary: d came frontier)
  case 0
  then show ?case by (simp add: level_ok_def)
next
  case (Suc n)
  have ok: "dom (get came) = within R from d" "set frontier \<subseteq> dom (get came)" "R `` (dom (get came) - set frontier) \<subseteq> dom (get came)"
      "\<And>n. n \<in> set frontier \<Longrightarrow> chain came from R d n" "frontier = [] \<or> d < length came"
    using Suc.prems(1) unfolding level_ok_def by blast+
  show ?case
  proof (cases "frontier = []")
    case True
    have "within R from (d + j) = within R from d" for j
    proof (induction j)
      case (Suc j)
      have "within R from (d + Suc j) = within R from d \<union> R `` within R from d" using within_Suc[of R "from" "d + j"] Suc by simp
      then show ?case using ok(1,3) True by auto
    qed simp
    then have "to \<notin> within R from (d + Suc n)" using ok(1) Suc.prems(2) by blast
    then show ?thesis using True by simp
  next
    case False
    let ?E = "{(x, y) \<in> R. x \<in> set frontier}"
    obtain b came' next' where e: "expand s frontier to came = Inr (b, came', next')" "grown ?E to came [] b came' next'"
      using expand_from_grown[OF a(1), of came to frontier "[]"] Suc.prems(2) unfolding expand_def by blast
    note g = grownD[OF e(2)]
    have "from \<in> (R ^^ 0) `` {from}" by simp
    then have from_in: "from \<in> within R from d" unfolding within_def by blast
    have next_level: "within R from (Suc d) = dom (get came) \<union> Range ?E"
      unfolding within_Suc ok(1)[symmetric] using ok(2,3) by blast
    have chains: "chain came' from R (Suc d) m" if "get came m = None" "get came' m = Some p" for m p
    proof -
      have "(p, m) \<in> R" "p \<in> set frontier" using g(2)[OF that] by auto
      moreover have "m \<noteq> from" using that(1) from_in ok(1) by (auto simp: domIff)
      ultimately show ?thesis using that(2) chain_mono[OF ok(4) g(1)] by auto
    qed
    have longer: "Suc d < length came'" if "get came m = None" "get came' m = Some p" for m p
    proof -
      have "dom (get came') \<noteq> dom (get came)" using that by blast
      then show ?thesis using g(8) ok(5) False by linarith
    qed
    show ?thesis
    proof (cases b)
      case True
      then obtain p where p: "get came' to = Some p" using g(4) by auto
      have new: "get came to = None" using Suc.prems(2) by (simp add: domIff)
      from walk_back_chain[OF chains[OF new p] less_imp_le[OF longer[OF new p]] a(2,3)]
      obtain ids where ids: "walk_back (length came') came' from to = Some ids" "length ids = Suc (Suc d)" "ids \<noteq> []"
        "hd ids = to" "last ids = from" "joined R (rev ids)" "set ids \<subseteq> insert from (Range R)" by blast
      have "search_levels (Suc n) s from to came frontier = Some (Store_Nodes s (rev ids))"
        using False e(1) True ids(1) by (simp add: rebuild_def)
      moreover have "to \<in> within R from (Suc d)" using next_level True g(3) by blast
      moreover have "to \<notin> within R from d" using ok(1) Suc.prems(2) by blast
      ultimately show ?thesis using ids
        by (intro disjI2 exI[of _ "Suc d"] exI[of _ "rev ids"]) (simp add: hd_rev last_rev)
    next
      case b: False
      have dom': "dom (get came') = within R from (Suc d)" using next_level g(5)[OF b] by blast
      have to': "to \<notin> dom (get came')" using g(5)[OF b] g(3) b Suc.prems(2) by blast
      have nx: "set next' = Range ?E - dom (get came)" using g(6)[OF b] by simp
      have fresh: "get came m = None \<and> (\<exists>p. get came' m = Some p)" if "m \<in> set next'" for m
        using that unfolding nx using g(5)[OF b] by blast
      have "level_ok R from (Suc d) came' next'"
        unfolding level_ok_def
      proof (intro conjI ballI)
        show "dom (get came') = within R from (Suc d)" by (rule dom')
        show "set next' \<subseteq> dom (get came')" using nx g(5)[OF b] by blast
        show "R `` (dom (get came') - set next') \<subseteq> dom (get came')"
        proof
          fix y assume "y \<in> R `` (dom (get came') - set next')"
          then obtain x where x: "x \<in> dom (get came')" "x \<notin> set next'" "(x, y) \<in> R" by blast
          then have "x \<in> dom (get came)" unfolding nx g(5)[OF b] by blast
          then have "y \<in> dom (get came) \<union> Range ?E" using x(3) ok(3) by (cases "x \<in> set frontier") auto
          then show "y \<in> dom (get came')" unfolding g(5)[OF b] .
        qed
        show "chain came' from R (Suc d) m" if "m \<in> set next'" for m using chains fresh[OF that] by blast
        show "next' = [] \<or> Suc d < length came'" using longer fresh[OF hd_in_set] by blast
      qed
      from Suc.IH[OF this to'] show ?thesis
      proof
        assume "to \<notin> within R from (Suc d + n) \<and> search_levels n s from to came' next' = Some (Inr [])"
        then show ?thesis using False e(1) b by simp
      next
        assume "\<exists>k ids. Suc d < k \<and> k \<le> Suc d + n \<and> to \<in> within R from k \<and> to \<notin> within R from (k - 1) \<and>
          search_levels n s from to came' next' = Some (Store_Nodes s ids) \<and> length ids = Suc k \<and> ids \<noteq> [] \<and> hd ids = from \<and>
          last ids = to \<and> joined R ids \<and> set ids \<subseteq> insert from (Range R)"
        then obtain k ids where k: "Suc d < k" "k \<le> Suc d + n" "to \<in> within R from k" "to \<notin> within R from (k - 1)"
          "search_levels n s from to came' next' = Some (Store_Nodes s ids)" "length ids = Suc k" "ids \<noteq> []" "hd ids = from"
          "last ids = to" "joined R ids" "set ids \<subseteq> insert from (Range R)" by blast
        have "search_levels (Suc n) s from to came frontier = Some (Store_Nodes s ids)" using False e(1) b k(5) by simp
        then show ?thesis using k by (intro disjI2 exI[of _ k] exI[of _ ids]) simp
      qed
    qed
  qed
qed

text \<open>A database that holds a map: every node's id has its row, and the edges' ids are those of nodes.\<close>

definition links :: "Edge list \<Rightarrow> (string \<times> string) set" where
  "links es = {(From e, To e) |e. e \<in> set es \<and> structural (EKind e)}"

definition stores :: "store \<Rightarrow> Map \<Rightarrow> bool" where
  "stores s m \<longleftrightarrow> answers s (links (mEdges m)) \<and> [] \<notin> ID ` set (mNodes m) \<and>
     Field (links (mEdges m)) \<subseteq> ID ` set (mNodes m) \<and>
     list_all (\<lambda>n. \<exists>found. NodeRows s (ID n) = Inr [found] \<and> symID found = ID n) (mNodes m)"

lemma Store_Nodes_found:
  "(\<And>i. i \<in> set ids \<Longrightarrow> \<exists>found. NodeRows s i = Inr [found] \<and> symID found = i) \<Longrightarrow>
     \<exists>syms. Store_Nodes s ids = Inr syms \<and> map symID syms = ids"
proof (induction ids)
  case (Cons i ids)
  then obtain syms where "Store_Nodes s ids = Inr syms" "map symID syms = ids" by auto
  moreover obtain found where "NodeRows s i = Inr [found]" "symID found = i" using Cons.prems by auto
  ultimately show ?case by (simp add: Store_Node_def)
qed simp

text \<open>
  C32: In a database that holds a map, the path between two different symbols is a shortest one along the
  dependencies of the map, from the first to the second, and there is none exactly when no path has at
  most the given number of edges (12 when that is not positive).\<close>

theorem Path_shortest:
  assumes "stores s m" "from \<in> ID ` set (mNodes m)" "from \<noteq> to"
  shows "\<exists>syms. Path s from to maxDepth = Some (Inr syms) \<and>
    (if to \<in> within (links (mEdges m)) from (path_depth maxDepth)
     then \<exists>k. length syms = Suc k \<and> to \<in> within (links (mEdges m)) from k \<and> to \<notin> within (links (mEdges m)) from (k - 1) \<and>
       k \<le> path_depth maxDepth \<and> symID (hd syms) = from \<and> symID (last syms) = to \<and>
       joined (links (mEdges m)) (map symID syms)
     else syms = [])"
proof -
  let ?R = "links (mEdges m)"
  have a: "answers s ?R" "[] \<notin> Range ?R" "from \<noteq> []"
    and nodes: "\<And>i. i \<in> insert from (Range ?R) \<Longrightarrow> \<exists>found. NodeRows s i = Inr [found] \<and> symID found = i"
  proof -
    have st: "answers s ?R" "[] \<notin> ID ` set (mNodes m)" "Range ?R \<subseteq> ID ` set (mNodes m)"
      "\<And>n. n \<in> set (mNodes m) \<Longrightarrow> \<exists>found. NodeRows s (ID n) = Inr [found] \<and> symID found = ID n"
      using assms(1) by (auto simp: stores_def list_all_iff Field_def)
    show "answers s ?R" "[] \<notin> Range ?R" "from \<noteq> []" using st(1-3) assms(2) by (blast, blast, metis)
    show "\<And>i. i \<in> insert from (Range ?R) \<Longrightarrow> \<exists>found. NodeRows s i = Inr [found] \<and> symID found = i"
      using st(3,4) assms(2) by blast
  qed
  have "level_ok ?R from 0 [(from, [])] [from]" by (auto simp: level_ok_def within_def split: if_splits)
  moreover have "to \<notin> dom (get [(from, [])])" using assms(3) by auto
  ultimately consider
      "to \<notin> within ?R from (path_depth maxDepth)" "search_levels (path_depth maxDepth) s from to [(from, [])] [from] = Some (Inr [])"
    | k ids where "0 < k" "k \<le> path_depth maxDepth" "to \<in> within ?R from k" "to \<notin> within ?R from (k - 1)"
      "search_levels (path_depth maxDepth) s from to [(from, [])] [from] = Some (Store_Nodes s ids)" "length ids = Suc k" "ids \<noteq> []"
      "hd ids = from" "last ids = to" "joined ?R ids" "set ids \<subseteq> insert from (Range ?R)"
    using search_levels_finds[OF a(1,3,2), of 0 "[(from, [])]" "[from]" to "path_depth maxDepth"] by auto
  then show ?thesis
  proof cases
    case 1
    then show ?thesis using assms(3) by (simp add: Path_def)
  next
    case 2
    obtain syms where syms: "Store_Nodes s ids = Inr syms" "map symID syms = ids"
      using Store_Nodes_found[of ids s] nodes 2(11) by blast
    have len: "length syms = Suc k" using syms(2) 2(6) by (metis length_map)
    have ends: "symID (hd syms) = from" "symID (last syms) = to"
    proof -
      have "syms \<noteq> []" using len by auto
      then have "hd ids = symID (hd syms)" "last ids = symID (last syms)"
        using hd_map[of syms symID] last_map[of syms symID] syms(2) by metis+
      then show "symID (hd syms) = from" "symID (last syms) = to" using 2(8,9) by metis+
    qed
    have "to \<in> within ?R from (path_depth maxDepth)" using 2(2,3) by (auto simp: within_def intro: order_trans)
    then show ?thesis using assms(3) 2(2,3,4,5,10) syms len ends by (auto simp: Path_def)
  qed
qed

definition sample_symbol :: "string \<Rightarrow> Symbol" where
  "sample_symbol i = \<lparr>symID = i, symKind = ''function'', symName = i, symFile = [], symLine = 0, symAccess = [], symComponent = [],
     symEntry = False, symReachable = True, symUtility = False, symIsland = 0, symInDegree = 0, symOutDegree = 0\<rparr>"

definition sample_node :: "string \<Rightarrow> Node" where
  "sample_node i = \<lparr>ID = i, Kind = KindFunction, Name = i, File = [], Line = 0, Access = [], Component = [], Entry = False,
     Abstract = False, IslandNo = 0, Reachable = True, Root = False, Utility = False, Boundary = False\<rparr>"

definition sample_edge :: "string \<Rightarrow> string \<Rightarrow> Edge" where
  "sample_edge x y = \<lparr>From = x, To = y, EKind = EdgeCalls, Count = 1, Dynamic = False\<rparr>"

definition sample_map :: Map where
  "sample_map = \<lparr>mRoot = [], mLevel = LevelFunction, mFingerprint = [], mNodes = map sample_node [''a'', ''b'', ''c''],
     mEdges = [sample_edge ''a'' ''b'', sample_edge ''b'' ''c''],
     mStats = \<lparr>sFiles = 0, sFunctions = 0, sCallSites = 0, sResolved = 0, sDynamic = 0, sUnresolved = 0, sBuiltin = 0, sUnreadable = 0,
       sRoutes = 0, sRoutesUnresolved = 0, sUtility = 0, sCached = 0, sBuildMillis = 0, sIslands = 0, sDetached = 0\<rparr>\<rparr>"

definition sample_store :: store where
  "sample_store = \<lparr>NodeRows = \<lambda>i. Inr [sample_symbol i],
     ExpandRows = \<lambda>ids. Inr (filter (\<lambda>p. fst p \<in> set ids) [(''a'', ''b''), (''b'', ''c'')])\<rparr>"

lemma sample_links: "links (mEdges sample_map) = {(''a'', ''b''), (''b'', ''c'')}"
proof -
  have "links (mEdges sample_map) = (\<lambda>e. (From e, To e)) ` {e \<in> set (mEdges sample_map). structural (EKind e)}"
    by (auto simp: links_def)
  also have "{e \<in> set (mEdges sample_map). structural (EKind e)} = set (mEdges sample_map)"
    by (auto simp: sample_map_def sample_edge_def structural_def)
  finally show ?thesis by (simp add: sample_map_def sample_edge_def)
qed

lemma sample_stores: "stores sample_store sample_map"
  unfolding stores_def sample_links answers_def
  by (auto simp: sample_store_def sample_map_def sample_node_def sample_symbol_def Field_def)

lemma Path_shortest_witness:
  "\<exists>syms. Path sample_store ''a'' ''c'' 5 = Some (Inr syms) \<and> symID (hd syms) = ''a'' \<and> symID (last syms) = ''c''"
proof -
  have "''c'' \<in> within {(''a'', ''b''), (''b'', ''c'')} ''a'' 5"
    by (auto simp: within_def relcomp_unfold intro!: bexI[of _ "Suc (Suc 0)"])
  then show ?thesis
    using Path_shortest[OF sample_stores, of "''a''" "''c''" 5] unfolding sample_links
    by (auto simp: sample_map_def sample_node_def path_depth_def)
qed

end
