(* ===== verification/Go_Format.thy ===== *)
theory Go_Format
  imports Go_Strings
begin

text \<open>
  Go's decimal numbers (package \<open>strconv\<close>) and the words of a string (\<open>strings.Fields\<close>).
\<close>

section \<open>Numbers\<close>

definition is_digit :: "char \<Rightarrow> bool" where
  "is_digit c \<longleftrightarrow> CHR ''0'' \<le> c \<and> c \<le> CHR ''9''"

text \<open>\<open>strconv.Atoi\<close> on digits: an error past the 64-bit range.\<close>

definition digits_value :: "string \<Rightarrow> nat" where
  "digits_value ds = foldl (\<lambda>n c. 10 * n + (byte c - 48 :: nat)) 0 ds"

definition Atoi :: "string \<Rightarrow> nat option" where
  "Atoi ds = (if ds = [] \<or> \<not> list_all is_digit ds \<or> 2 ^ 63 \<le> digits_value ds then None else Some (digits_value ds))"

text \<open>\<open>strconv.Itoa\<close>.\<close>

fun Utoa :: "nat \<Rightarrow> string" where
  "Utoa n = (if n < 10 then [char_of (n + 48)] else Utoa (n div 10) @ [char_of (n mod 10 + 48)])"

declare Utoa.simps [simp del]

definition Itoa :: "int \<Rightarrow> string" where
  "Itoa i = (if i < 0 then CHR ''-'' # Utoa (nat (- i)) else Utoa (nat i))"

lemma digit_char: "n < 10 \<Longrightarrow> is_digit (char_of (n + 48)) \<and> byte (char_of (n + 48)) = n + 48"
  by (simp add: is_digit_def less_eq_char_def take_bit_eq_mod of_char_mod_256)

lemma digits_Utoa: "list_all is_digit (Utoa n) \<and> Utoa n \<noteq> [] \<and> digits_value (Utoa n) = n"
proof (induction n rule: Utoa.induct)
  case (1 n)
  show ?case
  proof (cases "n < 10")
    case True
    then show ?thesis using digit_char[of n] by (simp add: Utoa.simps[of n] digits_value_def)
  next
    case False
    have "digits_value (ds @ [c]) = 10 * digits_value ds + (byte c - 48)" for ds c by (simp add: digits_value_def)
    then show ?thesis
      using 1[OF False] digit_char[of "n mod 10"] False by (simp add: Utoa.simps[of n])
  qed
qed

lemma Atoi_Utoa: "n < 2 ^ 63 \<Longrightarrow> Atoi (Utoa n) = Some n"
  using digits_Utoa[of n] by (simp add: Atoi_def)

section \<open>Words\<close>

function take_word :: "string \<Rightarrow> string \<times> string" where
  "take_word s =
     (if s = [] then ([], [])
      else let (r, n) = decode_rune s
           in if is_space_rune r then ([], s) else (let (w, rest) = take_word (drop n s) in (take n s @ w, rest)))"
  by pat_completeness auto
termination
  by (relation "measure length") (auto simp: rune_size_def[symmetric] rune_size_pos dest!: arg_cong[where f = snd])

declare take_word.simps [simp del]

lemma take_word_append: "take_word s = (w, rest) \<Longrightarrow> w @ rest = s"
proof (induction s arbitrary: w rest rule: take_word.induct)
  case (1 s)
  show ?case
  proof (cases "s = [] \<or> is_space_rune (fst (decode_rune s))")
    case True
    then show ?thesis using "1.prems" by (cases "decode_rune s") (auto simp: take_word.simps[of s] split: if_splits)
  next
    case False
    obtain w' rest' where w': "take_word (drop (snd (decode_rune s)) s) = (w', rest')" by fastforce
    have "w' @ rest' = drop (snd (decode_rune s)) s"
      using "1.IH"[OF _ refl _ _ w'] False by (simp add: prod_eq_iff)
    then show ?thesis using "1.prems" False w' by (auto simp: take_word.simps[of s] case_prod_unfold)
  qed
qed

lemma take_word_shorter:
  assumes "s \<noteq> []" "\<not> is_space_rune (fst (decode_rune s))" "take_word s = (w, rest)"
  shows "length rest < length s" "w \<noteq> []"
proof -
  obtain w' rest' where w': "take_word (drop (rune_size s) s) = (w', rest')" by fastforce
  have "w = take (rune_size s) s @ w'" "rest = rest'"
    using assms w' by (auto simp: take_word.simps[of s] case_prod_unfold rune_size_def)
  moreover have "length rest' \<le> length (drop (rune_size s) s)"
    using take_word_append[OF w'] by (metis length_append le_add2)
  ultimately show "length rest < length s" "w \<noteq> []" using le_less_trans[OF _ rune_size_drop_less[OF assms(1)]] rune_size_pos[OF assms(1)] assms(1)
    by auto
qed

lemma trim_left_space_first:
  "trim_left_space s \<noteq> [] \<Longrightarrow> \<not> is_space_rune (fst (decode_rune (trim_left_space s)))"
proof (induction s rule: trim_left_space.induct)
  case (1 s)
  then show ?case
    using trim_left_space.simps[of s] by (cases "decode_rune s") (auto split: if_splits)
qed

lemma trim_left_space_length: "length (trim_left_space s) \<le> length s"
proof (induction s rule: trim_left_space.induct)
  case (1 s)
  then show ?case
    using trim_left_space.simps[of s] by (cases "decode_rune s") (auto split: if_splits intro: order_trans[OF _ diff_le_self])
qed

function Fields :: "string \<Rightarrow> string list" where
  "Fields s =
     (let t = trim_left_space s in if t = [] then [] else (let (w, rest) = take_word t in w # Fields rest))"
  by pat_completeness auto
termination
proof (relation "measure length")
  fix s t w rest x
  assume "t = trim_left_space s" "t \<noteq> []" "x = take_word t" "(w, rest) = x"
  then have "length rest < length t" using take_word_shorter(1)[of t w rest] trim_left_space_first[of s] by simp
  then show "(rest, s) \<in> measure length" using trim_left_space_length[of s] \<open>t = trim_left_space s\<close> by simp
qed simp

declare Fields.simps [simp del]

end
