(* ===== verification/Ancestors.thy ===== *)
theory Ancestors
  imports Go_Path
begin

text \<open>
  The loops that go up from a directory with \<open>filepath.Dir\<close> until it stops changing, which it does: every
  step shortens the path, but for the last one to the dot.
\<close>

definition weight :: "string list \<Rightarrow> nat" where
  "weight es = sum_list (map (\<lambda>e. Suc (length e)) es)"

lemma weight_append [simp]: "weight (es @ fs) = weight es + weight fs"
  by (simp add: weight_def)

lemma weight_simps [simp]: "weight [] = 0" "weight (e # es) = Suc (length e) + weight es"
  by (simp_all add: weight_def)

lemma length_join: "es \<noteq> [] \<Longrightarrow> Suc (length (join [d] es)) = weight es"
proof (induction es)
  case (Cons e es)
  then show ?case by (cases es) simp_all
qed simp

lemma length_join_le: "length (join [d] es) \<le> weight es - 1"
  using length_join[of es d] by (cases es) auto

lemma weight_split_on: "weight (split_on d p) = Suc (length p)"
  using length_join[OF split_on_nonempty, of d d p] by simp

lemma weight_butlast: "weight (butlast es) \<le> weight es"
  by (induction es) auto

lemma clean_step_weight:
  "weight (clean_step rooted stack e) \<le> weight stack + (if e = [] then 0 else Suc (length e))"
  using weight_butlast[of stack] by (auto simp: clean_step_def)

lemma clean_fold_weight:
  "weight (foldl (clean_step rooted) stack es) \<le> weight stack + weight (filter (\<lambda>e. e \<noteq> []) es)"
proof (induction es arbitrary: stack)
  case (Cons e es)
  show ?case using clean_step_weight[of rooted stack e] Cons.IH[of "clean_step rooted stack e"]
    by (cases "e = []") simp_all
qed simp

lemma weight_filter: "weight (filter (\<lambda>e. e \<noteq> []) es) + length (filter (\<lambda>e. e = []) es) = weight es"
  by (induction es) auto

text \<open>How much shorter a path is when it is cleaned, by its empty elements.\<close>

lemma clean_weight:
  "weight (foldl (clean_step rooted) [] (split_on (CHR ''/'') p)) + length (filter (\<lambda>e. e = []) (split_on (CHR ''/'') p))
     \<le> Suc (length p)"
  using clean_fold_weight[of rooted "[]" "split_on (CHR ''/'') p"] weight_filter[of "split_on (CHR ''/'') p"]
    weight_split_on[of "CHR ''/''" p] by simp

lemma split_on_snoc: "split_on d (p @ [d]) = split_on d p @ [[]]"
  by (induction p) (auto split: list.splits)

lemma split_on_hd: "split_on d (d # p) = [] # split_on d p"
  by simp

lemma path_clean_slash_less:
  assumes "p \<noteq> ''/''" "p \<noteq> []" "last p = CHR ''/''"
  shows "length (path_clean p) < length p"
proof -
  obtain q where p: "p = q @ [CHR ''/'']" using assms(2,3) by (metis append_butlast_last_id)
  let ?es = "split_on (CHR ''/'') p" and ?n = "\<lambda>es. length (filter (\<lambda>e :: string. e = []) es)"
  show ?thesis
  proof (cases "HasPrefix p ''/''")
    case True
    then obtain r where q: "q = CHR ''/'' # r" using assms(1) p by (cases q) auto
    have "2 \<le> ?n ?es" unfolding p split_on_snoc q split_on_hd by simp
    then have "weight (foldl (clean_step True) [] ?es) < length p" using clean_weight[of True p] by simp
    then show ?thesis using True assms(2) length_join_le[of "CHR ''/''" "foldl (clean_step True) [] ?es"] q p
      by (simp add: path_clean_def Let_def)
  next
    case False
    have "1 \<le> ?n ?es" unfolding p split_on_snoc by simp
    then have "weight (foldl (clean_step False) [] ?es) \<le> length p" using clean_weight[of False p] by simp
    moreover have "1 < length p" using False p assms(1) by (cases q) auto
    ultimately show ?thesis using False assms(2) length_join_le[of "CHR ''/''" "foldl (clean_step False) [] ?es"]
      by (auto simp: path_clean_def Let_def)
  qed
qed

lemma path_dir_slash: "path_dir ''/'' = ''/''"
  by code_simp

lemma path_dir_less:
  assumes "CHR ''/'' \<in> set p" "path_dir p \<noteq> p"
  shows "length (path_dir p) < length p"
proof -
  obtain i where i: "last_index_byte p (CHR ''/'') = Some i" using assms(1) by (cases "last_index_byte p (CHR ''/'')") auto
  then have b: "i < length p" "p ! i = CHR ''/''" using last_index_byte_Some[OF i] by auto
  let ?t = "take (i + 1) p"
  have t: "?t \<noteq> []" "last ?t = CHR ''/''" using b by (auto simp: take_Suc_conv_app_nth)
  have D: "path_dir p = path_clean ?t" using i by (simp add: path_dir_def)
  show ?thesis
  proof (cases "?t = ''/''")
    case True
    then have "path_dir p = ''/''" using D path_dir_slash by (simp add: path_dir_def last_index_byte_def)
    moreover from this have "p \<noteq> ''/''" using assms(2) by auto
    ultimately show ?thesis using True by (cases p; cases "tl p") auto
  next
    case False
    then show ?thesis using path_clean_slash_less[OF False t] D by simp
  qed
qed

lemma path_dir_flat: "CHR ''/'' \<notin> set p \<Longrightarrow> path_dir p = ''.''"
proof -
  assume "CHR ''/'' \<notin> set p"
  then have "last_index_byte p (CHR ''/'') = None" by simp
  then show ?thesis by (simp only: path_dir_def path_clean_def option.case if_True simp_thms)
qed

definition height :: "string \<Rightarrow> nat" where
  "height p = (if p = ''.'' then 0 else if CHR ''/'' \<in> set p then length p + 2 else 1)"

lemma height_dir: "path_dir p \<noteq> p \<Longrightarrow> height (path_dir p) < height p"
  using path_dir_less[of p] path_dir_flat[of p] by (cases "CHR ''/'' \<in> set p") (auto simp: height_def)

text \<open>The first directory at or above one that a test accepts.\<close>

function find_up :: "(string \<Rightarrow> bool) \<Rightarrow> string \<Rightarrow> string option" where
  "find_up P dir =
     (if P dir then Some dir else if path_dir dir = dir then None else find_up P (path_dir dir))"
  by pat_completeness auto
termination by (relation "measure (\<lambda>(P, dir). height dir)") (simp_all add: height_dir)

declare find_up.simps [simp del]

lemma find_up_sat: "find_up P dir = Some d \<Longrightarrow> P d"
proof (induction P dir rule: find_up.induct)
  case (1 P dir)
  then show ?case by (simp add: find_up.simps[of P dir] split: if_splits)
qed

lemma find_up_None: "find_up P dir = None \<Longrightarrow> \<not> P dir"
  by (simp add: find_up.simps[of P dir] split: if_splits)

section \<open>Relative paths\<close>

text \<open>\<open>filepath.Rel\<close> on the elements of the cleaned paths; \<open>None\<close> where it fails.\<close>

definition path_elems :: "string \<Rightarrow> string list" where
  "path_elems p = filter (\<lambda>e. e \<noteq> []) (split_on (CHR ''/'') (path_clean p))"

fun drop_common :: "string list \<Rightarrow> string list \<Rightarrow> string list \<times> string list" where
  "drop_common (b # bs) (t # ts) = (if b = t then drop_common bs ts else (b # bs, t # ts))"
| "drop_common bs ts = (bs, ts)"

definition path_rel :: "string \<Rightarrow> string \<Rightarrow> string option" where
  "path_rel base target =
     (if HasPrefix (path_clean base) ''/'' \<noteq> HasPrefix (path_clean target) ''/'' then None
      else let (bs, ts) = drop_common (if path_clean base = ''.'' then [] else path_elems base) (path_elems target)
           in if bs \<noteq> [] \<and> hd bs = ''..'' then None
              else if path_clean base = path_clean target then Some ''.''
              else Some (join ''/'' (replicate (length bs) ''..'' @ ts)))"

end
