(* ===== verification/Positions.thy ===== *)
theory Positions
  imports Client_Edits Conv
begin

text \<open>
  Columns (server/position.go): LSP characters count UTF-16 code units, the server reads bytes. The
  conversions both ways, the mapper that serves many positions of one document, and
  \<open>parser.LineTextAt\<close>.
\<close>

section \<open>The code\<close>

text \<open>\<open>parser.LineTextAt\<close>; \<open>skip_lines\<close> is its loop, the same as that of \<open>PositionToOffset\<close>.\<close>

definition LineTextAt :: "string \<Rightarrow> nat \<Rightarrow> string" where
  "LineTextAt content line =
     (case skip_lines content 0 line of
        None \<Rightarrow> []
      | Some offset \<Rightarrow>
          (case index_byte (drop offset content) newline of
             None \<Rightarrow> drop offset content
           | Some end_ \<Rightarrow> slice content offset (offset + end_)))"

text \<open>The server's own \<open>utf16Len\<close> counts in a \<open>uint32\<close>.\<close>

function (sequential) utf16Len32 :: "string \<Rightarrow> 32 word" where
  "utf16Len32 [] = 0"
| "utf16Len32 (c # s) =
     (let (r, n) = decode_rune (c # s)
      in 1 + (if 0xFFFF < r then 1 else 0) + utf16Len32 (drop n (c # s)))"
  by pat_completeness auto
termination
  by (relation "measure length") (auto simp: rune_size_def[symmetric] dest!: arg_cong[where f = snd])

declare utf16Len32.simps(2) [simp del]

lemma utf16Len32_eq: "utf16Len32 s = of_nat (utf16Len s)"
proof (induction s rule: rune_induct)
  case (rune s)
  then show ?case
    by (cases s) (simp_all add: utf16Len32.simps utf16Len_rune rune_size_def case_prod_unfold Let_def utf16Units_def)
qed simp

function byte_col :: "string \<Rightarrow> nat \<Rightarrow> nat \<Rightarrow> nat \<Rightarrow> nat" where
  "byte_col s i units want =
     (if i < length s then
        (if want \<le> units then i
         else if byte (s ! i) < (0x80::nat) then byte_col s (i + 1) (units + 1) want
         else let (r, n) = decode_rune (drop i s)
              in byte_col s (i + n) (units + (if 0xFFFF < r then 2 else 1)) want)
      else length s + (want - units))"
  by pat_completeness auto
termination
  by (relation "measure (\<lambda>(s, i, units, want). want - units)") auto

declare byte_col.simps [simp del]

definition lineByteCol :: "string \<Rightarrow> 32 word \<Rightarrow> nat" where
  "lineByteCol s char = byte_col s 0 0 (unat char)"

definition byteCol :: "string \<Rightarrow> nat \<Rightarrow> 32 word \<Rightarrow> nat" where
  "byteCol content line char = lineByteCol (LineTextAt content line) char"

definition lineCol :: "string \<Rightarrow> nat \<Rightarrow> 32 word" where
  "lineCol s col =
     (if col \<le> length s then utf16Len32 (take col s)
      else utf16Len32 s + Uint32 (of_nat (col - length s)))"

record colMapper =
  mcontent :: string
  starts :: "nat list"

definition newColMapper :: "string \<Rightarrow> colMapper" where
  "newColMapper content = \<lparr>mcontent = content, starts = [0]\<rparr>"

text \<open>The loop of \<open>colMapper.line\<close>, which finds line starts as far as \<open>line\<close> needs.\<close>

function find_starts :: "string \<Rightarrow> nat \<Rightarrow> nat list \<Rightarrow> nat list" where
  "find_starts content line ss =
     (if length ss \<le> line + 1 then
        (let l = last ss
         in if length content < l then ss
            else (case index_byte (drop l content) newline of
                    None \<Rightarrow> ss @ [length content + 1]
                  | Some nl \<Rightarrow> find_starts content line (ss @ [l + nl + 1])))
      else ss)"
  by pat_completeness auto
termination
  by (relation "measure (\<lambda>(content, line, ss). line + 2 - length ss)") auto

declare find_starts.simps [simp del]

definition mapper_line :: "colMapper \<Rightarrow> nat \<Rightarrow> colMapper \<times> string option" where
  "mapper_line m line =
     (let ss = find_starts (mcontent m) line (starts m)
      in (m\<lparr>starts := ss\<rparr>,
          if length ss \<le> line + 1 then None
          else Some (slice (mcontent m) (ss ! line) (ss ! (line + 1) - 1))))"

definition mapper_col :: "colMapper \<Rightarrow> 32 word \<times> 32 word \<Rightarrow> colMapper \<times> 32 word" where
  "mapper_col m = (\<lambda>(line, col).
     case mapper_line m (unat line) of
       (m', None) \<Rightarrow> (m', col)
     | (m', Some s) \<Rightarrow>
         (m', if \<exists>c \<in> set (take (min (unat col) (length s)) s). (0x80::nat) \<le> byte c then lineCol s (unat col) else col))"

text \<open>A run of queries against one mapper.\<close>

fun mapper_cols :: "colMapper \<Rightarrow> (32 word \<times> 32 word) list \<Rightarrow> (32 word) list" where
  "mapper_cols m [] = []"
| "mapper_cols m (q # qs) = (let (m', c) = mapper_col m q in c # mapper_cols m' qs)"

section \<open>Lines\<close>

lemma split_lines_no_newline: "l \<in> set (split_lines s) \<Longrightarrow> newline \<notin> set l"
proof (induction s arbitrary: l)
  case (Cons c s)
  then show ?case by (cases "split_lines s") (auto split: if_splits)
qed simp

lemma index_newline_join:
  assumes "newline \<notin> set l"
  shows "index_byte (join [newline] (l # ls)) newline = (if ls = [] then None else Some (length l))"
  using assms by (cases ls) (simp_all add: index_byte_append)

text \<open>Where line \<open>i\<close> begins; one past the end of the text after the last line.\<close>

definition line_start :: "string \<Rightarrow> nat \<Rightarrow> nat" where
  "line_start s i = length (terminated (take i (split_lines s)))"

lemma line_start_0 [simp]: "line_start s 0 = 0"
  by (simp add: line_start_def)

lemma line_start_Suc:
  "i < length (split_lines s) \<Longrightarrow> line_start s (Suc i) = line_start s i + length (split_lines s ! i) + 1"
  by (simp add: line_start_def take_Suc_conv_app_nth)

lemma line_start_all: "line_start s (length (split_lines s)) = length s + 1"
  using join_terminated[OF split_lines_nonempty, of s] by (metis join_split_lines length_append length_Cons
      line_start_def list.size(3) take_all_iff order_refl add_Suc_right add_0_right Suc_eq_plus1)

lemma drop_line_start:
  assumes "i < length (split_lines s)"
  shows "drop (line_start s i) s = join [newline] (split_lines s ! i # drop (Suc i) (split_lines s))"
    and "line_start s i \<le> length s"
proof -
  have s: "s = terminated (take i (split_lines s)) @ join [newline] (drop i (split_lines s))"
    by (rule content_at_line[OF assms])
  then show "drop (line_start s i) s = join [newline] (split_lines s ! i # drop (Suc i) (split_lines s))"
    using assms unfolding line_start_def by (metis Cons_nth_drop_Suc append_eq_conv_conj)
  show "line_start s i \<le> length s" unfolding line_start_def by (subst (2) s) simp
qed

lemma newline_after_line_start:
  assumes "i < length (split_lines s)"
  shows "index_byte (drop (line_start s i) s) newline =
    (if Suc i = length (split_lines s) then None else Some (length (split_lines s ! i)))"
proof -
  have "newline \<notin> set (split_lines s ! i)" by (rule split_lines_no_newline[OF nth_mem[OF assms]])
  from index_newline_join[OF this] show ?thesis unfolding drop_line_start(1)[OF assms] using assms by auto
qed

lemma slice_line:
  assumes "i < length (split_lines s)"
  shows "slice s (line_start s i) (line_start s (Suc i) - 1) = split_lines s ! i"
proof -
  let ?l = "split_lines s ! i" and ?ls = "drop (Suc i) (split_lines s)"
  have "take (length ?l) (drop (line_start s i) s) = ?l"
    unfolding drop_line_start(1)[OF assms] by (cases ?ls) simp_all
  then show ?thesis using line_start_Suc[OF assms] by (simp add: slice_def)
qed

lemma LineTextAt_split:
  "LineTextAt s i = (if i < length (split_lines s) then split_lines s ! i else [])"
proof (cases "i < length (split_lines s)")
  case True
  have line: "skip_lines s 0 i = Some (line_start s i)" using True by (simp add: skip_lines_split line_start_def)
  show ?thesis
  proof (cases "Suc i = length (split_lines s)")
    case last: True
    then have "drop (line_start s i) s = split_lines s ! i" using drop_line_start(1)[OF True] by simp
    then show ?thesis
      using True last newline_after_line_start[OF True] by (simp add: LineTextAt_def line del: index_byte_None)
  next
    case False
    then show ?thesis
      using True newline_after_line_start[OF True] slice_line[OF True] line_start_Suc[OF True]
      by (simp add: LineTextAt_def line)
  qed
qed (simp add: LineTextAt_def skip_lines_split)

section \<open>The mapper\<close>

definition all_starts :: "string \<Rightarrow> nat list" where
  "all_starts s = map (line_start s) [0..<Suc (length (split_lines s))]"

definition mapper_ok :: "colMapper \<Rightarrow> bool" where
  "mapper_ok m \<longleftrightarrow> starts m \<noteq> [] \<and> prefix (starts m) (all_starts (mcontent m))"

lemma prefix_all_starts:
  "prefix ss (all_starts s) \<longleftrightarrow> length ss \<le> Suc (length (split_lines s)) \<and> ss = map (line_start s) [0..<length ss]"
proof -
  have "prefix ss xs \<longleftrightarrow> length ss \<le> length xs \<and> ss = take (length ss) xs" for xs :: "nat list"
    by (metis append_eq_conv_conj prefix_def prefix_length_le take_is_prefix)
  moreover have "k \<le> Suc (length (split_lines s)) \<Longrightarrow>
      take k (all_starts s) = map (line_start s) [0..<k]" for k
    by (simp add: all_starts_def take_map del: upt_Suc)
  moreover have "length (all_starts s) = Suc (length (split_lines s))" by (simp add: all_starts_def)
  ultimately show ?thesis by metis
qed

lemma last_upt: "0 < n \<Longrightarrow> last (map f [0..<n]) = f (n - 1)"
  by (cases n) simp_all

lemma find_starts_prefix:
  "ss \<noteq> [] \<Longrightarrow> prefix ss (all_starts s) \<Longrightarrow>
     find_starts s line ss = map (line_start s) [0..<max (length ss) (min (line + 2) (Suc (length (split_lines s))))]"
proof (induction s line ss rule: find_starts.induct)
  case (1 s line ss)
  let ?n = "length (split_lines s)" and ?k = "length ss"
  have ss: "ss = map (line_start s) [0..<?k]" "?k \<le> Suc ?n" "0 < ?k"
    using "1.prems" unfolding prefix_all_starts by auto
  have lst: "last ss = line_start s (?k - 1)" using ss(1,3) last_upt by metis
  show ?case
  proof (cases "?k \<le> line + 1 \<and> ?k \<le> ?n")
    case True
    then have k: "?k - 1 < ?n" using ss(3) by linarith
    note nl = newline_after_line_start[OF k] and le = drop_line_start(2)[OF k]
    have more: "line_start s ?k = line_start s (?k - 1) + length (split_lines s ! (?k - 1)) + 1"
      using line_start_Suc[OF k] ss(3) by simp
    have snoc: "ss @ [line_start s ?k] = map (line_start s) [0..<Suc ?k]" using ss(1) by simp
    show ?thesis
    proof (cases "?k = ?n")
      case end_: True
      then have "find_starts s line ss = ss @ [length s + 1]"
        using True nl le ss(3) lst by (subst find_starts.simps) (simp add: Let_def del: index_byte_None)
      also have "\<dots> = map (line_start s) [0..<Suc ?k]" using snoc end_ line_start_all[of s] by simp
      finally show ?thesis using True end_ by (simp add: max_def min_def del: upt_Suc)
    next
      case False
      then have step: "index_byte (drop (last ss) s) newline = Some (length (split_lines s ! (?k - 1)))"
        using nl ss(3) lst by simp
      have ss': "ss @ [last ss + length (split_lines s ! (?k - 1)) + 1] = map (line_start s) [0..<Suc ?k]"
        using snoc more lst by simp
      have "prefix (map (line_start s) [0..<Suc ?k]) (all_starts s)"
        unfolding prefix_all_starts using True by (simp del: upt_Suc)
      then have "find_starts s line (map (line_start s) [0..<Suc ?k]) =
          map (line_start s) [0..<max (Suc ?k) (min (line + 2) (Suc ?n))]"
        using "1.IH"[OF _ refl _ step] True le lst unfolding ss' by (simp del: upt_Suc)
      moreover have "find_starts s line ss = find_starts s line (map (line_start s) [0..<Suc ?k])"
        using True le lst step ss' by (subst find_starts.simps) (simp add: Let_def del: upt_Suc)
      moreover have "max (Suc ?k) (min (line + 2) (Suc ?n)) = max ?k (min (line + 2) (Suc ?n))"
        using True by (simp add: max_def min_def)
      ultimately show ?thesis by (simp only:)
    qed
  next
    case False
    have "find_starts s line ss = ss"
    proof (cases "?k \<le> line + 1")
      case True
      then have "?k = Suc ?n" using False ss(2) by simp
      then have "last ss = length s + 1" using lst line_start_all[of s] by simp
      then show ?thesis by (subst find_starts.simps) (simp add: Let_def)
    qed (subst find_starts.simps, simp)
    moreover have "max ?k (min (line + 2) (Suc ?n)) = ?k" using False ss(2) by auto
    ultimately show ?thesis using ss(1) by simp
  qed
qed

lemma mapper_line_ok:
  assumes "mapper_ok m"
  shows "snd (mapper_line m line) =
      (if line < length (split_lines (mcontent m)) then Some (split_lines (mcontent m) ! line) else None)"
    and "mapper_ok (fst (mapper_line m line))" "mcontent (fst (mapper_line m line)) = mcontent m"
proof -
  let ?s = "mcontent m" and ?ss = "starts m"
  let ?n = "length (split_lines ?s)"
  have p: "?ss \<noteq> []" "prefix ?ss (all_starts ?s)" using assms by (auto simp: mapper_ok_def)
  then have k: "length ?ss \<le> Suc ?n" by (simp add: prefix_all_starts)
  let ?j = "max (length ?ss) (min (line + 2) (Suc ?n))"
  have f: "find_starts ?s line ?ss = map (line_start ?s) [0..<?j]" by (rule find_starts_prefix[OF p])
  have j: "?j \<le> line + 1 \<longleftrightarrow> \<not> line < ?n" using k by auto
  show "snd (mapper_line m line) = (if line < ?n then Some (split_lines ?s ! line) else None)"
    using j slice_line[of line ?s] by (auto simp: mapper_line_def f Let_def simp del: upt_Suc)
  have "prefix (map (line_start ?s) [0..<?j]) (all_starts ?s)" unfolding prefix_all_starts using k by simp
  then show "mapper_ok (fst (mapper_line m line))"
    using p(1) by (simp add: mapper_ok_def mapper_line_def f Let_def)
  show "mcontent (fst (mapper_line m line)) = mcontent m" by (simp add: mapper_line_def Let_def)
qed

lemma utf16Len_ascii: "\<not> (\<exists>c \<in> set s. (0x80::nat) \<le> byte c) \<Longrightarrow> utf16Len s = length s"
proof (induction s)
  case (Cons c s)
  then have "decode_rune (c # s) = (byte c, 1)" "rune_size (c # s) = 1"
    by (auto simp: rune_size_def decode_ascii)
  then show ?case using Cons utf16Len_rune[of "c # s"] by (simp add: utf16Units_def)
qed simp

lemma Uint32_of_nat: "n < 2 ^ 32 \<Longrightarrow> Uint32 (of_nat n) = of_nat n"
proof -
  assume n: "n < 2 ^ 32"
  then have s: "sint (of_nat n :: 64 word) = int n"
    by (simp add: signed_of_nat signed_take_bit_int_eq_self)
  then have "uint (Uint32 (of_nat n)) = int n"
    using n by (simp add: Uint32_def conv_bounds uint_ucast_32)
  moreover have "uint (of_nat n :: 32 word) = int n"
    using n by (simp add: unsigned_of_nat take_bit_nat_eq_self)
  ultimately show ?thesis by (simp add: word_uint_eq_iff)
qed

lemma lineCol_ascii:
  assumes "\<not> (\<exists>c \<in> set (take (min (unat (col :: 32 word)) (length s)) s). (0x80::nat) \<le> byte c)"
  shows "lineCol s (unat col) = col"
proof (cases "unat col \<le> length s")
  case True
  then show ?thesis
    using utf16Len_ascii[of "take (unat col) s"] assms by (simp add: lineCol_def utf16Len32_eq min_def)
next
  case False
  then have len: "utf16Len s = length s" using assms by (intro utf16Len_ascii) (simp add: min_def)
  have "unat col < 2 ^ LENGTH(32)" by (rule unsigned_less)
  then have "unat col - length s < 2 ^ 32" by simp
  from Uint32_of_nat[OF this] have "lineCol s (unat col) = of_nat (length s) + of_nat (unat col - length s)"
    using False len by (simp only: lineCol_def utf16Len32_eq if_False)
  also have "\<dots> = of_nat (length s + (unat col - length s))" by (simp only: of_nat_add)
  also have "length s + (unat col - length s) = unat col" using False by simp
  finally show ?thesis by simp
qed

text \<open>
  A \<open>colMapper\<close> answers every run of queries, in any order and with repeats, as if each line were
  cut out afresh and converted by \<open>lineCol\<close>; a column on a line the document does not have comes back
  unchanged.
\<close>

theorem colMapper_fresh:
  "mapper_cols (newColMapper content) qs =
     map (\<lambda>(line, col). if unat line < length (split_lines content)
        then lineCol (LineTextAt content (unat line)) (unat col) else col) qs"
proof -
  have col: "mapper_ok (fst (mapper_col m q)) \<and> mcontent (fst (mapper_col m q)) = mcontent m \<and>
      snd (mapper_col m q) = (case q of (line, col) \<Rightarrow> if unat line < length (split_lines (mcontent m))
        then lineCol (LineTextAt (mcontent m) (unat line)) (unat col) else col)" if "mapper_ok m" for m q
  proof -
    obtain line col where q: "q = (line, col)" by (cases q)
    obtain m' r where l: "mapper_line m (unat line) = (m', r)" by fastforce
    note facts = mapper_line_ok[OF that, of "unat line", unfolded l fst_conv snd_conv]
    show ?thesis
    proof (cases r)
      case None
      then show ?thesis using facts by (auto simp: q mapper_col_def l split: if_splits)
    next
      case (Some s)
      then have s: "s = LineTextAt (mcontent m) (unat line)" "unat line < length (split_lines (mcontent m))"
        using facts(1) by (auto simp: LineTextAt_split split: if_splits)
      have "(if \<exists>c \<in> set (take (min (unat col) (length s)) s). (0x80::nat) \<le> byte c then lineCol s (unat col) else col)
          = lineCol s (unat col)" using lineCol_ascii[of col s] by simp
      then have "mapper_col m q = (m', lineCol s (unat col))"
        by (simp only: q mapper_col_def l Some prod.case option.case)
      then show ?thesis using facts s by (simp add: q)
    qed
  qed
  have run: "mapper_cols m qs = map (\<lambda>(line, col). if unat line < length (split_lines (mcontent m))
        then lineCol (LineTextAt (mcontent m) (unat line)) (unat col) else col) qs" if "mapper_ok m" for m
    using that
  proof (induction qs arbitrary: m)
    case (Cons q qs)
    then show ?case using col[OF Cons.prems, of q] by (simp add: case_prod_unfold Let_def)
  qed simp
  have "mapper_ok (newColMapper content)"
    by (simp add: mapper_ok_def newColMapper_def prefix_all_starts)
  moreover have "mcontent (newColMapper content) = content" by (simp add: newColMapper_def)
  ultimately show ?thesis using run[of "newColMapper content"] by (simp only:)
qed

section \<open>There and back\<close>

text \<open>A byte column that does not cut a rune in two.\<close>

function boundary :: "string \<Rightarrow> nat \<Rightarrow> bool" where
  "boundary s n =
     (if n = 0 \<or> s = [] then n = 0
      else rune_size s \<le> n \<and> boundary (drop (rune_size s) s) (n - rune_size s))"
  by pat_completeness auto
termination
  by (relation "measure (\<lambda>(s, n). length s)")
    (simp_all only: in_measure prod.case rune_size_drop_less wf_measure de_Morgan_disj not_False_eq_True)

declare boundary.simps [simp del]

lemma boundary_le: "boundary s n \<Longrightarrow> n \<le> length s"
proof (induction s n rule: boundary.induct)
  case (1 s n)
  then show ?case using rune_size_le[of s] by (subst (asm) (2) boundary.simps) (auto split: if_splits)
qed

lemma decode_bad: "s \<noteq> [] \<Longrightarrow> bad_rune s \<Longrightarrow> decode_rune s = (rune_error, 1)"
  by (auto simp: bad_rune_def rune_size_def decode_rune_def hd_conv_nth Let_def split: option.splits if_splits
      dest: lead_info_size)

lemma decode_rune_cut:
  assumes "s \<noteq> []" "rune_size s \<le> n"
  shows "decode_rune (take n s) = decode_rune s"
proof (cases "bad_rune s")
  case True
  then have "0 < n" using assms by (simp add: bad_rune_def)
  then have t: "take n s \<noteq> []" using assms(1) by simp
  show ?thesis
  proof (cases "bad_rune (take n s)")
    case False
    have "decode_rune (take n s @ drop n s) = decode_rune (take n s)" by (rule decode_rune_append[OF t False])
    then show ?thesis by simp
  qed (use decode_bad[OF t] decode_bad[OF assms(1) True] in simp)
qed (rule decode_rune_take[OF assms(1) _ assms(2)])

lemma utf16Len_cut:
  assumes "s \<noteq> []" "rune_size s \<le> n"
  shows "utf16Len (take n s) =
    utf16Units (fst (decode_rune s)) + utf16Len (take (n - rune_size s) (drop (rune_size s) s))"
proof -
  have "take n s \<noteq> []" using assms rune_size_pos[OF assms(1)] by auto
  moreover have "rune_size (take n s) = rune_size s" using decode_rune_cut[OF assms] by (simp add: rune_size_def)
  ultimately show ?thesis using utf16Len_rune[of "take n s"] decode_rune_cut[OF assms] by (simp add: drop_take)
qed

lemma utf16Len_le: "utf16Len s \<le> length s"
proof (induction s rule: rune_induct)
  case (rune s)
  have "utf16Units (fst (decode_rune s)) \<le> rune_size s"
    using rune_size_pos[OF rune(1)] rune(1)
    by (auto simp: utf16Units_def rune_size_def decode_rune_def Let_def rune_error_def split: option.splits if_splits)
  moreover have "rune_size s \<le> length s" by (rule rune_size_le)
  ultimately show ?case using rune utf16Len_rune[OF rune(1)] by simp
qed simp

lemma byte_col_step:
  assumes "i < length s" "units < want"
  shows "byte_col s i units want =
    byte_col s (i + rune_size (drop i s)) (units + utf16Units (fst (decode_rune (drop i s)))) want"
  using assms decode_ascii[of "drop i s"]
  by (subst byte_col.simps) (auto simp: rune_size_def utf16Units_def case_prod_unfold Let_def hd_drop_conv_nth)

lemma boundary_step:
  "s \<noteq> [] \<Longrightarrow> 0 < k \<Longrightarrow> boundary s k \<longleftrightarrow> rune_size s \<le> k \<and> boundary (drop (rune_size s) s) (k - rune_size s)"
  by (subst boundary.simps) simp

lemma byte_col_to:
  "boundary (drop i s) k \<Longrightarrow> i \<le> length s \<Longrightarrow>
     byte_col s i units (units + utf16Len (take k (drop i s))) = i + k"
proof (induction k arbitrary: i units rule: less_induct)
  case (less k)
  show ?case
  proof (cases "k = 0")
    case True
    then show ?thesis using less.prems by (subst byte_col.simps) simp
  next
    case False
    let ?d = "drop i s" and ?r = "rune_size (drop i s)"
    have "k \<le> length ?d" using less.prems(1) by (rule boundary_le)
    then have d: "?d \<noteq> []" "i < length s" using False by auto
    then have k: "?r \<le> k" "boundary (drop ?r ?d) (k - ?r)" using less.prems(1) False boundary_step[of ?d k] by auto
    note cut = utf16Len_cut[OF d(1) k(1)]
    let ?u = "utf16Units (fst (decode_rune ?d))"
    have "0 < ?u" by (simp add: utf16Units_def)
    then have "byte_col s i units (units + utf16Len (take k ?d)) =
        byte_col s (i + ?r) (units + ?u) (units + ?u + utf16Len (take (k - ?r) (drop (i + ?r) s)))"
      by (subst byte_col_step[OF d(2)]) (simp_all add: cut add.assoc add.commute)
    also have "\<dots> = i + ?r + (k - ?r)"
    proof (rule less.IH)
      show "k - ?r < k" using False rune_size_pos[OF d(1)] by simp
      show "boundary (drop (i + ?r) s) (k - ?r)" using k(2) by (simp add: add.commute)
      show "i + ?r \<le> length s" using rune_size_le[of ?d] d(2) by simp
    qed
    finally show ?thesis using k(1) by simp
  qed
qed

lemma byte_col_beyond:
  "i \<le> length s \<Longrightarrow> byte_col s i units (units + utf16Len (drop i s) + k) = length s + k"
proof (induction "length s - i" arbitrary: i units rule: less_induct)
  case less
  show ?case
  proof (cases "i = length s")
    case True
    then show ?thesis by (subst byte_col.simps) simp
  next
    case False
    let ?d = "drop i s" and ?r = "rune_size (drop i s)"
    let ?u = "utf16Units (fst (decode_rune ?d))"
    have d: "?d \<noteq> []" "i < length s" using False less.prems by auto
    have "0 < ?u" by (simp add: utf16Units_def)
    then have "byte_col s i units (units + utf16Len ?d + k) =
        byte_col s (i + ?r) (units + ?u) (units + ?u + utf16Len (drop (i + ?r) s) + k)"
      by (subst byte_col_step[OF d(2)]) (simp_all add: utf16Len_rune[OF d(1)] add.assoc add.commute)
    also have "\<dots> = length s + k"
      using less.hyps[of "i + ?r"] rune_size_pos[OF d(1)] rune_size_le[of ?d] d(2) by simp
    finally show ?thesis .
  qed
qed

text \<open>
  C14: A byte column sent to the client as an LSP character comes back as the same byte column, on any
  line shorter than four gigabytes: columns between runes whatever bytes the line holds, and columns
  past the end of the line, which keep their excess.
\<close>

theorem lineByteCol_lineCol:
  assumes "boundary s col \<or> length s < col" and "length s < 2 ^ 32" and "col < 2 ^ 32"
  shows "lineByteCol s (lineCol s col) = col"
proof -
  have small: "unat (of_nat n :: 32 word) = n" if "n < 2 ^ 32" for n
    using that by (simp add: unsigned_of_nat take_bit_nat_eq_self)
  show ?thesis
  proof (cases "length s < col")
    case True
    have "utf16Len s + (col - length s) < 2 ^ 32" using utf16Len_le[of s] True assms(3) by linarith
    moreover have "col - length s < 2 ^ 32" using assms(3) by simp
    from Uint32_of_nat[OF this] have "lineCol s col = of_nat (utf16Len s + (col - length s))"
      using True by (simp only: lineCol_def utf16Len32_eq not_le[symmetric] if_False of_nat_add)
    ultimately have "unat (lineCol s col) = utf16Len s + (col - length s)" using small by (simp only:)
    then show ?thesis using byte_col_beyond[of 0 s 0 "col - length s"] True by (simp add: lineByteCol_def)
  next
    case False
    then have b: "boundary s col" using assms(1) by simp
    have "utf16Len (take col s) < 2 ^ 32" using utf16Len_le[of "take col s"] assms(2) by simp
    then have "unat (lineCol s col) = utf16Len (take col s)"
      using False small by (simp add: lineCol_def utf16Len32_eq)
    then show ?thesis using byte_col_to[of 0 s col 0] b by (simp add: lineByteCol_def)
  qed
qed

text \<open>An accented letter, two bytes and one unit, and a column past the end.\<close>

lemma lineByteCol_lineCol_witness:
  "lineByteCol [CHR ''a'', CHR 0xC3, CHR 0xA9, CHR ''b''] (lineCol [CHR ''a'', CHR 0xC3, CHR 0xA9, CHR ''b''] 3) = 3 \<and>
   lineByteCol ''ab'' (lineCol ''ab'' 7) = 7"
proof
  have "boundary [CHR ''a'', CHR 0xC3, CHR 0xA9, CHR ''b''] 3" by code_simp
  then show "lineByteCol [CHR ''a'', CHR 0xC3, CHR 0xA9, CHR ''b''] (lineCol [CHR ''a'', CHR 0xC3, CHR 0xA9, CHR ''b''] 3) = 3"
    by (intro lineByteCol_lineCol) simp_all
  show "lineByteCol ''ab'' (lineCol ''ab'' 7) = 7" by (rule lineByteCol_lineCol) simp_all
qed

end
