(* ===== verification/Known_Issues.thy ===== *)
theory Known_Issues
  imports Go_Format Ancestors Positions "HOL-Library.Product_Lexorder"
begin

text \<open>
  The file of documented findings (\<open>internal/knownissues/knownissues.go\<close>): its lines are written by \<open>Write\<close>, read by
  \<open>Parse\<close>, and each becomes an editor diagnostic. The two regular expressions are written out as
  matchers that try what the expression tries, in its order; the classes that follow each other in
  them are disjoint, so only the optional parts can be matched in two ways.
\<close>

section \<open>Entries\<close>

record Entry =
  kPath :: string
  kLine :: nat
  kCol :: int
  kMessage :: string
  kCode :: string
  kSeverity :: string

text \<open>\<open>\s\<close> of a regular expression.\<close>

definition re_space :: "char \<Rightarrow> bool" where
  "re_space c \<longleftrightarrow> c \<in> {CHR 0x09, CHR 0x0A, CHR 0x0C, CHR 0x0D, CHR '' ''}"

definition is_letter :: "char \<Rightarrow> bool" where
  "is_letter c \<longleftrightarrow> CHR ''A'' \<le> c \<and> c \<le> CHR ''Z'' \<or> CHR ''a'' \<le> c \<and> c \<le> CHR ''z''"

text \<open>\<open>entryLine\<close>: the path, the line, the column or nothing, the message.\<close>

fun match_message :: "string \<Rightarrow> string option" where
  "match_message (CHR '':'' # t) =
     (let u = dropWhile re_space t in if u \<noteq> [] then Some u else if t = [] then None else Some [last t])"
| "match_message _ = None"

fun match_number :: "string \<Rightarrow> (string \<times> string) option" where
  "match_number (CHR '':'' # r) = (if takeWhile is_digit r = [] then None else Some (takeWhile is_digit r, dropWhile is_digit r))"
| "match_number _ = None"

definition match_pos :: "string \<Rightarrow> (string \<times> string \<times> string) option" where
  "match_pos r =
     (case match_number r of None \<Rightarrow> None
      | Some (line, r) \<Rightarrow>
          (case (case match_number r of None \<Rightarrow> None | Some (col, r) \<Rightarrow> map_option (\<lambda>m. (line, col, m)) (match_message r)) of
             Some res \<Rightarrow> Some res
           | None \<Rightarrow> map_option (\<lambda>m. (line, [], m)) (match_message r)))"

definition match_path :: "string \<Rightarrow> (string \<times> string \<times> string \<times> string) option" where
  "match_path s =
     (let p = takeWhile (\<lambda>c. c \<noteq> CHR '':'') s
      in if p = [] then None else map_option (Pair p) (match_pos (dropWhile (\<lambda>c. c \<noteq> CHR '':'') s)))"

definition entryLine :: "string \<Rightarrow> (string \<times> string \<times> string \<times> string) option" where
  "entryLine s =
     (let drive = take 2 s
      in case (if length drive = 2 \<and> is_letter (hd drive) \<and> last drive = CHR '':'' then match_path (drop 2 s) else None) of
           Some (p, res) \<Rightarrow> Some (drive @ p, res)
         | None \<Rightarrow> match_path s)"

text \<open>\<open>entryTag\<close>: the severity or nothing, the code, the message.\<close>

definition severity_words :: "string list" where
  "severity_words = [''error'', ''warning'', ''warn'', ''information'', ''info'', ''hint'']"

definition is_code :: "char \<Rightarrow> bool" where
  "is_code c \<longleftrightarrow> is_letter c \<or> is_digit c \<or> c \<in> set ''_.:-''"

definition match_code :: "string \<Rightarrow> (string \<times> string) option" where
  "match_code r =
     (if takeWhile is_code r = [] then None
      else case dropWhile is_code r of
             [] \<Rightarrow> None
           | c # t \<Rightarrow> if c = CHR '']'' then Some (takeWhile is_code r, dropWhile re_space t) else None)"

definition match_severity :: "string \<Rightarrow> string \<Rightarrow> (string \<times> string \<times> string) option" where
  "match_severity r word =
     (let sev = take (length word) r; t = drop (length word) r
      in if EqualFold sev word \<and> takeWhile re_space t \<noteq> [] then map_option (Pair sev) (match_code (dropWhile re_space t))
         else None)"

fun first_match :: "('a \<Rightarrow> 'b option) \<Rightarrow> 'a list \<Rightarrow> 'b option" where
  "first_match f [] = None"
| "first_match f (x # xs) = (case f x of Some y \<Rightarrow> Some y | None \<Rightarrow> first_match f xs)"

definition entryTag :: "string \<Rightarrow> (string \<times> string \<times> string) option" where
  "entryTag m =
     (if \<not> HasPrefix m ''['' then None
      else case first_match (match_severity (tl m)) severity_words of
             Some res \<Rightarrow> Some res
           | None \<Rightarrow> map_option (Pair []) (match_code (tl m)))"

definition isAbsoluteAnywhere :: "string \<Rightarrow> bool" where
  "isAbsoluteAnywhere p \<longleftrightarrow>
     p \<noteq> [] \<and> (p ! 0 = CHR ''/'' \<or> p ! 0 = CHR 0x5C \<or>
       2 \<le> length p \<and> p ! 1 = CHR '':'' \<and> is_letter (p ! 0))"

definition to_slashes :: "string \<Rightarrow> string" where
  "to_slashes p = map (\<lambda>c. if c = CHR 0x5C then CHR ''/'' else c) p"

definition entry_col :: "string \<Rightarrow> int" where
  "entry_col col = (case Atoi col of None \<Rightarrow> - 1 | Some c \<Rightarrow> if 1 \<le> c then int c - 1 else - 1)"

definition tagged :: "Entry \<Rightarrow> Entry" where
  "tagged e =
     (case entryTag (kMessage e) of None \<Rightarrow> e
      | Some (sev, code, msg) \<Rightarrow> e\<lparr>kSeverity := ToLower sev, kCode := code, kMessage := msg\<rparr>)"

definition parse_line :: "string \<Rightarrow> string \<Rightarrow> Entry option" where
  "parse_line baseDir raw =
     (let line = TrimSpace raw
      in if line = [] \<or> HasPrefix line ''#'' then None
         else (case entryLine line of None \<Rightarrow> None
           | Some (path, n, col, msg) \<Rightarrow>
               (case Atoi n of None \<Rightarrow> None
                | Some n \<Rightarrow>
                    if n < 1 \<or> isAbsoluteAnywhere path then None
                    else Some (tagged
                      \<lparr>kPath = path_join [baseDir, path_clean (to_slashes path)], kLine = n - 1, kCol = entry_col col,
                       kMessage = TrimSpace msg, kCode = [], kSeverity = []\<rparr>))))"

definition Parse :: "string \<Rightarrow> string \<Rightarrow> Entry list" where
  "Parse content baseDir = List.map_filter (parse_line baseDir) (split_lines content)"

section \<open>Writing\<close>

record Row =
  rPath :: string
  rLine :: int
  rCol :: int
  rSeverity :: string
  rCode :: string
  rMessage :: string

definition row_key :: "Row \<Rightarrow> string \<times> int \<times> int \<times> string \<times> string" where
  "row_key r = (rPath r, rLine r, rCol r, rCode r, rMessage r)"

definition row_tag :: "Row \<Rightarrow> string" where
  "row_tag r =
     (let tag = (if rCode r = [] then [] else TrimSpace (rSeverity r @ '' '' @ rCode r))
      in if tag \<noteq> [] then ''['' @ tag @ ''] '' else [])"

definition row_line :: "Row \<Rightarrow> string" where
  "row_line r =
     rPath r @ '':'' @ Itoa (rLine r) @ (if 0 < rCol r then '':'' @ Itoa (rCol r) else []) @ '': '' @
     row_tag r @ join '' '' (Fields (rMessage r))"

definition Write :: "string list \<Rightarrow> Row list \<Rightarrow> string" where
  "Write header rows =
     terminated (map (\<lambda>h. ''# '' @ h) header @ map row_line (sort_key row_key rows))"

section \<open>Reports split across files\<close>

definition outside :: "string \<Rightarrow> bool" where
  "outside rel \<longleftrightarrow> HasPrefix rel ''/'' \<or> rel = ''..'' \<or> HasPrefix rel ''../''"

definition deeper :: "string \<Rightarrow> string \<times> int \<Rightarrow> string \<Rightarrow> string \<times> int" where
  "deeper f = (\<lambda>(best, depth) t.
     let dir = path_dir t
     in case path_rel dir f of None \<Rightarrow> (best, depth)
        | Some rel \<Rightarrow> if outside rel then (best, depth) else if depth < int (length dir) then (t, int (length dir)) else (best, depth))"

definition DeepestTarget :: "string \<Rightarrow> string list \<Rightarrow> string" where
  "DeepestTarget f targets = fst (foldl (deeper f) ([], - 1) targets)"

section \<open>Diagnostics\<close>

datatype DiagnosticSeverity = SeverityError | SeverityWarning | SeverityInformation | SeverityHint

definition Severity :: "string \<Rightarrow> DiagnosticSeverity" where
  "Severity name =
     (let s = ToLower (TrimSpace name)
      in if s = ''error'' then SeverityError
         else if s = ''information'' \<or> s = ''info'' then SeverityInformation
         else if s = ''hint'' then SeverityHint
         else SeverityWarning)"

fun SeverityName :: "DiagnosticSeverity \<Rightarrow> string" where
  "SeverityName SeverityError = ''error''"
| "SeverityName SeverityWarning = ''warning''"
| "SeverityName SeverityHint = ''hint''"
| "SeverityName SeverityInformation = ''information''"

definition isWordByte :: "char \<Rightarrow> bool" where
  "isWordByte c \<longleftrightarrow> c = CHR ''_'' \<or> c = CHR ''$'' \<or> is_digit c \<or> is_letter c"

definition calledName :: "string \<Rightarrow> string" where
  "calledName msg =
     (case index_of msg '' ('' of None \<Rightarrow> []
      | Some i \<Rightarrow>
          let head = take i msg
          in if head = [] \<or> CHR '' '' \<in> set head \<or> CHR 0x09 \<in> set head then []
             else let head = (case last_index_byte head (CHR ''.'') of None \<Rightarrow> head | Some dot \<Rightarrow> drop (dot + 1) head);
                      head = TrimSuffix head ''[]''
                  in if list_all isWordByte head then head else [])"

text \<open>The loop of \<open>wordIndexFold\<close>; past the end the slice expression would panic, for the empty word only.\<close>

function word_from :: "string \<Rightarrow> string \<Rightarrow> nat \<Rightarrow> nat option" where
  "word_from ls lw from =
     (if length ls < from then None
      else (case index_of (drop from ls) lw of None \<Rightarrow> None
        | Some i \<Rightarrow>
            let i = i + from;
                before_ok = (i = 0 \<or> \<not> isWordByte (ls ! (i - 1)));
                after_ok = (length ls \<le> i + length lw \<or> \<not> isWordByte (ls ! (i + length lw)))
            in if before_ok \<and> after_ok then Some i else word_from ls lw (i + 1)))"
  by pat_completeness auto
termination by (relation "measure (\<lambda>(ls, lw, from). Suc (length ls) - from)") auto

declare word_from.simps [simp del]

definition wordIndexFold :: "string \<Rightarrow> string \<Rightarrow> nat option" where
  "wordIndexFold s word = word_from (ToLower s) (ToLower word) 0"

definition reanchorWindow :: nat where "reanchorWindow = 25"

text \<open>The lines the search looks at: the line itself once, then one line up and one line down at a time.\<close>

definition near_lines :: "nat \<Rightarrow> nat \<Rightarrow> nat list" where
  "near_lines n line =
     map nat (filter (\<lambda>l. 0 \<le> l \<and> l < int n)
       (int line # concat (map (\<lambda>d. [int line - int d, int line + int d]) [1..<reanchorWindow + 1])))"

definition findNear :: "string list \<Rightarrow> nat \<Rightarrow> string \<Rightarrow> (nat \<times> nat) option" where
  "findNear lines line name =
     first_match (\<lambda>l. map_option (Pair l) (wordIndexFold (lines ! l) name)) (near_lines (length lines) line)"

record Diagnostic =
  dLine :: "32 word"
  dStart :: "32 word"
  dEnd :: "32 word"
  dSeverity :: DiagnosticSeverity
  dSource :: string
  dCode :: string
  dMessage :: string

definition anchor :: "Entry \<Rightarrow> string list \<Rightarrow> nat \<times> nat \<times> nat \<times> string" where
  "anchor e lines =
     (let text = (if kLine e < length lines then lines ! kLine e else []);
          here = (kLine e, length text - length (dropWhile (\<lambda>c. c = CHR '' '' \<or> c = CHR 0x09) text), length text, text);
          name = calledName (kMessage e)
      in if name \<noteq> [] \<and> kCol e < 0
         then (case findNear lines (kLine e) name of None \<Rightarrow> here | Some (l, c) \<Rightarrow> (l, c, c + length name, lines ! l))
         else here)"

definition diagnostic_of :: "Entry \<Rightarrow> string list \<Rightarrow> DiagnosticSeverity \<Rightarrow> string \<Rightarrow> Diagnostic" where
  "diagnostic_of e lines severity source =
     (let (line, start, fin, text) = anchor e lines;
          start = int (utf16Len (take start text)); fin = int (utf16Len (take fin text));
          (start, fin) = (if 0 \<le> kCol e then (kCol e, max (kCol e) fin) else (start, fin))
      in \<lparr>dLine = Uint32 (of_nat line), dStart = Uint32 (of_int start), dEnd = Uint32 (of_int fin),
          dSeverity = (if kSeverity e \<noteq> [] then Severity (kSeverity e) else severity),
          dSource = source, dCode = (if kCode e \<noteq> [] then kCode e else ''known-issue''), dMessage = kMessage e\<rparr>)"

end
