(* ===== verification/Known_Issues_Props.thy ===== *)
theory Known_Issues_Props
  imports Known_Issues
begin

text \<open>
  What is written to a file of findings is read back from it, and a diagnostic that follows a finding
  to another line follows it to the nearest that has it.
\<close>

section \<open>Trimming\<close>

definition plain :: "char \<Rightarrow> bool" where
  "plain c \<longleftrightarrow> byte c < (0x80 :: nat) \<and> \<not> is_space_rune (byte c)"

lemma trim_left_plain: "plain c \<Longrightarrow> trim_left_space (c # s) = c # s"
  by (simp add: trim_left_space.simps[of "c # s"] plain_def decode_ascii)

lemma trim_right_plain: "s \<noteq> [] \<Longrightarrow> plain (last s) \<Longrightarrow> trim_right_space s = s"
  by (simp add: trim_right_space.simps[of s] plain_def decode_last_rune_def)

lemma trim_right_spaced: "s \<noteq> [] \<Longrightarrow> plain (last s) \<Longrightarrow> trim_right_space (s @ '' '') = s"
  using trim_right_plain[of s] by (simp add: trim_right_space.simps[of "s @ '' ''"] decode_last_rune_def is_space_rune_def)

lemma TrimSpace_plain: "s \<noteq> [] \<Longrightarrow> plain (hd s) \<Longrightarrow> plain (last s) \<Longrightarrow> TrimSpace s = s"
  using trim_left_plain[of "hd s" "tl s"] trim_right_plain[of s] by (simp add: TrimSpace_def)

lemma TrimSpace_spaced: "s \<noteq> [] \<Longrightarrow> plain (hd s) \<Longrightarrow> plain (last s) \<Longrightarrow> TrimSpace (s @ '' '') = s"
  using trim_left_plain[of "hd s" "tl s @ '' ''"] trim_right_spaced[of s] by (cases s) (simp_all add: TrimSpace_def)

lemma decode_last_rune_first:
  assumes "byte c < (0x80 :: nat)" "s \<noteq> []"
  shows "snd (decode_last_rune (c # s)) < length (c # s)"
proof (cases "byte (last s) < (0x80 :: nat)")
  case True
  then show ?thesis using assms(2) by (simp add: decode_last_rune_def)
next
  case False
  let ?s = "c # s"
  let ?start = "last_rune_start ?s"
  show ?thesis
  proof (cases "?start = 0")
    case True
    have "decode_rune ?s = (byte c, 1)" using decode_ascii[of ?s] assms(1) by simp
    then show ?thesis using False assms(2) True by (simp add: decode_last_rune_def Let_def)
  next
    case start: False
    then show ?thesis using False assms(2) by (auto simp: decode_last_rune_def Let_def split: prod.splits if_splits)
  qed
qed

lemma trim_right_first: "plain c \<Longrightarrow> \<exists>t. trim_right_space (c # s) = c # t"
proof (induction "length s" arbitrary: s rule: less_induct)
  case less
  show ?case
  proof (cases "s = []")
    case True
    then show ?thesis using trim_right_plain[of "[c]"] less.prems by simp
  next
    case False
    obtain r n where d: "decode_last_rune (c # s) = (r, n)" by fastforce
    have n: "0 < n" "n \<le> length s"
      using decode_last_rune_pos[of "c # s"] decode_last_rune_first[of c s] less.prems False d by (auto simp: plain_def)
    have "take (length (c # s) - n) (c # s) = c # take (length s - n) s" using n by (simp add: Suc_diff_le)
    moreover have "length (take (length s - n) s) < length s" using n by simp
    ultimately show ?thesis
      using less.hyps[OF _ less.prems] d by (auto simp: trim_right_space.simps[of "c # s"])
  qed
qed

section \<open>Words\<close>

definition ascii :: "string \<Rightarrow> bool" where
  "ascii s = list_all (\<lambda>c. byte c < (0x80 :: nat)) s"

lemma ascii_simps [simp]: "ascii []" "ascii (c # s) \<longleftrightarrow> byte c < (0x80 :: nat) \<and> ascii s" "ascii (s @ t) \<longleftrightarrow> ascii s \<and> ascii t"
  by (simp_all add: ascii_def)

lemma trim_left_ascii: "ascii s \<Longrightarrow> ascii (trim_left_space s)"
proof (induction s)
  case (Cons c s)
  then show ?case by (simp add: trim_left_space.simps[of "c # s"] decode_ascii)
qed (simp add: trim_left_space.simps[of "[]"])

lemma take_word_ascii: "ascii s \<Longrightarrow> take_word s = (w, rest) \<Longrightarrow> list_all plain w \<and> ascii rest"
proof (induction s arbitrary: w rest)
  case (Cons c s)
  obtain w' rest' where "take_word s = (w', rest')" by fastforce
  with Cons show ?case by (auto simp: take_word.simps[of "c # s"] decode_ascii plain_def split: if_splits)
qed (simp add: take_word.simps[of "[]"])

lemma Fields_ascii: "ascii s \<Longrightarrow> list_all (\<lambda>w. w \<noteq> [] \<and> list_all plain w) (Fields s)"
proof (induction s rule: Fields.induct)
  case (1 s)
  show ?case
  proof (cases "trim_left_space s = []")
    case True
    then show ?thesis by (simp add: Fields.simps[of s])
  next
    case False
    obtain w rest where w: "take_word (trim_left_space s) = (w, rest)" by fastforce
    have a: "list_all plain w" "ascii rest" using take_word_ascii[OF trim_left_ascii[OF "1.prems"] w] by auto
    have "w \<noteq> []" using take_word_shorter(2)[OF False trim_left_space_first[OF False] w] .
    then show ?thesis using "1.IH"[OF refl False w[symmetric] refl a(2)] False w a(1) by (simp add: Fields.simps[of s])
  qed
qed

lemma plain_char: "plain c \<Longrightarrow> c \<noteq> newline \<and> \<not> re_space c"
  by (auto simp: plain_def re_space_def is_space_rune_def)

lemma joined_words:
  "list_all (\<lambda>w. w \<noteq> [] \<and> list_all plain w) ws \<Longrightarrow> newline \<notin> set (join '' '' ws) \<and>
     (join '' '' ws = [] \<longleftrightarrow> ws = []) \<and> (ws = [] \<or> plain (hd (join '' '' ws)) \<and> plain (last (join '' '' ws)))"
proof (induction ws)
  case (Cons w ws)
  have w: "w \<noteq> []" "newline \<notin> set w" "plain (hd w)" "plain (last w)"
    using Cons.prems plain_char by (auto simp: list_all_iff)
  show ?case
  proof (cases ws)
    case (Cons v vs)
    then have "join '' '' (w # ws) = w @ '' '' @ join '' '' ws" by simp
    then show ?thesis using Cons.IH Cons.prems w Cons by auto
  qed (use w in auto)
qed simp

section \<open>One line\<close>

text \<open>
  The rows whose line reads as it was meant: a relative path with no colon that starts with an ASCII
  character, other than white space and the comment sign, and is not a single letter; positions the
  reader's integers hold; a code of its characters and a severity it knows; a message in ASCII that
  says something or follows a code, and with no code does not itself begin with a tag.
\<close>

definition writable :: "Row \<Rightarrow> bool" where
  "writable r \<longleftrightarrow>
     rPath r \<noteq> [] \<and> plain (hd (rPath r)) \<and> hd (rPath r) \<noteq> CHR ''#'' \<and> CHR '':'' \<notin> set (rPath r) \<and> newline \<notin> set (rPath r) \<and>
     \<not> isAbsoluteAnywhere (rPath r) \<and> \<not> (length (rPath r) = 1 \<and> is_letter (hd (rPath r))) \<and>
     1 \<le> rLine r \<and> rLine r < 2 ^ 63 \<and> rCol r < 2 ^ 63 \<and>
     list_all is_code (rCode r) \<and> rSeverity r \<in> set ([] # severity_words) \<and> ascii (rMessage r) \<and>
     (Fields (rMessage r) \<noteq> [] \<or> rCode r \<noteq> []) \<and>
     (rCode r \<noteq> [] \<or> entryTag (join '' '' (Fields (rMessage r))) = None)"

definition entry_of :: "string \<Rightarrow> Row \<Rightarrow> Entry" where
  "entry_of baseDir r =
     \<lparr>kPath = path_join [baseDir, path_clean (to_slashes (rPath r))], kLine = nat (rLine r - 1),
      kCol = (if 0 < rCol r then rCol r - 1 else - 1), kMessage = join '' '' (Fields (rMessage r)),
      kCode = rCode r, kSeverity = (if rCode r = [] then [] else rSeverity r)\<rparr>"

lemma code_char: "is_code c \<Longrightarrow> plain c \<and> c \<noteq> CHR '']'' \<and> \<not> re_space c"
proof -
  assume c: "is_code c"
  have "list_all (\<lambda>c. is_code c \<longrightarrow> plain c \<and> c \<noteq> CHR '']'' \<and> \<not> re_space c) (map char_of [0..<256::nat])" by code_simp
  moreover have "c = char_of (byte c)" "byte c < (256 :: nat)" by simp_all
  then have "c \<in> set (map char_of [0..<256::nat])" by (metis atLeastLessThan_iff image_eqI set_map set_upt zero_le)
  ultimately show ?thesis using c unfolding list_all_iff by blast
qed

lemma match_code_tag: "list_all is_code code \<Longrightarrow> code \<noteq> [] \<Longrightarrow> match_code (code @ CHR '']'' # t) = Some (code, dropWhile re_space t)"
proof -
  assume code: "list_all is_code code" "code \<noteq> []"
  have "\<not> is_code (CHR '']'')" using code_char by blast
  then have "takeWhile is_code (code @ CHR '']'' # t) = code" "dropWhile is_code (code @ CHR '']'' # t) = CHR '']'' # t"
    using code(1) by (simp_all add: takeWhile_append2 dropWhile_append2 list_all_iff)
  then show ?thesis using code(2) by (simp add: match_code_def)
qed

lemma no_severity:
  assumes "list_all is_code code" "word \<in> set severity_words"
  shows "match_severity (code @ CHR '']'' # t) word = None"
proof (rule ccontr)
  let ?r = "code @ CHR '']'' # t"
  assume "match_severity ?r word \<noteq> None"
  then have m: "EqualFold (take (length word) ?r) word" "takeWhile re_space (drop (length word) ?r) \<noteq> []"
    by (auto simp: match_severity_def Let_def split: if_splits)
  have "\<not> length code < length word"
  proof
    assume less: "length code < length word"
    then have "ToLower (take (length word) ?r) ! length code = lower_char (CHR '']'')"
      by (simp add: ToLower_def nth_append)
    also have "lower_char (CHR '']'') = CHR '']''" by code_simp
    finally have "ToLower (take (length word) ?r) ! length code = CHR '']''" .
    then have "ToLower word ! length code = CHR '']''" using m(1) by (simp add: EqualFold_def)
    then have "CHR '']'' \<in> set (ToLower word)" using less by (metis length_ToLower nth_mem)
    moreover have "list_all (\<lambda>w. CHR '']'' \<notin> set (ToLower w)) severity_words" by code_simp
    ultimately show False using assms(2) by (simp add: list_all_iff)
  qed
  then have "drop (length word) ?r = drop (length word) code @ CHR '']'' # t" by simp
  moreover have "\<not> re_space (CHR '']'')" by code_simp
  moreover have "\<not> re_space a" if "drop (length word) code = a # l" for a l
    using that assms(1) code_char[of a] in_set_dropD[of a "length word" code] by (simp add: list_all_iff)
  ultimately show False using m(2) by (cases "drop (length word) code") auto
qed

lemma first_match_none: "(\<And>x. x \<in> set xs \<Longrightarrow> f x = None) \<Longrightarrow> first_match f xs = None"
  by (induction xs) auto

lemma entryTag_code:
  assumes "list_all is_code code" "code \<noteq> []"
  shows "entryTag (CHR ''['' # code @ CHR '']'' # t) = Some ([], code, dropWhile re_space t)"
  using first_match_none[of severity_words "match_severity (code @ CHR '']'' # t)"] no_severity[OF assms(1)] match_code_tag[OF assms]
  by (simp add: entryTag_def)

lemma first_match_only:
  "x \<in> set xs \<Longrightarrow> f x = Some y \<Longrightarrow> (\<And>z. z \<in> set xs \<Longrightarrow> z \<noteq> x \<Longrightarrow> f z = None) \<Longrightarrow> first_match f xs = Some y"
proof (induction xs)
  case (Cons z zs)
  then show ?case by (cases "z = x") auto
qed simp

lemma severity_word: "w \<in> set severity_words \<Longrightarrow> ToLower w = w \<and> CHR '' '' \<notin> set w \<and> list_all plain w \<and> w \<noteq> [] \<and> list_all (\<lambda>c. \<not> re_space c) w"
proof -
  have "list_all (\<lambda>w. ToLower w = w \<and> CHR '' '' \<notin> set w \<and> list_all plain w \<and> w \<noteq> [] \<and> list_all (\<lambda>c. \<not> re_space c) w) severity_words"
    by code_simp
  then show "w \<in> set severity_words \<Longrightarrow> ?thesis" by (simp add: list_all_iff)
qed

lemma other_severity:
  assumes sev: "sev \<in> set severity_words" and word: "word \<in> set severity_words" "word \<noteq> sev"
  shows "match_severity (sev @ CHR '' '' # t) word = None"
proof (rule ccontr)
  let ?r = "sev @ CHR '' '' # t"
  assume "match_severity ?r word \<noteq> None"
  then have m: "EqualFold (take (length word) ?r) word" "takeWhile re_space (drop (length word) ?r) \<noteq> []"
    by (auto simp: match_severity_def Let_def split: if_splits)
  consider "length sev < length word" | "length word < length sev" | "length word = length sev" by linarith
  then show False
  proof cases
    case 1
    then have "ToLower (take (length word) ?r) ! length sev = lower_char (CHR '' '')" by (simp add: ToLower_def nth_append)
    also have "lower_char (CHR '' '') = CHR '' ''" by code_simp
    finally have "word ! length sev = CHR '' ''" using m(1) severity_word[OF word(1)] by (simp add: EqualFold_def)
    then have "CHR '' '' \<in> set word" using 1 by (metis nth_mem)
    then show False using severity_word[OF word(1)] by simp
  next
    case 2
    have "\<not> re_space a" if "drop (length word) sev = a # l" for a l
      using that severity_word[OF sev] in_set_dropD[of a "length word" sev] by (simp add: list_all_iff)
    then show False using m(2) 2 by (cases "drop (length word) sev") auto
  next
    case 3
    then have "ToLower sev = ToLower word" using m(1) by (simp add: EqualFold_def)
    then show False using severity_word[OF sev] severity_word[OF word(1)] word(2) by simp
  qed
qed

lemma entryTag_severity:
  assumes "list_all is_code code" "code \<noteq> []" "sev \<in> set severity_words"
  shows "entryTag (CHR ''['' # sev @ CHR '' '' # code @ CHR '']'' # t) = Some (sev, code, dropWhile re_space t)"
proof -
  have "\<not> re_space (hd (code @ CHR '']'' # t))" using assms(1,2) code_char by (cases code) auto
  then have d: "dropWhile re_space (code @ CHR '']'' # t) = code @ CHR '']'' # t" using assms(2) by (cases code) auto
  have "re_space CHR '' ''" by code_simp
  then have "match_severity (sev @ CHR '' '' # code @ CHR '']'' # t) sev = Some (sev, code, dropWhile re_space t)"
    using d match_code_tag[OF assms(1,2)] by (simp add: match_severity_def)
  then have "first_match (match_severity (sev @ CHR '' '' # code @ CHR '']'' # t)) severity_words = Some (sev, code, dropWhile re_space t)"
    by (rule first_match_only[OF assms(3)]) (rule other_severity[OF assms(3)])
  then show ?thesis by (simp add: entryTag_def)
qed

text \<open>The written line, with the space after a tag that no message follows taken off.\<close>

definition body :: "Row \<Rightarrow> string" where
  "body r =
     (let m = join '' '' (Fields (rMessage r));
          tag = (if rSeverity r = [] then rCode r else rSeverity r @ '' '' @ rCode r)
      in if rCode r = [] then m else ''['' @ tag @ '']'' @ (if m = [] then [] else '' '' @ m))"

definition head :: "Row \<Rightarrow> string" where
  "head r = rPath r @ '':'' @ Utoa (nat (rLine r)) @ (if 0 < rCol r then '':'' @ Utoa (nat (rCol r)) else []) @ '': ''"

lemma writable_message:
  assumes "writable r"
  defines "m \<equiv> join '' '' (Fields (rMessage r))"
  shows "newline \<notin> set m" "m = [] \<or> plain (hd m) \<and> plain (last m)" "m \<noteq> [] \<or> rCode r \<noteq> []"
proof -
  have "list_all (\<lambda>w. w \<noteq> [] \<and> list_all plain w) (Fields (rMessage r))" by (rule Fields_ascii) (use assms in \<open>simp add: writable_def\<close>)
  from joined_words[OF this] show "newline \<notin> set m" "m = [] \<or> plain (hd m) \<and> plain (last m)" "m \<noteq> [] \<or> rCode r \<noteq> []"
    using assms(1) by (auto simp: m_def writable_def)
qed

lemma TrimSpace_tag:
  assumes "writable r" "rCode r \<noteq> []"
  shows "TrimSpace (rSeverity r @ '' '' @ rCode r) = (if rSeverity r = [] then rCode r else rSeverity r @ '' '' @ rCode r)"
proof -
  have c: "plain (hd (rCode r))" "plain (last (rCode r))"
    using assms code_char by (auto simp: writable_def list_all_iff)
  show ?thesis
  proof (cases "rSeverity r = []")
    case True
    have "trim_left_space ('' '' @ rCode r) = trim_left_space (rCode r)"
      by (simp add: trim_left_space.simps[of "CHR '' '' # rCode r"] decode_ascii is_space_rune_def)
    then show ?thesis using True TrimSpace_plain[OF assms(2) c] by (simp add: TrimSpace_def)
  next
    case False
    then have "rSeverity r \<in> set severity_words" using assms(1) by (simp add: writable_def)
    then have "plain (hd (rSeverity r))" using severity_word[of "rSeverity r"] False by (auto simp: list_all_iff)
    then show ?thesis using False assms(2) c(2) by (intro trans[OF TrimSpace_plain]) auto
  qed
qed

lemma row_line_body:
  assumes "writable r"
  shows "row_line r = head r @ body r @ (if Fields (rMessage r) = [] then '' '' else [])"
proof -
  have "join '' '' (Fields (rMessage r)) = [] \<longleftrightarrow> Fields (rMessage r) = []"
    using joined_words[OF Fields_ascii] assms by (simp add: writable_def)
  moreover have "Itoa (rLine r) = Utoa (nat (rLine r))" "0 < rCol r \<Longrightarrow> Itoa (rCol r) = Utoa (nat (rCol r))"
    using assms by (simp_all add: writable_def Itoa_def)
  ultimately show ?thesis
    using TrimSpace_tag[OF assms] assms by (auto simp: row_line_def head_def body_def row_tag_def Let_def writable_def)
qed

lemma plain_brackets: "plain (CHR ''['')" "plain (CHR '']'')" "\<not> re_space (CHR '']'')"
  by code_simp+

lemma body_ends:
  assumes "writable r"
  shows "body r \<noteq> []" "plain (hd (body r))" "plain (last (body r))"
  using writable_message[OF assms] plain_brackets by (auto simp: body_def Let_def)

lemma plain_dropWhile: "plain (hd s) \<Longrightarrow> dropWhile re_space s = s"
  using plain_char by (cases s) auto

lemma entryTag_body:
  assumes "writable r"
  shows "tagged \<lparr>kPath = p, kLine = n, kCol = c, kMessage = body r, kCode = [], kSeverity = []\<rparr> =
    \<lparr>kPath = p, kLine = n, kCol = c, kMessage = join '' '' (Fields (rMessage r)), kCode = rCode r,
     kSeverity = (if rCode r = [] then [] else rSeverity r)\<rparr>"
proof (cases "rCode r = []")
  case True
  then show ?thesis using assms by (auto simp: tagged_def body_def Let_def writable_def)
next
  case False
  let ?m = "join '' '' (Fields (rMessage r))"
  have code: "list_all is_code (rCode r)" using assms by (simp add: writable_def)
  have "re_space (CHR '' '')" by code_simp
  then have m: "dropWhile re_space (if ?m = [] then [] else '' '' @ ?m) = ?m"
    using writable_message(2)[OF assms] plain_dropWhile[of ?m] by auto
  show ?thesis
  proof (cases "rSeverity r = []")
    case True
    then show ?thesis
      using False entryTag_code[OF code False, of "if ?m = [] then [] else '' '' @ ?m"] m
      by (simp add: tagged_def body_def Let_def ToLower_def)
  next
    case sev: False
    then have s: "rSeverity r \<in> set severity_words" using assms by (simp add: writable_def)
    then show ?thesis
      using False sev entryTag_severity[OF code False s, of "if ?m = [] then [] else '' '' @ ?m"] m severity_word[OF s]
      by (simp add: tagged_def body_def Let_def)
  qed
qed

lemma digits_stop: "list_all is_digit ds \<Longrightarrow> takeWhile is_digit (ds @ CHR '':'' # t) = ds \<and> dropWhile is_digit (ds @ CHR '':'' # t) = CHR '':'' # t"
proof -
  have "\<not> is_digit (CHR '':'')" by code_simp
  then show "list_all is_digit ds \<Longrightarrow> ?thesis" by (simp add: takeWhile_append2 dropWhile_append2 list_all_iff)
qed

lemma match_number_colon: "match_number (CHR '':'' # Utoa n @ CHR '':'' # t) = Some (Utoa n, CHR '':'' # t)"
  using digits_Utoa[of n] digits_stop[of "Utoa n" t] by simp

lemma not_a_digit: "\<not> is_digit (CHR '' '')" "re_space (CHR '' '')"
  by code_simp+

lemma match_pos_line:
  assumes "b \<noteq> []" "plain (hd b)"
  shows "match_pos (CHR '':'' # Utoa n @ '': '' @ b) = Some (Utoa n, [], b)"
    and "match_pos (CHR '':'' # Utoa n @ CHR '':'' # Utoa k @ '': '' @ b) = Some (Utoa n, Utoa k, b)"
proof -
  have msg: "match_message ('': '' @ b) = Some b" using plain_dropWhile[OF assms(2)] not_a_digit assms(1) by simp
  have none: "match_number ('': '' @ b) = None" using not_a_digit by simp
  show "match_pos (CHR '':'' # Utoa n @ '': '' @ b) = Some (Utoa n, [], b)"
    using match_number_colon[of n "'' '' @ b"] none msg by (simp add: match_pos_def)
  show "match_pos (CHR '':'' # Utoa n @ CHR '':'' # Utoa k @ '': '' @ b) = Some (Utoa n, Utoa k, b)"
    using match_number_colon[of n "Utoa k @ '': '' @ b"] match_number_colon[of k "'' '' @ b"] msg by (simp add: match_pos_def)
qed

lemma match_path_colon:
  "CHR '':'' \<notin> set p \<Longrightarrow> p \<noteq> [] \<Longrightarrow> match_path (p @ CHR '':'' # t) = map_option (Pair p) (match_pos (CHR '':'' # t))"
proof -
  assume p: "CHR '':'' \<notin> set p" "p \<noteq> []"
  from p(1) have "takeWhile (\<lambda>c. c \<noteq> CHR '':'') (p @ CHR '':'' # t) = p" "dropWhile (\<lambda>c. c \<noteq> CHR '':'') (p @ CHR '':'' # t) = CHR '':'' # t"
    by (induction p) auto
  then show ?thesis using p(2) by (simp add: match_path_def)
qed

lemma entryLine_row:
  assumes "writable r"
  shows "entryLine (head r @ body r) = Some (rPath r, Utoa (nat (rLine r)), (if 0 < rCol r then Utoa (nat (rCol r)) else []), body r)"
proof -
  let ?p = "rPath r"
  have p: "CHR '':'' \<notin> set ?p" "?p \<noteq> []" "\<not> (length ?p = 1 \<and> is_letter (hd ?p))" using assms by (auto simp: writable_def)
  obtain t where t: "head r @ body r = ?p @ CHR '':'' # t" by (simp add: head_def)
  have "\<not> (length (take 2 (?p @ CHR '':'' # t)) = 2 \<and> is_letter (hd (take 2 (?p @ CHR '':'' # t))) \<and> last (take 2 (?p @ CHR '':'' # t)) = CHR '':'')"
  proof (cases ?p)
    case (Cons c q)
    then show ?thesis using p by (cases q) auto
  qed (use p in simp)
  then have "entryLine (head r @ body r) = match_path (head r @ body r)" unfolding t by (auto simp: entryLine_def Let_def)
  also have "\<dots> = map_option (Pair ?p) (match_pos (CHR '':'' # Utoa (nat (rLine r)) @ (if 0 < rCol r then '':'' @ Utoa (nat (rCol r)) else []) @ '': '' @ body r))"
    using match_path_colon[OF p(1,2)] by (simp add: head_def)
  also have "\<dots> = Some (?p, Utoa (nat (rLine r)), (if 0 < rCol r then Utoa (nat (rCol r)) else []), body r)"
    using match_pos_line[OF body_ends(1,2)[OF assms]] by simp
  finally show ?thesis .
qed

lemma nat_bound: "i < 2 ^ 63 \<Longrightarrow> nat i < 2 ^ 63"
  by (simp add: nat_less_iff)

lemma parse_row_line:
  assumes "writable r"
  shows "parse_line baseDir (row_line r) = Some (entry_of baseDir r)"
proof -
  have r: "rPath r \<noteq> []" "plain (hd (rPath r))" "hd (rPath r) \<noteq> CHR ''#''" "\<not> isAbsoluteAnywhere (rPath r)"
    "1 \<le> rLine r" "rLine r < 2 ^ 63" "rCol r < 2 ^ 63" using assms by (auto simp: writable_def)
  let ?l = "head r @ body r"
  have l: "?l \<noteq> []" "plain (hd ?l)" "plain (last ?l)" "hd ?l \<noteq> CHR ''#''"
    using body_ends[OF assms] r by (auto simp: head_def)
  have trim: "TrimSpace (row_line r) = ?l"
    unfolding row_line_body[OF assms] using TrimSpace_plain[OF l(1-3)] TrimSpace_spaced[OF l(1-3)] by simp
  have "\<not> HasPrefix ?l ''#''" using l(1,4) by (cases ?l) auto
  moreover have "Atoi (Utoa (nat (rLine r))) = Some (nat (rLine r))" using Atoi_Utoa[OF nat_bound[OF r(6)]] .
  moreover have "entry_col (if 0 < rCol r then Utoa (nat (rCol r)) else []) = (if 0 < rCol r then rCol r - 1 else - 1)"
    using Atoi_Utoa[OF nat_bound[OF r(7)]] by (auto simp: entry_col_def Atoi_def[of "[]"])
  moreover have "TrimSpace (body r) = body r" using TrimSpace_plain body_ends[OF assms] by blast
  moreover have "nat (rLine r) - 1 = nat (rLine r - 1)" "\<not> nat (rLine r) < 1" using r(5) by auto
  ultimately show ?thesis
    using l(1) r(4) entryTag_body[OF assms] unfolding parse_line_def trim Let_def entryLine_row[OF assms]
    by (simp add: entry_of_def)
qed

section \<open>The file\<close>

lemma split_lines_terminated:
  "list_all (\<lambda>l. newline \<notin> set l) ls \<Longrightarrow> split_lines (terminated ls) = ls @ [[]]"
proof (induction ls)
  case (Cons l ls)
  have "split_lines (l @ newline # s) = l # split_lines s" if "newline \<notin> set l" for l s
    using that by (induction l) auto
  then show ?case using Cons by simp
qed simp

lemma parse_comment: "parse_line baseDir (CHR ''#'' # h) = None"
proof -
  have p: "plain (CHR ''#'')" by code_simp
  obtain t where "TrimSpace (CHR ''#'' # h) = CHR ''#'' # t"
    using trim_left_plain[OF p, of h] trim_right_first[OF p, of h] by (auto simp: TrimSpace_def)
  then show ?thesis by (simp add: parse_line_def)
qed

lemma row_line_no_newline: "writable r \<Longrightarrow> newline \<notin> set (row_line r)"
proof -
  assume w: "writable r"
  have d: "c \<noteq> newline" if "c \<in> set (Utoa n)" for c n
  proof -
    have "\<not> is_digit newline" by code_simp
    then show ?thesis using that digits_Utoa[of n] by (auto simp: list_all_iff)
  qed
  have "c \<noteq> newline" if "c \<in> set (rCode r)" for c
    using that w code_char[of c] plain_char[of c] by (auto simp: writable_def list_all_iff)
  moreover have "c \<noteq> newline" if "c \<in> set (rSeverity r)" for c
    using that w severity_word[of "rSeverity r"] plain_char[of c] by (auto simp: writable_def list_all_iff)
  ultimately have "newline \<notin> set (body r)" using writable_message(1)[OF w] by (auto simp: body_def Let_def)
  moreover have "newline \<notin> set (head r)" using d w by (auto simp: head_def writable_def)
  ultimately show ?thesis unfolding row_line_body[OF w] by simp
qed

text \<open>
  C33: What is written is read back: the rows, in the order of their paths and positions, each with its
  position, its code and severity, and its message with the white space between words reduced to
  single spaces; the header is not read.\<close>

theorem Parse_Write:
  assumes "list_all writable rows" "list_all (\<lambda>h. newline \<notin> set h) header"
  shows "Parse (Write header rows) baseDir = map (entry_of baseDir) (sort_key row_key rows)"
proof -
  let ?rows = "sort_key row_key rows"
  have w: "writable r" if "r \<in> set ?rows" for r using that assms(1) by (simp add: list_all_iff)
  have "split_lines (Write header rows) = map (\<lambda>h. ''# '' @ h) header @ map row_line ?rows @ [[]]"
    unfolding Write_def by (subst split_lines_terminated) (use assms(2) row_line_no_newline w in \<open>auto simp: list_all_iff\<close>)
  moreover have "List.map_filter (parse_line baseDir) (map (\<lambda>h. ''# '' @ h) hs) = []" for hs
    by (induction hs) (simp_all add: map_filter_simps parse_comment)
  moreover have "list_all writable rs \<Longrightarrow> List.map_filter (parse_line baseDir) (map row_line rs) = map (entry_of baseDir) rs" for rs
    by (induction rs) (simp_all add: map_filter_simps parse_row_line)
  moreover have "list_all writable ?rows" using assms(1) by (simp add: list_all_iff)
  moreover have "parse_line baseDir [] = None"
    by (simp add: parse_line_def TrimSpace_def trim_left_space.simps[of "[]"] trim_right_space.simps[of "[]"])
  moreover have "List.map_filter f (xs @ ys) = List.map_filter f xs @ List.map_filter f ys" for f :: "string \<Rightarrow> Entry option" and xs ys
    by (simp add: List.map_filter_def)
  ultimately show ?thesis by (simp add: Parse_def map_filter_simps)
qed

definition sample_rows :: "Row list" where
  "sample_rows =
     [\<lparr>rPath = ''b.cfm'', rLine = 3, rCol = 5, rSeverity = ''error'', rCode = ''MISSING_VAR'', rMessage = ''Variable x is not  declared''\<rparr>,
      \<lparr>rPath = ''a.cfc'', rLine = 1, rCol = 0, rSeverity = [], rCode = ''TODO'', rMessage = ''tidy''\<rparr>,
      \<lparr>rPath = ''a.cfc'', rLine = 12, rCol = 0, rSeverity = [], rCode = [], rMessage = ''svc.run (not found)''\<rparr>]"

lemma Parse_Write_witness:
  "map kMessage (Parse (Write [''report''] sample_rows) ''/p'') = [''tidy'', ''svc.run (not found)'', ''Variable x is not declared'']"
proof -
  have "list_all writable sample_rows" by code_simp
  moreover have "list_all (\<lambda>h. newline \<notin> set h) [''report'']" by code_simp
  ultimately have "map kMessage (Parse (Write [''report''] sample_rows) ''/p'') = map kMessage (map (entry_of ''/p'') (sort_key row_key sample_rows))"
    using Parse_Write by metis
  also have "\<dots> = [''tidy'', ''svc.run (not found)'', ''Variable x is not declared'']" by code_simp
  finally show ?thesis .
qed

text \<open>A path of one letter before a column is taken for a drive, and its row is refused.\<close>

lemma Parse_Write_letter:
  "Parse (Write [] [\<lparr>rPath = ''a'', rLine = 12, rCol = 3, rSeverity = [], rCode = [], rMessage = ''x''\<rparr>]) ''/p'' = []"
  by code_simp

section \<open>Following a finding\<close>

definition away :: "nat \<Rightarrow> nat \<Rightarrow> int" where
  "away line l = \<bar>int l - int line\<bar>"

lemma first_match_Some:
  "first_match f xs = Some y \<Longrightarrow> \<exists>pre x post. xs = pre @ x # post \<and> f x = Some y \<and> (\<forall>z \<in> set pre. f z = None)"
proof (induction xs)
  case (Cons x xs)
  show ?case
  proof (cases "f x")
    case None
    then obtain pre z post where "xs = pre @ z # post" "f z = Some y" "\<forall>z \<in> set pre. f z = None" using Cons by auto
    then show ?thesis using None by (intro exI[of _ "x # pre"] exI[of _ z] exI[of _ post]) auto
  next
    case (Some y')
    then show ?thesis using Cons.prems by (intro exI[of _ "[]"] exI[of _ x] exI[of _ xs]) simp
  qed
qed simp

lemma sorted_pairs: "sorted (map (\<lambda>l. \<bar>l - k\<bar>) (concat (map (\<lambda>d. [k - int d, k + int d]) [i..<j])))"
proof (induction j)
  case (Suc j)
  then show ?case by (cases "i \<le> j") (auto simp: sorted_append)
qed simp

lemma near_lines_sorted: "sorted (map (away line) (near_lines n line))"
proof -
  let ?ls = "int line # concat (map (\<lambda>d. [int line - int d, int line + int d]) [1..<reanchorWindow + 1])"
  have "sorted (map (\<lambda>l. \<bar>l - int line\<bar>) ?ls)" using sorted_pairs[of "int line" 1 "reanchorWindow + 1"] by simp
  then have "sorted (map (\<lambda>l. \<bar>l - int line\<bar>) (filter (\<lambda>l. 0 \<le> l \<and> l < int n) ?ls))" by (rule sorted_filter)
  moreover have "map (away line) (near_lines n line) = map (\<lambda>l. \<bar>l - int line\<bar>) (filter (\<lambda>l. 0 \<le> l \<and> l < int n) ?ls)"
    unfolding near_lines_def map_map by (rule map_cong[OF refl]) (auto simp: away_def simp del: upt_Suc filter.simps)
  ultimately show ?thesis by simp
qed

lemma near_lines_all:
  assumes "l < n" "away line l \<le> int reanchorWindow"
  shows "l \<in> set (near_lines n line)"
proof -
  let ?ls = "int line # concat (map (\<lambda>d. [int line - int d, int line + int d]) [1..<reanchorWindow + 1])"
  have "int l \<in> set ?ls"
  proof (cases "l = line")
    case False
    let ?d = "nat \<bar>int l - int line\<bar>"
    have "?d \<in> set [1..<reanchorWindow + 1]" "int l = int line - int ?d \<or> int l = int line + int ?d"
      using False assms(2) by (auto simp: away_def)
    then show ?thesis by (force simp del: set_upt)
  qed simp
  then have "int l \<in> set (filter (\<lambda>l. 0 \<le> l \<and> l < int n) ?ls)" using assms(1) by (simp only: set_filter mem_Collect_eq) simp
  then have "nat (int l) \<in> set (near_lines n line)" unfolding near_lines_def set_map by (rule imageI)
  then show ?thesis by simp
qed

text \<open>
  A finding followed to another line is followed to a line that has its name as a whole word, at the
  place reported, and no line nearer to the recorded one has it.\<close>

theorem findNear_nearest:
  assumes "findNear lines line name = Some (l, c)"
  shows "l < length lines \<and> wordIndexFold (lines ! l) name = Some c \<and>
    (\<forall>l' < length lines. wordIndexFold (lines ! l') name \<noteq> None \<longrightarrow> away line l \<le> away line l')"
proof -
  obtain pre x post where split: "near_lines (length lines) line = pre @ x # post"
      "map_option (Pair x) (wordIndexFold (lines ! x) name) = Some (l, c)"
      "\<And>z. z \<in> set pre \<Longrightarrow> map_option (Pair z) (wordIndexFold (lines ! z) name) = None"
    using first_match_Some[OF assms[unfolded findNear_def]] by blast
  have x: "x = l" "wordIndexFold (lines ! l) name = Some c" using split(2) by auto
  have bound: "z < length lines \<and> away line z \<le> int reanchorWindow" if "z \<in> set (near_lines (length lines) line)" for z
    using that by (auto simp: near_lines_def away_def simp del: upt_Suc filter.simps)
  have l: "l \<in> set (near_lines (length lines) line)" using split(1) x by simp
  have "away line l \<le> away line l'" if l': "l' < length lines" "wordIndexFold (lines ! l') name \<noteq> None" for l'
  proof (cases "l' \<in> set (near_lines (length lines) line)")
    case True
    have "l' \<notin> set pre" using split(3)[of l'] l'(2) by auto
    then have "l' = l \<or> l' \<in> set post" using True split(1) x(1) by auto
    then show ?thesis
      using near_lines_sorted[of line "length lines"] unfolding split(1) by (auto simp: x(1) sorted_append)
  next
    case False
    then have "int reanchorWindow < away line l'" using near_lines_all[OF l'(1)] by force
    then show ?thesis using bound[OF l] by linarith
  qed
  then show ?thesis using bound[OF l] x(2) by blast
qed

lemma findNear_nearest_witness: "findNear [''a'', ''svc.run(1)'', ''run''] 0 ''run'' = Some (1, 4) \<and> away 0 1 \<le> away 0 2"
proof -
  have f: "findNear [''a'', ''svc.run(1)'', ''run''] 0 ''run'' = Some (1, 4)" by code_simp
  have "wordIndexFold ([''a'', ''svc.run(1)'', ''run''] ! 2) ''run'' \<noteq> None" by code_simp
  then show ?thesis using f findNear_nearest[OF f] by auto
qed

end
