(* ===== verification/Lint_Baseline.thy ===== *)
theory Lint_Baseline
  imports Known_Issues Go_Maps
begin

text \<open>
  The counts of suppression comments and the baseline of known lint findings
  (\<open>internal/cflint/suppressions.go\<close>). The JSON a baseline is kept in and CFLint itself are not part of it.
\<close>

section \<open>Suppression comments\<close>

definition is_word :: "char \<Rightarrow> bool" where
  "is_word c \<longleftrightarrow> is_letter c \<or> is_digit c \<or> c = CHR ''_''"

text \<open>
  The two expressions at one place: the list of codes and what follows the match. White space, the
  fixed words and the characters of the list exclude each other, so each part ends where it must.
\<close>

definition match_codes :: "string \<Rightarrow> (string \<times> string) option" where
  "match_codes s =
     (let p = (\<lambda>c. is_word c \<or> c = CHR '','') in if takeWhile p s = [] then None else Some (takeWhile p s, dropWhile p s))"

definition after_word :: "string \<Rightarrow> string \<Rightarrow> string option" where
  "after_word w s = (if HasPrefix s w then Some (drop (length w) s) else None)"

definition after_spaces :: "string \<Rightarrow> string option" where
  "after_spaces s = (if takeWhile re_space s = [] then None else Some (dropWhile re_space s))"

definition ignoreTag :: "string \<Rightarrow> (string \<times> string) option" where
  "ignoreTag s = Option.bind (after_word ''@CFLintIgnore'' s) (\<lambda>s. Option.bind (after_spaces s) match_codes)"

definition lineIgnore :: "string \<Rightarrow> (string \<times> string) option" where
  "lineIgnore s =
     Option.bind (after_word ''//'' s) (\<lambda>s. Option.bind (after_word ''cflint'' (dropWhile re_space s)) (\<lambda>s.
       Option.bind (after_spaces s) (\<lambda>s. Option.bind (after_word ''ignore:'' s) match_codes)))"

text \<open>\<open>FindAllStringSubmatch\<close>: match after match from left to right; \<open>n\<close> is how much of the text is left.\<close>

fun find_all :: "nat \<Rightarrow> (string \<Rightarrow> (string \<times> string) option) \<Rightarrow> string \<Rightarrow> string list" where
  "find_all 0 re s = []"
| "find_all (Suc n) re s =
     (case s of [] \<Rightarrow> []
      | c # t \<Rightarrow> (case re s of Some (codes, rest) \<Rightarrow> codes # find_all n re rest | None \<Rightarrow> find_all n re t))"

record Suppressions =
  Total :: nat
  Files :: nat
  Rules :: "(string, nat) gomap"

definition rule_count :: "(string, nat) gomap \<Rightarrow> string \<Rightarrow> nat" where
  "rule_count m code = (case get m code of None \<Rightarrow> 0 | Some n \<Rightarrow> n)"

definition codes_in :: "string \<Rightarrow> string list" where
  "codes_in content =
     filter (\<lambda>c. c \<noteq> [])
       (map TrimSpace (concat (map (\<lambda>re. concat (map (split_on (CHR '','')) (find_all (length content) re content))) [ignoreTag, lineIgnore])))"

definition count_code :: "Suppressions \<Rightarrow> string \<Rightarrow> Suppressions" where
  "count_code s code = s\<lparr>Rules := put code (rule_count (Rules s) code + 1) (Rules s), Total := Total s + 1\<rparr>"

definition add_content :: "Suppressions \<Rightarrow> string \<Rightarrow> Suppressions \<times> nat" where
  "add_content s content = (foldl count_code s (codes_in content), length (codes_in content))"

definition add_read :: "(string \<Rightarrow> string option) \<Rightarrow> Suppressions option \<Rightarrow> string \<Rightarrow> Suppressions option" where
  "add_read ReadFile s f =
     (case s of None \<Rightarrow> None
      | Some s \<Rightarrow>
          (case ReadFile f of None \<Rightarrow> None
           | Some data \<Rightarrow> (let (s, n) = add_content s data in Some (if 0 < n then s\<lparr>Files := Files s + 1\<rparr> else s))))"

definition CountSuppressions :: "(string \<Rightarrow> string option) \<Rightarrow> string list \<Rightarrow> Suppressions option" where
  "CountSuppressions ReadFile files = foldl (add_read ReadFile) (Some \<lparr>Total = 0, Files = 0, Rules = []\<rparr>) files"

definition ByCount :: "Suppressions \<Rightarrow> (string \<times> nat) list" where
  "ByCount s = sort_key (\<lambda>(code, n). (- int n, code)) (Rules s)"

record Change =
  chCode :: string
  Was :: nat
  Is :: nat
  IsNewRule :: bool

definition change_of :: "Suppressions \<Rightarrow> Suppressions \<Rightarrow> string \<Rightarrow> Change" where
  "change_of baseline s code =
     (let was = rule_count (Rules baseline) code; now = rule_count (Rules s) code
      in \<lparr>chCode = code, Was = was, Is = now, IsNewRule = (was < now \<and> get (Rules baseline) code = None)\<rparr>)"

definition all_codes :: "Suppressions \<Rightarrow> Suppressions \<Rightarrow> string list" where
  "all_codes baseline s =
     remdups_adj (sort (sort (map fst (Rules s)) @ filter (\<lambda>c. get (Rules s) c = None) (map fst (Rules baseline))))"

definition Compare :: "Suppressions \<Rightarrow> Suppressions \<Rightarrow> Change list \<times> Change list" where
  "Compare baseline s =
     (let total = \<lparr>chCode = [], Was = Total baseline, Is = Total s, IsNewRule = False\<rparr>;
          changes = (if Total s \<noteq> Total baseline then [total] else []) @ map (change_of baseline s) (all_codes baseline s)
      in (filter (\<lambda>c. Was c < Is c) changes, filter (\<lambda>c. Is c < Was c) changes))"

section \<open>Findings\<close>

record Location =
  lFile :: string
  lFileName :: string
  lFunction :: string
  lColumn :: int
  lLine :: int
  lMessage :: string
  lVariable :: string
  lExpression :: string
  lOffset :: int

record RunIssue =
  isSeverity :: string
  isID :: string
  isMessage :: string
  Locations :: "Location list"
  Raw :: string

definition no_location :: Location where
  "no_location = \<lparr>lFile = [], lFileName = [], lFunction = [], lColumn = 0, lLine = 0, lMessage = [], lVariable = [], lExpression = [],
     lOffset = 0\<rparr>"

definition firstLocation :: "RunIssue \<Rightarrow> Location" where
  "firstLocation i = (case Locations i of [] \<Rightarrow> no_location | l # _ \<Rightarrow> l)"

type_synonym baselineKey = "string \<times> string \<times> string"

definition issue_key :: "RunIssue \<Rightarrow> baselineKey" where
  "issue_key i = (path_clean (lFile (firstLocation i)), isID i, lMessage (firstLocation i))"

definition baseline_key :: "Entry \<Rightarrow> baselineKey" where
  "baseline_key e = (path_clean (kPath e), kCode e, kMessage e)"

text \<open>A map from key to indices; \<open>known\<close> and \<open>used\<close> are the indices marked.\<close>

definition index_by :: "('a \<Rightarrow> baselineKey) \<Rightarrow> 'a list \<Rightarrow> (baselineKey, nat list) gomap" where
  "index_by f xs = foldl (\<lambda>m i. put (f (xs ! i)) (get_list m (f (xs ! i)) @ [i]) m) [] [0..<length xs]"

definition apart :: "RunIssue list \<Rightarrow> Entry list \<Rightarrow> nat \<times> nat \<Rightarrow> int" where
  "apart issues baseline = (\<lambda>(i, e). \<bar>int (kLine (baseline ! e)) - (lLine (firstLocation (issues ! i)) - 1)\<bar>)"

definition better_pair :: "RunIssue list \<Rightarrow> Entry list \<Rightarrow> (nat \<times> nat) option \<Rightarrow> nat \<times> nat \<Rightarrow> (nat \<times> nat) option" where
  "better_pair issues baseline best p =
     (case best of None \<Rightarrow> Some p | Some b \<Rightarrow> if apart issues baseline p < apart issues baseline b then Some p else Some b)"

definition best_pair :: "RunIssue list \<Rightarrow> nat list \<Rightarrow> Entry list \<Rightarrow> nat list \<Rightarrow> nat set \<Rightarrow> nat set \<Rightarrow> (nat \<times> nat) option" where
  "best_pair issues idx baseline ents known used =
     foldl (better_pair issues baseline) None
       (concat (map (\<lambda>i. map (Pair i) (filter (\<lambda>e. e \<notin> used) ents)) (filter (\<lambda>i. i \<notin> known) idx)))"

lemma better_pair_in:
  "foldl (better_pair issues baseline) best ps = Some p \<Longrightarrow> p \<in> set ps \<or> best = Some p"
  by (induction ps arbitrary: best) (fastforce simp: better_pair_def split: option.splits if_splits)+

lemma best_pair_in:
  "best_pair issues idx baseline ents known used = Some (i, e) \<Longrightarrow>
     i \<in> set idx \<and> i \<notin> known \<and> e \<in> set ents \<and> e \<notin> used"
  unfolding best_pair_def by (drule better_pair_in) auto

function pairNearest :: "RunIssue list \<Rightarrow> nat list \<Rightarrow> Entry list \<Rightarrow> nat list \<Rightarrow> nat set \<Rightarrow> nat set \<Rightarrow> nat \<times> nat set \<times> nat set" where
  "pairNearest issues idx baseline ents known used =
     (case best_pair issues idx baseline ents known used of
        None \<Rightarrow> (0, known, used)
      | Some (i, e) \<Rightarrow>
          (let (n, known, used) = pairNearest issues idx baseline ents (insert i known) (insert e used)
           in (Suc n, known, used)))"
  by pat_completeness auto
termination
proof (relation "measure (\<lambda>(issues, idx, baseline, ents, known, used). card (set idx - known))")
  fix issues idx baseline ents known used x i e
  assume "best_pair issues idx baseline ents known used = Some x" "(i, e) = x"
  then have "i \<in> set idx - known" using best_pair_in by blast
  then have "card (set idx - insert i known) < card (set idx - known)" by (intro psubset_card_mono) auto
  then show "((issues, idx, baseline, ents, insert i known, insert e used), (issues, idx, baseline, ents, known, used))
      \<in> measure (\<lambda>(issues, idx, baseline, ents, known, used). card (set idx - known))" by simp
qed simp

declare pairNearest.simps [simp del]

definition pair_key ::
  "RunIssue list \<Rightarrow> Entry list \<Rightarrow> nat \<times> nat set \<times> nat set \<Rightarrow> baselineKey \<Rightarrow> nat \<times> nat set \<times> nat set" where
  "pair_key issues baseline = (\<lambda>(matched, known, used) k.
     (let (n, known, used) =
         pairNearest issues (get_list (index_by issue_key issues) k) baseline (get_list (index_by baseline_key baseline) k) known used
      in (matched + n, known, used)))"

text \<open>\<open>ks\<close> is the keys of the map of issues in the order the loop visits them.\<close>

definition Subtract :: "baselineKey list \<Rightarrow> RunIssue list \<Rightarrow> Entry list \<Rightarrow> nat \<times> RunIssue list \<times> Entry list" where
  "Subtract ks issues baseline =
     (let (matched, known, used) = foldl (pair_key issues baseline) (0, {}, {}) ks
      in (matched, map ((!) issues) (filter (\<lambda>i. i \<notin> known) [0..<length issues]),
          sort_key (\<lambda>e. (kPath e, kLine e)) (map ((!) baseline) (filter (\<lambda>i. i \<notin> used) [0..<length baseline]))))"

section \<open>Pairing\<close>

lemma best_pair_None:
  "best_pair issues idx baseline ents known used = None \<Longrightarrow> set idx \<subseteq> known \<or> set ents \<subseteq> used"
proof -
  let ?ps = "concat (map (\<lambda>i. map (Pair i) (filter (\<lambda>e. e \<notin> used) ents)) (filter (\<lambda>i. i \<notin> known) idx))"
  have some: "foldl (better_pair issues baseline) (Some b) ps \<noteq> None" for b ps
    by (induction ps arbitrary: b) (auto simp: better_pair_def split: if_splits)
  assume "best_pair issues idx baseline ents known used = None"
  then have "?ps = []" using some by (cases ?ps) (auto simp: best_pair_def better_pair_def)
  then show ?thesis by (auto simp: filter_empty_conv)
qed

lemma pairNearest_pairs:
  "pairNearest issues idx baseline ents known used = (n, known', used') \<Longrightarrow>
     \<exists>K U. known' = known \<union> K \<and> used' = used \<union> U \<and> K \<subseteq> set idx - known \<and> U \<subseteq> set ents - used \<and> card K = n \<and> card U = n \<and>
       n = min (card (set idx - known)) (card (set ents - used))"
proof (induction issues idx baseline ents known used arbitrary: n known' used' rule: pairNearest.induct)
  case (1 issues idx baseline ents known used)
  show ?case
  proof (cases "best_pair issues idx baseline ents known used")
    case None
    then have "n = 0" "known' = known" "used' = used" using "1.prems" by (simp_all add: pairNearest.simps[of issues idx])
    moreover have "set idx - known = {} \<or> set ents - used = {}" using best_pair_None[OF None] by auto
    then have "min (card (set idx - known)) (card (set ents - used)) = 0" by (metis card.empty min_0L min_0R)
    ultimately show ?thesis by (intro exI[of _ "{}"]) simp
  next
    case (Some p)
    obtain i e where p: "p = (i, e)" by fastforce
    have ie: "i \<in> set idx - known" "e \<in> set ents - used" using best_pair_in Some unfolding p by blast+
    obtain n1 known1 used1 where r: "pairNearest issues idx baseline ents (insert i known) (insert e used) = (n1, known1, used1)"
      by (cases "pairNearest issues idx baseline ents (insert i known) (insert e used)") auto
    have n: "n = Suc n1" "known' = known1" "used' = used1"
      using "1.prems" Some r by (simp_all add: pairNearest.simps[of issues idx] p)
    obtain K U where KU: "known1 = insert i known \<union> K" "used1 = insert e used \<union> U" "K \<subseteq> set idx - insert i known"
        "U \<subseteq> set ents - insert e used" "card K = n1" "card U = n1"
        "n1 = min (card (set idx - insert i known)) (card (set ents - insert e used))"
      using "1.IH"[OF Some p[symmetric] r] by blast
    have fin: "finite K" "finite U" "i \<notin> K" "e \<notin> U" using KU(3,4) by (auto intro: finite_subset)
    have drop1: "card (A - B) = Suc (card (A - insert x B))" if "finite A" "x \<in> A - B" for A B :: "nat set" and x
    proof -
      have "A - insert x B = (A - B) - {x}" by auto
      then show ?thesis using card.remove[OF finite_Diff[OF that(1)] that(2)] by (simp only:)
    qed
    have "card (set idx - known) = Suc (card (set idx - insert i known))" "card (set ents - used) = Suc (card (set ents - insert e used))"
      by (rule drop1[OF List.finite_set ie(1)], rule drop1[OF List.finite_set ie(2)])
    then have "n = min (card (set idx - known)) (card (set ents - used))" using n(1) KU(7) by simp
    moreover have "known' = known \<union> insert i K" "used' = used \<union> insert e U" unfolding n KU(1,2) by blast+
    moreover have "insert i K \<subseteq> set idx - known" "insert e U \<subseteq> set ents - used" using ie KU(3,4) by blast+
    moreover have "card (insert i K) = n" "card (insert e U) = n" unfolding n(1) using fin KU(5,6) by simp_all
    ultimately show ?thesis by blast
  qed
qed

text \<open>Each pair is a closest one of those left.\<close>

lemma best_pair_nearest:
  assumes "best_pair issues idx baseline ents known used = Some p" "i \<in> set idx - known" "e \<in> set ents - used"
  shows "apart issues baseline p \<le> apart issues baseline (i, e)"
proof -
  have *: "foldl (better_pair issues baseline) best ps = Some p \<Longrightarrow> q \<in> set ps \<or> best = Some q \<Longrightarrow>
      apart issues baseline p \<le> apart issues baseline q" for best ps q
  proof (induction ps arbitrary: best q)
    case (Cons r ps)
    have "\<exists>b. better_pair issues baseline best r = Some b \<and> apart issues baseline b \<le> apart issues baseline r \<and>
        (\<forall>c. best = Some c \<longrightarrow> apart issues baseline b \<le> apart issues baseline c)"
      by (cases r; cases best) (auto simp: better_pair_def)
    then obtain b where b: "better_pair issues baseline best r = Some b" "apart issues baseline b \<le> apart issues baseline r"
      "\<And>c. best = Some c \<Longrightarrow> apart issues baseline b \<le> apart issues baseline c" by blast
    have f: "foldl (better_pair issues baseline) (Some b) ps = Some p" using Cons.prems(1) b(1) by simp
    have "apart issues baseline p \<le> apart issues baseline b" by (rule Cons.IH[OF f]) simp
    moreover have "apart issues baseline p \<le> apart issues baseline q" if "q \<in> set ps" by (rule Cons.IH[OF f]) (use that in simp)
    ultimately show ?case using b(2,3) Cons.prems(2) by fastforce
  qed simp
  have "(i, e) \<in> set (concat (map (\<lambda>i. map (Pair i) (filter (\<lambda>e. e \<notin> used) ents)) (filter (\<lambda>i. i \<notin> known) idx)))"
    using assms(2,3) by auto
  then show ?thesis using *[of None] assms(1) unfolding best_pair_def by blast
qed

section \<open>Keys\<close>

definition indices_of :: "('a \<Rightarrow> baselineKey) \<Rightarrow> 'a list \<Rightarrow> baselineKey \<Rightarrow> nat set" where
  "indices_of f xs k = {i. i < length xs \<and> f (xs ! i) = k}"

lemma get_list_index_by: "set (get_list (index_by f xs) k) = indices_of f xs k"
proof -
  have "get_list (foldl (\<lambda>m i. put (f (xs ! i)) (get_list m (f (xs ! i)) @ [i]) m) m js) k =
      get_list m k @ filter (\<lambda>i. f (xs ! i) = k) js" for m js
    by (induction js arbitrary: m) auto
  from this[of "[]" "[0..<length xs]"] show ?thesis by (auto simp: index_by_def indices_of_def)
qed

lemma finite_indices_of [simp]: "finite (indices_of f xs k)"
  by (simp add: indices_of_def)

definition both :: "RunIssue list \<Rightarrow> Entry list \<Rightarrow> baselineKey \<Rightarrow> nat" where
  "both issues baseline k = min (card (indices_of issue_key issues k)) (card (indices_of baseline_key baseline k))"

lemma pair_keys:
  assumes "distinct ks"
  shows "foldl (pair_key issues baseline) (m, known, used) ks = (m', known', used') \<Longrightarrow>
     (\<forall>k \<in> set ks. known \<inter> indices_of issue_key issues k = {} \<and> used \<inter> indices_of baseline_key baseline k = {}) \<Longrightarrow>
     card (known' \<inter> indices_of issue_key issues q) = (if q \<in> set ks then both issues baseline q else card (known \<inter> indices_of issue_key issues q)) \<and>
     card (used' \<inter> indices_of baseline_key baseline q) = (if q \<in> set ks then both issues baseline q else card (used \<inter> indices_of baseline_key baseline q))"
  using assms(1)
proof (induction ks arbitrary: m known used)
  case (Cons k ks)
  let ?I = "indices_of issue_key issues" and ?E = "indices_of baseline_key baseline"
  obtain n known1 used1 where r: "pairNearest issues (get_list (index_by issue_key issues) k) baseline
      (get_list (index_by baseline_key baseline) k) known used = (n, known1, used1)" using prod_cases3 by blast
  from pairNearest_pairs[OF r] obtain K U where KU: "known1 = known \<union> K" "used1 = used \<union> U" "K \<subseteq> ?I k - known" "U \<subseteq> ?E k - used"
      "card K = n" "card U = n" "n = min (card (?I k - known)) (card (?E k - used))"
    unfolding get_list_index_by by blast
  have free: "?I k - known = ?I k" "?E k - used = ?E k" using Cons.prems(2) by auto
  have other: "?I k \<inter> ?I k' = {}" "?E k \<inter> ?E k' = {}" if "k' \<noteq> k" for k' using that by (auto simp: indices_of_def)
  have step: "foldl (pair_key issues baseline) (m + n, known1, used1) ks = (m', known', used')"
    using Cons.prems(1) r by (simp add: pair_key_def)
  have clear: "\<forall>k' \<in> set ks. known1 \<inter> ?I k' = {} \<and> used1 \<inter> ?E k' = {}"
  proof
    fix k' assume k': "k' \<in> set ks"
    then have ne: "k' \<noteq> k" using Cons.prems(3) by auto
    have "known \<inter> ?I k' = {}" "used \<inter> ?E k' = {}" using Cons.prems(2) k' by auto
    then show "known1 \<inter> ?I k' = {} \<and> used1 \<inter> ?E k' = {}" using other[OF ne] KU(1-4) by blast
  qed
  have n: "n = both issues baseline k" using KU(7) free by (simp add: both_def)
  have same: "known1 \<inter> ?I k' = known \<inter> ?I k'" "used1 \<inter> ?E k' = used \<inter> ?E k'" if "k' \<noteq> k" for k'
    using other[OF that] KU(1-4) by auto
  have "known1 \<inter> ?I k = K" "used1 \<inter> ?E k = U" using KU(1-4) Cons.prems(2) by auto
  then have here: "card (known1 \<inter> ?I k) = both issues baseline k" "card (used1 \<inter> ?E k) = both issues baseline k" using KU(5,6) n by simp_all
  from Cons.IH[OF step clear] Cons.prems(3) have
    "card (known' \<inter> ?I q) = (if q \<in> set ks then both issues baseline q else card (known1 \<inter> ?I q))"
    "card (used' \<inter> ?E q) = (if q \<in> set ks then both issues baseline q else card (used1 \<inter> ?E q))" by simp_all
  then show ?case using here same[of q] Cons.prems(3) by (cases "q = k") simp_all
qed simp

lemma pair_cards:
  "foldl (pair_key issues baseline) (m, known, used) ks = (m', known', used') \<Longrightarrow> finite known \<Longrightarrow> finite used \<Longrightarrow>
     known' \<subseteq> known \<union> {..<length issues} \<and> used' \<subseteq> used \<union> {..<length baseline} \<and>
     m' + card known = m + card known' \<and> m' + card used = m + card used'"
proof (induction ks arbitrary: m known used)
  case (Cons k ks)
  obtain n known1 used1 where r: "pairNearest issues (get_list (index_by issue_key issues) k) baseline
      (get_list (index_by baseline_key baseline) k) known used = (n, known1, used1)" using prod_cases3 by blast
  from pairNearest_pairs[OF r] obtain K U where KU: "known1 = known \<union> K" "used1 = used \<union> U"
      "K \<subseteq> indices_of issue_key issues k - known" "U \<subseteq> indices_of baseline_key baseline k - used" "card K = n" "card U = n"
    unfolding get_list_index_by by blast
  have fin: "finite K" "finite U" using KU(3,4) by (auto intro: finite_subset[OF _ finite_indices_of])
  have c: "card known1 = card known + n" "card used1 = card used + n"
  proof -
    have "known \<inter> K = {}" "used \<inter> U = {}" using KU(3,4) by auto
    then show "card known1 = card known + n" "card used1 = card used + n"
      using KU(1,2,5,6) fin Cons.prems(2,3) by (simp_all add: card_Un_disjoint)
  qed
  have "foldl (pair_key issues baseline) (m + n, known1, used1) ks = (m', known', used')"
    using Cons.prems(1) r by (simp add: pair_key_def)
  from Cons.IH[OF this] have ih: "known' \<subseteq> known1 \<union> {..<length issues}" "used' \<subseteq> used1 \<union> {..<length baseline}"
     "m' + card known1 = m + n + card known'" "m' + card used1 = m + n + card used'"
    using KU(1,2) fin Cons.prems(2,3) by auto
  have "known1 \<subseteq> known \<union> {..<length issues}" "used1 \<subseteq> used \<union> {..<length baseline}"
    using KU(1-4) by (auto simp: indices_of_def)
  then show ?case using ih c by auto
qed simp

lemma length_filter_left:
  "length (filter P (map ((!) xs) (filter Q [0..<length xs]))) = card {i. i < length xs \<and> P (xs ! i) \<and> Q i}"
proof -
  have "length (filter P (map ((!) xs) (filter Q [0..<length xs]))) = length (filter (\<lambda>i. P (xs ! i) \<and> Q i) [0..<length xs])"
    by (simp add: filter_map o_def conj_commute)
  also have "\<dots> = card {i. i < length xs \<and> P (xs ! i) \<and> Q i}"
    by (subst distinct_card[symmetric]) (auto intro!: arg_cong[where f = card])
  finally show ?thesis .
qed

lemma left_with_key:
  "length (filter (\<lambda>x. f x = k) (map ((!) xs) (filter (\<lambda>i. i \<notin> S) [0..<length xs]))) =
     card (indices_of f xs k) - card (S \<inter> indices_of f xs k)"
proof -
  have "{i. i < length xs \<and> f (xs ! i) = k \<and> i \<notin> S} = indices_of f xs k - S \<inter> indices_of f xs k" by (auto simp: indices_of_def)
  then show ?thesis unfolding length_filter_left by (simp add: card_Diff_subset)
qed

definition with_key :: "('a \<Rightarrow> baselineKey) \<Rightarrow> baselineKey \<Rightarrow> 'a list \<Rightarrow> nat" where
  "with_key f k xs = length (filter (\<lambda>x. f x = k) xs)"

lemma card_indices_of: "card (indices_of f xs k) = with_key f k xs"
  by (simp add: with_key_def length_filter_conv_card indices_of_def)

lemma subseq_left: "subseq (map ((!) xs) (filter Q [0..<length xs])) xs"
proof -
  have "subseq (map ((!) xs) (filter Q [0..<length xs])) (map ((!) xs) [0..<length xs])" by (intro subseq_map subseq_filter_left)
  then show ?thesis by (simp add: map_nth)
qed

lemma subseq_mset: "subseq xs ys \<Longrightarrow> mset xs \<subseteq># mset ys"
  by (induction rule: list_emb.induct) (auto intro: subset_mset.order_trans)

text \<open>
  C34: Whatever order the keys are visited in, subtracting a baseline pairs each of its entries with at
  most one finding of the same file, rule and message: of every such key what is left are the findings
  beyond the number the baseline lists, in the order they had, and the stale entries are those beyond
  the number of findings, by path and line; the pairs counted are the difference on both sides.\<close>

theorem Subtract_counts:
  assumes "distinct ks" "set ks = issue_key ` set issues" "Subtract ks issues baseline = (matched, kept, stale)"
  shows "with_key issue_key k kept = with_key issue_key k issues - with_key baseline_key k baseline \<and>
    with_key baseline_key k stale = with_key baseline_key k baseline - with_key issue_key k issues \<and>
    matched + length kept = length issues \<and> matched + length stale = length baseline \<and>
    subseq kept issues \<and> mset stale \<subseteq># mset baseline \<and> sorted (map (\<lambda>e. (kPath e, kLine e)) stale)"
proof -
  obtain m known used where f: "foldl (pair_key issues baseline) (0, {}, {}) ks = (m, known, used)" using prod_cases3 by blast
  let ?rest = "map ((!) baseline) (filter (\<lambda>i. i \<notin> used) [0..<length baseline])"
  have r: "matched = m" "kept = map ((!) issues) (filter (\<lambda>i. i \<notin> known) [0..<length issues])"
    "stale = sort_key (\<lambda>e. (kPath e, kLine e)) ?rest"
    using assms(3) f by (auto simp: Subtract_def)
  note d = pair_cards[OF f, simplified]
  have c: "card (known \<inter> indices_of issue_key issues k) = (if k \<in> set ks then both issues baseline k else 0)"
    "card (used \<inter> indices_of baseline_key baseline k) = (if k \<in> set ks then both issues baseline k else 0)"
    using pair_keys[OF assms(1) f, of k] by simp_all
  have none: "indices_of issue_key issues k = {}" if "k \<notin> set ks" using that assms(2) by (auto simp: indices_of_def)
  have kept: "with_key issue_key k kept = with_key issue_key k issues - with_key baseline_key k baseline"
    using c none unfolding r(2) with_key_def[of _ _ "map _ _"] left_with_key
    by (auto simp: both_def card_indices_of[symmetric] min_def)
  have "with_key baseline_key k stale = with_key baseline_key k ?rest"
    unfolding r(3) with_key_def size_mset[symmetric] mset_filter mset_sort ..
  also have "\<dots> = with_key baseline_key k baseline - with_key issue_key k issues"
    using c none unfolding with_key_def[of _ _ "map _ _"] left_with_key
    by (auto simp: both_def card_indices_of[symmetric] min_def)
  finally have stale: "with_key baseline_key k stale = with_key baseline_key k baseline - with_key issue_key k issues" .
  have left: "length (map ((!) xs) (filter (\<lambda>i. i \<notin> S) [0..<length xs])) + card S = length xs" if "S \<subseteq> {..<length xs}" for S and xs :: "'x list"
  proof -
    have "length (map ((!) xs) (filter (\<lambda>i. i \<notin> S) [0..<length xs])) = card ({..<length xs} - S)"
      using length_filter_left[of "\<lambda>_. True" xs "\<lambda>i. i \<notin> S"] by (simp add: lessThan_def set_diff_eq)
    then show ?thesis using that card_mono[OF _ that] by (simp add: card_Diff_subset finite_subset)
  qed
  have "matched + length kept = length issues" "matched + length stale = length baseline"
    using left[of known issues] left[of used baseline] d unfolding r by auto
  moreover have "mset stale \<subseteq># mset baseline" unfolding r(3) mset_sort using subseq_left[of baseline] by (rule subseq_mset)
  ultimately show ?thesis using kept stale subseq_left[of issues] unfolding r(2,3) by simp
qed

definition sample_issue :: "int \<Rightarrow> RunIssue" where
  "sample_issue line =
     \<lparr>isSeverity = ''ERROR'', isID = ''MISSING_VAR'', isMessage = [], Locations = [no_location\<lparr>lFile := ''a.cfc'', lLine := line, lMessage := ''x''\<rparr>],
      Raw = []\<rparr>"

definition sample_entry :: "nat \<Rightarrow> Entry" where
  "sample_entry line = \<lparr>kPath = ''a.cfc'', kLine = line, kCol = - 1, kMessage = ''x'', kCode = ''MISSING_VAR'', kSeverity = []\<rparr>"

lemma Subtract_counts_witness:
  "Subtract [(''a.cfc'', ''MISSING_VAR'', ''x'')] [sample_issue 5, sample_issue 9] [sample_entry 8] = (1, [sample_issue 5], []) \<and>
   with_key issue_key (''a.cfc'', ''MISSING_VAR'', ''x'') [sample_issue 5] =
     with_key issue_key (''a.cfc'', ''MISSING_VAR'', ''x'') [sample_issue 5, sample_issue 9] -
     with_key baseline_key (''a.cfc'', ''MISSING_VAR'', ''x'') [sample_entry 8]"
proof -
  have s: "Subtract [(''a.cfc'', ''MISSING_VAR'', ''x'')] [sample_issue 5, sample_issue 9] [sample_entry 8] = (1, [sample_issue 5], [])"
    by code_simp
  have "set [(''a.cfc'', ''MISSING_VAR'', ''x'')] = issue_key ` set [sample_issue 5, sample_issue 9]" by code_simp
  from Subtract_counts[OF _ this s, of "(''a.cfc'', ''MISSING_VAR'', ''x'')"] show ?thesis using s by simp
qed

end
