(* ===== verification/Tag_End.thy ===== *)
theory Tag_End
  imports Go_Strings
begin

text \<open>
  Where a CFML tag ends: the \<open>'>'\<close> that closes it, with the quoted values and the comments between its
  attributes stepped over. \<open>tagEndIndex\<close>, \<open>tagEndWithComments\<close> and \<open>tagEndWalk\<close> are functions of
  \<open>internal/parser/tag_parser.go\<close>; \<open>indexQuote\<close> and \<open>skipQuotedIn\<close> are in
  \<open>internal/parser/script_parser.go\<close>. \<open>None\<close> is Go's \<open>-1\<close>.

  The first property is that the fast path of \<open>tagEndIndex\<close>, which counts quotes instead of reading
  them, agrees with the walk on every tag that holds quotes of one kind only; a counterexample shows
  that it does not where the two kinds mix.
\<close>

section \<open>The definitions\<close>

abbreviation dquote :: char where "dquote \<equiv> CHR 0x22"
abbreviation squote :: char where "squote \<equiv> CHR 0x27"
abbreviation gt_char :: char where "gt_char \<equiv> CHR 0x3E"
abbreviation lt_char :: char where "lt_char \<equiv> CHR 0x3C"

text \<open>A byte of a range, in the code's comparisons \<open>c >= lo && c <= hi\<close>.\<close>

definition within :: "char \<Rightarrow> char \<Rightarrow> char \<Rightarrow> bool" where
  "within lo hi c \<longleftrightarrow> lo \<le> c \<and> c \<le> hi"

definition indexQuote :: "string \<Rightarrow> nat option" where
  "indexQuote s =
     (case index_byte s dquote of
        None \<Rightarrow> index_byte s squote
      | Some d \<Rightarrow> (case index_byte s squote of
            None \<Rightarrow> Some d
          | Some sq \<Rightarrow> if d < sq then Some d else Some sq))"

text \<open>The loop of \<open>skipQuotedIn\<close>, from \<open>j\<close> on: a doubled quote is an escaped one.\<close>

function skip_quoted :: "string \<Rightarrow> char \<Rightarrow> nat \<Rightarrow> nat option" where
  "skip_quoted s q j =
     (if j < length s then
        if s ! j \<noteq> q then skip_quoted s q (j + 1)
        else if j + 1 < length s \<and> s ! (j + 1) = q then skip_quoted s q (j + 2)
        else Some j
      else None)"
  by pat_completeness auto
termination by (relation "measure (\<lambda>(s, q, j). length s - j)") auto

declare skip_quoted.simps [simp del]

definition skipQuotedIn :: "string \<Rightarrow> nat \<Rightarrow> nat option" where
  "skipQuotedIn s i = skip_quoted s (s ! i) (i + 1)"

lemma skip_quoted_bounds: "skip_quoted s q j = Some k \<Longrightarrow> j \<le> k \<and> k < length s"
  by (induction s q j rule: skip_quoted.induct)
    (subst (asm) skip_quoted.simps, auto split: if_splits)

lemma skipQuotedIn_bounds: "skipQuotedIn s i = Some k \<Longrightarrow> i < k \<and> k < length s"
  using skip_quoted_bounds[of s "s ! i" "i + 1" k] by (simp add: skipQuotedIn_def)

text \<open>The loop of \<open>tagEndWithComments\<close>, from \<open>pos\<close> on.\<close>

function end_with_comments :: "string \<Rightarrow> nat \<Rightarrow> nat option" where
  "end_with_comments s pos =
     (if pos < length s then
        let c = s ! pos
        in if c = gt_char then Some pos
           else if c = dquote \<or> c = squote then
             (case skipQuotedIn s pos of
                None \<Rightarrow> index_byte s gt_char
              | Some j \<Rightarrow> end_with_comments s (j + 1))
           else if c = lt_char \<and> HasPrefix (drop pos s) ''<!---'' then
             (case index_of (drop (pos + 5) s) ''--->'' of
                None \<Rightarrow> index_byte s gt_char
              | Some k \<Rightarrow> end_with_comments s (pos + (5 + k + 3) + 1))
           else end_with_comments s (pos + 1)
      else None)"
  by pat_completeness auto
termination by (relation "measure (\<lambda>(s, pos). length s - pos)") (auto dest!: skipQuotedIn_bounds)

definition tagEndWithComments :: "string \<Rightarrow> nat option" where
  "tagEndWithComments s = end_with_comments s 0"

text \<open>The loop of \<open>tagEndWalk\<close>, from \<open>pos\<close> on.\<close>

function end_walk :: "string \<Rightarrow> nat \<Rightarrow> nat option" where
  "end_walk s pos =
     (case index_byte (drop pos s) gt_char of
        None \<Rightarrow> None
      | Some g \<Rightarrow>
          let stop = pos + g
          in case indexQuote (slice s pos stop) of
               None \<Rightarrow> Some stop
             | Some q \<Rightarrow> (case skipQuotedIn s (pos + q) of
                   None \<Rightarrow> index_byte s gt_char
                 | Some j \<Rightarrow> end_walk s (j + 1)))"
  by pat_completeness auto
termination
  by (relation "measure (\<lambda>(s, pos). length s - pos)")
    (auto dest!: skipQuotedIn_bounds simp: index_byte_Some)

declare end_with_comments.simps [simp del] end_walk.simps [simp del]

definition tagEndWalk :: "string \<Rightarrow> nat option" where
  "tagEndWalk s = end_walk s 0"

definition tagEndIndex :: "string \<Rightarrow> nat option" where
  "tagEndIndex s =
     (case index_byte s gt_char of
        None \<Rightarrow> None
      | Some gt \<Rightarrow>
          if Contains (take gt s) ''<!--'' then tagEndWithComments s
          else if even (count_list (take gt s) dquote) \<and> even (count_list (take gt s) squote) then Some gt
          else tagEndWalk s)"

section \<open>Every answer is a closing angle bracket\<close>

lemma index_byte_gt: "index_byte s c = Some k \<Longrightarrow> k < length s \<and> s ! k = c"
  by (simp add: index_byte_Some)

lemma end_with_comments_gt: "end_with_comments s pos = Some k \<Longrightarrow> k < length s \<and> s ! k = gt_char"
proof (induction s pos rule: end_with_comments.induct)
  case (1 s pos)
  note E = 1(4)[unfolded end_with_comments.simps[of s pos] Let_def]
  show ?case
    using 1(1)[OF _ refl] 1(2)[OF _ refl] 1(3)[OF _ refl] E
    by (auto split: if_splits option.splits dest: index_byte_gt)
qed

lemma end_walk_gt: "end_walk s pos = Some k \<Longrightarrow> k < length s \<and> s ! k = gt_char"
proof (induction s pos rule: end_walk.induct)
  case (1 s pos)
  note E = 1(2)[unfolded end_walk.simps[of s pos] Let_def]
  show ?case
    using 1(1)[OF _ refl] E
    by (auto split: option.splits dest!: index_byte_gt)
qed

lemma tagEndIndex_gt: "tagEndIndex s = Some k \<Longrightarrow> k < length s \<and> s ! k = gt_char"
  by (auto simp: tagEndIndex_def tagEndWithComments_def tagEndWalk_def split: option.splits if_splits
      dest: end_with_comments_gt end_walk_gt index_byte_gt)

section \<open>The fast path\<close>

lemma count_slice_head:
  "i < j \<Longrightarrow> j \<le> length s \<Longrightarrow> count_list (slice s i j) c = (if s ! i = c then 1 else 0) + count_list (slice s (Suc i) j) c"
  by (simp add: slice_Cons)

text \<open>A string opened with an odd number of its quotes left before \<open>stop\<close> closes before it.\<close>

lemma skip_quoted_odd:
  assumes "odd (count_list (slice s j stop) q)" "stop < length s" "s ! stop \<noteq> q"
  shows "\<exists>k. skip_quoted s q j = Some k \<and> k < stop \<and> even (count_list (slice s (Suc k) stop) q)"
  using assms
proof (induction s q j rule: skip_quoted.induct)
  case (1 s q j)
  have j: "j < stop"
  proof (rule ccontr)
    assume "\<not> j < stop"
    then have "slice s j stop = []" by (simp add: slice_def)
    then show False using 1(3) by simp
  qed
  then have len: "j < length s" "stop \<le> length s" using 1(4) by simp_all
  note head = count_slice_head[OF j len(2), of q]
  show ?case
  proof (cases "s ! j = q")
    case False
    then show ?thesis using 1(1)[OF len(1) False] 1(3-5) head
      by (subst skip_quoted.simps) (simp add: len)
  next
    case q: True
    then have rest: "even (count_list (slice s (Suc j) stop) q)" using 1(3) head by simp
    show ?thesis
    proof (cases "s ! Suc j = q")
      case True
      then have "Suc j < stop" using j 1(5) by (cases "Suc j = stop") auto
      then have two: "j + 1 < length s \<and> s ! (j + 1) = q" "odd (count_list (slice s (j + 2) stop) q)"
        using rest True count_slice_head[of "Suc j" stop s q] len by simp_all
      show ?thesis using 1(2)[OF len(1) _ two(1) two(2) 1(4,5)] q two(1)
        by (subst skip_quoted.simps) (simp add: len)
    next
      case False
      then show ?thesis using q rest j by (subst skip_quoted.simps) (simp add: len)
    qed
  qed
qed

lemma indexQuote_None: "indexQuote s = None \<longleftrightarrow> dquote \<notin> set s \<and> squote \<notin> set s"
  unfolding index_byte_None[symmetric]
  by (cases "index_byte s dquote"; cases "index_byte s squote")
    (simp_all add: indexQuote_def del: index_byte_None)

lemma indexQuote_Some:
  assumes "indexQuote s = Some k"
  shows "k < length s \<and> (s ! k = dquote \<or> s ! k = squote) \<and> dquote \<notin> set (take k s) \<and> squote \<notin> set (take k s)"
proof -
  have sub: "set (take i s) \<subseteq> set (take j s)" if "i \<le> j" for i j
    using that by (rule set_take_subset_set_take)
  consider "index_byte s dquote = Some k" "index_byte s squote = None"
    | "index_byte s dquote = None" "index_byte s squote = Some k"
    | d where "index_byte s dquote = Some k" "index_byte s squote = Some d" "k < d"
    | d where "index_byte s dquote = Some d" "index_byte s squote = Some k" "k \<le> d"
    using assms by (auto simp: indexQuote_def simp del: index_byte_None split: option.splits if_splits)
  then show ?thesis
  proof cases
    case 1
    then show ?thesis using set_take_subset[of k s] by (auto simp: index_byte_Some)
  next
    case 2
    then show ?thesis using set_take_subset[of k s] by (auto simp: index_byte_Some)
  next
    case 3
    then show ?thesis using sub[of k d] by (auto simp: index_byte_Some)
  next
    case 4
    then show ?thesis using sub[of k d] by (auto simp: index_byte_Some)
  qed
qed

lemma drop_slice: "drop k (slice s i j) = slice s (i + k) j"
  by (simp add: slice_def drop_take add.commute)

text \<open>\<open>one_quote q s\<close>: the quotes in \<open>s\<close> are all \<open>q\<close>.\<close>

definition one_quote :: "char \<Rightarrow> string \<Rightarrow> bool" where
  "one_quote q s \<longleftrightarrow> (q = dquote \<or> q = squote) \<and> list_all (\<lambda>c. c = q \<or> c \<noteq> dquote \<and> c \<noteq> squote) s"

lemma count_after: "q \<notin> set a \<Longrightarrow> s = a @ q # b \<Longrightarrow> count_list s q = Suc (count_list b q)"
  by (simp add: count_notin)

lemma end_walk_even:
  assumes "index_byte s gt_char = Some gt" "one_quote q (take gt s)" "pos \<le> gt"
    "even (count_list (slice s pos gt) q)"
  shows "end_walk s pos = Some gt"
  using assms
proof (induction s pos rule: end_walk.induct)
  case (1 s pos)
  have gt: "gt < length s" "s ! gt = gt_char" "gt_char \<notin> set (take gt s)"
    using 1(2) by (simp_all add: index_byte_Some)
  have sl: "slice s pos gt = drop pos (take gt s)" by (simp add: slice_def drop_take)
  have "index_byte (drop pos s) gt_char = Some (gt - pos)"
    unfolding index_byte_Some using gt 1(4) in_set_dropD[of gt_char pos "take gt s"]
    by (auto simp: drop_take)
  note g = this
  show ?case
  proof (cases "indexQuote (slice s pos gt)")
    case None
    then show ?thesis using g 1(4) by (subst end_walk.simps) (simp add: Let_def)
  next
    case (Some k)
    have k: "k < length (slice s pos gt)" "slice s pos gt ! k = dquote \<or> slice s pos gt ! k = squote"
      "dquote \<notin> set (take k (slice s pos gt))" "squote \<notin> set (take k (slice s pos gt))"
      using indexQuote_Some[OF Some] by auto
    have kq: "pos + k < gt" "slice s pos gt ! k = s ! (pos + k)"
      using k(1) gt(1) by (simp_all add: slice_nth)
    have q: "q = dquote \<or> q = squote" "s ! (pos + k) = q"
    proof -
      show "q = dquote \<or> q = squote" using 1(3) by (simp add: one_quote_def)
      have "s ! (pos + k) \<in> set (take gt s)" using kq gt(1) by (auto simp: in_set_conv_nth)
      then show "s ! (pos + k) = q" using 1(3) k(2) kq(2) by (auto simp: one_quote_def list_all_iff)
    qed
    have "q \<notin> set (take k (slice s pos gt))" using q(1) k by auto
    moreover have "slice s pos gt = take k (slice s pos gt) @ q # slice s (Suc (pos + k)) gt"
      using id_take_nth_drop[OF k(1)] kq q(2) by (simp add: drop_slice)
    ultimately have "count_list (slice s pos gt) q = Suc (count_list (slice s (Suc (pos + k)) gt) q)"
      by (rule count_after)
    then have "odd (count_list (slice s (pos + k + 1) gt) q)" using 1(5) by simp
    moreover have "s ! gt \<noteq> q" using gt(2) q(1) by auto
    ultimately obtain j where j: "skipQuotedIn s (pos + k) = Some j" "j < gt"
        "even (count_list (slice s (Suc j) gt) q)"
      using skip_quoted_odd[OF _ gt(1)] q(2) by (auto simp: skipQuotedIn_def)
    have "pos + (gt - pos) = gt" using 1(4) by simp
    then have "end_walk s (j + 1) = Some gt"
      using 1(1)[OF g refl _ j(1) 1(2,3)] Some j(2,3) by simp
    then show ?thesis using g 1(4) Some j(1) by (subst end_walk.simps) (simp add: Let_def)
  qed
qed

text \<open>
  Where everything before the first closing bracket holds quotes of one kind and no comment, the
  parity test that lets \<open>tagEndIndex\<close> skip the quote-by-quote walk is exact: both find the same end, or
  none.\<close>

theorem tagEndIndex_walk:
  assumes "one_quote q (take (case index_byte s gt_char of None \<Rightarrow> length s | Some gt \<Rightarrow> gt) s)"
    and "\<not> Contains (take (case index_byte s gt_char of None \<Rightarrow> length s | Some gt \<Rightarrow> gt) s) ''<!--''"
  shows "tagEndIndex s = tagEndWalk s"
proof (cases "index_byte s gt_char")
  case None
  then show ?thesis
    by (simp add: tagEndIndex_def tagEndWalk_def end_walk.simps[of s 0] del: index_byte_None)
next
  case (Some gt)
  then show ?thesis
    using assms end_walk_even[OF Some, of q 0]
    by (auto simp: tagEndIndex_def tagEndWalk_def slice_def one_quote_def)
qed

definition quoted_tag :: string where
  "quoted_tag = ''<cfset x = f( '' @ [dquote] @ ''a'' @ [dquote, dquote] @ ''b<br>c'' @ [dquote] @ '' )>''"

lemma tagEndIndex_walk_witness: "tagEndIndex quoted_tag = tagEndWalk quoted_tag \<and> tagEndWalk quoted_tag = Some 27"
proof -
  have "tagEndIndex quoted_tag = tagEndWalk quoted_tag"
    by (rule tagEndIndex_walk[where q = dquote]) code_simp+
  moreover have "tagEndWalk quoted_tag = Some 27" by code_simp
  ultimately show ?thesis ..
qed

text \<open>
  With both kinds of quote the parity test is not exact: in \<open><a x='"' b="x>y">\<close> both counts before
  the bracket inside the second string are even, so the fast path ends the tag there, while the walk
  reads on to the real end.\<close>

definition mixed_quotes :: string where
  "mixed_quotes = ''<a x='' @ [squote, dquote, squote] @ '' b='' @ [dquote] @ ''x>y'' @ [dquote] @ ''>''"

lemma tagEndIndex_cut_short: "tagEndIndex mixed_quotes = Some 13 \<and> tagEndWalk mixed_quotes = Some 16"
  by code_simp

end
