(* ===== verification/Regions.thy ===== *)
theory Regions
  imports Tag_End Conv
begin

text \<open>
  The split of a tag-based file into the regions the parser reads (\<open>internal/parser/cfparser.go\<close>):
  \<open>splitCFScriptBlocks\<close> cuts it at its \<open><cfscript>\<close> blocks and at the HTML \<open><script>\<close> blocks that hold
  no CFML, stepping over CFML comments. \<open>lineAtOffset\<close> is the binary search every line number of a
  region comes from, over the line starts of \<open>buildLineIdx\<close>, kept as \<open>int32\<close> as in the code. A byte
  offset of the text is a \<open>nat\<close>, a line an \<open>int\<close>.
\<close>

section \<open>Lines\<close>

text \<open>\<open>conv.Int32\<close> of an \<open>int\<close> offset clamps. The loop of \<open>buildLineIdx\<close> from \<open>off\<close> on.\<close>

function line_starts :: "string \<Rightarrow> nat \<Rightarrow> 32 word list" where
  "line_starts src off =
     (if off < length src then
        (case index_byte (drop off src) newline of
           None \<Rightarrow> []
         | Some i \<Rightarrow> Int32 (of_nat (off + (i + 1))) # line_starts src (off + (i + 1)))
      else [])"
  by pat_completeness auto
termination by (relation "measure (\<lambda>(src, off). length src - off)") auto

declare line_starts.simps [simp del]

definition buildLineIdx :: "string \<Rightarrow> 32 word list" where
  "buildLineIdx src = 0 # line_starts src 0"

function line_search :: "32 word list \<Rightarrow> nat \<Rightarrow> nat \<Rightarrow> nat \<Rightarrow> nat" where
  "line_search idx offset lo hi =
     (if lo < hi then
        let mid = (lo + hi) div 2
        in if sint (idx ! mid) \<le> int offset then line_search idx offset (mid + 1) hi
           else line_search idx offset lo mid
      else lo)"
  by pat_completeness auto
termination by (relation "measure (\<lambda>(idx, offset, lo, hi). hi - lo)") auto

declare line_search.simps [simp del]

definition lineAtOffset :: "32 word list \<Rightarrow> nat \<Rightarrow> int" where
  "lineAtOffset idx offset = int (line_search idx offset 0 (length idx)) - 1"

section \<open>Tags\<close>

text \<open>\<open>indexCFTag\<close>, its loop from \<open>off\<close> on; the suffix is never empty where it is called.\<close>

function index_cf_tag :: "string \<Rightarrow> string \<Rightarrow> nat \<Rightarrow> nat option" where
  "index_cf_tag s want off =
     (if off < length s then
        (case index_byte (drop off s) lt_char of
           None \<Rightarrow> None
         | Some i \<Rightarrow>
             let at = off + i
             in if length s < at + 1 + length want then None
                else if lower_char (s ! (at + 1)) \<noteq> lower_char (hd want) then index_cf_tag s want (at + 1)
                else if EqualFold (slice s (at + 1) (at + 1 + length want)) want then Some at
                else index_cf_tag s want (at + 1))
      else None)"
  by pat_completeness auto
termination by (relation "measure (\<lambda>(s, want, off). length s - off)") auto

declare index_cf_tag.simps [simp del]

definition indexCFTag :: "string \<Rightarrow> string \<Rightarrow> nat option" where
  "indexCFTag s want = (if want = [] then index_byte s lt_char else index_cf_tag s want 0)"

definition tag_boundary :: "char \<Rightarrow> bool" where
  "tag_boundary c \<longleftrightarrow> c \<in> {gt_char, CHR ''/'', CHR '' '', CHR 0x09, newline, CHR 0x0D}"

function has_script_tag :: "string \<Rightarrow> nat \<Rightarrow> bool" where
  "has_script_tag content off =
     (if off < length content then
        (case index_byte (drop off content) lt_char of
           None \<Rightarrow> False
         | Some i \<Rightarrow>
             let at = off + i
             in if length content \<le> at + 7 then False
                else if lower_char (content ! (at + 1)) \<noteq> CHR ''s'' then has_script_tag content (at + 1)
                else if \<not> EqualFold (slice content (at + 1) (at + 7)) ''script'' then has_script_tag content (at + 1)
                else if tag_boundary (content ! (at + 7)) then True
                else has_script_tag content (at + 1))
      else False)"
  by pat_completeness auto
termination by (relation "measure (\<lambda>(s, off). length s - off)") auto

definition hasScriptTag :: "string \<Rightarrow> bool" where
  "hasScriptTag content = has_script_tag content 0"

function contains_cf_tag :: "string \<Rightarrow> nat \<Rightarrow> bool" where
  "contains_cf_tag s off =
     (if off + 2 < length s then
        (case index_byte (drop off s) lt_char of
           None \<Rightarrow> False
         | Some i \<Rightarrow>
             let at = off + i
             in if at + 2 < length s \<and> lower_char (s ! (at + 1)) = CHR ''c'' \<and> lower_char (s ! (at + 2)) = CHR ''f''
                then True else contains_cf_tag s (at + 1))
      else False)"
  by pat_completeness auto
termination by (relation "measure (\<lambda>(s, off). length s - off)") auto

declare has_script_tag.simps [simp del] contains_cf_tag.simps [simp del]

definition containsCFTag :: "string \<Rightarrow> bool" where
  "containsCFTag s = contains_cf_tag s 0"

section \<open>Comments\<close>

text \<open>The loop of \<open>skipCFMLComment\<close>: comments nest.\<close>

function skip_comment :: "string \<Rightarrow> nat \<Rightarrow> nat \<Rightarrow> nat" where
  "skip_comment content depth j =
     (if j < length content \<and> 0 < depth then
        if j + 4 < length content \<and> slice content j (j + 5) = ''<!---'' then skip_comment content (depth + 1) (j + 5)
        else if j + 3 < length content \<and> slice content j (j + 4) = ''--->'' then skip_comment content (depth - 1) (j + 4)
        else skip_comment content depth (j + 1)
      else j)"
  by pat_completeness auto
termination by (relation "measure (\<lambda>(s, depth, j). length s - j)") auto

declare skip_comment.simps [simp del]

definition skipCFMLComment :: "string \<Rightarrow> nat \<Rightarrow> nat" where
  "skipCFMLComment content i = skip_comment content 1 (i + 5)"

lemma skip_comment_ge: "j \<le> skip_comment content depth j"
  by (induction content depth j rule: skip_comment.induct) (subst skip_comment.simps, auto)

lemma skip_comment_le: "j \<le> length content \<Longrightarrow> skip_comment content depth j \<le> length content"
  by (induction content depth j rule: skip_comment.induct) (subst skip_comment.simps, auto)

lemma skipCFMLComment_ge: "i + 5 \<le> skipCFMLComment content i"
  by (simp add: skipCFMLComment_def skip_comment_ge)

text \<open>The test for a comment's opening at \<open>i\<close>.\<close>

definition opens_comment :: "string \<Rightarrow> nat \<Rightarrow> bool" where
  "opens_comment content i \<longleftrightarrow> i + 4 < length content \<and> slice content i (i + 5) = ''<!---''"

function nextCFScriptOpen :: "string \<Rightarrow> nat \<Rightarrow> nat option" where
  "nextCFScriptOpen content pos =
     (if pos < length content then
        (case index_byte (drop pos content) lt_char of
           None \<Rightarrow> None
         | Some k \<Rightarrow>
             let i = k + pos
             in if opens_comment content i then nextCFScriptOpen content (skipCFMLComment content i)
                else if i + 10 \<le> length content \<and> EqualFold (slice content i (i + 10)) ''<cfscript>'' then Some i
                else nextCFScriptOpen content (i + 1))
      else None)"
  by pat_completeness auto
termination
  by (relation "measure (\<lambda>(s, pos). length s - pos)")
    (auto intro!: diff_less_mono2 less_le_trans[OF _ skipCFMLComment_ge])

declare nextCFScriptOpen.simps [simp del]

lemma nextCFScriptOpen_at:
  "nextCFScriptOpen content pos = Some i \<Longrightarrow>
   pos \<le> i \<and> i + 10 \<le> length content \<and> EqualFold (slice content i (i + 10)) ''<cfscript>''"
proof (induction content pos rule: nextCFScriptOpen.induct)
  case step: (1 content pos)
  note E = step(3)[unfolded nextCFScriptOpen.simps[of content pos]]
  then obtain k where k: "pos < length content" "index_byte (drop pos content) lt_char = Some k"
    by (auto simp del: index_byte_None split: if_splits option.splits)
  consider "opens_comment content (k + pos)"
    | "\<not> opens_comment content (k + pos)"
      "k + pos + 10 \<le> length content \<and> EqualFold (slice content (k + pos) (k + pos + 10)) ''<cfscript>''"
    | "\<not> opens_comment content (k + pos)"
      "\<not> (k + pos + 10 \<le> length content \<and> EqualFold (slice content (k + pos) (k + pos + 10)) ''<cfscript>'')"
    by blast
  then show ?case
  proof cases
    case 1
    then show ?thesis using step.IH(1)[OF k refl] E k skipCFMLComment_ge[of "k + pos" content]
      by (simp add: Let_def)
  next
    case 2
    then show ?thesis using E k by (simp add: Let_def)
  next
    case 3
    then show ?thesis using step.IH(2)[OF k refl] E k by (auto simp: Let_def split: if_splits)
  qed
qed

lemma slice_split_head: "i < j \<Longrightarrow> j \<le> length s \<Longrightarrow> s ! i = c \<Longrightarrow> slice s i j = c # slice s (i + 1) j"
  by (simp add: slice_Cons)

lemma indexCFTag_at:
  assumes "indexCFTag s want = Some c" "want \<noteq> []"
  shows "c + 1 + length want \<le> length s \<and> EqualFold (slice s c (c + 1 + length want)) (lt_char # want)"
proof -
  have "index_cf_tag s want off = Some c \<Longrightarrow>
      c + 1 + length want \<le> length s \<and> s ! c = lt_char \<and> EqualFold (slice s (c + 1) (c + 1 + length want)) want" for off
  proof (induction s want off rule: index_cf_tag.induct)
    case step: (1 s want off)
    note E = step(3)[unfolded index_cf_tag.simps[of s want off]]
    then obtain i where i: "off < length s" "index_byte (drop off s) lt_char = Some i"
      by (auto simp del: index_byte_None split: if_splits option.splits)
    show ?case using step.IH(1)[OF i refl] step.IH(2)[OF i refl] E i
      by (auto simp: Let_def index_byte_Some split: if_splits)
  qed
  then have c: "c + 1 + length want \<le> length s" "s ! c = lt_char"
      "EqualFold (slice s (c + 1) (c + 1 + length want)) want"
    using assms by (auto simp: indexCFTag_def)
  then show ?thesis by (simp add: slice_split_head EqualFold_def ToLower_def)
qed

section \<open>Script blocks to skip\<close>

text \<open>
  The loop of \<open>findScriptSkipSpans\<close>, from \<open>pos\<close> on; its own copy of the comment loop is that of
  \<open>skipCFMLComment\<close>. 9 is the length of \<open></script>\<close>.\<close>

function skip_spans :: "string \<Rightarrow> nat \<Rightarrow> (nat \<times> nat) list" where
  "skip_spans content pos =
     (if pos < length content then
        (case index_byte (drop pos content) lt_char of
           None \<Rightarrow> []
         | Some k \<Rightarrow>
             let i = k + pos
             in if opens_comment content i then skip_spans content (skipCFMLComment content i)
                else if length content \<le> i + 7 \<or> \<not> EqualFold (slice content (i + 1) (i + 7)) ''script''
                then skip_spans content (i + 1)
                else if \<not> tag_boundary (content ! (i + 7)) then skip_spans content (i + 1)
                else (case tagEndIndex (drop i content) of
                   None \<Rightarrow> []
                 | Some g \<Rightarrow>
                     let bodyStart = i + g + 1;
                         closeIdx = indexCFTag (drop bodyStart content) ''/script>'';
                         bodyEnd = (case closeIdx of None \<Rightarrow> length content | Some c \<Rightarrow> bodyStart + c);
                         spanEnd = (case closeIdx of None \<Rightarrow> length content | Some c \<Rightarrow> bodyStart + c + 9)
                     in (if \<not> containsCFTag (slice content bodyStart bodyEnd) then [(i, spanEnd)] else []) @
                        skip_spans content spanEnd))
      else [])"
  by pat_completeness auto
termination
  by (relation "measure (\<lambda>(s, pos). length s - pos)")
    (auto intro!: diff_less_mono2 less_le_trans[OF _ skipCFMLComment_ge] split: option.splits)

declare skip_spans.simps [simp del]

definition findScriptSkipSpans :: "string \<Rightarrow> (nat \<times> nat) list" where
  "findScriptSkipSpans content = skip_spans content 0"

section \<open>Regions\<close>

datatype RegionKind = RegionScript | RegionTag | RegionSkip

record Region =
  regKind :: RegionKind
  regLine :: int
  regText :: string
  regOffset :: nat

text \<open>The closure \<open>add\<close>, and the region it appends.\<close>

definition region_at :: "string \<Rightarrow> 32 word list \<Rightarrow> RegionKind \<Rightarrow> nat \<Rightarrow> nat \<Rightarrow> Region" where
  "region_at content idx kind from stop =
     \<lparr>regKind = kind, regLine = lineAtOffset idx from, regText = slice content from stop, regOffset = from\<rparr>"

definition add_region :: "string \<Rightarrow> 32 word list \<Rightarrow> RegionKind \<Rightarrow> nat \<Rightarrow> nat \<Rightarrow> Region list" where
  "add_region content idx kind from stop =
     (if TrimSpace (slice content from stop) \<noteq> [] then [region_at content idx kind from stop] else [])"

lemma split_spans_shrink:
  "dropWhile (\<lambda>s. snd s \<le> pos) spans \<noteq> [] \<Longrightarrow>
   length (tl (dropWhile (\<lambda>s. snd s \<le> pos) spans)) + (n - snd (hd (dropWhile (\<lambda>s. snd s \<le> pos) spans)))
     < length spans + (n - pos)"
  using hd_dropWhile[of "\<lambda>s. snd s \<le> pos" spans] length_dropWhile_le[of "\<lambda>s. snd s \<le> pos" spans]
  by (cases "dropWhile (\<lambda>s. snd s \<le> pos) spans") auto

lemma split_open_shrink:
  "nextCFScriptOpen content pos = Some at \<Longrightarrow>
   length (dropWhile (\<lambda>s. snd s \<le> pos) spans) + (length content - (c + (at + 10) + 11))
     < length spans + (length content - pos)"
  using nextCFScriptOpen_at[of content pos at] length_dropWhile_le[of "\<lambda>s. snd s \<le> pos" spans] by auto

text \<open>
  The loop of \<open>splitCFScriptBlocks\<close> from \<open>pos\<close> on, with the skip spans from \<open>skipIdx\<close> on: the regions it
  appends. 10 and 11 are the lengths of \<open><cfscript>\<close> and \<open></cfscript>\<close>.\<close>

function split_blocks :: "string \<Rightarrow> 32 word list \<Rightarrow> (nat \<times> nat) list \<Rightarrow> nat \<Rightarrow> Region list" where
  "split_blocks content idx spans pos =
     (let openIdx = nextCFScriptOpen content pos;
          spans = dropWhile (\<lambda>s. snd s \<le> pos) spans
      in if spans \<noteq> [] \<and> (case openIdx of None \<Rightarrow> True | Some at \<Rightarrow> fst (hd spans) < at) then
           (if pos < fst (hd spans) then add_region content idx RegionTag pos (fst (hd spans)) else []) @
           region_at content idx RegionSkip (fst (hd spans)) (snd (hd spans)) #
           split_blocks content idx (tl spans) (snd (hd spans))
         else (case openIdx of
             None \<Rightarrow> if pos < length content then add_region content idx RegionTag pos (length content) else []
           | Some at \<Rightarrow>
               (if pos < at then add_region content idx RegionTag pos at else []) @
               (let bodyStart = at + 10
                in case indexCFTag (drop bodyStart content) ''/cfscript>'' of
                     None \<Rightarrow> add_region content idx RegionScript bodyStart (length content)
                   | Some c \<Rightarrow> add_region content idx RegionScript bodyStart (c + bodyStart) @
                       split_blocks content idx spans (c + bodyStart + 11))))"
  by pat_completeness auto
termination
  by (relation "measure (\<lambda>(content, idx, spans, pos). length spans + (length content - pos))")
    (auto simp del: dropWhile_eq_Nil_conv
      intro: split_spans_shrink[unfolded length_tl One_nat_def] split_open_shrink[OF sym, simplified])

declare split_blocks.simps [simp del]

definition splitCFScriptBlocks :: "string \<Rightarrow> Region list \<times> 32 word list" where
  "splitCFScriptBlocks content =
     (let idx = buildLineIdx content in (split_blocks content idx (findScriptSkipSpans content) 0, idx))"

end
