(* ===== verification/Tag_Structure.thy ===== *)
theory Tag_Structure
  imports Regions
begin

text \<open>
  The folding structure of markup (\<open>internal/parser/tagstructure.go\<close>): one walk over the text pairs tags
  on a stack and reports every comment, element, wrapped opening tag and \<open><cfif>\<close> branch that spans
  lines. The stack is a list with the innermost open tag first. Slicing a string out of range panics
  in Go: \<open>tagEnd\<close> and what calls it return an option, with \<open>None\<close> for the panic.
\<close>

section \<open>Names\<close>

definition isTagNameStart :: "char \<Rightarrow> bool" where
  "isTagNameStart c \<longleftrightarrow> within CHR ''a'' CHR ''z'' c \<or> within CHR ''A'' CHR ''Z'' c \<or> c = CHR ''_''"

definition isTagNamePart :: "char \<Rightarrow> bool" where
  "isTagNamePart c \<longleftrightarrow> isTagNameStart c \<or> within CHR ''0'' CHR ''9'' c \<or> c \<in> {CHR ''-'', CHR ''.'', CHR '':''}"

definition tagName :: "string \<Rightarrow> string" where
  "tagName s =
     (if s = [] \<or> \<not> isTagNameStart (s ! 0) then []
      else take 1 s @ takeWhile isTagNamePart (drop 1 s))"

definition startsTag :: "string \<Rightarrow> bool" where
  "startsTag s =
     (let s = (if s \<noteq> [] \<and> s ! 0 = CHR ''/'' then drop 1 s else s)
      in s \<noteq> [] \<and> isTagNameStart (s ! 0))"

definition isBranchTag :: "string \<Rightarrow> bool" where
  "isBranchTag name \<longleftrightarrow> EqualFold name ''cfelse'' \<or> EqualFold name ''cfelseif''"

definition isBodilessTag :: "string \<Rightarrow> bool" where
  "isBodilessTag name \<longleftrightarrow>
     length name \<le> length ''cfprocessingdirective'' \<and>
     ToLower name \<in> set
       [''br'', ''img'', ''input'', ''meta'', ''link'', ''hr'', ''area'', ''base'', ''col'', ''embed'',
        ''param'', ''source'', ''track'', ''wbr'',
        ''cfset'', ''cfreturn'', ''cfparam'', ''cfargument'', ''cfproperty'', ''cfinclude'',
        ''cfabort'', ''cfbreak'', ''cfcontinue'', ''cflocation'', ''cfqueryparam'', ''cfdump'',
        ''cfthrow'', ''cfrethrow'', ''cfheader'', ''cfcontent'', ''cfcookie'', ''cfinvokeargument'',
        ''cflog'', ''cfsetting'', ''cfprocparam'', ''cfprocresult'', ''cfexit'', ''cfflush'',
        ''cfimport'', ''cfprocessingdirective'']"

section \<open>Offsets\<close>

text \<open>
  \<open>tagEnd\<close>: a tag that is not closed ends with the content; \<open>from\<close> at the very end of it leaves \<open>gt\<close>
  at \<open>-1\<close>, and the slice \<open>content[from:from+gt]\<close> panics.\<close>

definition tagEnd :: "string \<Rightarrow> nat \<Rightarrow> nat option" where
  "tagEnd content from =
     (let gt = (case tagEndIndex (drop from content) of
                  None \<Rightarrow> int (length content) - int from - 1 | Some g \<Rightarrow> int g)
      in if gt < 0 then None
         else (let stop = from + nat gt
               in case index_byte (slice content from stop) lt_char of
                    Some lt \<Rightarrow>
                      if startsTag (drop (from + lt + 1) content) then Some (from + lt) else Some (stop + 1)
                  | None \<Rightarrow> Some (stop + 1)))"

definition lastContent :: "string \<Rightarrow> nat \<Rightarrow> nat" where
  "lastContent content lt =
     (case find (\<lambda>i. content ! i \<notin> {CHR '' '', CHR 0x09, CHR 0x0D, newline}) (rev [0..<lt]) of
        None \<Rightarrow> lt | Some i \<Rightarrow> i)"

definition selfClosing :: "string \<Rightarrow> nat \<Rightarrow> nat \<Rightarrow> bool" where
  "selfClosing content lt gt \<longleftrightarrow> lt + 2 < gt \<and> content ! (gt - 1) = gt_char \<and> content ! (gt - 2) = CHR ''/''"

text \<open>The loop of \<open>indexFoldASCII\<close> from \<open>i\<close> on; the needle starts with \<open><\<close>.\<close>

function index_fold :: "string \<Rightarrow> string \<Rightarrow> nat \<Rightarrow> nat option" where
  "index_fold s needle i =
     (if i + length needle \<le> length s then
        (case index_byte (drop i s) lt_char of
           None \<Rightarrow> None
         | Some j \<Rightarrow>
             if i + j + length needle \<le> length s \<and> EqualFold (slice s (i + j) (i + j + length needle)) needle
             then Some (i + j)
             else index_fold s needle (i + j + 1))
      else None)"
  by pat_completeness auto
termination by (relation "measure (\<lambda>(s, needle, i). Suc (length s) - i)") auto

declare index_fold.simps [simp del]

definition indexFoldASCII :: "string \<Rightarrow> string \<Rightarrow> nat option" where
  "indexFoldASCII s needle = index_fold s needle 0"

definition raw_closing :: "string \<Rightarrow> string option" where
  "raw_closing name =
     (if EqualFold name ''script'' then Some ''</script''
      else if EqualFold name ''style'' then Some ''</style''
      else None)"

definition rawTextEnd :: "string \<Rightarrow> nat \<Rightarrow> string \<Rightarrow> nat option" where
  "rawTextEnd content from name =
     (case raw_closing name of
        None \<Rightarrow> None
      | Some closing \<Rightarrow>
          let stop = (case indexFoldASCII (drop from content) closing of
                        None \<Rightarrow> length content | Some i \<Rightarrow> from + i);
              body = slice content from stop
          in if indexFoldASCII body ''<cf'' \<noteq> None \<or> indexFoldASCII body ''</cf'' \<noteq> None then None else Some stop)"

section \<open>The stack\<close>

datatype SpanKind = SpanComment | SpanBlock | SpanList | SpanCase

record Span =
  Start :: int
  Stop :: int
  Kind :: SpanKind

record tagFrame =
  frame_name :: string
  branches :: "int list"
  frame_line :: int

definition maxTagSearch :: nat where "maxTagSearch = 64"

definition span :: "SpanKind \<Rightarrow> int \<Rightarrow> int \<Rightarrow> Span list" where
  "span k first final = (if first < final then [\<lparr>Start = first, Stop = final, Kind = k\<rparr>] else [])"

text \<open>
  \<open>closeTag\<close> searches at most \<open>maxTagSearch\<close> frames down; \<open>n\<close> is how many are left. It returns the stack
  below the frame found and the spans to append, or nothing where no frame has the name.\<close>

primrec close_from :: "nat \<Rightarrow> tagFrame list \<Rightarrow> string \<Rightarrow> int \<Rightarrow> int \<Rightarrow> (tagFrame list \<times> Span list) option" where
  "close_from 0 stack name line contentLine = None"
| "close_from (Suc n) stack name line contentLine =
     (case stack of
        [] \<Rightarrow> None
      | f # below \<Rightarrow>
          if EqualFold (frame_name f) name then
            Some (below, span SpanBlock (frame_line f) line @
              concat (map (\<lambda>b. span SpanCase b contentLine) (branches f)))
          else close_from n below name line contentLine)"

definition closeTag :: "tagFrame list \<Rightarrow> string \<Rightarrow> int \<Rightarrow> int \<Rightarrow> tagFrame list \<times> Span list" where
  "closeTag stack name line contentLine =
     (case close_from maxTagSearch stack name line contentLine of
        None \<Rightarrow> (stack, []) | Some r \<Rightarrow> r)"

primrec branch_from :: "nat \<Rightarrow> tagFrame list \<Rightarrow> int \<Rightarrow> tagFrame list" where
  "branch_from 0 stack line = stack"
| "branch_from (Suc n) stack line =
     (case stack of
        [] \<Rightarrow> []
      | f # below \<Rightarrow>
          if EqualFold (frame_name f) ''cfif'' then f\<lparr>branches := branches f @ [line]\<rparr> # below
          else f # branch_from n below line)"

definition branchCFIf :: "tagFrame list \<Rightarrow> int \<Rightarrow> tagFrame list" where
  "branchCFIf stack line = branch_from maxTagSearch stack line"

section \<open>The walk\<close>

text \<open>The end of the comment that opens at \<open>lt\<close>: nested for \<open><!---\<close>, the first \<open>-->\<close> for an HTML one.\<close>

definition comment_end :: "string \<Rightarrow> nat \<Rightarrow> nat" where
  "comment_end content lt =
     (if HasPrefix (drop lt content) ''<!---'' then skipCFMLComment content lt
      else (case index_of (drop 4 (drop lt content)) ''-->'' of
          None \<Rightarrow> length content | Some c \<Rightarrow> lt + 4 + c + 3))"

text \<open>The case of an opening tag: the stack, the position and the spans after it.\<close>

definition open_tag :: "string \<Rightarrow> 32 word list \<Rightarrow> tagFrame list \<Rightarrow> nat \<Rightarrow> (tagFrame list \<times> nat \<times> Span list) option" where
  "open_tag content idx stack lt =
     (let name = tagName (drop (lt + 1) content)
      in if name = [] then Some (stack, lt + 1, [])
         else (case tagEnd content (lt + 1 + length name) of
             None \<Rightarrow> None
           | Some gt \<Rightarrow>
               let line = lineAtOffset idx lt;
                   wrapped = span SpanBlock line (lineAtOffset idx (gt - 1))
               in if selfClosing content lt gt \<or> isBodilessTag name then Some (stack, gt, wrapped)
                  else if isBranchTag name then Some (branchCFIf stack line, gt, wrapped)
                  else Some (\<lparr>frame_name = name, branches = [], frame_line = line\<rparr> # stack,
                    (case rawTextEnd content gt name of None \<Rightarrow> gt | Some raw \<Rightarrow> raw), wrapped)))"

definition close_tag :: "string \<Rightarrow> 32 word list \<Rightarrow> tagFrame list \<Rightarrow> nat \<Rightarrow> (tagFrame list \<times> nat \<times> Span list) option" where
  "close_tag content idx stack lt =
     (let name = tagName (drop (lt + 2) content)
      in if name = [] then Some (stack, lt + 2, [])
         else (case tagEnd content (lt + 2 + length name) of
             None \<Rightarrow> None
           | Some gt \<Rightarrow>
               let (stack, ss) = closeTag stack name (lineAtOffset idx lt) (lineAtOffset idx (lastContent content lt))
               in Some (stack, gt, ss)))"

text \<open>The switch at the \<open><\<close> of \<open>lt\<close>.\<close>

definition tag_step :: "string \<Rightarrow> 32 word list \<Rightarrow> tagFrame list \<Rightarrow> nat \<Rightarrow> (tagFrame list \<times> nat \<times> Span list) option" where
  "tag_step content idx stack lt =
     (if HasPrefix (drop lt content) ''<!--'' then
        Some (stack, comment_end content lt,
          span SpanComment (lineAtOffset idx lt) (lineAtOffset idx (comment_end content lt - 1)))
      else if lt + 1 < length content \<and> content ! (lt + 1) = CHR ''/'' then close_tag content idx stack lt
      else open_tag content idx stack lt)"

lemma tagEnd_ge: "tagEnd content from = Some p \<Longrightarrow> from \<le> p"
  by (auto simp: tagEnd_def Let_def split: if_splits option.splits)

lemma rawTextEnd_ge: "rawTextEnd content from name = Some p \<Longrightarrow> from \<le> length content \<Longrightarrow> from \<le> p"
  by (auto simp: rawTextEnd_def Let_def split: if_splits option.splits)

lemma tagEnd_le:
  assumes "tagEnd content from = Some p" "from \<le> length content"
  shows "p \<le> length content"
proof (cases "tagEndIndex (drop from content)")
  case None
  then show ?thesis using assms
    by (auto simp: tagEnd_def Let_def index_byte_Some nat_diff_distrib split: if_splits option.splits)
next
  case (Some g)
  then have "from + g < length content" using tagEndIndex_gt[OF Some] assms(2) by auto
  then show ?thesis using assms Some
    by (auto simp: tagEnd_def Let_def index_byte_Some split: if_splits option.splits)
qed

lemma length_tagName: "length (tagName s) \<le> length s"
  using length_takeWhile_le[of isTagNamePart "drop 1 s"] by (cases s) (simp_all add: tagName_def)

lemma comment_end_gt:
  assumes "HasPrefix (drop lt content) ''<!--''" "lt < length content"
  shows "lt < comment_end content lt"
  using assms skipCFMLComment_ge[of lt content] by (auto simp: comment_end_def split: option.splits)

lemma tag_step_pos:
  assumes "tag_step content idx stack lt = Some (stack', pos, ss)" "lt < length content"
  shows "lt < pos"
proof -
  have close: "lt < pos" if "close_tag content idx stack lt = Some (stack', pos, ss)"
    using that by (auto simp: close_tag_def Let_def case_prod_unfold split: if_splits option.splits dest: tagEnd_ge)
  have open_bound: "lt + 1 + length (tagName (drop (lt + 1) content)) \<le> length content"
    using length_tagName[of "drop (lt + 1) content"] assms(2) by simp
  have "lt < pos" if "open_tag content idx stack lt = Some (stack', pos, ss)"
    using that tagEnd_ge[of content "lt + 1 + length (tagName (drop (lt + 1) content))"]
      tagEnd_le[OF _ open_bound] rawTextEnd_ge[of content]
    by (fastforce simp: open_tag_def Let_def split: if_splits option.splits)
  then show ?thesis using assms close comment_end_gt[OF _ assms(2)]
    by (auto simp: tag_step_def split: if_splits)
qed

function tag_walk ::
    "string \<Rightarrow> 32 word list \<Rightarrow> (nat \<times> nat) list \<Rightarrow> tagFrame list \<Rightarrow> nat \<Rightarrow> Span list option" where
  "tag_walk content idx script stack pos =
     (if pos < length content then
        if script \<noteq> [] \<and> fst (hd script) \<le> pos then
          tag_walk content idx (tl script) stack (max pos (snd (hd script)))
        else (case index_byte (drop pos content) lt_char of
            None \<Rightarrow> Some []
          | Some k \<Rightarrow>
              let lt = pos + k
              in if script \<noteq> [] \<and> fst (hd script) \<le> lt then tag_walk content idx script stack lt
                 else (case tag_step content idx stack lt of
                     None \<Rightarrow> None
                   | Some (stack, pos, ss) \<Rightarrow> map_option ((@) ss) (tag_walk content idx script stack pos)))
      else Some [])"
  by pat_completeness auto
termination
proof (relation "measures [\<lambda>(content, idx, script, stack, pos). length script,
    \<lambda>(content, idx, script, stack, pos). length content - pos]", goal_cases)
  case (4 content idx script stack pos k lt r stack' r' pos' ss)
  then have "lt < pos'" using tag_step_pos[of content idx stack lt] by (auto simp: index_byte_Some)
  then show ?case using 4 by auto
next
  case (3 content idx script stack pos k lt)
  then have "pos < lt" by (cases k) auto
  then show ?case using 3 by (auto simp: index_byte_Some)
qed auto

declare tag_walk.simps [simp del]

definition tagStructure :: "string \<Rightarrow> (nat \<times> nat) list \<Rightarrow> 32 word list \<Rightarrow> Span list \<Rightarrow> Span list option" where
  "tagStructure content script idx spans = map_option ((@) spans) (tag_walk content idx script [] 0)"

section \<open>Lines and names\<close>

lemma length_line_starts: "length (line_starts src off) = count_list (drop off src) newline"
proof (induction src off rule: line_starts.induct)
  case (1 src off)
  show ?case
  proof (cases "off < length src \<and> newline \<in> set (drop off src)")
    case False
    then have "line_starts src off = []"
      by (subst line_starts.simps) (auto simp flip: index_byte_None split: option.splits)
    then show ?thesis using False by (cases "off < length src") (auto simp: count_list_0_iff)
  next
    case True
    then obtain i where i: "index_byte (drop off src) newline = Some i"
      by (metis index_byte_None not_Some_eq)
    have "drop off src = take i (drop off src) @ newline # drop (off + (i + 1)) src"
      using index_byte_split[OF i] by (simp add: add.commute)
    moreover have "newline \<notin> set (take i (drop off src))" using i by (simp add: index_byte_Some)
    ultimately have "count_list (drop off src) newline = Suc (count_list (drop (off + (i + 1)) src) newline)"
      by (rule count_after[rotated])
    then show ?thesis using True i 1(1)[OF conjunct1[OF True] i] by (subst line_starts.simps) simp
  qed
qed

lemma line_search_bounds:
  "lo \<le> hi \<Longrightarrow> lo \<le> line_search idx offset lo hi \<and> line_search idx offset lo hi \<le> hi"
proof (induction idx offset lo hi rule: line_search.induct)
  case (1 idx offset lo hi)
  have "lo < hi \<Longrightarrow> lo \<le> (lo + hi) div 2 \<and> Suc ((lo + hi) div 2) \<le> hi" by auto
  then show ?case
    using 1(1)[OF _ refl] 1(2)[OF _ refl] 1(3)
    unfolding line_search.simps[of idx offset lo hi] Let_def
    by (cases "lo < hi"; cases "sint (idx ! ((lo + hi) div 2)) \<le> int offset") auto
qed

lemma line_search_first:
  "lo < hi \<Longrightarrow> sint (idx ! 0) \<le> int offset \<Longrightarrow> 0 < line_search idx offset lo hi"
proof (induction idx offset lo hi rule: line_search.induct)
  case (1 idx offset lo hi)
  let ?mid = "(lo + hi) div 2"
  show ?case
  proof (cases "sint (idx ! ?mid) \<le> int offset")
    case True
    then have "line_search idx offset lo hi = line_search idx offset (?mid + 1) hi"
      using 1(3) by (subst line_search.simps) (simp add: Let_def)
    then show ?thesis using line_search_bounds[of "?mid + 1" hi idx offset] 1(3) by fastforce
  next
    case False
    then have "line_search idx offset lo hi = line_search idx offset lo ?mid"
      using 1(3) by (subst line_search.simps) (simp add: Let_def)
    moreover have "0 < line_search idx offset lo ?mid"
    proof (cases "lo < ?mid")
      case True
      then show ?thesis using 1(2)[OF 1(3) refl False] 1(4) by simp
    next
      case nolt: False
      then have "?mid = lo" using 1(3) by linarith
      moreover from this have "0 < lo" using False 1(4) by (cases lo) auto
      ultimately show ?thesis by (simp add: line_search.simps)
    qed
    ultimately show ?thesis by simp
  qed
qed

lemma lineAtOffset_bounds:
  "0 \<le> lineAtOffset (buildLineIdx content) n" "lineAtOffset (buildLineIdx content) n \<le> int (count_list content newline)"
  using line_search_first[of 0 "length (buildLineIdx content)" "buildLineIdx content" n]
    line_search_bounds[of 0 "length (buildLineIdx content)" "buildLineIdx content" n]
  by (simp_all add: lineAtOffset_def buildLineIdx_def length_line_starts)

lemma tagName_prefix: "tagName s = take (length (tagName s)) s"
proof (cases s)
  case (Cons c t)
  have "takeWhile isTagNamePart t = take (length (takeWhile isTagNamePart t)) t" by (rule takeWhile_eq_take)
  then show ?thesis using Cons by (auto simp: tagName_def)
qed (simp add: tagName_def)

lemma tagEnd_None: "tagEnd content from = None \<Longrightarrow> length content \<le> from"
  by (auto simp: tagEnd_def Let_def split: if_splits option.splits)

text \<open>The document ends in \<open><\<close> or \<open></\<close> and a tag's name, with nothing after it.\<close>

definition ends_in_tag_name :: "string \<Rightarrow> bool" where
  "ends_in_tag_name content \<longleftrightarrow> (\<exists>lt < length content. content ! lt = lt_char \<and>
     (let name = drop (if lt + 1 < length content \<and> content ! (lt + 1) = CHR ''/'' then lt + 2 else lt + 1) content
      in name \<noteq> [] \<and> tagName name = name))"

lemma tagEnd_name_None:
  assumes "tagEnd content (k + length (tagName (drop k content))) = None" "tagName (drop k content) \<noteq> []"
  shows "drop k content \<noteq> [] \<and> tagName (drop k content) = drop k content"
proof -
  let ?name = "tagName (drop k content)"
  have "0 < length ?name" using assms(2) by simp
  then have k: "k < length content" using length_tagName[of "drop k content"] by (cases "k < length content") auto
  then have "length (drop k content) \<le> length ?name" using tagEnd_None[OF assms(1)] by simp
  then show ?thesis using tagName_prefix[of "drop k content"] k by simp
qed

section \<open>The property\<close>

definition span_ok :: "int \<Rightarrow> Span \<Rightarrow> bool" where
  "span_ok n s \<longleftrightarrow> 0 \<le> Start s \<and> Start s < Stop s \<and> Stop s \<le> n \<and> Kind s \<noteq> SpanList"

definition frame_ok :: "tagFrame \<Rightarrow> bool" where
  "frame_ok f \<longleftrightarrow> 0 \<le> frame_line f \<and> list_all ((\<le>) 0) (branches f)"

lemma span_span_ok: "0 \<le> a \<Longrightarrow> b \<le> n \<Longrightarrow> k \<noteq> SpanList \<Longrightarrow> list_all (span_ok n) (span k a b)"
  by (simp add: span_def span_ok_def)

lemma case_spans_ok:
  "list_all ((\<le>) 0) bs \<Longrightarrow> c \<le> n \<Longrightarrow> list_all (span_ok n) (concat (map (\<lambda>b. span SpanCase b c) bs))"
  by (induction bs) (simp_all add: span_span_ok)

lemma close_from_ok:
  "close_from m stack name line contentLine = Some (stack', ss) \<Longrightarrow> list_all frame_ok stack \<Longrightarrow>
   line \<le> n \<Longrightarrow> contentLine \<le> n \<Longrightarrow> list_all frame_ok stack' \<and> list_all (span_ok n) ss"
proof (induction m arbitrary: stack)
  case (Suc m)
  show ?case
  proof (cases stack)
    case Nil
    then show ?thesis using Suc.prems(1) by simp
  next
    case (Cons f below)
    then have f: "0 \<le> frame_line f" "list_all ((\<le>) 0) (branches f)" "list_all frame_ok below"
      using Suc.prems(2) by (simp_all, simp_all add: frame_ok_def)
    show ?thesis
    proof (cases "EqualFold (frame_name f) name")
      case True
      then show ?thesis
        using Suc.prems(1) f Cons span_span_ok[OF f(1) Suc.prems(3)] case_spans_ok[OF f(2) Suc.prems(4)]
        by (auto simp del: list_all_append) (simp add: list_all_append)
    next
      case False
      then show ?thesis using Suc.prems(1) Suc.IH[OF _ f(3) Suc.prems(3,4)] Cons by simp
    qed
  qed
qed simp

lemma closeTag_ok:
  "closeTag stack name line contentLine = (stack', ss) \<Longrightarrow> list_all frame_ok stack \<Longrightarrow>
   line \<le> n \<Longrightarrow> contentLine \<le> n \<Longrightarrow> list_all frame_ok stack' \<and> list_all (span_ok n) ss"
  by (auto simp: closeTag_def split: option.splits dest: close_from_ok)

lemma branch_from_ok:
  "list_all frame_ok stack \<Longrightarrow> 0 \<le> line \<Longrightarrow> list_all frame_ok (branch_from m stack line)"
proof (induction m arbitrary: stack)
  case (Suc m)
  then show ?case by (cases stack) (auto simp: frame_ok_def)
qed simp

lemma tag_step_ok:
  assumes "tag_step content (buildLineIdx content) stack lt = Some (stack', pos, ss)" "list_all frame_ok stack"
  shows "list_all frame_ok stack' \<and> list_all (span_ok (int (count_list content newline))) ss"
proof -
  note line = lineAtOffset_bounds[of content]
  note spans = span_span_ok[OF line(1) line(2)]
  have close: ?thesis if "close_tag content (buildLineIdx content) stack lt = Some (stack', pos, ss)"
    using that closeTag_ok[OF _ assms(2) line(2) line(2)] assms(2)
    by (auto simp: close_tag_def Let_def split: if_splits option.splits prod.splits)
  have "?thesis" if "open_tag content (buildLineIdx content) stack lt = Some (stack', pos, ss)"
    using that assms(2) branch_from_ok[OF assms(2) line(1)] spans line(1)
    by (auto simp: open_tag_def Let_def branchCFIf_def frame_ok_def split: if_splits option.splits)
  then show ?thesis using assms close spans by (auto simp: tag_step_def split: if_splits)
qed

lemma tag_step_None:
  assumes "tag_step content idx stack lt = None" "lt < length content" "content ! lt = lt_char"
  shows "ends_in_tag_name content"
proof -
  have close: "drop (lt + 2) content \<noteq> [] \<and> tagName (drop (lt + 2) content) = drop (lt + 2) content"
    if "close_tag content idx stack lt = None"
    using that tagEnd_name_None[of content "lt + 2"]
    by (auto simp: close_tag_def Let_def case_prod_unfold split: if_splits option.splits)
  have opened: "drop (lt + 1) content \<noteq> [] \<and> tagName (drop (lt + 1) content) = drop (lt + 1) content"
    if "open_tag content idx stack lt = None"
    using that tagEnd_name_None[of content "lt + 1"]
    by (auto simp: open_tag_def Let_def split: if_splits option.splits)
  show ?thesis using assms close opened unfolding ends_in_tag_name_def tag_step_def Let_def
    by (intro exI[of _ lt]) (simp split: if_splits)
qed

lemma tag_walk_ok:
  "list_all frame_ok stack \<Longrightarrow>
   case tag_walk content (buildLineIdx content) script stack pos of
     None \<Rightarrow> ends_in_tag_name content
   | Some ss \<Rightarrow> list_all (span_ok (int (count_list content newline))) ss"
proof -
  have "list_all frame_ok stack \<Longrightarrow> idx = buildLineIdx content \<Longrightarrow>
      (case tag_walk content idx script stack pos of
         None \<Rightarrow> ends_in_tag_name content
       | Some ss \<Rightarrow> list_all (span_ok (int (count_list content newline))) ss)" for idx
  proof (induction content idx script stack pos rule: tag_walk.induct)
    case step: (1 content idx script stack pos)
    note E = tag_walk.simps[of content idx script stack pos]
    let ?in = "script \<noteq> [] \<and> fst (hd script) \<le> pos"
    show ?case
    proof (cases "pos < length content \<and> (?in \<or> lt_char \<in> set (drop pos content))")
      case False
      then have "tag_walk content idx script stack pos = Some []"
        unfolding E by (auto simp flip: index_byte_None split: option.splits)
      then show ?thesis by simp
    next
      case pos: True
      show ?thesis
      proof (cases ?in)
        case True
        then show ?thesis unfolding E if_P[OF conjunct1[OF pos]] if_P[OF True]
          by (rule step.IH(1)[OF conjunct1[OF pos] _ step.prems])
      next
        case notin: False
        then obtain k where k: "index_byte (drop pos content) lt_char = Some k"
          using pos by (metis index_byte_None not_Some_eq)
        note E' = E[unfolded if_P[OF conjunct1[OF pos]] if_not_P[OF notin] k option.case Let_def]
        note IH = step.IH(2)[OF conjunct1[OF pos] notin k refl _ step.prems]
          step.IH(3)[OF conjunct1[OF pos] notin k refl]
        show ?thesis
        proof (cases "script \<noteq> [] \<and> fst (hd script) \<le> pos + k")
          case True
          show ?thesis unfolding E' if_P[OF True] by (rule IH(1)[OF True])
        next
          case out: False
          note E'' = E'[unfolded if_not_P[OF out]]
          show ?thesis
          proof (cases "tag_step content idx stack (pos + k)")
            case None
            have "pos + k < length content \<and> content ! (pos + k) = lt_char"
              using k pos by (auto simp: index_byte_Some)
            then show ?thesis using tag_step_None[OF None] by (simp add: E'' None)
          next
            case (Some r)
            then obtain stack' pos' ss where r: "tag_step content idx stack (pos + k) = Some (stack', pos', ss)"
              by (cases r) auto
            note ok = tag_step_ok[OF r[unfolded step.prems(2)] step.prems(1)]
            from IH(2)[OF out r refl refl conjunct1[OF ok] step.prems(2)]
            show ?thesis using ok r
              by (cases "tag_walk content idx script stack' pos'") (simp_all add: E'')
          qed
        qed
      qed
    qed
  qed
  then show "list_all frame_ok stack \<Longrightarrow> ?thesis" by simp
qed

lemma tagStructure_ok:
  assumes "list_all P spans" "\<And>s. span_ok (int (count_list content newline)) s \<Longrightarrow> P s"
  shows "case tagStructure content script (buildLineIdx content) spans of
     None \<Rightarrow> ends_in_tag_name content | Some ss \<Rightarrow> list_all P ss"
  using tag_walk_ok[of "[]" content script 0] assms
  by (cases "tag_walk content (buildLineIdx content) script [] 0") (auto simp: tagStructure_def list_all_iff)

text \<open>A document that ends in \<open><p\<close> does panic: the name runs to the end and \<open>tagEnd\<close> slices before it.\<close>

lemma tagStructure_panics:
  "tagStructure ''<p'' [] (buildLineIdx ''<p'') [] = None"
  "tagStructure ''<b>x</b'' [] (buildLineIdx ''<b>x</b'') [] = None"
  by code_simp+

lemma tagStructure_example:
  "tagStructure (''<cfif a>'' @ [newline] @ ''<cfelse>'' @ [newline] @ ''x'' @ [newline] @ ''</CFIF>'') []
     (buildLineIdx (''<cfif a>'' @ [newline] @ ''<cfelse>'' @ [newline] @ ''x'' @ [newline] @ ''</CFIF>'')) [] =
   Some [\<lparr>Start = 0, Stop = 3, Kind = SpanBlock\<rparr>, \<lparr>Start = 1, Stop = 2, Kind = SpanCase\<rparr>]"
  by code_simp

end
