(* ===== verification/Scanner.thy ===== *)
theory Scanner
  imports Tag_Structure
begin

text \<open>
  The scanner (\<open>internal/parser/scanner.go\<close>): the tokens of CFML and CFScript, the string that steps over
  the \<open>#...#\<close> expressions in it, and the one token of lookahead. The scanning functions take the source,
  an offset and a line and return them after the token; the \<open>Scanner\<close> record is the struct, and its
  methods return it updated. Lines are natural numbers.
\<close>

section \<open>Tokens\<close>

datatype TokenKind =
  TokEOF | TokIdent | TokString | TokNumber | TokLParen | TokRParen | TokLBrace | TokRBrace
  | TokLBracket | TokRBracket | TokDot | TokComma | TokSemicolon | TokEquals | TokLT | TokGT
  | TokSlash | TokHash | TokColon | TokQuestion | TokBang | TokAmpersand | TokPipe | TokPlus
  | TokMinus | TokStar | TokPercent | TokCaret | TokAt | TokNewline | TokCFComment
  | TokBlockComment | TokLineComment | TokOther | TokDoubleColon

record Token =
  tokKind :: TokenKind
  tokValue :: string
  tokOffset :: nat
  tokLine :: nat

definition isDigit :: "char \<Rightarrow> bool" where
  "isDigit ch \<longleftrightarrow> within CHR ''0'' CHR ''9'' ch"

definition isIdentStart :: "char \<Rightarrow> bool" where
  "isIdentStart ch \<longleftrightarrow> within CHR ''a'' CHR ''z'' ch \<or> within CHR ''A'' CHR ''Z'' ch \<or> ch = CHR ''_'' \<or> ch = CHR ''$''"

definition isIdentPart :: "char \<Rightarrow> bool" where
  "isIdentPart ch \<longleftrightarrow> isIdentStart ch \<or> isDigit ch"

definition punctuation :: "(char \<times> TokenKind) list" where
  "punctuation =
     [(CHR ''('', TokLParen), (CHR '')'', TokRParen), (CHR ''{'', TokLBrace), (CHR ''}'', TokRBrace),
      (CHR ''['', TokLBracket), (CHR '']'', TokRBracket), (CHR ''.'', TokDot), (CHR '','', TokComma),
      (CHR '';'', TokSemicolon), (CHR ''='', TokEquals), (lt_char, TokLT), (gt_char, TokGT),
      (CHR ''/'', TokSlash), (CHR ''#'', TokHash), (CHR '':'', TokColon), (CHR ''?'', TokQuestion),
      (CHR ''!'', TokBang), (CHR 0x26, TokAmpersand), (CHR 0x7C, TokPipe), (CHR ''+'', TokPlus),
      (CHR ''-'', TokMinus), (CHR ''*'', TokStar), (CHR ''%'', TokPercent), (CHR 0x5E, TokCaret),
      (CHR ''@'', TokAt)]"

definition charToKind :: "char \<Rightarrow> TokenKind" where
  "charToKind ch = (case map_of punctuation ch of None \<Rightarrow> TokOther | Some k \<Rightarrow> k)"

text \<open>\<open>singleByteStrings\<close>: the UTF-8 encoding of the code point with the byte's number.\<close>

definition singleByteString :: "char \<Rightarrow> string" where
  "singleByteString ch =
     (if byte ch < (0x80 :: nat) then [ch]
      else [char_of (0xC0 + byte ch div 64 :: nat), char_of (0x80 + byte ch mod 64 :: nat)])"

section \<open>Comments\<close>

function skip_blanks :: "string \<Rightarrow> nat \<Rightarrow> nat" where
  "skip_blanks s pos =
     (if pos < length s \<and> s ! pos \<in> {CHR '' '', CHR 0x09, CHR 0x0D} then skip_blanks s (pos + 1) else pos)"
  by pat_completeness auto
termination by (relation "measure (\<lambda>(s, pos). length s - pos)") auto

text \<open>The loop of \<open>scanCFComment\<close>.\<close>

function cf_comment :: "string \<Rightarrow> nat \<Rightarrow> nat \<Rightarrow> nat \<Rightarrow> nat \<times> nat" where
  "cf_comment s depth pos line =
     (if pos < length s \<and> 0 < depth then
        if pos + 4 < length s \<and> slice s pos (pos + 5) = ''<!---'' then cf_comment s (depth + 1) (pos + 5) line
        else if pos + 2 < length s \<and> s ! pos = CHR ''-'' \<and> s ! (pos + 1) = CHR ''-'' \<and> s ! (pos + 2) = gt_char
        then cf_comment s (depth - 1) (pos + 3) line
        else cf_comment s depth (pos + 1) (if s ! pos = newline then line + 1 else line)
      else (pos, line))"
  by pat_completeness auto
termination by (relation "measure (\<lambda>(s, depth, pos, line). length s - pos)") auto

definition scanCFComment :: "string \<Rightarrow> nat \<Rightarrow> nat \<Rightarrow> nat \<times> nat" where
  "scanCFComment s pos line = cf_comment s 1 (pos + 5) line"

function block_comment :: "string \<Rightarrow> nat \<Rightarrow> nat \<Rightarrow> nat \<times> nat" where
  "block_comment s pos line =
     (if pos < length s then
        if s ! pos = CHR ''*'' \<and> pos + 1 < length s \<and> s ! (pos + 1) = CHR ''/'' then (pos + 2, line)
        else block_comment s (pos + 1) (if s ! pos = newline then line + 1 else line)
      else (pos, line))"
  by pat_completeness auto
termination by (relation "measure (\<lambda>(s, pos, line). length s - pos)") auto

definition scanBlockComment :: "string \<Rightarrow> nat \<Rightarrow> nat \<Rightarrow> nat \<times> nat" where
  "scanBlockComment s pos line = block_comment s (pos + 2) line"

function line_comment :: "string \<Rightarrow> nat \<Rightarrow> nat" where
  "line_comment s pos =
     (if pos < length s \<and> s ! pos \<noteq> newline \<and> s ! pos \<noteq> CHR 0x0D then line_comment s (pos + 1) else pos)"
  by pat_completeness auto
termination by (relation "measure (\<lambda>(s, pos). length s - pos)") auto

definition scanLineComment :: "string \<Rightarrow> nat \<Rightarrow> nat" where
  "scanLineComment s pos = line_comment s (pos + 2)"

section \<open>Strings\<close>

text \<open>The loop of \<open>scanQuotedPlain\<close>, after the opening quote \<open>q\<close>.\<close>

function quoted_plain :: "string \<Rightarrow> char \<Rightarrow> nat \<Rightarrow> nat \<Rightarrow> nat \<times> nat" where
  "quoted_plain s q pos line =
     (if pos < length s then
        if s ! pos = q then
          (if pos + 1 < length s \<and> s ! (pos + 1) = q then quoted_plain s q (pos + 2) line else (pos + 1, line))
        else if s ! pos = newline then quoted_plain s q (pos + 1) (line + 1)
        else quoted_plain s q (pos + 1) line
      else (pos, line))"
  by pat_completeness auto
termination by (relation "measure (\<lambda>(s, q, pos, line). length s - pos)") auto

definition scanQuotedPlain :: "string \<Rightarrow> nat \<Rightarrow> nat \<Rightarrow> nat \<times> nat" where
  "scanQuotedPlain s pos line = quoted_plain s (s ! pos) (pos + 1) line"

declare skip_blanks.simps [simp del] cf_comment.simps [simp del] block_comment.simps [simp del]
  line_comment.simps [simp del] quoted_plain.simps [simp del]

definition maxStringNesting :: nat where "maxStringNesting = 32"

text \<open>A scan of a string, where it closes, ends past the offset.\<close>

definition ends_past :: "nat \<Rightarrow> (nat \<times> nat) option \<Rightarrow> bool" where
  "ends_past n r \<longleftrightarrow> (\<forall>p l. r = Some (p, l) \<longrightarrow> n < p)"

lemma ends_past_simps [simp]: "ends_past n None" "ends_past n (Some (p, l)) \<longleftrightarrow> n < p"
  by (simp_all add: ends_past_def)

lemma ends_past_if: "(c \<Longrightarrow> ends_past n a) \<Longrightarrow> (\<not> c \<Longrightarrow> ends_past n b) \<Longrightarrow> ends_past n (if c then a else b)"
  by simp

lemma ends_past_mono: "ends_past m r \<Longrightarrow> n \<le> m \<Longrightarrow> ends_past n r"
  by (auto simp: ends_past_def)

lemma ends_past_bind:
  assumes "ends_past m x" "n \<le> m" "\<And>p l. x = Some (p, l) \<Longrightarrow> ends_past p (f p l)"
  shows "ends_past n (case x of None \<Rightarrow> None | Some (p, l) \<Rightarrow> f p l)"
proof (cases x)
  case (Some r)
  obtain p l where r: "r = (p, l)" by (cases r)
  from assms(1,2) Some r have "n < p" by simp
  then show ?thesis using ends_past_mono[OF assms(3)[OF Some[unfolded r]], of n] by (simp add: Some r)
qed simp

text \<open>
  The loops of \<open>scanQuoted\<close> and \<open>scanHashExpr\<close>, after the opening byte; \<open>None\<close> for \<open>false\<close>, where the
  caller gives up and the position no longer matters. The depth is tested where the other is called.\<close>

function quoted :: "string \<Rightarrow> char \<Rightarrow> nat \<Rightarrow> nat \<Rightarrow> nat \<Rightarrow> (nat \<times> nat) option"
  and hash_expr :: "string \<Rightarrow> nat \<Rightarrow> nat \<Rightarrow> nat \<Rightarrow> (nat \<times> nat) option" where
  "quoted s q depth pos line =
     (if length s \<le> pos then None
      else if s ! pos = q then
        (if pos + 1 < length s \<and> s ! (pos + 1) = q then quoted s q depth (pos + 2) line
         else Some (pos + 1, line))
      else if s ! pos = CHR ''#'' then
        (if pos + 1 < length s \<and> s ! (pos + 1) = CHR ''#'' then quoted s q depth (pos + 2) line
         else if maxStringNesting \<le> depth + 1 then None
         else (case hash_expr s (depth + 1) (pos + 1) line of
             None \<Rightarrow> None | Some (p, l) \<Rightarrow> quoted s q depth p l))
      else if s ! pos = newline then quoted s q depth (pos + 1) (line + 1)
      else quoted s q depth (pos + 1) line)"
| "hash_expr s depth pos line =
     (if length s \<le> pos then None
      else if s ! pos = CHR ''#'' then Some (pos + 1, line)
      else if s ! pos = dquote \<or> s ! pos = squote then
        (if maxStringNesting \<le> depth + 1 then None
         else (case quoted s (s ! pos) (depth + 1) (pos + 1) line of
             None \<Rightarrow> None | Some (p, l) \<Rightarrow> hash_expr s depth p l))
      else if s ! pos = newline then hash_expr s depth (pos + 1) (line + 1)
      else hash_expr s depth (pos + 1) line)"
  by pat_completeness auto

termination
proof -
  have past: "quoted_hash_expr_dom (Inl (s, q, depth, pos, line)) \<Longrightarrow> ends_past pos (quoted s q depth pos line)"
    "quoted_hash_expr_dom (Inr (s, depth, pos, line)) \<Longrightarrow> ends_past pos (hash_expr s depth pos line)"
    for s q depth pos line
  proof (induction rule: quoted_hash_expr.pinduct)
    case (1 s q depth pos line)
    note IH = 1(2-)[THEN ends_past_mono]
    show ?case unfolding quoted.psimps[OF 1(1)]
      by (intro ends_past_if ends_past_bind[where m = "pos + 1"]; ((rule IH; (assumption | (simp; fail))) | (simp; fail)))
  next
    case (2 s depth pos line)
    note IH = 2(2-)[THEN ends_past_mono]
    show ?case unfolding hash_expr.psimps[OF 2(1)]
      by (intro ends_past_if ends_past_bind[where m = "pos + 1"]; ((rule IH; (assumption | (simp; fail))) | (simp; fail)))
  qed
  then have gt: "quoted_hash_expr_dom (Inl (s, q, depth, pos, line)) \<Longrightarrow> quoted s q depth pos line = Some (p, l) \<Longrightarrow> pos < p"
    "quoted_hash_expr_dom (Inr (s, depth, pos, line)) \<Longrightarrow> hash_expr s depth pos line = Some (p, l) \<Longrightarrow> pos < p"
    for s q depth pos line p l unfolding ends_past_def by blast+
  show ?thesis
    by (relation "measure (case_sum (\<lambda>(s, q, d, p, l). length s - p) (\<lambda>(s, d, p, l). length s - p))")
      (auto dest!: gt)
qed

declare quoted.simps [simp del] hash_expr.simps [simp del]

lemma quoted_past: "ends_past pos (quoted s q depth pos line)" "ends_past pos (hash_expr s depth pos line)"
proof (induction s q depth pos line and s depth pos line rule: quoted_hash_expr.induct)
  case (1 s q depth pos line)
  note IH = 1[THEN ends_past_mono]
  show ?case unfolding quoted.simps[of s q depth pos line]
    by (intro ends_past_if ends_past_bind[where m = "pos + 1"]; ((rule IH; (assumption | (simp; fail))) | (simp; fail)))
next
  case (2 s depth pos line)
  note IH = 2[THEN ends_past_mono]
  show ?case unfolding hash_expr.simps[of s depth pos line]
    by (intro ends_past_if ends_past_bind[where m = "pos + 1"]; ((rule IH; (assumption | (simp; fail))) | (simp; fail)))
qed

lemma quoted_gt: "quoted s q depth pos line = Some (p, l) \<Longrightarrow> pos < p"
  using quoted_past(1)[of pos s q depth line] by simp

definition scanQuoted :: "string \<Rightarrow> nat \<Rightarrow> nat \<Rightarrow> nat \<Rightarrow> (nat \<times> nat) option" where
  "scanQuoted s depth pos line = (if maxStringNesting \<le> depth then None else quoted s (s ! pos) depth (pos + 1) line)"

text \<open>The nested scan where expressions are looked for, and the plain one where it fails.\<close>

definition scanString :: "string \<Rightarrow> bool \<Rightarrow> nat \<Rightarrow> nat \<Rightarrow> nat \<times> nat" where
  "scanString s interp pos line =
     (case (if interp then scanQuoted s 0 pos line else None) of
        Some r \<Rightarrow> r | None \<Rightarrow> scanQuotedPlain s pos line)"

section \<open>The next token\<close>

definition span_while :: "(char \<Rightarrow> bool) \<Rightarrow> string \<Rightarrow> nat \<Rightarrow> nat" where
  "span_while P s pos = pos + length (takeWhile P (drop pos s))"

definition token_at :: "string \<Rightarrow> TokenKind \<Rightarrow> nat \<Rightarrow> nat \<Rightarrow> nat \<times> nat \<Rightarrow> Token \<times> nat \<times> nat" where
  "token_at s kind start line r =
     (\<lparr>tokKind = kind, tokValue = slice s start (fst r), tokOffset = start, tokLine = line\<rparr>, r)"

text \<open>The switch of \<open>next\<close>, at the byte at \<open>start\<close>.\<close>

definition scan_at :: "string \<Rightarrow> bool \<Rightarrow> nat \<Rightarrow> nat \<Rightarrow> Token \<times> nat \<times> nat" where
  "scan_at s interp start line =
     (let ch = s ! start;
          follows = (\<lambda>c. start + 1 < length s \<and> s ! (start + 1) = c);
          fixed = (\<lambda>kind v n l. (\<lparr>tokKind = kind, tokValue = v, tokOffset = start, tokLine = line\<rparr>, start + n, l))
      in if ch = newline then fixed TokNewline [newline] 1 (line + 1)
         else if ch = lt_char \<and> opens_comment s start then
           token_at s TokCFComment start line (scanCFComment s start line)
         else if ch = CHR ''/'' \<and> follows CHR ''*'' then
           token_at s TokBlockComment start line (scanBlockComment s start line)
         else if ch = CHR ''/'' \<and> follows CHR ''/'' then
           token_at s TokLineComment start line (scanLineComment s start, line)
         else if ch = dquote \<or> ch = squote then token_at s TokString start line (scanString s interp start line)
         else if isDigit ch then
           token_at s TokNumber start line (span_while (\<lambda>c. isDigit c \<or> c = CHR ''.'') s start, line)
         else if isIdentStart ch then token_at s TokIdent start line (span_while isIdentPart s start, line)
         else if ch = CHR ''?'' \<and> follows CHR ''.'' then fixed TokDot ''.'' 2 line
         else if ch = CHR '':'' \<and> follows CHR '':'' then fixed TokDoubleColon ''::'' 2 line
         else fixed (charToKind ch) (singleByteString ch) 1 line)"

definition scan_next :: "string \<Rightarrow> bool \<Rightarrow> nat \<Rightarrow> nat \<Rightarrow> Token \<times> nat \<times> nat" where
  "scan_next s interp pos line =
     (let pos = skip_blanks s pos
      in if length s \<le> pos then
           (\<lparr>tokKind = TokEOF, tokValue = [], tokOffset = pos, tokLine = line\<rparr>, pos, line)
         else scan_at s interp pos line)"

section \<open>The scanner\<close>

record Scanner =
  src :: string
  sPos :: nat
  sLine :: nat
  LastBlockComment :: string
  peekTok :: Token
  peekPos :: nat
  peekLine :: nat
  peekComment :: string
  peeked :: bool
  peekSetComment :: bool
  interpStrings :: bool
  commentSeq :: "32 word"

definition no_token :: Token where
  "no_token = \<lparr>tokKind = TokEOF, tokValue = [], tokOffset = 0, tokLine = 0\<rparr>"

definition bomUTF8 :: string where
  "bomUTF8 = [CHR 0xEF, CHR 0xBB, CHR 0xBF]"

definition NewScanner :: "string \<Rightarrow> Scanner" where
  "NewScanner text =
     \<lparr>src = text, sPos = (if HasPrefix text bomUTF8 then length bomUTF8 else 0), sLine = 0, LastBlockComment = [],
      peekTok = no_token, peekPos = 0, peekLine = 0, peekComment = [], peeked = False, peekSetComment = False,
      interpStrings = False, commentSeq = 0\<rparr>"

definition next_raw :: "Scanner \<Rightarrow> Token \<times> Scanner" where
  "next_raw s =
     (let (t, p, l) = scan_next (src s) (interpStrings s) (sPos s) (sLine s) in (t, s\<lparr>sPos := p, sLine := l\<rparr>))"

definition Next :: "Scanner \<Rightarrow> Token \<times> Scanner" where
  "Next s = next_raw (s\<lparr>peeked := False\<rparr>)"

definition Peek :: "Scanner \<Rightarrow> Token \<times> Scanner" where
  "Peek s = (let (t, s') = Next s in (t, s'\<lparr>sPos := sPos s, sLine := sLine s\<rparr>))"

type_synonym ScannerState = "nat \<times> nat"

definition Save :: "Scanner \<Rightarrow> ScannerState" where
  "Save s = (sPos s, sLine s)"

definition Restore :: "ScannerState \<Rightarrow> Scanner \<Rightarrow> Scanner" where
  "Restore st s = s\<lparr>sPos := fst st, sLine := snd st, peeked := False\<rparr>"

definition Rest :: "Scanner \<Rightarrow> string" where
  "Rest s = (if length (src s) \<le> sPos s then [] else drop (sPos s) (src s))"

lemma skip_blanks_ge: "pos \<le> skip_blanks s pos"
  by (induction s pos rule: skip_blanks.induct) (subst skip_blanks.simps, auto)

lemma cf_comment_ge: "pos \<le> fst (cf_comment s depth pos line)"
  by (induction s depth pos line rule: cf_comment.induct) (subst cf_comment.simps, auto)

lemma block_comment_ge: "pos \<le> fst (block_comment s pos line)"
  by (induction s pos line rule: block_comment.induct) (subst block_comment.simps, auto)

lemma line_comment_ge: "pos \<le> line_comment s pos"
  by (induction s pos rule: line_comment.induct) (subst line_comment.simps, auto)

lemma quoted_plain_ge: "pos \<le> fst (quoted_plain s q pos line)"
  by (induction s q pos line rule: quoted_plain.induct) (subst quoted_plain.simps, auto)

lemma scanString_gt: "pos < fst (scanString s interp pos line)"
proof (cases "if interp then scanQuoted s 0 pos line else None")
  case None
  then show ?thesis using quoted_plain_ge[of "pos + 1" s "s ! pos" line]
    unfolding scanString_def None scanQuotedPlain_def by simp
next
  case (Some r)
  then have "quoted s (s ! pos) 0 (pos + 1) line = Some (fst r, snd r)"
    by (simp add: scanQuoted_def split: if_splits)
  from quoted_gt[OF this] show ?thesis unfolding scanString_def Some by simp
qed

lemma span_while_gt: "pos < length s \<Longrightarrow> P (s ! pos) \<Longrightarrow> pos < span_while P s pos"
  by (simp add: span_while_def Cons_nth_drop_Suc[symmetric])

lemma isIdentPart_start: "isIdentStart c \<Longrightarrow> isIdentPart c"
  by (simp add: isIdentPart_def)

lemma if_gt:
  "(c \<Longrightarrow> n < fst (snd a)) \<Longrightarrow> (\<not> c \<Longrightarrow> n < fst (snd b)) \<Longrightarrow> n < fst (snd (if c then a else b))"
  by simp

lemma scan_at_gt: "start < length s \<Longrightarrow> start < fst (snd (scan_at s interp start line))"
  using scanString_gt[of start s interp line] cf_comment_ge[of "start + 5" s 1 line]
    block_comment_ge[of "start + 2" s line] line_comment_ge[of "start + 2" s]
  unfolding scan_at_def Let_def token_at_def scanCFComment_def scanBlockComment_def scanLineComment_def fst_conv snd_conv
  by (intro if_gt) (simp_all add: span_while_gt isIdentPart_start)

lemma scan_next_gt:
  assumes "scan_next s interp pos line = (t, p, l)" "tokKind t \<noteq> TokEOF"
  shows "pos < p" "pos < length s"
proof -
  have "skip_blanks s pos < length s" using assms by (auto simp: scan_next_def Let_def split: if_splits)
  then show "pos < p" "pos < length s"
    using assms skip_blanks_ge[of pos s] scan_at_gt[of "skip_blanks s pos" s interp line]
    by (auto simp: scan_next_def Let_def)
qed

lemma next_raw_less:
  "(t, s') = next_raw s \<Longrightarrow> tokKind t \<noteq> TokEOF \<Longrightarrow> length (src s') - sPos s' < length (src s) - sPos s"
  using scan_next_gt[of "src s" "interpStrings s" "sPos s" "sLine s" t "sPos s'" "sLine s'"]
  by (auto simp: next_raw_def split: prod.splits)

text \<open>The loop of \<open>NextSkipComments\<close>.\<close>

function skip_loop :: "Scanner \<Rightarrow> Token \<times> Scanner" where
  "skip_loop s =
     (let (tok, s') = next_raw s
      in if tokKind tok = TokBlockComment then
           skip_loop (s'\<lparr>LastBlockComment := tokValue tok, commentSeq := commentSeq s' + 1\<rparr>)
         else if tokKind tok = TokCFComment \<or> tokKind tok = TokLineComment \<or> tokKind tok = TokNewline then
           skip_loop s'
         else (tok, s'))"
  by pat_completeness auto
termination
proof (relation "measure (\<lambda>s. length (src s) - sPos s)", goal_cases)
  case (2 s r t s')
  then have "(t, s') = next_raw s" by simp
  from next_raw_less[OF this] show ?case using 2(3) by simp
next
  case (3 s r t s')
  then have "(t, s') = next_raw s" by simp
  from next_raw_less[OF this] show ?case using 3(4) by auto
qed simp

declare skip_loop.simps [simp del]

definition NextSkipComments :: "Scanner \<Rightarrow> Token \<times> Scanner" where
  "NextSkipComments s =
     (if peeked s then
        (peekTok s,
         s\<lparr>peeked := False, sPos := peekPos s, sLine := peekLine s,
           LastBlockComment := (if peekSetComment s then peekComment s else LastBlockComment s)\<rparr>)
      else skip_loop s)"

definition PeekSkipComments :: "Scanner \<Rightarrow> Token \<times> Scanner" where
  "PeekSkipComments s =
     (if peeked s then (peekTok s, s)
      else let (tok, s') = NextSkipComments s
           in (tok, s'\<lparr>peekTok := tok, peekPos := sPos s', peekLine := sLine s',
                peekComment := LastBlockComment s', peekSetComment := (commentSeq s' \<noteq> commentSeq s),
                peeked := True, sPos := sPos s, sLine := sLine s\<rparr>))"

definition bytesAfterPeek :: "Scanner \<Rightarrow> nat \<times> nat" where
  "bytesAfterPeek s =
     (let i = span_while (\<lambda>c. c \<in> {CHR '' '', CHR 0x09, CHR 0x0D, newline}) (src s) (peekPos s)
      in (if i < length (src s) then byte (src s ! i) else 0,
          if i + 1 < length (src s) then byte (src s ! (i + 1)) else 0))"

end
