(* ===== verification/Cursor.thy ===== *)
theory Cursor
  imports Positions Scanner Go_Format
begin

text \<open>
  What is under the cursor (\<open>internal/parser/edit_parser.go\<close>): the call it is in and the argument it is on, the word,
  what stands before the word's dot, the component or the file a string names, and the tag around it.
  A position is a line and a byte column of it.
\<close>

section \<open>Walks in a line\<close>

fun back_while :: "(char \<Rightarrow> bool) \<Rightarrow> string \<Rightarrow> nat \<Rightarrow> nat" where
  "back_while P s 0 = 0"
| "back_while P s (Suc n) = (if P (s ! n) then back_while P s n else Suc n)"

definition fwd_while :: "(char \<Rightarrow> bool) \<Rightarrow> string \<Rightarrow> nat \<Rightarrow> nat" where
  "fwd_while P s n = n + length (takeWhile P (drop n s))"

text \<open>The nearest byte before a place, and the first from it on, of one kind.\<close>

fun last_before :: "(char \<Rightarrow> bool) \<Rightarrow> string \<Rightarrow> nat \<Rightarrow> nat option" where
  "last_before P s 0 = None"
| "last_before P s (Suc n) = (if P (s ! n) then Some n else last_before P s n)"

definition first_from :: "char \<Rightarrow> string \<Rightarrow> nat \<Rightarrow> nat option" where
  "first_from c s n = map_option (\<lambda>i. i + n) (index_byte (drop n s) c)"

text \<open>\<open>strings.LastIndex\<close>, \<open>strings.Trim\<close>, \<open>TrimLeft\<close> and \<open>TrimRight\<close> of a set of bytes.\<close>

fun last_index_of :: "string \<Rightarrow> string \<Rightarrow> nat option" where
  "last_index_of [] p = (if p = [] then Some 0 else None)"
| "last_index_of (c # s) p =
     (case last_index_of s p of Some i \<Rightarrow> Some (Suc i) | None \<Rightarrow> if HasPrefix (c # s) p then Some 0 else None)"

definition trim_right_set :: "string \<Rightarrow> string \<Rightarrow> string" where
  "trim_right_set s cs = rev (dropWhile (\<lambda>c. c \<in> set cs) (rev s))"

definition trim_left_set :: "string \<Rightarrow> string \<Rightarrow> string" where
  "trim_left_set s cs = dropWhile (\<lambda>c. c \<in> set cs) s"

definition trim_set :: "string \<Rightarrow> string \<Rightarrow> string" where
  "trim_set s cs = trim_right_set (trim_left_set s cs) cs"

definition quotes :: string where "quotes = [CHR 0x22, CHR 0x27]"
definition blanks :: string where "blanks = [CHR '' '', CHR 0x09]"

section \<open>The call\<close>

text \<open>The walk back to the parenthesis that is open, with the commas after it.\<close>

fun call_open :: "string \<Rightarrow> nat \<Rightarrow> nat \<Rightarrow> nat \<Rightarrow> (nat \<times> nat) option" where
  "call_open s 0 depth commas = None"
| "call_open s (Suc i) depth commas =
     (if s ! i = CHR '')'' then call_open s i (depth + 1) commas
      else if s ! i = CHR ''('' then (if depth = 0 then Some (i, commas) else call_open s i (depth - 1) commas)
      else if s ! i = CHR '','' \<and> depth = 0 then call_open s i depth (commas + 1)
      else call_open s i depth commas)"

fun matching_open :: "string \<Rightarrow> nat \<Rightarrow> int \<Rightarrow> nat option" where
  "matching_open s 0 depth = None"
| "matching_open s (Suc j) depth =
     (if s ! j = CHR '')'' then matching_open s j (depth + 1)
      else if s ! j = CHR ''('' then (if depth = 1 then Some j else matching_open s j (depth - 1))
      else matching_open s j depth)"

definition calleeBefore :: "string \<Rightarrow> nat \<Rightarrow> string \<times> string" where
  "calleeBefore lineText fin =
     (let start = back_while (\<lambda>c. isIdentPart c \<or> c = CHR ''.'') lineText fin;
          name = slice lineText start fin
      in case last_index_byte name (CHR ''.'') of
           None \<Rightarrow> (name, [])
         | Some dot \<Rightarrow>
             let qual = take dot name; funcN = drop (dot + 1) name
             in if qual = [] \<and> 0 < start \<and> lineText ! (start - 1) = CHR '')'' then
                  (case matching_open lineText start 0 of
                     Some j \<Rightarrow> (funcN, slice lineText (back_while isIdentPart lineText j) start)
                   | None \<Rightarrow> (funcN, qual))
                else (funcN, qual))"

definition FindCallContext :: "string \<Rightarrow> nat \<Rightarrow> nat \<Rightarrow> string \<times> string \<times> nat" where
  "FindCallContext content line char =
     (let lineText = LineTextAt content line
      in if lineText = [] then ([], [], 0)
         else (case call_open lineText (min char (length lineText)) 0 0 of
             None \<Rightarrow> ([], [], 0)
           | Some (i, commas) \<Rightarrow> (let (funcName, qualifier) = calleeBefore lineText i in (funcName, qualifier, commas))))"

section \<open>The word\<close>

definition IsWordChar :: "char \<Rightarrow> bool" where
  "IsWordChar b = isIdentPart b"

definition WordAtPosition :: "string \<Rightarrow> nat \<Rightarrow> nat \<Rightarrow> string" where
  "WordAtPosition content line char =
     (let lineText = LineTextAt content line; char = min char (length lineText)
      in slice lineText (back_while IsWordChar lineText char) (fwd_while IsWordChar lineText char))"

definition created_component :: "string \<Rightarrow> string option" where
  "created_component front =
     (case last_index_of (ToLower front) ''createobject('' of None \<Rightarrow> None
      | Some idx \<Rightarrow>
          let args = TrimSuffix (drop (idx + 13) front) '')''
          in case index_byte args (CHR '','') of None \<Rightarrow> None
             | Some i \<Rightarrow> (let comp_name = trim_set (TrimSpace (drop (i + 1) args)) quotes in if comp_name \<noteq> [] then Some comp_name else None))"

definition new_component :: "string \<Rightarrow> string option" where
  "new_component front =
     (case last_index_of (ToLower front) ''new '' of None \<Rightarrow> None
      | Some idx \<Rightarrow>
          let rest = TrimSpace (drop (idx + 4) front);
              rest = (case index_byte rest (CHR ''('') of None \<Rightarrow> rest | Some i \<Rightarrow> take i rest);
              rest = trim_set rest quotes
          in if rest \<noteq> [] then Some rest else None)"

definition callResultQualifier :: "string \<Rightarrow> nat \<Rightarrow> string" where
  "callResultQualifier lineText dotPos =
     (let front = take dotPos lineText
      in case created_component front of Some comp_name \<Rightarrow> ''~'' @ comp_name
         | None \<Rightarrow> (case new_component front of Some rest \<Rightarrow> ''~'' @ rest
             | None \<Rightarrow> (case matching_open lineText dotPos 0 of
                   None \<Rightarrow> ''~''
                 | Some i \<Rightarrow>
                     let fnStart = back_while IsWordChar lineText i
                     in if fnStart < i then ''~?'' @ slice lineText fnStart dotPos else ''~'')))"

definition QualifierBeforeWord :: "string \<Rightarrow> nat \<Rightarrow> nat \<Rightarrow> string" where
  "QualifierBeforeWord content line char =
     (let lineText = LineTextAt content line
      in if lineText = [] then []
         else let start = back_while IsWordChar lineText (min char (length lineText))
              in if start < 1 \<or> lineText ! (start - 1) \<noteq> CHR ''.'' then []
                 else let dotPos = start - 1
                      in if 0 < dotPos \<and> lineText ! (dotPos - 1) = CHR '')'' then callResultQualifier lineText dotPos
                         else if 0 < dotPos \<and> lineText ! (dotPos - 1) = CHR '']'' then ''~''
                         else slice lineText (back_while IsWordChar lineText dotPos) dotPos)"

section \<open>Components\<close>

definition attrPrefixes :: "string list" where
  "attrPrefixes = [''extends='', ''implements='', ''type='', ''returntype='', ''component='']"

definition in_attribute :: "string \<Rightarrow> bool" where
  "in_attribute front =
     list_ex (\<lambda>prefix. case last_index_of (ToLower front) prefix of None \<Rightarrow> False
        | Some idx \<Rightarrow> trim_left_set (drop (idx + length prefix) front) (blanks @ quotes) = []) attrPrefixes"

definition in_component_string :: "string \<Rightarrow> bool" where
  "in_component_string lowerBefore \<longleftrightarrow>
     Contains lowerBefore ''createobject('' \<or> Contains lowerBefore ''isinstanceof('' \<or>
     HasSuffix (trim_right_set lowerBefore (blanks @ quotes)) ''import''"

text \<open>The test before the name of an argument: an argument list or \<open>required\<close>.\<close>

definition before_argument :: "string \<Rightarrow> bool" where
  "before_argument beforeTrimmed \<longleftrightarrow>
     beforeTrimmed \<noteq> [] \<and>
     (last beforeTrimmed = CHR ''('' \<or> last beforeTrimmed = CHR '','' \<or> HasSuffix (ToLower beforeTrimmed) ''required'')"

definition ComponentPathAtCursor :: "string \<Rightarrow> nat \<Rightarrow> nat \<Rightarrow> string" where
  "ComponentPathAtCursor content line char =
     (let lineText = LineTextAt content line
      in if lineText = [] then []
         else
           let pos = min char (length lineText); P = (\<lambda>c. IsWordChar c \<or> c = CHR ''.'');
               start = back_while P lineText pos; fin = fwd_while P lineText pos;
               dotPath = slice lineText start fin; hasDot = (CHR ''.'' \<in> set dotPath);
               front = trim_right_set (take start lineText) blanks;
               after = trim_left_set (drop fin lineText) blanks
           in if start = fin then []
              else if HasSuffix (ToLower front) ''new'' then dotPath
              else if 0 < start \<and> lineText ! (start - 1) \<in> set quotes \<and> in_component_string (ToLower front) then dotPath
              else if in_attribute front then dotPath
              else if hasDot \<and> HasPrefix (ToLower after) ''function'' then dotPath
              else if hasDot \<and> after \<noteq> [] \<and> IsWordChar (hd after) \<and> before_argument front then dotPath
              else [])"

section \<open>The tag\<close>

definition EnclosingTagAt :: "string \<Rightarrow> nat \<Rightarrow> nat \<Rightarrow> (string \<times> nat) option" where
  "EnclosingTagAt content line char =
     (case skip_lines content 0 line of
        None \<Rightarrow> None
      | Some start \<Rightarrow>
          let offset = min (start + char) (length content)
          in case last_index_byte (take offset content) (CHR ''<'') of None \<Rightarrow> None
             | Some tagStart \<Rightarrow>
                 (case index_byte (drop tagStart content) (CHR ''>'') of
                    None \<Rightarrow> Some (slice content tagStart offset, offset - tagStart)
                  | Some e \<Rightarrow>
                      let tagEnd = e + tagStart + 1
                      in if tagEnd < offset then None else Some (slice content tagStart tagEnd, offset - tagStart)))"

text \<open>A quoted value that follows a name in a tag: where it starts and where it ends.\<close>

definition quoted_after :: "string \<Rightarrow> string \<Rightarrow> (nat \<times> nat) option" where
  "quoted_after tag name =
     (case index_of (ToLower tag) name of None \<Rightarrow> None
      | Some i \<Rightarrow>
          let st = i + length name
          in if length tag \<le> st \<or> tag ! st \<notin> set quotes then None
             else map_option (\<lambda>c. (st + 1, st + 1 + c)) (index_byte (drop (st + 1) tag) (tag ! st)))"

definition CfInvokeComponentAtCursor :: "string \<Rightarrow> nat \<Rightarrow> nat \<Rightarrow> string" where
  "CfInvokeComponentAtCursor content line char =
     (case EnclosingTagAt content line char of None \<Rightarrow> []
      | Some (tag, cursorInTag) \<Rightarrow>
          if tag = [] \<or> \<not> HasPrefix (ToLower tag) ''<cfinvoke'' then []
          else (case quoted_after tag ''method='' of None \<Rightarrow> []
            | Some (st, e) \<Rightarrow>
                if cursorInTag < st \<or> e < cursorInTag then []
                else (case quoted_after tag ''component='' of None \<Rightarrow> [] | Some (cs, ce) \<Rightarrow> slice tag cs ce)))"

section \<open>Strings\<close>

text \<open>The string the cursor is in, by the quote nearest before it.\<close>

definition string_at :: "string \<Rightarrow> nat \<Rightarrow> (nat \<times> nat) option" where
  "string_at lineText pos =
     (case last_before (\<lambda>c. c \<in> set quotes) lineText pos of None \<Rightarrow> None
      | Some qStart \<Rightarrow>
          (case first_from (lineText ! qStart) lineText (qStart + 1) of None \<Rightarrow> None
           | Some qEnd \<Rightarrow> if pos \<le> qStart \<or> qEnd < pos then None else Some (qStart, qEnd)))"

definition FilePathAtCursor :: "string \<Rightarrow> nat \<Rightarrow> nat \<Rightarrow> string" where
  "FilePathAtCursor content line char =
     (let lineText = LineTextAt content line
      in if lineText = [] then []
         else (case string_at lineText (min char (length lineText)) of None \<Rightarrow> []
           | Some (qStart, qEnd) \<Rightarrow>
               let front = ToLower (trim_right_set (take qStart lineText) blanks)
               in if list_ex (HasSuffix front) [''template='', ''include'', ''href='', ''action=''] then slice lineText (qStart + 1) qEnd
                  else []))"

text \<open>The resolvers are patterns; \<open>resolve\<close> is \<open>ResolveFromCall\<close> with them.\<close>

definition ResolverArgAtCursor :: "string \<Rightarrow> nat \<Rightarrow> nat \<Rightarrow> (string \<Rightarrow> string) option \<Rightarrow> string" where
  "ResolverArgAtCursor content line char resolve =
     (let lineText = LineTextAt content line
      in case resolve of None \<Rightarrow> []
         | Some resolve \<Rightarrow>
             if lineText = [] then []
             else (case string_at lineText (min char (length lineText)) of None \<Rightarrow> []
               | Some (qStart, qEnd) \<Rightarrow>
                   (case last_before (\<lambda>c. c = CHR ''('') lineText qStart of None \<Rightarrow> []
                    | Some parenIdx \<Rightarrow>
                        let funcStart = back_while IsWordChar lineText parenIdx
                        in if funcStart = parenIdx then []
                           else resolve (slice lineText funcStart parenIdx @ [CHR ''('', CHR 0x22] @
                             slice lineText (qStart + 1) qEnd @ [CHR 0x22, CHR '')'']))))"

definition CountNewlines :: "string \<Rightarrow> nat" where
  "CountNewlines s = count_list s newline"

section \<open>The call, read forwards\<close>

text \<open>
  The parentheses open at the end of a text, the innermost first, each with the commas read at its
  level: a closing parenthesis with none open is skipped.
\<close>

definition call_step :: "nat \<times> (nat \<times> nat) list \<Rightarrow> char \<Rightarrow> nat \<times> (nat \<times> nat) list" where
  "call_step = (\<lambda>(pos, stack) c.
     (pos + 1,
      if c = CHR ''('' then (pos, 0) # stack
      else if c = CHR '')'' then tl stack
      else if c = CHR '','' then (case stack of [] \<Rightarrow> [] | (i, commas) # rest \<Rightarrow> (i, commas + 1) # rest)
      else stack))"

definition open_calls :: "string \<Rightarrow> (nat \<times> nat) list" where
  "open_calls s = snd (foldl call_step (0, []) s)"

lemma call_step_pos: "fst (foldl call_step (p, stack) s) = p + length s"
  by (induction s arbitrary: p stack) (simp_all add: call_step_def)

lemma open_calls_snoc: "open_calls (s @ [c]) = snd (call_step (length s, open_calls s) c)"
proof -
  have "foldl call_step (0, []) s = (length s, open_calls s)" using call_step_pos[of 0 "[]" s] by (simp add: open_calls_def prod_eq_iff)
  then show ?thesis by (simp add: open_calls_def)
qed

lemma call_open_stack:
  "n \<le> length s \<Longrightarrow> call_open s n depth commas =
     (case drop depth (open_calls (take n s)) of [] \<Rightarrow> None | (i, k) # _ \<Rightarrow> Some (i, k + commas))"
proof (induction n arbitrary: depth commas)
  case 0
  then show ?case by (simp add: open_calls_def)
next
  case (Suc n)
  then have t: "take (Suc n) s = take n s @ [s ! n]" "n \<le> length s" "length (take n s) = n" by (simp_all add: take_Suc_conv_app_nth)
  let ?st = "open_calls (take n s)"
  show ?case
  proof (cases "s ! n \<in> {CHR ''('', CHR '')'', CHR '',''}")
    case False
    then show ?thesis using Suc.IH[OF t(2)] by (simp add: t open_calls_snoc call_step_def)
  next
    case True
    then consider "s ! n = CHR ''(''" | "s ! n = CHR '')''" | "s ! n = CHR '',''" by auto
    then show ?thesis
    proof cases
      case 1
      then show ?thesis using Suc.IH[OF t(2)] by (cases depth) (simp_all add: t open_calls_snoc call_step_def)
    next
      case 2
      then show ?thesis using Suc.IH[OF t(2)] by (simp add: t open_calls_snoc call_step_def drop_Suc)
    next
      case 3
      then show ?thesis
        using Suc.IH[OF t(2)] by (cases depth; cases ?st) (auto simp: t open_calls_snoc call_step_def split: prod.splits)
    qed
  qed
qed

text \<open>
  C35: The call at the cursor is that of the innermost parenthesis of the line still open there when the
  line is read from its start, and the argument the cursor is on is the number of commas read at its
  level; with none open there is no call.\<close>

theorem FindCallContext_innermost:
  "FindCallContext content line char =
     (case open_calls (take char (LineTextAt content line)) of
        [] \<Rightarrow> ([], [], 0)
      | (i, commas) # _ \<Rightarrow>
          (fst (calleeBefore (LineTextAt content line) i), snd (calleeBefore (LineTextAt content line) i), commas))"
proof -
  let ?l = "LineTextAt content line"
  have t: "take (min char (length ?l)) ?l = take char ?l" by (simp add: min_def)
  show ?thesis
  proof (cases "?l = []")
    case True
    then show ?thesis by (simp add: FindCallContext_def open_calls_def)
  next
    case False
    have "call_open ?l (min char (length ?l)) 0 0 = (case open_calls (take char ?l) of [] \<Rightarrow> None | (i, k) # _ \<Rightarrow> Some (i, k))"
      using call_open_stack[of "min char (length ?l)" ?l 0 0] by (simp add: t split: list.split)
    then show ?thesis
      using False by (cases "open_calls (take char ?l)") (auto simp: FindCallContext_def Let_def case_prod_unfold)
  qed
qed

lemma FindCallContext_examples:
  "FindCallContext ''a.b(1, f(x), '' 0 13 = (''b'', ''a'', 2)"
  "FindCallContext ''s(1).run(x'' 0 10 = (''run'', ''s(1)'', 0)"
  "FindCallContext ''f(x) + (g'' 0 4 = ([], [], 0)"
  by code_simp+

section \<open>The word at the cursor\<close>

lemma back_while_le: "back_while P s n \<le> n"
  by (induction n) auto

lemma back_while_all: "back_while P s n \<le> i \<Longrightarrow> i < n \<Longrightarrow> P (s ! i)"
  by (induction n) (auto simp: less_Suc_eq split: if_splits)

lemma back_while_stop: "0 < back_while P s n \<Longrightarrow> \<not> P (s ! (back_while P s n - 1))"
  by (induction n) auto

lemma fwd_while_bounds: "n \<le> length s \<Longrightarrow> n \<le> fwd_while P s n \<and> fwd_while P s n \<le> length s"
  using length_takeWhile_le[of P "drop n s"] by (simp add: fwd_while_def)

lemma fwd_while_all: "n \<le> i \<Longrightarrow> i < fwd_while P s n \<Longrightarrow> P (s ! i)"
proof -
  assume "n \<le> i" "i < fwd_while P s n"
  then have i: "i - n < length (takeWhile P (drop n s))" by (simp add: fwd_while_def)
  then have "P (takeWhile P (drop n s) ! (i - n))" using nth_mem set_takeWhileD by metis
  moreover have "i - n < length (drop n s)" using i length_takeWhile_le[of P "drop n s"] by simp
  ultimately show ?thesis using i \<open>n \<le> i\<close> takeWhile_nth[OF i] by simp
qed

lemma fwd_while_stop: "fwd_while P s n < length s \<Longrightarrow> \<not> P (s ! fwd_while P s n)"
  using nth_length_takeWhile[of P "drop n s"] by (simp add: fwd_while_def)

text \<open>
  The word at the cursor is the run of identifier bytes around it: all of its bytes are, the bytes on
  either side are not, and the cursor is within it or at one of its ends.\<close>

lemma WordAtPosition_run:
  fixes content line char
  defines "l \<equiv> LineTextAt content line" and "p \<equiv> min char (length (LineTextAt content line))"
  obtains i j where "WordAtPosition content line char = slice l i j" "i \<le> p" "p \<le> j" "j \<le> length l"
    "\<And>k. i \<le> k \<Longrightarrow> k < j \<Longrightarrow> IsWordChar (l ! k)" "0 < i \<Longrightarrow> \<not> IsWordChar (l ! (i - 1))" "j < length l \<Longrightarrow> \<not> IsWordChar (l ! j)"
proof -
  let ?i = "back_while IsWordChar l p" and ?j = "fwd_while IsWordChar l p"
  have p: "p \<le> length l" by (simp add: p_def l_def)
  have "IsWordChar (l ! k)" if "?i \<le> k" "k < ?j" for k
    using that back_while_all[of IsWordChar l p k] fwd_while_all[of p k IsWordChar l] by (cases "k < p") auto
  moreover have "WordAtPosition content line char = slice l ?i ?j" by (simp add: WordAtPosition_def l_def p_def Let_def)
  ultimately show ?thesis
    using that[of ?i ?j] back_while_le[of IsWordChar l p] fwd_while_bounds[OF p] back_while_stop[of IsWordChar l p] fwd_while_stop[of IsWordChar l p]
    by blast
qed

end
