(* ===== verification/Scanner_Props.thy ===== *)
theory Scanner_Props
  imports Scanner
begin

text \<open>
  What the scanner promises. The lookahead is a cache: a scanner that scans again each time answers
  every sequence of calls alike, comments included. And a token's line is the number of newlines
  before it, through every comment, every string that spans lines and every string whose nested
  scan is given up.
\<close>

section \<open>Scanning again\<close>

text \<open>
  One scan past comments and newlines as a function of the text: the token, where it ends, the last
  block comment crossed, if any, and how many there were.\<close>

function scan_past :: "string \<Rightarrow> bool \<Rightarrow> nat \<Rightarrow> nat \<Rightarrow> Token \<times> nat \<times> nat \<times> string option \<times> nat" where
  "scan_past s interp pos line =
     (let (tok, p, l) = scan_next s interp pos line
      in if tokKind tok = TokBlockComment then
           (let (t, p', l', c, n) = scan_past s interp p l
            in (t, p', l', Some (case c of None \<Rightarrow> tokValue tok | Some v \<Rightarrow> v), n + 1))
         else if tokKind tok = TokCFComment \<or> tokKind tok = TokLineComment \<or> tokKind tok = TokNewline then
           scan_past s interp p l
         else (tok, p, l, None, 0))"
  by pat_completeness auto
termination
proof (relation "measure (\<lambda>(s, interp, pos, line). length s - pos)", goal_cases)
  case (2 s interp pos line r tok r' p l)
  then have "scan_next s interp pos line = (tok, p, l)" by simp
  from scan_next_gt[OF this] show ?case using 2(4) by auto
next
  case (3 s interp pos line r tok r' p l)
  then have "scan_next s interp pos line = (tok, p, l)" by simp
  from scan_next_gt[OF this] show ?case using 3(5) by auto
qed simp

declare scan_past.simps [simp del]

definition with_comment :: "string option \<Rightarrow> string \<Rightarrow> string" where
  "with_comment c old = (case c of None \<Rightarrow> old | Some v \<Rightarrow> v)"

lemma skip_loop_past:
  "scan_past (src s) (interpStrings s) (sPos s) (sLine s) = (t, p, l, c, n) \<Longrightarrow>
   skip_loop s = (t, s\<lparr>sPos := p, sLine := l, LastBlockComment := with_comment c (LastBlockComment s),
     commentSeq := commentSeq s + of_nat n\<rparr>)"
proof (induction s arbitrary: c n rule: skip_loop.induct)
  case (1 s)
  obtain tok q m where N: "scan_next (src s) (interpStrings s) (sPos s) (sLine s) = (tok, q, m)"
    by (metis prod_cases3)
  let ?s = "s\<lparr>sPos := q, sLine := m\<rparr>"
  have raw: "next_raw s = (tok, ?s)" by (simp add: next_raw_def N)
  note P = 1(3)[unfolded scan_past.simps[of "src s" "interpStrings s" "sPos s" "sLine s"] N Let_def case_prod_conv]
  note L = skip_loop.simps[of s, unfolded raw Let_def case_prod_conv]
  consider (block) "tokKind tok = TokBlockComment"
    | (skip) "tokKind tok \<noteq> TokBlockComment" "tokKind tok = TokCFComment \<or> tokKind tok = TokLineComment \<or> tokKind tok = TokNewline"
    | (other) "tokKind tok \<noteq> TokBlockComment" "\<not> (tokKind tok = TokCFComment \<or> tokKind tok = TokLineComment \<or> tokKind tok = TokNewline)"
    by blast
  then show ?case
  proof cases
    case block
    obtain t' p' l' c' n' where R: "scan_past (src s) (interpStrings s) q m = (t', p', l', c', n')"
      by (metis prod_cases5)
    then have C: "t' = t" "p' = p" "l' = l" "c = Some (with_comment c' (tokValue tok))" "n = n' + 1"
      using P block by (auto simp: with_comment_def)
    show ?thesis using 1(1)[OF raw[symmetric] refl block, of c' n'] R C block
      unfolding L by (simp add: with_comment_def split: option.splits)
  next
    case skip
    then show ?thesis using 1(2)[OF raw[symmetric] refl skip, of c n] P unfolding L by simp
  next
    case other
    then have "t = tok" "p = q" "l = m" "c = None" "n = 0" using P by simp_all
    then show ?thesis using other unfolding L by (simp add: with_comment_def)
  qed
qed

text \<open>Each block comment is longer than nothing, so there are fewer of them than bytes.\<close>

lemma scan_past_count:
  "scan_past s interp pos line = (t, p, l, c, n) \<Longrightarrow> n \<le> length s - pos \<and> (c = None \<longleftrightarrow> n = 0)"
proof (induction s interp pos line arbitrary: t p l c n rule: scan_past.induct)
  case (1 s interp pos line)
  obtain tok q m where N: "scan_next s interp pos line = (tok, q, m)" by (metis prod_cases3)
  note P = 1(3)[unfolded scan_past.simps[of s interp pos line] N Let_def case_prod_conv]
  obtain t' p' l' c' n' where R: "scan_past s interp q m = (t', p', l', c', n')" by (metis prod_cases5)
  have gt: "tokKind tok \<noteq> TokEOF \<Longrightarrow> length s - q < length s - pos"
    using scan_next_gt[OF N] by auto
  show ?case
    using P R gt 1(1)[OF N[symmetric] refl refl _ R] 1(2)[OF N[symmetric] refl refl _ _ R]
    by (auto split: if_splits)
qed

section \<open>The lookahead is a cache\<close>

text \<open>What the parsers do with a scanner; \<open>Clear_Comment\<close> is \<open>LastBlockComment = ""\<close>.\<close>

datatype scan_op = Op_Next | Op_Peek | Op_Next_Skip | Op_Peek_Skip | Op_Restore ScannerState | Clear_Comment

fun scanner_op :: "scan_op \<Rightarrow> Scanner \<Rightarrow> Token option \<times> Scanner" where
  "scanner_op Op_Next s = map_prod Some id (Next s)"
| "scanner_op Op_Peek s = map_prod Some id (Peek s)"
| "scanner_op Op_Next_Skip s = map_prod Some id (NextSkipComments s)"
| "scanner_op Op_Peek_Skip s = map_prod Some id (PeekSkipComments s)"
| "scanner_op (Op_Restore st) s = (None, Restore st s)"
| "scanner_op Clear_Comment s = (None, s\<lparr>LastBlockComment := []\<rparr>)"

text \<open>What a caller sees of a run: each token with the position, the line and the comment after it.\<close>

fun scanner_run :: "scan_op list \<Rightarrow> Scanner \<Rightarrow> (Token option \<times> nat \<times> nat \<times> string) list" where
  "scanner_run [] s = []"
| "scanner_run (op # ops) s =
     (let (t, s') = scanner_op op s in (t, sPos s', sLine s', LastBlockComment s') # scanner_run ops s')"

text \<open>
  The specification: no token is kept. Looking ahead scans, takes the comment and goes back; taking a
  token scans again. All it remembers is that the comment of a lookahead has been taken.\<close>

record rescanner =
  rText :: string
  rInterp :: bool
  rPos :: nat
  rLine :: nat
  rComment :: string
  rLooked :: bool

definition rescan :: "rescanner \<Rightarrow> Token \<times> rescanner" where
  "rescan r =
     (let (t, p, l, c, n) = scan_past (rText r) (rInterp r) (rPos r) (rLine r)
      in (t, r\<lparr>rPos := p, rLine := l, rComment := with_comment c (rComment r), rLooked := False\<rparr>))"

fun rescanner_op :: "scan_op \<Rightarrow> rescanner \<Rightarrow> Token option \<times> rescanner" where
  "rescanner_op Op_Next r =
     (let (t, p, l) = scan_next (rText r) (rInterp r) (rPos r) (rLine r)
      in (Some t, r\<lparr>rPos := p, rLine := l, rLooked := False\<rparr>))"
| "rescanner_op Op_Peek r =
     (Some (fst (scan_next (rText r) (rInterp r) (rPos r) (rLine r))), r\<lparr>rLooked := False\<rparr>)"
| "rescanner_op Op_Next_Skip r = map_prod Some id (rescan r)"
| "rescanner_op Op_Peek_Skip r =
     (let (t, r') = rescan r
      in (Some t, if rLooked r then r else r\<lparr>rComment := rComment r', rLooked := True\<rparr>))"
| "rescanner_op (Op_Restore st) r = (None, r\<lparr>rPos := fst st, rLine := snd st, rLooked := False\<rparr>)"
| "rescanner_op Clear_Comment r = (None, r\<lparr>rComment := []\<rparr>)"

fun rescanner_run :: "scan_op list \<Rightarrow> rescanner \<Rightarrow> (Token option \<times> nat \<times> nat \<times> string) list" where
  "rescanner_run [] r = []"
| "rescanner_run (op # ops) r =
     (let (t, r') = rescanner_op op r in (t, rPos r', rLine r', rComment r') # rescanner_run ops r')"

definition forget :: "Scanner \<Rightarrow> rescanner" where
  "forget s = \<lparr>rText = src s, rInterp = interpStrings s, rPos = sPos s, rLine = sLine s,
     rComment = LastBlockComment s, rLooked = peeked s\<rparr>"

text \<open>The cache holds what scanning again from here would give.\<close>

definition cache_ok :: "Scanner \<Rightarrow> bool" where
  "cache_ok s \<longleftrightarrow> length (src s) < 2 ^ 32 \<and>
     (peeked s \<longrightarrow> (case scan_past (src s) (interpStrings s) (sPos s) (sLine s) of (t, p, l, c, n) \<Rightarrow>
        peekTok s = t \<and> peekPos s = p \<and> peekLine s = l \<and> peekSetComment s = (c \<noteq> None) \<and>
        (c \<noteq> None \<longrightarrow> Some (peekComment s) = c)))"

lemma seq_differs: "n < 2 ^ 32 \<Longrightarrow> n \<noteq> 0 \<Longrightarrow> (x :: 32 word) + of_nat n \<noteq> x"
  by (simp add: word_of_nat_eq_0_iff) (metis nat_dvd_not_less neq0_conv)

lemma NextSkip_forget:
  assumes "cache_ok s"
  shows "NextSkipComments s = (fst (rescan (forget s)), snd (NextSkipComments s)) \<and>
    forget (snd (NextSkipComments s)) = snd (rescan (forget s)) \<and> cache_ok (snd (NextSkipComments s))"
proof -
  obtain t p l c n where P: "scan_past (src s) (interpStrings s) (sPos s) (sLine s) = (t, p, l, c, n)"
    by (metis prod_cases5)
  show ?thesis
  proof (cases "peeked s")
    case True
    then show ?thesis using assms P
      by (cases c) (simp_all add: NextSkipComments_def rescan_def forget_def cache_ok_def with_comment_def)
  next
    case False
    then show ?thesis using assms skip_loop_past[OF P]
      by (simp add: NextSkipComments_def rescan_def forget_def cache_ok_def P)
  qed
qed

lemma PeekSkip_forget:
  assumes "cache_ok s"
  shows "map_prod Some forget (PeekSkipComments s) = rescanner_op Op_Peek_Skip (forget s) \<and>
    cache_ok (snd (PeekSkipComments s))"
proof -
  obtain t p l c n where P: "scan_past (src s) (interpStrings s) (sPos s) (sLine s) = (t, p, l, c, n)"
    by (metis prod_cases5)
  show ?thesis
  proof (cases "peeked s")
    case True
    then show ?thesis using assms P by (simp add: PeekSkipComments_def rescan_def forget_def cache_ok_def)
  next
    case False
    have len: "length (src s) < 2 ^ 32" using assms by (simp add: cache_ok_def)
    have n: "n \<le> length (src s) - sPos s" "c = None \<longleftrightarrow> n = 0" using scan_past_count[OF P] by auto
    then have "n < 2 ^ 32" using len by linarith
    then have "commentSeq s + of_nat n \<noteq> commentSeq s \<longleftrightarrow> c \<noteq> None"
      using seq_differs[of n "commentSeq s"] n(2) by auto
    then show ?thesis using False skip_loop_past[OF P] len
      by (cases c) (simp_all add: PeekSkipComments_def NextSkipComments_def rescan_def forget_def cache_ok_def P with_comment_def)
  qed
qed

lemma scanner_op_forget:
  assumes "cache_ok s"
  shows "map_prod id forget (scanner_op op s) = rescanner_op op (forget s) \<and> cache_ok (snd (scanner_op op s))"
proof (cases op)
  case Op_Next_Skip
  then show ?thesis using NextSkip_forget[OF assms] by (cases "NextSkipComments s") (auto simp: map_prod_def split: prod.splits)
next
  case Op_Peek_Skip
  then show ?thesis using PeekSkip_forget[OF assms] by (cases "PeekSkipComments s") (auto simp: map_prod_def split: prod.splits)
qed (use assms in \<open>auto simp: Next_def Peek_def next_raw_def Restore_def forget_def cache_ok_def split: prod.splits\<close>)

lemma scanner_run_forget: "cache_ok s \<Longrightarrow> scanner_run ops s = rescanner_run ops (forget s)"
proof (induction ops arbitrary: s)
  case (Cons op ops)
  obtain t s' where O: "scanner_op op s = (t, s')" by (cases "scanner_op op s")
  then have "rescanner_op op (forget s) = (t, forget s')" "cache_ok s'"
    using scanner_op_forget[OF Cons.prems, of op] by auto
  then show ?case using O Cons.IH[of s'] by (simp add: forget_def)
qed simp

text \<open>
  The scanner's one token of lookahead is only a cache. Whatever a parser does in whatever order
  (take or look at the next token, with or without comments, go back, clear the doc comment), it sees
  the tokens, positions, lines and doc comments it would see if every look scanned the text again;
  the 32-bit count by which a look notices a comment does not wrap on a file below four gigabytes.\<close>

theorem lookahead_refines_rescanning:
  assumes "length s < 2 ^ 32"
  shows "scanner_run ops ((NewScanner s)\<lparr>interpStrings := b\<rparr>) =
    rescanner_run ops (forget ((NewScanner s)\<lparr>interpStrings := b\<rparr>))"
  by (rule scanner_run_forget) (use assms in \<open>simp add: cache_ok_def NewScanner_def\<close>)

definition sample_script :: string where
  "sample_script = ''/** doc */ a'' @ [newline] @ ''// x'' @ [newline] @ ''b''"

lemma lookahead_refines_rescanning_witness:
  "scanner_run [Op_Peek_Skip, Clear_Comment, Op_Next_Skip, Op_Peek_Skip] ((NewScanner sample_script)\<lparr>interpStrings := True\<rparr>) =
   rescanner_run [Op_Peek_Skip, Clear_Comment, Op_Next_Skip, Op_Peek_Skip]
     (forget ((NewScanner sample_script)\<lparr>interpStrings := True\<rparr>))"
  by (rule lookahead_refines_rescanning) code_simp

section \<open>Lines\<close>

definition newlines_before :: "string \<Rightarrow> nat \<Rightarrow> nat" where
  "newlines_before s n = count_list (take n s) newline"

text \<open>\<open>line_ok s p l\<close>: an offset of the text with its line.\<close>

definition line_ok :: "string \<Rightarrow> nat \<Rightarrow> nat \<Rightarrow> bool" where
  "line_ok s p l \<longleftrightarrow> p \<le> length s \<and> l = newlines_before s p"

lemma line_ok_total: "line_ok s p l \<Longrightarrow> l \<le> count_list s newline"
  by (metis append_take_drop_id count_list_append le_add1 line_ok_def newlines_before_def)

lemma line_ok_Suc:
  "line_ok s p l \<Longrightarrow> p < length s \<Longrightarrow> line_ok s (Suc p) (if s ! p = newline then Suc l else l)"
  by (simp add: line_ok_def newlines_before_def take_Suc_conv_app_nth)

lemma line_ok_newline: "line_ok s p l \<Longrightarrow> p < length s \<Longrightarrow> s ! p = newline \<Longrightarrow> line_ok s (p + 1) (l + 1)"
  using line_ok_Suc[of s p l] by simp

lemma line_ok_other: "line_ok s p l \<Longrightarrow> p < length s \<Longrightarrow> s ! p \<noteq> newline \<Longrightarrow> line_ok s (p + 1) l"
  using line_ok_Suc[of s p l] by simp

lemma line_ok_two:
  "line_ok s p l \<Longrightarrow> p + 1 < length s \<Longrightarrow> s ! p \<noteq> newline \<Longrightarrow> s ! (p + 1) \<noteq> newline \<Longrightarrow> line_ok s (p + 2) l"
  using line_ok_other[OF line_ok_other, of s p l] by simp

lemma line_ok_skip:
  assumes "line_ok s p l" "p \<le> q" "q \<le> length s" "newline \<notin> set (slice s p q)"
  shows "line_ok s q l"
proof -
  have "take q s = take p s @ slice s p q"
    using assms(2) slice_append[of 0 p q s] by (simp add: slice_def)
  then show ?thesis using assms by (simp add: line_ok_def newlines_before_def count_notin)
qed

lemma skip_blanks_line:
  "line_ok s p l \<Longrightarrow> line_ok s (skip_blanks s p) l"
proof (induction s p rule: skip_blanks.induct)
  case (1 s pos)
  have "s ! pos \<in> {CHR '' '', CHR 0x09, CHR 0x0D} \<Longrightarrow> s ! pos \<noteq> newline" by auto
  then show ?case using 1 line_ok_other[of s pos l] by (subst skip_blanks.simps) auto
qed

lemma opens_line:
  assumes "line_ok s p l" "p + 4 < length s" "slice s p (p + 5) = ''<!---''"
  shows "line_ok s (p + 5) l"
  by (rule line_ok_skip[OF assms(1)]) (use assms in auto)

lemma cf_comment_line:
  "line_ok s p l \<Longrightarrow> case cf_comment s depth p l of (q, m) \<Rightarrow> line_ok s q m"
proof (induction s depth p l rule: cf_comment.induct)
  case (1 s depth pos line)
  note E = cf_comment.simps[of s depth pos line]
  let ?opens = "pos + 4 < length s \<and> slice s pos (pos + 5) = ''<!---''"
  let ?closes = "pos + 2 < length s \<and> s ! pos = CHR ''-'' \<and> s ! (pos + 1) = CHR ''-'' \<and> s ! (pos + 2) = gt_char"
  show ?case
  proof (cases "pos < length s \<and> 0 < depth")
    case False
    then show ?thesis using 1(4) by (subst E) (simp only: if_False case_prod_conv)
  next
    case run: True
    note E1 = E[unfolded if_P[OF run]]
    show ?thesis
    proof (cases ?opens)
      case True
      show ?thesis unfolding E1 if_P[OF True] by (rule 1(1)[OF run True opens_line[OF 1(4)]]) (use True in auto)
    next
      case no: False
      show ?thesis
      proof (cases ?closes)
        case True
        then have "line_ok s (pos + 2 + 1) line" by (intro line_ok_other[OF line_ok_two[OF 1(4)]]) auto
        then show ?thesis unfolding E1 if_not_P[OF no] if_P[OF True] using 1(2)[OF run no True] by (simp add: eval_nat_numeral)
      next
        case False
        show ?thesis unfolding E1 if_not_P[OF no] if_not_P[OF False]
          by (rule 1(3)[OF run no False]) (use line_ok_Suc[OF 1(4)] run in \<open>auto split: if_splits\<close>)
      qed
    qed
  qed
qed

lemma block_comment_line:
  "line_ok s p l \<Longrightarrow> case block_comment s p l of (q, m) \<Rightarrow> line_ok s q m"
proof (induction s p l rule: block_comment.induct)
  case (1 s pos line)
  note E = block_comment.simps[of s pos line]
  let ?closes = "s ! pos = CHR ''*'' \<and> pos + 1 < length s \<and> s ! (pos + 1) = CHR ''/''"
  show ?case
  proof (cases "pos < length s")
    case run: True
    show ?thesis
    proof (cases ?closes)
      case True
      then have "line_ok s (pos + 2) line" by (intro line_ok_two[OF 1(2)]) auto
      then show ?thesis unfolding E if_P[OF run] if_P[OF True] by simp
    next
      case False
      show ?thesis unfolding E if_P[OF run] if_not_P[OF False]
        by (rule 1(1)[OF run False]) (use line_ok_Suc[OF 1(2) run] in \<open>auto split: if_splits\<close>)
    qed
  qed (use 1(2) in \<open>simp add: E\<close>)
qed

lemma line_comment_line: "line_ok s p l \<Longrightarrow> line_ok s (line_comment s p) l"
  by (induction s p rule: line_comment.induct) (subst line_comment.simps, auto dest: line_ok_other)

lemma quoted_plain_line:
  "line_ok s p l \<Longrightarrow> q \<noteq> newline \<Longrightarrow> case quoted_plain s q p l of (p', l') \<Rightarrow> line_ok s p' l'"
proof (induction s q p l rule: quoted_plain.induct)
  case (1 s q pos line)
  note E = quoted_plain.simps[of s q pos line]
  let ?doubled = "pos + 1 < length s \<and> s ! (pos + 1) = q"
  consider (stop) "\<not> pos < length s" | (doubled) "pos < length s" "s ! pos = q" ?doubled
    | (close) "pos < length s" "s ! pos = q" "\<not> ?doubled" | (line) "pos < length s" "s ! pos \<noteq> q" "s ! pos = newline"
    | (other) "pos < length s" "s ! pos \<noteq> q" "s ! pos \<noteq> newline" by blast
  then show ?case
  proof cases
    case stop
    then show ?thesis using 1(4) by (simp add: E)
  next
    case doubled
    then have "line_ok s (pos + 2) line" using 1(4,5) by (intro line_ok_two) auto
    from 1(1)[OF doubled this 1(5)] show ?thesis using doubled by (simp add: E)
  next
    case close
    then show ?thesis using line_ok_other[OF 1(4)] 1(5) by (auto simp: E)
  next
    case line
    from 1(2)[OF line line_ok_newline[OF 1(4) line(1,3)] 1(5)] show ?thesis using line by (simp add: E)
  next
    case other
    from 1(3)[OF other line_ok_other[OF 1(4) other(1,3)] 1(5)] show ?thesis using other by (simp add: E)
  qed
qed

lemma quoted_line:
  "quoted s q depth p l = Some (p', l') \<Longrightarrow> line_ok s p l \<Longrightarrow> q \<noteq> newline \<Longrightarrow> line_ok s p' l'"
  "hash_expr s depth p l = Some (p', l') \<Longrightarrow> line_ok s p l \<Longrightarrow> line_ok s p' l'"
proof (induction s q depth p l and s depth p l arbitrary: p' l' and p' l' rule: quoted_hash_expr.induct)
  case (1 s q depth pos line)
  note E = 1(7)[unfolded quoted.simps[of s q depth pos line]]
  have n: "\<not> length s \<le> pos" using E by (simp split: if_splits)
  then have pos: "pos < length s" by simp
  note E1 = E[unfolded if_not_P[OF n]]
  let ?doubled = "\<lambda>c. pos + 1 < length s \<and> s ! (pos + 1) = c"
  have two: "line_ok s (pos + 2) line" if "s ! pos = c" "?doubled c" "c \<noteq> newline" for c
    using that 1(8) by (intro line_ok_two) auto
  consider (doubled) "s ! pos = q" "?doubled q" | (close) "s ! pos = q" "\<not> ?doubled q"
    | (escaped) "s ! pos \<noteq> q" "s ! pos = CHR ''#''" "?doubled CHR ''#''"
    | (hash) "s ! pos \<noteq> q" "s ! pos = CHR ''#''" "\<not> ?doubled CHR ''#''"
    | (line) "s ! pos \<noteq> q" "s ! pos \<noteq> CHR ''#''" "s ! pos = newline"
    | (other) "s ! pos \<noteq> q" "s ! pos \<noteq> CHR ''#''" "s ! pos \<noteq> newline" by blast
  then show ?case
  proof cases
    case doubled
    then show ?thesis using E1 1(1)[OF n doubled _ two[OF doubled 1(9)] 1(9)] by simp
  next
    case close
    then show ?thesis using E1 line_ok_other[OF 1(8) pos] 1(9) by auto
  next
    case escaped
    then show ?thesis using E1 1(2)[OF n escaped _ two[OF escaped(2,3)] 1(9)] by simp
  next
    case hash
    note E2 = E1[unfolded if_not_P[OF hash(1)] if_P[OF hash(2)] if_not_P[OF hash(3)]]
    have d: "\<not> maxStringNesting \<le> depth + 1" using E2 by (simp split: if_splits)
    obtain p1 l1 where h: "hash_expr s (depth + 1) (pos + 1) line = Some (p1, l1)" "quoted s q depth p1 l1 = Some (p', l')"
      using E2 d by (auto split: option.splits)
    have "line_ok s (pos + 1) line" using line_ok_other[OF 1(8) pos] hash(2) by simp
    from 1(4)[OF n hash d h(1) refl h(2) 1(3)[OF n hash d h(1) this] 1(9)] show ?thesis .
  next
    case line
    then show ?thesis using E1 1(5)[OF n line _ line_ok_newline[OF 1(8) pos line(3)] 1(9)] by simp
  next
    case other
    then show ?thesis using E1 1(6)[OF n other _ line_ok_other[OF 1(8) pos other(3)] 1(9)] by simp
  qed
next
  case (2 s depth pos line)
  note E = 2(5)[unfolded hash_expr.simps[of s depth pos line]]
  have n: "\<not> length s \<le> pos" using E by (simp split: if_splits)
  then have pos: "pos < length s" by simp
  note E1 = E[unfolded if_not_P[OF n]]
  let ?quote = "s ! pos = dquote \<or> s ! pos = squote"
  consider (hash) "s ! pos = CHR ''#''" | (quote) "s ! pos \<noteq> CHR ''#''" ?quote
    | (line) "s ! pos \<noteq> CHR ''#''" "\<not> ?quote" "s ! pos = newline"
    | (other) "s ! pos \<noteq> CHR ''#''" "\<not> ?quote" "s ! pos \<noteq> newline" by blast
  then show ?case
  proof cases
    case hash
    then show ?thesis using E1 line_ok_other[OF 2(6) pos] by auto
  next
    case quote
    note E2 = E1[unfolded if_not_P[OF quote(1)] if_P[OF quote(2)]]
    have d: "\<not> maxStringNesting \<le> depth + 1" using E2 by (simp split: if_splits)
    obtain p1 l1 where h: "quoted s (s ! pos) (depth + 1) (pos + 1) line = Some (p1, l1)" "hash_expr s depth p1 l1 = Some (p', l')"
      using E2 d by (auto split: option.splits)
    have q: "s ! pos \<noteq> newline" using quote(2) by auto
    from 2(2)[OF n quote d h(1) refl h(2) 2(1)[OF n quote d h(1) line_ok_other[OF 2(6) pos q] q]] show ?thesis .
  next
    case line
    then show ?thesis using E1 2(3)[OF n line _ line_ok_newline[OF 2(6) pos line(3)]] by simp
  next
    case other
    then show ?thesis using E1 2(4)[OF n other _ line_ok_other[OF 2(6) pos other(3)]] by simp
  qed
qed

lemma scanString_line:
  assumes "line_ok s p l" "p < length s" "s ! p \<noteq> newline"
  shows "case scanString s interp p l of (p', l') \<Rightarrow> line_ok s p' l'"
proof (cases "if interp then scanQuoted s 0 p l else None")
  case None
  show ?thesis unfolding scanString_def None option.case scanQuotedPlain_def
    by (rule quoted_plain_line[OF line_ok_other[OF assms] assms(3)])
next
  case (Some r)
  then have "quoted s (s ! p) 0 (p + 1) l = Some (fst r, snd r)"
    by (simp add: scanQuoted_def split: if_splits)
  from quoted_line(1)[OF this line_ok_other[OF assms] assms(3)] show ?thesis
    unfolding scanString_def Some by (simp add: case_prod_unfold)
qed

lemma span_while_line:
  assumes "line_ok s p l" "\<not> P newline"
  shows "line_ok s (span_while P s p) l"
proof (rule line_ok_skip[OF assms(1)])
  have "slice s p (span_while P s p) = takeWhile P (drop p s)"
    by (simp add: slice_def span_while_def takeWhile_eq_take[symmetric])
  then show "newline \<notin> set (slice s p (span_while P s p))" using assms(2) by (auto dest: set_takeWhileD)
  show "span_while P s p \<le> length s"
    using assms(1) length_takeWhile_le[of P "drop p s"] by (auto simp: span_while_def line_ok_def)
qed (simp add: span_while_def)

lemma NewScanner_line: "line_ok s (sPos (NewScanner s)) 0"
proof (cases "HasPrefix s bomUTF8")
  case True
  then have p: "take 3 s = bomUTF8" by (simp add: bomUTF8_def eval_nat_numeral)
  have "3 \<le> length s" using arg_cong[OF p, of length] by (simp add: bomUTF8_def)
  moreover have "newline \<notin> set (slice s 0 3)" using p by (simp add: slice_def bomUTF8_def)
  moreover have "line_ok s 0 0" by (simp add: line_ok_def newlines_before_def)
  ultimately have "line_ok s 3 0" by (metis line_ok_skip le0)
  moreover have "sPos (NewScanner s) = 3" unfolding NewScanner_def using True by (simp add: bomUTF8_def)
  ultimately show ?thesis by simp
qed (simp add: NewScanner_def line_ok_def newlines_before_def)

text \<open>A token and where it ends, both at their lines.\<close>

definition token_ok :: "string \<Rightarrow> Token \<times> nat \<times> nat \<Rightarrow> bool" where
  "token_ok s r \<longleftrightarrow> line_ok s (tokOffset (fst r)) (tokLine (fst r)) \<and> line_ok s (fst (snd r)) (snd (snd r))"

lemma token_ok_at:
  "line_ok s p l \<Longrightarrow> (case r of (q, m) \<Rightarrow> line_ok s q m) \<Longrightarrow> token_ok s (token_at s kind p l r)"
  by (cases r) (simp add: token_ok_def token_at_def)

lemma token_ok_if: "(c \<Longrightarrow> P a) \<Longrightarrow> (\<not> c \<Longrightarrow> P b) \<Longrightarrow> P (if c then a else b)"
  by simp

lemma scan_at_line:
  assumes "line_ok s p l" "p < length s"
  shows "token_ok s (scan_at s interp p l)"
proof -
  have two: "line_ok s (p + 2) l" if "p + 1 < length s \<and> s ! (p + 1) = c" "s ! p = d" "c \<noteq> newline" "d \<noteq> newline" for c d
    using that line_ok_two[OF assms(1)] by auto
  have fixed: "token_ok s (\<lparr>tokKind = kind, tokValue = v, tokOffset = p, tokLine = l\<rparr>, q, m)"
    if "line_ok s q m" for kind v q m using that assms(1) by (simp add: token_ok_def)
  show ?thesis unfolding scan_at_def Let_def
  proof (intro token_ok_if[where P = "token_ok s"])
    assume "s ! p = newline"
    then show "token_ok s (\<lparr>tokKind = TokNewline, tokValue = [newline], tokOffset = p, tokLine = l\<rparr>, p + 1, l + 1)"
      by (intro fixed line_ok_newline[OF assms])
  next
    assume "s ! p = lt_char \<and> opens_comment s p"
    then have "line_ok s (p + 5) l" by (intro opens_line[OF assms(1)]) (auto simp: opens_comment_def)
    then show "token_ok s (token_at s TokCFComment p l (scanCFComment s p l))"
      unfolding scanCFComment_def by (intro token_ok_at[OF assms(1)] cf_comment_line)
  next
    assume "s ! p = CHR ''/'' \<and> p + 1 < length s \<and> s ! (p + 1) = CHR ''*''"
    then have "line_ok s (p + 2) l" by (intro two) auto
    then show "token_ok s (token_at s TokBlockComment p l (scanBlockComment s p l))"
      unfolding scanBlockComment_def by (intro token_ok_at[OF assms(1)] block_comment_line)
  next
    assume "s ! p = CHR ''/'' \<and> p + 1 < length s \<and> s ! (p + 1) = CHR ''/''"
    then have "line_ok s (p + 2) l" by (intro two) auto
    then show "token_ok s (token_at s TokLineComment p l (scanLineComment s p, l))"
      unfolding scanLineComment_def by (intro token_ok_at[OF assms(1)]) (simp add: line_comment_line)
  next
    assume "s ! p \<noteq> newline"
    then show "token_ok s (token_at s TokString p l (scanString s interp p l))"
      by (intro token_ok_at[OF assms(1)] scanString_line[OF assms])
  next
    show "token_ok s (token_at s TokNumber p l (span_while (\<lambda>c. isDigit c \<or> c = CHR ''.'') s p, l))"
      by (intro token_ok_at[OF assms(1)]) (simp add: span_while_line[OF assms(1)] isDigit_def within_def less_eq_char_def)
  next
    show "token_ok s (token_at s TokIdent p l (span_while isIdentPart s p, l))"
      by (intro token_ok_at[OF assms(1)])
        (simp add: span_while_line[OF assms(1)] isIdentPart_def isIdentStart_def isDigit_def within_def less_eq_char_def)
  next
    assume "s ! p = CHR ''?'' \<and> p + 1 < length s \<and> s ! (p + 1) = CHR ''.''"
    then show "token_ok s (\<lparr>tokKind = TokDot, tokValue = ''.'', tokOffset = p, tokLine = l\<rparr>, p + 2, l)"
      by (intro fixed two) auto
  next
    assume "s ! p = CHR '':'' \<and> p + 1 < length s \<and> s ! (p + 1) = CHR '':''"
    then show "token_ok s (\<lparr>tokKind = TokDoubleColon, tokValue = ''::'', tokOffset = p, tokLine = l\<rparr>, p + 2, l)"
      by (intro fixed two) auto
  next
    assume "s ! p \<noteq> newline"
    then show "token_ok s (\<lparr>tokKind = charToKind (s ! p), tokValue = singleByteString (s ! p), tokOffset = p, tokLine = l\<rparr>, p + 1, l)"
      by (intro fixed line_ok_other[OF assms])
  qed
qed

lemma scan_next_line:
  assumes "line_ok s p l"
  shows "token_ok s (scan_next s interp p l)"
proof -
  note b = skip_blanks_line[OF assms]
  show ?thesis using b scan_at_line[OF b]
    by (auto simp: scan_next_def Let_def token_ok_def)
qed

lemma scan_past_line:
  "line_ok s p l \<Longrightarrow> case scan_past s interp p l of (t, q, m, c, n) \<Rightarrow> token_ok s (t, q, m)"
proof (induction s interp p l rule: scan_past.induct)
  case (1 s interp pos line)
  obtain tok q m where N: "scan_next s interp pos line = (tok, q, m)" by (metis prod_cases3)
  obtain t' p' l' c' n' where R: "scan_past s interp q m = (t', p', l', c', n')" by (metis prod_cases5)
  have ok: "token_ok s (tok, q, m)" using scan_next_line[OF 1(3), of interp] N by simp
  then have "line_ok s q m" by (simp add: token_ok_def)
  then show ?case
    using 1(1)[OF N[symmetric] refl refl] 1(2)[OF N[symmetric] refl refl] R ok
    by (subst scan_past.simps) (auto simp: N Let_def)
qed

definition rescanner_ok :: "rescanner \<Rightarrow> bool" where
  "rescanner_ok r \<longleftrightarrow> line_ok (rText r) (rPos r) (rLine r)"

definition op_ok :: "string \<Rightarrow> scan_op \<Rightarrow> bool" where
  "op_ok s op = (case op of Op_Restore st \<Rightarrow> line_ok s (fst st) (snd st) | _ \<Rightarrow> True)"

lemma rescanner_op_line:
  assumes "rescanner_ok r" "op_ok (rText r) op" "rescanner_op op r = (t, r')"
  shows "rescanner_ok r' \<and> rText r' = rText r \<and> (\<forall>tok. t = Some tok \<longrightarrow> line_ok (rText r) (tokOffset tok) (tokLine tok))"
proof -
  have line: "line_ok (rText r) (rPos r) (rLine r)" using assms(1) by (simp add: rescanner_ok_def)
  note tok = scan_next_line[OF line, of "rInterp r"] and past = scan_past_line[OF line, of "rInterp r"]
  show ?thesis
    using assms tok past
    by (cases op; cases "scan_next (rText r) (rInterp r) (rPos r) (rLine r)";
        cases "scan_past (rText r) (rInterp r) (rPos r) (rLine r)")
      (auto simp: rescanner_ok_def op_ok_def rescan_def token_ok_def Let_def split: if_splits)
qed

definition seen_ok :: "string \<Rightarrow> Token option \<times> nat \<times> nat \<times> string \<Rightarrow> bool" where
  "seen_ok s r = (case r of (t, p, l, c) \<Rightarrow>
     line_ok s p l \<and> (case t of None \<Rightarrow> True | Some tok \<Rightarrow> line_ok s (tokOffset tok) (tokLine tok)))"

lemma rescanner_run_line:
  "rescanner_ok r \<Longrightarrow> list_all (op_ok (rText r)) ops \<Longrightarrow> list_all (seen_ok (rText r)) (rescanner_run ops r)"
proof (induction ops arbitrary: r)
  case (Cons op ops)
  obtain t r' where O: "rescanner_op op r = (t, r')" by (cases "rescanner_op op r")
  then have "rescanner_ok r' \<and> rText r' = rText r \<and> (\<forall>tok. t = Some tok \<longrightarrow> line_ok (rText r) (tokOffset tok) (tokLine tok))"
    using rescanner_op_line[OF Cons.prems(1) _ O] Cons.prems(2) by simp
  then show ?case using O Cons.IH[of r'] Cons.prems(2)
    by (auto simp: seen_ok_def rescanner_ok_def split: option.splits)
qed simp

text \<open>
  C24: Every token a scanner ever gives out, and every place it stops at, has the line its offset is on:
  the newlines before it in the text, through comments, strings over several lines, nested strings
  that are given up and read again plainly, lookahead and going back.\<close>

theorem scanner_lines:
  assumes "length s < 2 ^ 32" and "list_all (op_ok s) ops"
  shows "list_all (seen_ok s) (scanner_run ops ((NewScanner s)\<lparr>interpStrings := b\<rparr>))"
proof -
  let ?s = "(NewScanner s)\<lparr>interpStrings := b\<rparr>"
  have "scanner_run ops ?s = rescanner_run ops (forget ?s)"
    by (rule scanner_run_forget) (use assms(1) in \<open>simp add: cache_ok_def NewScanner_def\<close>)
  moreover have "rescanner_ok (forget ?s)"
  proof -
    have "line_ok s 0 0" by (simp add: line_ok_def newlines_before_def)
    moreover have "line_ok s 3 0" if "HasPrefix s bomUTF8"
    proof (rule line_ok_skip[OF \<open>line_ok s 0 0\<close>])
      have p: "take 3 s = bomUTF8" using that by (simp add: bomUTF8_def eval_nat_numeral)
      then show "newline \<notin> set (slice s 0 3)" by (simp add: slice_def bomUTF8_def)
      show "3 \<le> length s" using arg_cong[OF p, of length] by (simp add: bomUTF8_def)
    qed simp
    ultimately show ?thesis
      by (simp add: rescanner_ok_def forget_def NewScanner_def) (simp add: bomUTF8_def eval_nat_numeral)
  qed
  moreover have "rText (forget ?s) = s" by (simp add: forget_def NewScanner_def)
  ultimately show ?thesis using rescanner_run_line[of "forget ?s" ops] assms(2) by simp
qed

lemma scanner_lines_witness:
  "list_all (seen_ok sample_script)
    (scanner_run [Op_Peek_Skip, Op_Next_Skip, Op_Restore (0, 0), Op_Next] ((NewScanner sample_script)\<lparr>interpStrings := True\<rparr>))"
  by (rule scanner_lines) code_simp+

text \<open>
  The scanner and the split into regions disagree about where a CFML comment ends: \<open>scanCFComment\<close> stops
  at \<open>-->\<close>, \<open>skipCFMLComment\<close> at \<open>--->\<close>.\<close>

lemma comment_ends_differ:
  "scanCFComment ''<!--- a --> b --->'' 0 0 = (11, 0)" "skipCFMLComment ''<!--- a --> b --->'' 0 = 18"
  by code_simp+

end
