(* ===== verification/Token_Stream.thy ===== *)
theory Token_Stream
  imports Scanner_Props
begin

text \<open>
  What a parser sees of a scanner: the tokens that are not comments or newlines, in order, and where the
  text stops. The parsers below are functions on such a stream; the locale \<open>token_source\<close> is what they
  rely on (\<open>NextSkipComments\<close>, \<open>PeekSkipComments\<close>, \<open>Save\<close> and \<open>Restore\<close>), and the scanner provides it.
  The end of a text is given again however often it is read.
\<close>

section \<open>Streams\<close>

record stream =
  toks :: "Token list"
  stop :: "nat \<times> nat"

definition eof_token :: "stream \<Rightarrow> Token" where
  "eof_token st = \<lparr>tokKind = TokEOF, tokValue = [], tokOffset = fst (stop st), tokLine = snd (stop st)\<rparr>"

definition NextTok :: "stream \<Rightarrow> Token \<times> stream" where
  "NextTok st = (case toks st of [] \<Rightarrow> (eof_token st, st) | t # ts \<Rightarrow> (t, st\<lparr>toks := ts\<rparr>))"

definition PeekTok :: "stream \<Rightarrow> Token" where
  "PeekTok st = fst (NextTok st)"

definition PeekKind :: "stream \<Rightarrow> TokenKind" where
  "PeekKind st = tokKind (PeekTok st)"

definition DropTok :: "stream \<Rightarrow> stream" where
  "DropTok st = snd (NextTok st)"

text \<open>\<open>ahead st st'\<close>: the second is what is left of the first after some tokens.\<close>

definition ahead :: "stream \<Rightarrow> stream \<Rightarrow> bool" where
  "ahead st st' \<longleftrightarrow> (\<exists>us. toks st = us @ toks st') \<and> stop st' = stop st"

lemma ahead_refl [simp, intro]: "ahead st st"
  by (simp add: ahead_def)

lemma ahead_trans [trans]: "ahead a b \<Longrightarrow> ahead b c \<Longrightarrow> ahead a c"
  by (auto simp: ahead_def)

lemma ahead_length: "ahead st st' \<Longrightarrow> length (toks st') \<le> length (toks st)"
  by (auto simp: ahead_def)

lemma ahead_tokens: "ahead st st' \<Longrightarrow> set (toks st') \<subseteq> set (toks st)"
  by (auto simp: ahead_def)

lemma NextTok_ahead: "NextTok st = (t, st') \<Longrightarrow> ahead st st'"
  by (auto simp: NextTok_def ahead_def split: list.splits)

lemma NextTok_less: "NextTok st = (t, st') \<Longrightarrow> tokKind t \<noteq> TokEOF \<Longrightarrow> length (toks st') < length (toks st)"
  by (auto simp: NextTok_def eof_token_def split: list.splits)

lemma NextTok_mem: "NextTok st = (t, st') \<Longrightarrow> tokKind t \<noteq> TokEOF \<Longrightarrow> t \<in> set (toks st)"
  by (auto simp: NextTok_def eof_token_def split: list.splits)

lemma DropTok_ahead [simp, intro]: "ahead st (DropTok st)"
  using NextTok_ahead[of st "fst (NextTok st)" "snd (NextTok st)"] by (simp add: DropTok_def)

lemma DropTok_less: "PeekKind st \<noteq> TokEOF \<Longrightarrow> length (toks (DropTok st)) < length (toks st)"
  using NextTok_less[of st "fst (NextTok st)" "snd (NextTok st)"] by (simp add: DropTok_def PeekKind_def PeekTok_def)

lemma PeekTok_mem: "PeekKind st \<noteq> TokEOF \<Longrightarrow> PeekTok st \<in> set (toks st)"
  using NextTok_mem[of st "fst (NextTok st)" "snd (NextTok st)"] by (simp add: PeekTok_def PeekKind_def)

section \<open>The stream of a text\<close>

lemma scan_past_gt:
  "scan_past s interp pos line = (t, p, l, c, n) \<Longrightarrow> tokKind t \<noteq> TokEOF \<Longrightarrow> pos < p"
proof (induction s interp pos line arbitrary: t p l c n rule: scan_past.induct)
  case (1 s interp pos line)
  obtain tok q m where N: "scan_next s interp pos line = (tok, q, m)" by (metis prod_cases3)
  note P = 1(3)[unfolded scan_past.simps[of s interp pos line] N Let_def case_prod_conv]
  obtain t' p' l' c' n' where R: "scan_past s interp q m = (t', p', l', c', n')" by (metis prod_cases5)
  have gt: "tokKind tok \<noteq> TokEOF \<Longrightarrow> pos < q" using scan_next_gt[OF N] by auto
  show ?case
    using P R gt 1(4) 1(1)[OF N[symmetric] refl refl _ R] 1(2)[OF N[symmetric] refl refl _ _ R]
    by (auto split: if_splits)
qed

function toks_at :: "string \<Rightarrow> bool \<Rightarrow> nat \<Rightarrow> nat \<Rightarrow> Token list \<times> nat \<times> nat" where
  "toks_at s interp pos line =
     (let (t, p, l, c, n) = scan_past s interp pos line
      in if tokKind t = TokEOF then ([], tokOffset t, tokLine t)
         else let (ts, e) = toks_at s interp p l in (t # ts, e))"
  by pat_completeness auto
termination
proof (relation "measure (\<lambda>(s, interp, pos, line). Suc (length s) - pos)", goal_cases)
  case (2 s interp pos line r t r1 p r2 l r3 c n)
  then have P: "scan_past s interp pos line = (t, p, l, c, n)" by simp
  have "pos < p" using scan_past_gt[OF P 2(6)] .
  moreover have "pos \<le> length s" using P 2(6)
    by (cases "length s < pos") (auto simp: scan_past.simps[of s interp pos line] scan_next_def Let_def skip_blanks.simps[of s pos])
  ultimately show ?case by simp
qed simp

declare toks_at.simps [simp del]

definition stream_at :: "string \<Rightarrow> bool \<Rightarrow> nat \<Rightarrow> nat \<Rightarrow> stream" where
  "stream_at s interp pos line =
     (let (ts, e) = toks_at s interp pos line in \<lparr>toks = ts, stop = e\<rparr>)"

definition stream_of :: "Scanner \<Rightarrow> stream" where
  "stream_of s = stream_at (src s) (interpStrings s) (sPos s) (sLine s)"

text \<open>The tokens of a text read from its start, with or without the expressions in its strings.\<close>

definition tokens_of :: "string \<Rightarrow> bool \<Rightarrow> stream" where
  "tokens_of text interp = stream_of ((NewScanner text)\<lparr>interpStrings := interp\<rparr>)"

lemma scan_at_not_eof: "tokKind (fst (scan_at s interp p l)) \<noteq> TokEOF"
proof -
  have kinds: "charToKind c \<noteq> TokEOF" for c
  proof -
    have "list_all (\<lambda>x. snd x \<noteq> TokEOF) punctuation" by (simp add: punctuation_def)
    then show ?thesis by (auto simp: charToKind_def list_all_iff split: option.splits dest!: map_of_SomeD)
  qed
  define Q where "Q = (\<lambda>x :: Token \<times> nat \<times> nat. tokKind (fst x) \<noteq> TokEOF)"
  have at: "Q (token_at s kind p l r)" if "kind \<noteq> TokEOF" for kind r using that by (simp add: Q_def token_at_def)
  have fixed: "Q (\<lparr>tokKind = kind, tokValue = v, tokOffset = p, tokLine = l\<rparr>, q)" if "kind \<noteq> TokEOF" for kind v q
    using that by (simp add: Q_def)
  have "Q (scan_at s interp p l)"
    unfolding scan_at_def Let_def by (intro token_ok_if[where P = Q] at fixed) (simp_all add: kinds)
  then show ?thesis by (simp add: Q_def)
qed

lemma scan_past_eof:
  assumes "scan_past s interp pos line = (t, p, l, c, n)" "tokKind t = TokEOF"
  shows "tokOffset t = p" "tokLine t = l" "tokValue t = []" "length s \<le> p"
proof -
  have "scan_past s interp pos line = (t, p, l, c, n) \<Longrightarrow> tokKind t = TokEOF \<Longrightarrow>
      tokOffset t = p \<and> tokLine t = l \<and> tokValue t = [] \<and> length s \<le> p"
  proof (induction s interp pos line arbitrary: t p l c n rule: scan_past.induct)
    case (1 s interp pos line)
    obtain tok q m where N: "scan_next s interp pos line = (tok, q, m)" by (metis prod_cases3)
    note P = 1(3)[unfolded scan_past.simps[of s interp pos line] N Let_def case_prod_conv]
    obtain t' p' l' c' n' where R: "scan_past s interp q m = (t', p', l', c', n')" by (metis prod_cases5)
    have eof: "tokKind tok = TokEOF \<Longrightarrow> tokOffset tok = q \<and> tokLine tok = m \<and> tokValue tok = [] \<and> length s \<le> q"
      using N scan_at_not_eof[of s interp "skip_blanks s pos" line]
      by (auto simp: scan_next_def Let_def split: if_splits)
    show ?case
      using P R eof 1(4) 1(1)[OF N[symmetric] refl refl _ R] 1(2)[OF N[symmetric] refl refl _ _ R]
      by (auto split: if_splits)
  qed
  then show "tokOffset t = p" "tokLine t = l" "tokValue t = []" "length s \<le> p" using assms by auto
qed

lemma skip_blanks_end: "length s \<le> p \<Longrightarrow> skip_blanks s p = p"
  by (subst skip_blanks.simps) simp

lemma stream_at_end:
  assumes "length s \<le> p"
  shows "stream_at s interp p l = \<lparr>toks = [], stop = (p, l)\<rparr>"
proof -
  have "scan_past s interp p l = (\<lparr>tokKind = TokEOF, tokValue = [], tokOffset = p, tokLine = l\<rparr>, p, l, None, 0)"
    using assms by (subst scan_past.simps) (simp add: scan_next_def skip_blanks_end)
  then show ?thesis by (simp add: stream_at_def toks_at.simps[of s interp p l])
qed

lemma NextTok_stream_at:
  assumes "scan_past s interp pos line = (t, p, l, c, n)"
  shows "NextTok (stream_at s interp pos line) = (t, stream_at s interp p l)"
proof (cases "tokKind t = TokEOF")
  case True
  note e = scan_past_eof[OF assms True]
  have "stream_at s interp pos line = \<lparr>toks = [], stop = (p, l)\<rparr>"
    using assms True e by (simp add: stream_at_def toks_at.simps[of s interp pos line])
  then show ?thesis using e True stream_at_end[OF e(4), of interp l] by (cases t) (simp add: NextTok_def eof_token_def)
next
  case False
  then show ?thesis using assms
    by (simp add: stream_at_def toks_at.simps[of s interp pos line] NextTok_def case_prod_unfold Let_def)
qed

lemma scan_at_offset: "tokOffset (fst (scan_at s interp p l)) = p"
proof -
  define Q where "Q = (\<lambda>x :: Token \<times> nat \<times> nat. tokOffset (fst x) = p)"
  have at: "Q (token_at s kind p l r)" for kind r by (simp add: Q_def token_at_def)
  have fixed: "Q (\<lparr>tokKind = kind, tokValue = v, tokOffset = p, tokLine = l\<rparr>, q)" for kind v q by (simp add: Q_def)
  have "Q (scan_at s interp p l)" unfolding scan_at_def Let_def by (intro token_ok_if[where P = Q] at fixed)
  then show ?thesis by (simp add: Q_def)
qed

lemma scan_next_offset:
  assumes "scan_next s interp pos line = (t, p, l)"
  shows "pos \<le> tokOffset t" "tokOffset t \<le> p"
proof -
  have "pos \<le> tokOffset t \<and> tokOffset t \<le> p"
  proof (cases "length s \<le> skip_blanks s pos")
    case False
    then have S: "scan_at s interp (skip_blanks s pos) line = (t, p, l)" "skip_blanks s pos < length s"
      using assms by (simp_all add: scan_next_def)
    then show ?thesis using scan_at_offset[of s interp "skip_blanks s pos" line] scan_at_gt[OF S(2), of interp line]
        skip_blanks_ge[of pos s] by simp
  qed (use assms skip_blanks_ge[of pos s] in \<open>auto simp: scan_next_def Let_def\<close>)
  then show "pos \<le> tokOffset t" "tokOffset t \<le> p" by simp_all
qed

lemma scan_past_offset:
  "scan_past s interp pos line = (t, p, l, c, n) \<Longrightarrow> pos \<le> tokOffset t \<and> tokOffset t \<le> p"
proof (induction s interp pos line arbitrary: t p l c n rule: scan_past.induct)
  case (1 s interp pos line)
  obtain tok q m where N: "scan_next s interp pos line = (tok, q, m)" by (metis prod_cases3)
  note P = 1(3)[unfolded scan_past.simps[of s interp pos line] N Let_def case_prod_conv]
  obtain t' p' l' c' n' where R: "scan_past s interp q m = (t', p', l', c', n')" by (metis prod_cases5)
  show ?case
    using P R scan_next_offset[OF N] 1(1)[OF N[symmetric] refl refl _ R] 1(2)[OF N[symmetric] refl refl _ _ R]
    by (auto split: if_splits)
qed

text \<open>No token of a stream is its end, their offsets ascend, and each has its line.\<close>

definition stream_ok :: "string \<Rightarrow> stream \<Rightarrow> bool" where
  "stream_ok s st \<longleftrightarrow> list_all (\<lambda>t. tokKind t \<noteq> TokEOF \<and> line_ok s (tokOffset t) (tokLine t)) (toks st) \<and>
     line_ok s (fst (stop st)) (snd (stop st)) \<and> sorted (map tokOffset (toks st) @ [fst (stop st)])"

lemma stream_at_ok:
  "line_ok s pos line \<Longrightarrow> stream_ok s (stream_at s interp pos line) \<and>
     list_all (\<lambda>t. pos \<le> tokOffset t) (toks (stream_at s interp pos line)) \<and> pos \<le> fst (stop (stream_at s interp pos line))"
proof (induction s interp pos line rule: toks_at.induct)
  case (1 s interp pos line)
  obtain t p l c n where P: "scan_past s interp pos line = (t, p, l, c, n)" by (metis prod_cases5)
  have ok: "line_ok s (tokOffset t) (tokLine t)" "line_ok s p l"
    using scan_past_line[OF 1(2), of interp] P by (simp_all add: token_ok_def)
  note off = scan_past_offset[OF P]
  show ?case
  proof (cases "tokKind t = TokEOF")
    case True
    then have "stream_at s interp pos line = \<lparr>toks = [], stop = (tokOffset t, tokLine t)\<rparr>"
      using P by (simp add: stream_at_def toks_at.simps[of s interp pos line])
    then show ?thesis using ok off by (simp add: stream_ok_def)
  next
    case False
    have IH: "stream_ok s (stream_at s interp p l)" "list_all (\<lambda>t. p \<le> tokOffset t) (toks (stream_at s interp p l))"
      "p \<le> fst (stop (stream_at s interp p l))"
      using 1(1)[OF P[symmetric] refl refl refl refl False ok(2)] by simp_all
    have "stream_at s interp pos line = (stream_at s interp p l)\<lparr>toks := t # toks (stream_at s interp p l)\<rparr>"
      using P False by (simp add: stream_at_def toks_at.simps[of s interp pos line] case_prod_unfold Let_def)
    then show ?thesis using IH False ok(1) off by (auto simp: stream_ok_def list_all_iff)
  qed
qed

lemma line_ok_mono: "line_ok s p l \<Longrightarrow> line_ok s q m \<Longrightarrow> p \<le> q \<Longrightarrow> l \<le> m"
  by (metis line_ok_def newlines_before_def take_add le_add_diff_inverse count_list_append le_add1)

lemma stream_ok_lines: "stream_ok s st \<Longrightarrow> sorted (map tokLine (toks st) @ [snd (stop st)])"
  by (auto simp: stream_ok_def sorted_append list_all_iff sorted_wrt_map
      intro: line_ok_mono sorted_wrt_mono_rel[of _ "\<lambda>x y. tokOffset x \<le> tokOffset y"])

lemma stream_ok_ahead: "stream_ok s st \<Longrightarrow> ahead st st' \<Longrightarrow> stream_ok s st'"
  by (auto simp: stream_ok_def ahead_def sorted_append)

lemma stream_ok_less: "stream_ok s st \<Longrightarrow> toks st = t # ts \<Longrightarrow> u \<in> set ts \<Longrightarrow> tokLine t \<le> tokLine u"
  using stream_ok_lines[of s st] by simp

lemma tokens_of_ok: "stream_ok s (tokens_of s interp)"
  using stream_at_ok[OF NewScanner_line[of s], of interp] by (simp add: tokens_of_def stream_of_def NewScanner_def)

section \<open>What the parsers rely on\<close>

text \<open>
  How a parser reads: it takes a token, looks at one, or reads on for a while and goes back to where it
  was (\<open>Save\<close> before, \<open>Restore\<close> after).\<close>

datatype read = Take | Look | Look_Ahead "read list"

fun stream_read :: "read \<Rightarrow> stream \<Rightarrow> Token list \<times> stream"
  and stream_reads :: "read list \<Rightarrow> stream \<Rightarrow> Token list \<times> stream" where
  "stream_read Take st = ([PeekTok st], DropTok st)"
| "stream_read Look st = ([PeekTok st], st)"
| "stream_read (Look_Ahead rs) st = (fst (stream_reads rs st), st)"
| "stream_reads [] st = ([], st)"
| "stream_reads (r # rs) st =
     (let (ts, st') = stream_read r st; (us, st'') = stream_reads rs st' in (ts @ us, st''))"

locale token_source =
  fixes valid :: "'s \<Rightarrow> bool"
    and stream :: "'s \<Rightarrow> stream"
    and same :: "'s \<Rightarrow> 's \<Rightarrow> bool"
    and take_tok :: "'s \<Rightarrow> Token \<times> 's"
    and look_tok :: "'s \<Rightarrow> Token \<times> 's"
    and save :: "'s \<Rightarrow> 'm"
    and restore :: "'m \<Rightarrow> 's \<Rightarrow> 's"
  assumes take_law: "valid s \<Longrightarrow> take_tok s = (t, s') \<Longrightarrow> valid s' \<and> same s s' \<and> NextTok (stream s) = (t, stream s')"
    and look_law: "valid s \<Longrightarrow> look_tok s = (t, s') \<Longrightarrow> valid s' \<and> same s s' \<and> t = PeekTok (stream s) \<and> stream s' = stream s"
    and restore_law: "valid s \<Longrightarrow> valid s' \<Longrightarrow> same s s' \<Longrightarrow>
      valid (restore (save s) s') \<and> same s (restore (save s) s') \<and> stream (restore (save s) s') = stream s"
    and same_refl: "same s s"
    and same_trans: "same a b \<Longrightarrow> same b c \<Longrightarrow> same a c"
begin

fun source_read :: "read \<Rightarrow> 's \<Rightarrow> Token list \<times> 's"
  and source_reads :: "read list \<Rightarrow> 's \<Rightarrow> Token list \<times> 's" where
  "source_read Take s = (let (t, s') = take_tok s in ([t], s'))"
| "source_read Look s = (let (t, s') = look_tok s in ([t], s'))"
| "source_read (Look_Ahead rs) s = (let (ts, s') = source_reads rs s in (ts, restore (save s) s'))"
| "source_reads [] s = ([], s)"
| "source_reads (r # rs) s = (let (ts, s') = source_read r s; (us, s'') = source_reads rs s' in (ts @ us, s''))"

lemma source_reads_stream:
  "valid s \<Longrightarrow> source_read r s = (ts, s') \<Longrightarrow> valid s' \<and> same s s' \<and> stream_read r (stream s) = (ts, stream s')"
  "valid s \<Longrightarrow> source_reads rs s = (ts, s') \<Longrightarrow> valid s' \<and> same s s' \<and> stream_reads rs (stream s) = (ts, stream s')"
proof (induction r s and rs s arbitrary: ts s' and ts s' rule: source_read_source_reads.induct)
  case (1 s)
  then show ?case using take_law by (cases "take_tok s") (auto simp: PeekTok_def DropTok_def)
next
  case (2 s)
  then show ?case using look_law by (cases "look_tok s") auto
next
  case (3 rs s)
  obtain us s1 where R: "source_reads rs s = (us, s1)" by (cases "source_reads rs s")
  from 3(1)[OF 3(2) R] have "valid s1" "same s s1" "stream_reads rs (stream s) = (us, stream s1)" by simp_all
  then show ?case using 3(3) restore_law[OF 3(2), of s1] R by auto
next
  case (4 s)
  then show ?case by (simp add: same_refl)
next
  case (5 r rs s)
  obtain us s1 where R: "source_read r s = (us, s1)" by (cases "source_read r s")
  obtain vs s2 where Q: "source_reads rs s1 = (vs, s2)" by (cases "source_reads rs s1")
  from 5(1)[OF 5(3) R] have r: "valid s1" "same s s1" "stream_read r (stream s) = (us, stream s1)" by simp_all
  from 5(2)[OF R[symmetric] refl r(1) Q] have q: "valid s2" "same s1 s2" "stream_reads rs (stream s1) = (vs, stream s2)" by simp_all
  then show ?case using 5(4) R Q r same_trans by auto
qed

end

lemma NextSkip_stream:
  assumes "cache_ok s" "NextSkipComments s = (t, s')"
  shows "NextTok (stream_of s) = (t, stream_of s')"
proof -
  obtain t' p l c n where P: "scan_past (src s) (interpStrings s) (sPos s) (sLine s) = (t', p, l, c, n)"
    by (metis prod_cases5)
  have "forget s' = snd (rescan (forget s))" "t = fst (rescan (forget s))"
    using NextSkip_forget[OF assms(1)] assms(2) by auto
  then show ?thesis using NextTok_stream_at[OF P] by (simp add: rescan_def forget_def P stream_of_def)
qed

interpretation scanner: token_source cache_ok stream_of "\<lambda>s s'. src s' = src s \<and> interpStrings s' = interpStrings s"
  NextSkipComments PeekSkipComments Save Restore
proof (unfold_locales, goal_cases)
  case (1 s t s')
  then have "forget s' = snd (rescan (forget s))" "cache_ok s'" using NextSkip_forget[OF 1(1)] by auto
  then show ?case using 1 NextSkip_stream by (auto simp: rescan_def forget_def case_prod_unfold Let_def)
next
  case (2 s t s')
  have F: "map_prod Some forget (PeekSkipComments s) = rescanner_op Op_Peek_Skip (forget s)" "cache_ok s'"
    using PeekSkip_forget[OF 2(1)] 2(2) by auto
  obtain u p l c n where P: "scan_past (src s) (interpStrings s) (sPos s) (sLine s) = (u, p, l, c, n)"
    by (metis prod_cases5)
  have "t = u" "src s' = src s" "interpStrings s' = interpStrings s" "sPos s' = sPos s" "sLine s' = sLine s"
    using F(1) 2(2) by (auto simp: rescan_def forget_def P split: if_splits)
  then show ?case using F(2) NextTok_stream_at[OF P] by (simp add: stream_of_def PeekTok_def)
next
  case (3 s s')
  then show ?case by (simp add: Restore_def Save_def stream_of_def cache_ok_def)
qed auto

text \<open>
  C21: A parser that reads a scanner by taking tokens, looking at the next one and reading ahead and going
  back sees the tokens of the text that are not comments or newlines, one after the other, whatever it
  looked at before.\<close>

theorem scanner_reads_tokens:
  assumes "length s < 2 ^ 32"
  shows "fst (scanner.source_reads rs ((NewScanner s)\<lparr>interpStrings := b\<rparr>)) = fst (stream_reads rs (tokens_of s b))"
proof -
  have "cache_ok ((NewScanner s)\<lparr>interpStrings := b\<rparr>)" using assms by (simp add: cache_ok_def NewScanner_def)
  from scanner.source_reads_stream(2)[OF this surjective_pairing, of rs] show ?thesis by (simp add: tokens_of_def)
qed

lemma scanner_reads_tokens_witness:
  "map tokValue (fst (scanner.source_reads [Take, Look_Ahead [Take, Look], Take]
     ((NewScanner sample_script)\<lparr>interpStrings := True\<rparr>))) = [''a'', ''b'', [], ''b'']"
proof -
  have "length sample_script < 2 ^ 32" by code_simp
  moreover have "map tokValue (fst (stream_reads [Take, Look_Ahead [Take, Look], Take] (tokens_of sample_script True))) =
      [''a'', ''b'', [], ''b'']" by code_simp
  ultimately show ?thesis using scanner_reads_tokens by metis
qed

end
