(* ===== verification/Fold_Search.thy ===== *)
theory Fold_Search
  imports Go_Strings
begin

text \<open>
  The case-insensitive search under the parser (\<open>indexFoldFrom\<close> in \<open>internal/parser/ast.go\<close>): it looks
  for the needle's rarest byte in both cases, each by a search of its own that is resumed, and compares
  the text around it. The property is that it finds what a test of every start in turn would. Folding
  is ASCII, as everywhere in the model, so the property is about ASCII needles.
\<close>

section \<open>The code\<close>

definition isASCII :: "string \<Rightarrow> bool" where
  "isASCII s \<longleftrightarrow> list_all (\<lambda>c. byte c < (0x80 :: nat)) s"

definition letterFrequency :: string where
  "letterFrequency = ''etrasncioludfmpgybhvqxwkjz''"

definition byte_rank :: "char \<Rightarrow> int" where
  "byte_rank c =
     (if CHR ''a'' \<le> c \<and> c \<le> CHR ''z'' then
        (case index_byte letterFrequency c of None \<Rightarrow> -1 | Some i \<Rightarrow> int i)
      else if CHR ''0'' \<le> c \<and> c \<le> CHR ''9'' then 12
      else if c \<in> set (''$@!?%^'' @ [CHR 0x60] @ ''~|'' @ [CHR 0x5C]) then 30
      else -1)"

definition rarer :: "nat \<times> int \<Rightarrow> nat \<times> char \<Rightarrow> nat \<times> int" where
  "rarer b ic = (if snd b < byte_rank (lower_char (snd ic)) then (fst ic, byte_rank (lower_char (snd ic))) else b)"

definition rarestByte :: "string \<Rightarrow> nat" where
  "rarestByte needle = fst (foldl rarer (0, -2) (zip [0..<length needle] needle))"

definition indexByteFrom :: "string \<Rightarrow> char \<Rightarrow> nat \<Rightarrow> nat" where
  "indexByteFrom s c i = (case index_byte (drop i s) c of None \<Rightarrow> length s | Some j \<Rightarrow> i + j)"

definition upper_of :: "char \<Rightarrow> char" where
  "upper_of lo = (if CHR ''a'' \<le> lo \<and> lo \<le> CHR ''z'' then char_of (byte lo - 32 :: nat) else lo)"

text \<open>The comparison at a start: the first and last byte of an ASCII needle before the rest of it.\<close>

definition fold_match :: "string \<Rightarrow> string \<Rightarrow> nat \<Rightarrow> bool" where
  "fold_match s needle start \<longleftrightarrow>
     (\<not> isASCII needle \<or>
      lower_char (s ! start) = lower_char (needle ! 0) \<and>
      lower_char (s ! (start + length needle - 1)) = lower_char (needle ! (length needle - 1))) \<and>
     EqualFold (slice s start (start + length needle)) needle"

text \<open>Where the byte is next, from \<open>p\<close> on: the place found before, unless the search is past it.\<close>

definition next_at :: "string \<Rightarrow> char \<Rightarrow> nat \<Rightarrow> int \<Rightarrow> int" where
  "next_at hay c p found = (if found < int p then int (indexByteFrom hay c p) else found)"

definition either_next :: "char \<Rightarrow> int \<Rightarrow> int \<Rightarrow> int" where
  "either_next lo nextLo nextUp = (if upper_of lo \<noteq> lo then min nextLo nextUp else nextLo)"

lemma next_at_ge: "p \<le> length hay \<Longrightarrow> int p \<le> next_at hay c p found"
  by (simp add: next_at_def indexByteFrom_def split: option.splits)

text \<open>
  The loop: \<open>hay\<close> ends at the last place the anchor byte can be, so \<open>p <= last+k\<close> is \<open>p < length hay\<close>;
  \<open>nextLo\<close> and \<open>nextUp\<close> start at \<open>-1\<close>.\<close>

function fold_loop :: "string \<Rightarrow> string \<Rightarrow> string \<Rightarrow> char \<Rightarrow> nat \<Rightarrow> nat \<Rightarrow> int \<Rightarrow> int \<Rightarrow> nat option" where
  "fold_loop s needle hay lo k p nextLo nextUp =
     (if p < length hay then
        let nextLo = next_at hay lo p nextLo;
            nextUp = (if upper_of lo \<noteq> lo then next_at hay (upper_of lo) p nextUp else nextUp);
            j = either_next lo nextLo nextUp
        in if int (length hay) \<le> j then None
           else if fold_match s needle (nat j - k) then Some (nat j - k)
           else fold_loop s needle hay lo k (nat j + 1) nextLo nextUp
      else None)"
  by pat_completeness auto
termination
proof (relation "measure (\<lambda>(s, needle, hay, lo, k, p, nextLo, nextUp). length hay - p)", goal_cases)
  case (2 s needle hay lo k p nextLo nextUp nLo nUp j)
  then have "int p \<le> j"
    using next_at_ge[of p hay lo nextLo] next_at_ge[of p hay "upper_of lo" nextUp]
    by (simp add: either_next_def split: if_splits)
  then show ?case using 2 by auto
qed simp

declare fold_loop.simps [simp del]

definition indexFoldFrom :: "string \<Rightarrow> string \<Rightarrow> int \<Rightarrow> nat option" where
  "indexFoldFrom s needle from =
     (if needle = [] then Some (nat (max from 0))
      else let from = nat (max from 0)
           in if int (length s) - int (length needle) < int from then None
              else let last_start = length s - length needle;
                       k = (if isASCII needle then rarestByte needle else 0)
                   in fold_loop s needle (take (last_start + k + 1) s) (lower_char (needle ! k)) k (from + k) (-1) (-1))"

definition indexFold :: "string \<Rightarrow> string \<Rightarrow> nat option" where
  "indexFold s needle = indexFoldFrom s needle 0"

section \<open>Anchors\<close>

lemma foldl_rarer_fst: "fst (foldl rarer b xs) \<in> insert (fst b) (fst ` set xs)"
  by (induction xs arbitrary: b) (force simp: rarer_def)+

lemma rarestByte_less: "needle \<noteq> [] \<Longrightarrow> rarestByte needle < length needle"
  using foldl_rarer_fst[of "(0, -2)" "zip [0..<length needle] needle"]
  by (auto simp: rarestByte_def dest!: set_zip_leftD)

lemma byte_le: "c \<le> d \<longleftrightarrow> (byte c :: nat) \<le> byte d"
  by (simp add: less_eq_char_def)

lemma lower_char_iff: "lower_char x = lower_char y \<longleftrightarrow> x = lower_char y \<or> x = upper_of (lower_char y)"
proof -
  have small: "(byte c :: nat) < 256" for c by simp
  have eq: "c = d \<longleftrightarrow> (byte c :: nat) = byte d" for c d by simp
  have of: "n < 256 \<Longrightarrow> byte (char_of n) = n" for n :: nat by simp
  show ?thesis
    using small[of x] small[of y]
    by (auto simp: lower_char_def upper_of_def byte_le eq of simp del: of_char_eq_iff)
qed

section \<open>The search\<close>

lemma indexByteFrom_spec:
  assumes "p \<le> length hay"
  shows "p \<le> indexByteFrom hay c p" "indexByteFrom hay c p \<le> length hay"
    "p \<le> i \<Longrightarrow> i < indexByteFrom hay c p \<Longrightarrow> hay ! i \<noteq> c"
    "indexByteFrom hay c p < length hay \<Longrightarrow> hay ! indexByteFrom hay c p = c"
proof -
  consider (none) "c \<notin> set (drop p hay)" "indexByteFrom hay c p = length hay"
    | (some) j where "index_byte (drop p hay) c = Some j" "indexByteFrom hay c p = p + j"
    by (cases "index_byte (drop p hay) c") (simp_all add: indexByteFrom_def)
  then have "p \<le> indexByteFrom hay c p \<and> indexByteFrom hay c p \<le> length hay \<and>
    (\<forall>i. p \<le> i \<and> i < indexByteFrom hay c p \<longrightarrow> hay ! i \<noteq> c) \<and>
    (indexByteFrom hay c p < length hay \<longrightarrow> hay ! indexByteFrom hay c p = c)"
  proof cases
    case none
    have "hay ! i \<in> set (drop p hay)" if "p \<le> i" "i < length hay" for i
      using that nth_mem[of "i - p" "drop p hay"] by simp
    then show ?thesis using none assms by auto
  next
    case some
    have "hay ! i \<noteq> c" if "p \<le> i" "i < p + j" for i
    proof -
      have "i - p < length (take j (drop p hay))" "take j (drop p hay) ! (i - p) = hay ! i"
        using that some(1) by (auto simp: index_byte_Some)
      then show ?thesis using some(1) by (metis index_byte_Some nth_mem)
    qed
    then show ?thesis using some assms by (auto simp: index_byte_Some)
  qed
  then show "p \<le> indexByteFrom hay c p" "indexByteFrom hay c p \<le> length hay"
    "p \<le> i \<Longrightarrow> i < indexByteFrom hay c p \<Longrightarrow> hay ! i \<noteq> c"
    "indexByteFrom hay c p < length hay \<Longrightarrow> hay ! indexByteFrom hay c p = c" by auto
qed

text \<open>A place found is either behind the search or where the search would find it.\<close>

definition next_ok :: "string \<Rightarrow> char \<Rightarrow> nat \<Rightarrow> int \<Rightarrow> bool" where
  "next_ok hay c p found \<longleftrightarrow> found < int p \<or> found = int (indexByteFrom hay c p)"

lemma next_at_ok: "next_ok hay c p found \<Longrightarrow> next_at hay c p found = int (indexByteFrom hay c p)"
  by (auto simp: next_ok_def next_at_def)

lemma next_ok_later:
  assumes "p \<le> q" "q \<le> length hay"
  shows "next_ok hay c q (int (indexByteFrom hay c p))"
proof (cases "indexByteFrom hay c p < q")
  case False
  note P = indexByteFrom_spec[of p hay] and Q = indexByteFrom_spec[of q hay]
  have "\<not> indexByteFrom hay c q < indexByteFrom hay c p"
    using P(3)[of "indexByteFrom hay c q"] Q(1,4) P(2) assms by (metis le_trans less_le_trans)
  moreover have "\<not> indexByteFrom hay c p < indexByteFrom hay c q"
    using Q(3)[of "indexByteFrom hay c p"] P(4) Q(2) False assms by (metis le_trans less_le_trans not_less)
  ultimately show ?thesis by (simp add: next_ok_def)
qed (simp add: next_ok_def)

lemma find_upt_skip:
  "a \<le> b \<Longrightarrow> (\<And>i. a \<le> i \<Longrightarrow> i < b \<Longrightarrow> \<not> P i) \<Longrightarrow> find P [a..<c] = find P [b..<c]"
proof (induction b rule: dec_induct)
  case (step n)
  then have "find P [a..<c] = find P [n..<c]" "\<not> P n" by auto
  then show ?case by (cases "n < c") (simp_all add: upt_conv_Cons)
qed simp

lemma find_upt_here: "b < c \<Longrightarrow> find P [b..<c] = (if P b then Some b else find P [Suc b..<c])"
  by (simp add: upt_conv_Cons)

definition fold_at :: "string \<Rightarrow> string \<Rightarrow> nat \<Rightarrow> bool" where
  "fold_at s needle i \<longleftrightarrow> EqualFold (slice s i (i + length needle)) needle"

lemma fold_at_byte:
  assumes "fold_at s needle i" "i + length needle \<le> length s" "k < length needle"
  shows "lower_char (s ! (i + k)) = lower_char (needle ! k)"
proof -
  have "map lower_char (slice s i (i + length needle)) ! k = map lower_char needle ! k"
    using assms(1) by (simp add: fold_at_def EqualFold_def ToLower_def)
  then show ?thesis using assms(2,3) by (simp add: slice_nth)
qed

lemma fold_match_at:
  assumes "i + length needle \<le> length s" "needle \<noteq> []"
  shows "fold_match s needle i \<longleftrightarrow> fold_at s needle i"
  using fold_at_byte[OF _ assms(1), of 0] fold_at_byte[OF _ assms(1), of "length needle - 1"] assms(2)
  by (cases needle) (auto simp: fold_match_def fold_at_def)

lemma first_anchor:
  assumes "p < length hay" "j = either_next lo (int (indexByteFrom hay lo p)) (int (indexByteFrom hay (upper_of lo) p))"
    "lo = lower_char b"
  shows "int p \<le> j \<and> j \<le> int (length hay) \<and>
    (\<forall>i. p \<le> i \<and> int i < j \<longrightarrow> lower_char (hay ! i) \<noteq> lo)"
proof -
  have p: "p \<le> length hay" using assms(1) by simp
  note L = indexByteFrom_spec[OF p, where c = lo] and U = indexByteFrom_spec[OF p, where c = "upper_of lo"]
  have "lower_char (hay ! i) = lo \<longleftrightarrow> hay ! i = lo \<or> hay ! i = upper_of lo" for i
    unfolding assms(3) by (rule lower_char_iff)
  then show ?thesis using L(1-3) U(1-3) assms(2)
    by (cases "upper_of lo = lo") (auto simp: either_next_def)
qed

lemma fold_loop_find:
  assumes "needle \<noteq> []" "length needle \<le> length s" "k < length needle" "k \<le> p"
    "hay = take (length s - length needle + k + 1) s" "lo = lower_char (needle ! k)"
    "next_ok hay lo p nextLo" "next_ok hay (upper_of lo) p nextUp \<or> upper_of lo = lo"
  shows "fold_loop s needle hay lo k p nextLo nextUp =
    find (fold_at s needle) [p - k..<Suc (length s - length needle)]"
  using assms
proof (induction s needle hay lo k p nextLo nextUp rule: fold_loop.induct)
  case step: (1 s needle hay lo k p nextLo nextUp)
  note [simp] = step.prems(1)
  have len: "length hay = length s - length needle + k + 1" using step.prems(2,3,5) by simp
  note E = fold_loop.simps[of s needle hay lo k p nextLo nextUp]
  show ?case
  proof (cases "p < length hay")
    case False
    then have "Suc (length s - length needle) \<le> p - k" using len by simp
    then show ?thesis using E False by (simp only: upt_conv_Nil if_False find.simps)
  next
    case True
    let ?nl = "int (indexByteFrom hay lo p)" and ?nu = "int (indexByteFrom hay (upper_of lo) p)"
    let ?j = "either_next lo ?nl ?nu"
    let ?up = "if upper_of lo \<noteq> lo then next_at hay (upper_of lo) p nextUp else nextUp"
    have nl: "next_at hay lo p nextLo = ?nl" by (rule next_at_ok[OF step.prems(7)])
    have j: "either_next lo (next_at hay lo p nextLo) ?up = ?j"
      using step.prems(8) next_at_ok[of hay "upper_of lo" p nextUp] by (auto simp: nl either_next_def)
    note anchor = first_anchor[OF True refl step.prems(6)]
    have skip: "\<not> fold_at s needle i" if "p - k \<le> i" "int i < ?j - int k" "i \<le> length s - length needle" for i
    proof
      assume "fold_at s needle i"
      moreover have "i + length needle \<le> length s" using that(3) step.prems(2) by simp
      ultimately have "lower_char (s ! (i + k)) = lo" using fold_at_byte step.prems(3,6) by simp
      moreover have "i + k < length hay" using that(3) len by simp
      then have "hay ! (i + k) = s ! (i + k)" using step.prems(5) len by simp
      moreover have "p \<le> i + k" "int (i + k) < ?j" using that(1,2) by simp_all
      ultimately show False using anchor by metis
    qed
    show ?thesis
    proof (cases "int (length hay) \<le> ?j")
      case over: True
      then have "fold_loop s needle hay lo k p nextLo nextUp = None"
        unfolding E Let_def j using True by simp
      moreover have "\<forall>i \<in> set [p - k..<Suc (length s - length needle)]. \<not> fold_at s needle i"
        using skip over len by auto
      then have "find (fold_at s needle) [p - k..<Suc (length s - length needle)] = None"
        unfolding find_None_iff by blast
      ultimately show ?thesis by (simp only:)
    next
      case False
      define st where "st = nat ?j - k"
      have st: "p - k \<le> st" "st \<le> length s - length needle" "int st = ?j - int k" "st + k = nat ?j" "p \<le> nat ?j"
        using False anchor len step.prems(4) by (auto simp: st_def)
      have "find (fold_at s needle) [p - k..<Suc (length s - length needle)] =
          find (fold_at s needle) [st..<Suc (length s - length needle)]"
        using skip st by (intro find_upt_skip) auto
      also have "\<dots> = (if fold_at s needle st then Some st else find (fold_at s needle) [Suc st..<Suc (length s - length needle)])"
        using st(2) by (intro find_upt_here) simp
      finally have F: "find (fold_at s needle) [p - k..<Suc (length s - length needle)] = \<dots>" .
      have "fold_match s needle st \<longleftrightarrow> fold_at s needle st"
        using st(2) step.prems(2) by (intro fold_match_at) simp_all
      moreover have "fold_loop s needle hay lo k (nat ?j + 1) ?nl ?up =
          find (fold_at s needle) [Suc st..<Suc (length s - length needle)]" if "\<not> fold_match s needle st"
      proof -
        have j': "p \<le> nat ?j + 1" "nat ?j + 1 \<le> length hay" using st(5) False anchor by (simp_all add: Suc_le_eq nat_less_iff)
        have up: "next_ok hay (upper_of lo) (nat ?j + 1) ?up \<or> upper_of lo = lo"
          using step.prems(8) next_at_ok[of hay "upper_of lo" p nextUp] next_ok_later[OF j'] by auto
        have "nat ?j + 1 - k = Suc st" using st(4) by simp
        then show ?thesis
          using step.IH[OF True nl[symmetric] refl j[unfolded nl, symmetric] False that[unfolded st_def] step.prems(1-3) _
              step.prems(5,6) next_ok_later[OF j'] up] step.prems(4) st(5) by simp
      qed
      ultimately show ?thesis
        unfolding E Let_def nl j[unfolded nl] F if_P[OF True] if_not_P[OF False] st_def[symmetric]
        by (cases "fold_at s needle st") (simp_all only: simp_thms if_True if_False)
    qed
  qed
qed

text \<open>
  C26: The resumed two-case search for the rarest byte finds exactly what testing every start in turn
  would: the first place at or after \<open>from\<close> where the text equals the needle but for case.\<close>

theorem indexFoldFrom_first:
  assumes "isASCII needle" and "needle \<noteq> []"
  shows "indexFoldFrom s needle from =
    find (\<lambda>i. EqualFold (slice s i (i + length needle)) needle) [nat from..<Suc (length s) - length needle]"
proof (cases "int (length s) - int (length needle) < int (nat (max from 0))")
  case True
  then have "Suc (length s) - length needle \<le> nat from" by linarith
  then show ?thesis using assms True by (simp only: indexFoldFrom_def Let_def if_True if_False upt_conv_Nil find.simps)
next
  case False
  let ?k = "rarestByte needle"
  have len: "length needle \<le> length s" using False by simp
  have "nat (max from 0) = nat from" by (simp add: max_def)
  then have "indexFoldFrom s needle from = fold_loop s needle (take (length s - length needle + ?k + 1) s)
      (lower_char (needle ! ?k)) ?k (nat from + ?k) (-1) (-1)"
    using False assms by (simp add: indexFoldFrom_def Let_def)
  also have "\<dots> = find (fold_at s needle) [nat from + ?k - ?k..<Suc (length s - length needle)]"
    by (rule fold_loop_find[OF assms(2) len rarestByte_less[OF assms(2)] _ refl refl]) (simp_all add: next_ok_def)
  finally show ?thesis using len by (simp add: fold_at_def[abs_def] Suc_diff_le)
qed

definition sample_call :: string where
  "sample_call = ''x.GETdata(getData)''"

definition sample_name :: string where
  "sample_name = ''getdata''"

lemma indexFoldFrom_first_witness:
  "indexFoldFrom sample_call sample_name 3 =
    find (\<lambda>i. EqualFold (slice sample_call i (i + length sample_name)) sample_name)
      [nat 3..<Suc (length sample_call) - length sample_name] \<and>
   indexFoldFrom sample_call sample_name 3 = Some 10"
proof
  show "indexFoldFrom sample_call sample_name 3 =
    find (\<lambda>i. EqualFold (slice sample_call i (i + length sample_name)) sample_name)
      [nat 3..<Suc (length sample_call) - length sample_name]"
    by (rule indexFoldFrom_first) code_simp+
  show "indexFoldFrom sample_call sample_name 3 = Some 10" by code_simp
qed

end
