(* ===== verification/Output_Context.thy ===== *)
theory Output_Context
  imports Regions Fold_Search
begin

text \<open>
  Where the text between tags is evaluated (\<open>internal/parser/output_context.go\<close>): one walk over the tags
  of a file keeps how many output tags are open and whether a \<open>cffunction\<close> or \<open>cfcomponent\<close> that writes
  is, and cuts the file into the ranges where any of them is. \<open>getAttr\<close>, from \<open>tag_parser.go\<close>, reads an
  attribute of a tag.
\<close>

section \<open>Attributes\<close>

definition is_alnum :: "char \<Rightarrow> bool" where
  "is_alnum c \<longleftrightarrow> within CHR ''a'' CHR ''z'' c \<or> within CHR ''A'' CHR ''Z'' c \<or> within CHR ''0'' CHR ''9'' c"

definition isAttrNameByte :: "char \<Rightarrow> bool" where
  "isAttrNameByte c \<longleftrightarrow> is_alnum c \<or> c \<in> {CHR ''_'', CHR ''-'', CHR '':'', CHR ''.''}"

definition isTagNameByte :: "char \<Rightarrow> bool" where
  "isTagNameByte c \<longleftrightarrow> c \<in> {CHR ''_'', CHR '':'', CHR ''-'', CHR ''.''} \<or> is_alnum c"

definition isWhitespace :: "char \<Rightarrow> bool" where
  "isWhitespace c \<longleftrightarrow> c \<in> {CHR '' '', CHR 0x09, newline, CHR 0x0D, CHR 0x0C, CHR 0x0B}"

definition skip_space :: "string \<Rightarrow> nat \<Rightarrow> nat" where
  "skip_space s i = i + length (takeWhile isWhitespace (drop i s))"

lemma fold_loop_ge: "fold_loop s needle hay lo k p nextLo nextUp = Some i \<Longrightarrow> p - k \<le> i"
proof (induction s needle hay lo k p nextLo nextUp rule: fold_loop.induct)
  case step: (1 s needle hay lo k p nextLo nextUp)
  let ?nl = "next_at hay lo p nextLo" and ?nu = "if upper_of lo \<noteq> lo then next_at hay (upper_of lo) p nextUp else nextUp"
  let ?j = "either_next lo ?nl ?nu"
  note E = step.prems[unfolded fold_loop.simps[of s needle hay lo k p nextLo nextUp] Let_def]
  have p: "p < length hay" using E by (simp split: if_splits)
  then have "int p \<le> ?j"
    using next_at_ge[of p hay lo nextLo] next_at_ge[of p hay "upper_of lo" nextUp] by (simp add: either_next_def)
  then have "p - k \<le> nat ?j - k" by linarith
  then show ?case using step.IH[OF p refl refl refl] E by (auto split: if_splits)
qed

lemma indexFoldFrom_ge: "indexFoldFrom s needle (int from) = Some i \<Longrightarrow> from \<le> i"
  by (auto simp: indexFoldFrom_def Let_def max_def dest!: fold_loop_ge split: if_splits)

text \<open>
  The loop of \<open>getAttr\<close> from \<open>searchFrom\<close> on: the attribute's name, at the start of a word and followed by
  an equals sign. A search past the end finds nothing.\<close>

function attr_index :: "string \<Rightarrow> string \<Rightarrow> nat \<Rightarrow> nat option" where
  "attr_index tag attr searchFrom =
     (if length tag < searchFrom then None
      else (case indexFoldFrom tag attr (int searchFrom) of
          None \<Rightarrow> None
        | Some i \<Rightarrow>
            if 0 < i \<and> isAttrNameByte (tag ! (i - 1)) then attr_index tag attr (i + 1)
            else let j = skip_space tag (i + length attr)
                 in if j < length tag \<and> tag ! j = CHR ''='' then Some i else attr_index tag attr (i + 1)))"
  by pat_completeness auto
termination
  by (relation "measure (\<lambda>(tag, attr, from). Suc (length tag) - from)") (auto dest!: indexFoldFrom_ge)

declare attr_index.simps [simp del]

definition getAttr :: "string \<Rightarrow> string \<Rightarrow> string" where
  "getAttr tag attr =
     (case attr_index tag attr 0 of
        None \<Rightarrow> []
      | Some idx \<Rightarrow>
          let valStart = skip_space tag (skip_space tag (idx + length attr) + 1)
          in if length tag \<le> valStart then []
             else let ch = tag ! valStart
                  in if ch = dquote \<or> ch = squote then
                       (case index_byte (drop (valStart + 1) tag) ch of
                          None \<Rightarrow> [] | Some n \<Rightarrow> slice tag (valStart + 1) (valStart + 1 + n))
                     else takeWhile (\<lambda>c. c \<noteq> CHR '' '' \<and> c \<noteq> gt_char \<and> c \<noteq> CHR 0x09) (drop valStart tag))"

definition isTruthy :: "string \<Rightarrow> bool" where
  "isTruthy s \<longleftrightarrow> EqualFold s ''true'' \<or> EqualFold s ''yes''"

section \<open>Comments\<close>

text \<open>The loop of \<open>skipTagComment\<close>.\<close>

function skip_tag_comment :: "string \<Rightarrow> int \<Rightarrow> nat \<Rightarrow> nat" where
  "skip_tag_comment content depth j =
     (if j < length content then
        if HasPrefix (drop j content) ''<!---'' then skip_tag_comment content (depth + 1) (j + 5)
        else if HasPrefix (drop j content) ''--->'' then
          (if depth - 1 = 0 then j + 4 else skip_tag_comment content (depth - 1) (j + 4))
        else skip_tag_comment content depth (j + 1)
      else length content)"
  by pat_completeness auto
termination by (relation "measure (\<lambda>(content, depth, j). length content - j)") auto

declare skip_tag_comment.simps [simp del]

definition skipTagComment :: "string \<Rightarrow> nat \<Rightarrow> nat" where
  "skipTagComment content i = skip_tag_comment content 0 i"

lemma skip_tag_comment_min: "min j (length content) \<le> skip_tag_comment content depth j"
proof (induction content depth j rule: skip_tag_comment.induct)
  case (1 content depth j)
  then show ?case unfolding skip_tag_comment.simps[of content depth j] by (auto simp: min_def split: if_splits)
qed

lemma skip_tag_comment_gt: "j < length content \<Longrightarrow> j < skip_tag_comment content depth j"
  using skip_tag_comment_min[of "j + 5" content "depth + 1"] skip_tag_comment_min[of "j + 4" content "depth - 1"]
    skip_tag_comment_min[of "j + 1" content depth]
  unfolding skip_tag_comment.simps[of content depth j] by auto

section \<open>The walk\<close>

definition outputContextTags :: "string list" where
  "outputContextTags = [''cfoutput'', ''cfquery'', ''cfmail'', ''cfmailpart'', ''cfdocument'', ''cfdocumentitem'',
     ''cfdocumentsection'']"

record out_state =
  depth :: nat
  fnOut :: bool
  compOut :: bool
  start :: "nat option"
  wasActive :: bool
  out_spans :: "(nat \<times> nat) list"
  prefixes :: "string list"

definition active :: "out_state \<Rightarrow> bool" where
  "active s \<longleftrightarrow> 0 < depth s \<or> fnOut s \<or> compOut s"

text \<open>The closure \<open>boundaryChanged\<close>.\<close>

definition boundaryChanged :: "nat \<Rightarrow> out_state \<Rightarrow> out_state" where
  "boundaryChanged at s =
     (let s' = (if active s \<and> \<not> wasActive s then s\<lparr>start := Some at\<rparr>
                else if \<not> active s \<and> wasActive s then
                  (case start s of
                     None \<Rightarrow> s
                   | Some st \<Rightarrow> s\<lparr>out_spans := out_spans s @ (if st < at then [(st, at)] else []), start := None\<rparr>)
                else s)
      in s'\<lparr>wasActive := active s\<rparr>)"

definition tag_name_end :: "string \<Rightarrow> nat \<Rightarrow> nat" where
  "tag_name_end content from = from + length (takeWhile isTagNameByte (drop from content))"

definition trim_space_right :: "string \<Rightarrow> string" where
  "trim_space_right s = rev (dropWhile (\<lambda>c. c \<in> {CHR '' '', CHR 0x09, CHR 0x0D, newline}) (rev s))"

text \<open>The switch on a tag from \<open>i\<close> to \<open>tagEnd\<close> that is no opening \<open>cfscript\<close>.\<close>

definition out_tag :: "string \<Rightarrow> bool \<Rightarrow> string \<Rightarrow> nat \<Rightarrow> nat \<Rightarrow> out_state \<Rightarrow> out_state" where
  "out_tag content closing name i tagEnd s =
     (let tag = slice content i tagEnd;
          selfClosing = HasSuffix (trim_space_right (butlast tag)) ''/''
      in if name = ''cfimport'' \<and> \<not> closing then
           (let pf = TrimSpace (getAttr tag ''prefix'')
            in if pf \<noteq> [] then s\<lparr>prefixes := prefixes s @ [ToLower pf]\<rparr> else s)
         else if name \<in> set outputContextTags \<and> closing then
           (if 0 < depth s then boundaryChanged i (s\<lparr>depth := depth s - 1\<rparr>) else s)
         else if name \<in> set outputContextTags \<and> \<not> selfClosing then
           boundaryChanged tagEnd (s\<lparr>depth := depth s + 1\<rparr>)
         else if name = ''cffunction'' \<and> closing then
           (if fnOut s then boundaryChanged i (s\<lparr>fnOut := False\<rparr>) else s)
         else if name = ''cffunction'' \<and> isTruthy (getAttr tag ''output'') then
           boundaryChanged tagEnd (s\<lparr>fnOut := True\<rparr>)
         else if name = ''cfcomponent'' \<and> closing then
           (if compOut s then boundaryChanged i (s\<lparr>compOut := False\<rparr>) else s)
         else if name = ''cfcomponent'' \<and> isTruthy (getAttr tag ''output'') then
           boundaryChanged tagEnd (s\<lparr>compOut := True\<rparr>)
         else s)"

text \<open>One turn of the walk, at the \<open><\<close> of \<open>i\<close>: the state and the position after it.\<close>

definition out_step :: "string \<Rightarrow> nat \<Rightarrow> out_state \<Rightarrow> nat \<times> out_state" where
  "out_step content i s =
     (if HasPrefix (drop i content) ''<!---'' then (skipTagComment content i, s)
      else let closing = (i + 1 < length content \<and> content ! (i + 1) = CHR ''/'');
               nameStart = (if closing then i + 2 else i + 1);
               name = ToLower (slice content nameStart (tag_name_end content nameStart))
           in if \<not> HasPrefix name ''cf'' then (i + 1, s)
              else (case tagEndIndex (drop i content) of
                  None \<Rightarrow> (i + 1, s)
                | Some n \<Rightarrow>
                    let tagEnd = i + n + 1
                    in if name = ''cfscript'' \<and> \<not> closing then
                         ((case indexCFTag (drop tagEnd content) ''/cfscript>'' of
                             Some c \<Rightarrow> tagEnd + c | None \<Rightarrow> length content), s)
                       else (tagEnd, out_tag content closing name i tagEnd s)))"

lemma out_step_pos: "i < length content \<Longrightarrow> i < fst (out_step content i s)"
  by (auto simp: out_step_def Let_def skipTagComment_def skip_tag_comment_gt split: option.splits)

function out_walk :: "string \<Rightarrow> nat \<Rightarrow> out_state \<Rightarrow> out_state" where
  "out_walk content pos s =
     (if pos < length content then
        (case index_byte (drop pos content) lt_char of
           None \<Rightarrow> s
         | Some k \<Rightarrow> let (pos, s) = out_step content (k + pos) s in out_walk content pos s)
      else s)"
  by pat_completeness auto
termination
proof (relation "measure (\<lambda>(content, pos, s). length content - pos)", goal_cases)
  case (2 content pos s k r pos' s')
  then have "fst (out_step content (k + pos) s) = pos'" by (metis fst_conv)
  then have "k + pos < pos'" using 2 out_step_pos[of "k + pos" content s] by (auto simp: index_byte_Some)
  then show ?case using 2(1) by simp
qed simp

declare out_walk.simps [simp del]

definition out_start :: out_state where
  "out_start = \<lparr>depth = 0, fnOut = False, compOut = False, start = None, wasActive = False, out_spans = [],
     prefixes = []\<rparr>"

definition outputContext :: "string \<Rightarrow> (nat \<times> nat) list \<times> string list" where
  "outputContext content =
     (let s = out_walk content 0 out_start
      in (out_spans s @ (case start s of
            Some st \<Rightarrow> if wasActive s \<and> st < length content then [(st, length content)] else []
          | None \<Rightarrow> []), prefixes s))"

text \<open>\<open>customPrefixTag\<close>.\<close>

definition customPrefixTag :: "string \<Rightarrow> string list \<Rightarrow> bool" where
  "customPrefixTag s ps =
     (if ps = [] \<or> length s < 3 \<or> s ! 0 \<noteq> lt_char \<or> s ! 1 = CHR ''/'' then False
      else (case index_byte (slice s 1 (min (length s) 64)) CHR '':'' of
          None \<Rightarrow> False
        | Some colon \<Rightarrow>
            if colon = 0 then False
            else let pf = slice s 1 (1 + colon)
                 in list_all (\<lambda>c. isTagNameByte c \<and> c \<noteq> CHR '':'') pf \<and> list_ex (\<lambda>p. EqualFold p pf) ps))"

section \<open>The ranges are in order\<close>

definition ranges_ok :: "nat \<Rightarrow> (nat \<times> nat) list \<Rightarrow> bool" where
  "ranges_ok n rs \<longleftrightarrow> list_all (\<lambda>r. fst r < snd r \<and> snd r \<le> n) rs \<and> sorted_wrt (\<lambda>a b. snd a < fst b) rs"

text \<open>What holds when the walk stands at \<open>p\<close>.\<close>

definition out_ok :: "nat \<Rightarrow> nat \<Rightarrow> out_state \<Rightarrow> bool" where
  "out_ok n p s \<longleftrightarrow> list_all (\<lambda>r. fst r < snd r \<and> snd r < p \<and> snd r < n) (out_spans s) \<and>
     sorted_wrt (\<lambda>a b. snd a < fst b) (out_spans s) \<and>
     (case start s of
        None \<Rightarrow> \<not> wasActive s
      | Some st \<Rightarrow> wasActive s \<and> st \<le> p \<and> list_all (\<lambda>r. snd r < st) (out_spans s))"

lemma out_ok_mono: "out_ok n p s \<Longrightarrow> p \<le> q \<Longrightarrow> out_ok n q s"
  by (auto simp: out_ok_def list_all_iff split: option.splits)

lemma out_ok_update [simp]:
  "out_ok n p (s\<lparr>depth := d\<rparr>) = out_ok n p s" "out_ok n p (s\<lparr>fnOut := b\<rparr>) = out_ok n p s"
  "out_ok n p (s\<lparr>compOut := b\<rparr>) = out_ok n p s" "out_ok n p (s\<lparr>prefixes := ps\<rparr>) = out_ok n p s"
  by (cases "start s"; simp add: out_ok_def)+

lemma boundaryChanged_ok:
  assumes "out_ok n p s" "p \<le> at" "at \<le> q" "active s \<or> at < q \<and> at < n"
  shows "out_ok n q (boundaryChanged at s)"
proof -
  have sorted: "sorted_wrt (\<lambda>a b. snd a < fst b) (out_spans s)" using assms(1) by (simp add: out_ok_def)
  have spans: "\<forall>r \<in> set (out_spans s). fst r < snd r \<and> snd r < at \<and> snd r < q \<and> snd r < n"
    using assms(1-3) by (auto simp: out_ok_def list_all_iff)
  consider (opened) "active s" "\<not> wasActive s" | (closed) st where "\<not> active s" "wasActive s" "start s = Some st"
    | (same) "active s = wasActive s" | (never) "\<not> active s" "wasActive s" "start s = None" by (cases "start s") auto
  then show ?thesis
  proof cases
    case opened
    then show ?thesis using sorted spans assms(3)
      by (auto simp: boundaryChanged_def out_ok_def list_all_iff)
  next
    case closed
    then show ?thesis using sorted spans assms
      by (auto simp: boundaryChanged_def out_ok_def list_all_iff sorted_wrt_append)
  next
    case same
    then show ?thesis using assms(1-3)
      by (auto simp: boundaryChanged_def out_ok_def list_all_iff split: option.splits)
  next
    case never
    then show ?thesis using assms(1) by (simp add: out_ok_def)
  qed
qed

lemma out_tag_ok:
  assumes "out_ok n p s" "p \<le> i" "i < e" "i < n"
  shows "out_ok n e (out_tag content closing name i e s)"
proof -
  have mono: "out_ok n e s" by (rule out_ok_mono[OF assms(1)]) (use assms in simp)
  have close: "out_ok n e (boundaryChanged i s')" if "out_ok n p s'" for s'
    by (rule boundaryChanged_ok[OF that]) (use assms in simp_all)
  have "out_ok n e (boundaryChanged e s')" if "out_ok n p s'" "active s'" for s'
    by (rule boundaryChanged_ok[OF that(1)]) (use assms that in simp_all)
  then show ?thesis using mono close assms(1) by (simp add: out_tag_def Let_def active_def)
qed

lemma out_step_ok:
  assumes "out_ok (length content) p s" "p \<le> i" "i < length content"
  shows "out_ok (length content) (fst (out_step content i s)) (snd (out_step content i s))"
proof -
  have "out_ok (length content) q s" if "p \<le> q" for q by (rule out_ok_mono[OF assms(1) that])
  moreover have "p \<le> fst (out_step content i s)" using out_step_pos[OF assms(3), of s] assms(2) by simp
  ultimately show ?thesis using out_tag_ok[OF assms(1,2) _ assms(3)]
    by (auto simp: out_step_def Let_def split: option.splits)
qed

lemma out_walk_ok: "out_ok (length content) p s \<Longrightarrow> \<exists>q. out_ok (length content) q (out_walk content p s)"
proof (induction content p s rule: out_walk.induct)
  case step: (1 content pos s)
  note E = out_walk.simps[of content pos s]
  show ?case
  proof (cases "pos < length content \<and> lt_char \<in> set (drop pos content)")
    case False
    then have "out_walk content pos s = s"
      unfolding E by (auto simp flip: index_byte_None split: option.splits)
    then show ?thesis using step.prems by auto
  next
    case True
    then obtain k where k: "index_byte (drop pos content) lt_char = Some k"
      by (metis index_byte_None not_Some_eq)
    obtain p' s' where r: "out_step content (k + pos) s = (p', s')" by (cases "out_step content (k + pos) s")
    have "k + pos < length content" using k by (auto simp: index_byte_Some)
    then have "out_ok (length content) p' s'" using out_step_ok[OF step.prems, of "k + pos"] r by simp
    then have "\<exists>q. out_ok (length content) q (out_walk content p' s')"
      using step.IH[OF conjunct1[OF True] k r[symmetric] refl] by simp
    then show ?thesis unfolding E using True k r by simp
  qed
qed

text \<open>
  C25: The ranges in which text is evaluated come out sorted and disjoint, each holds at least one byte
  and none runs past the file, whatever the nesting and however the tags are left unbalanced.\<close>

theorem outputContext_ranges: "ranges_ok (length content) (fst (outputContext content))"
proof -
  let ?s = "out_walk content 0 out_start"
  have "out_ok (length content) 0 out_start" by (simp add: out_ok_def out_start_def)
  then obtain q where ok: "out_ok (length content) q ?s" using out_walk_ok by blast
  show ?thesis
  proof (cases "start ?s")
    case None
    then show ?thesis using ok
      by (auto simp: outputContext_def Let_def ranges_ok_def out_ok_def list_all_iff less_imp_le)
  next
    case (Some st)
    then show ?thesis using ok
      by (auto simp: outputContext_def Let_def ranges_ok_def out_ok_def list_all_iff sorted_wrt_append less_imp_le)
  qed
qed

lemma outputContext_example:
  "outputContext ''a<cfoutput><cfquery>b</cfquery>c</cfoutput>d<cfmail>'' = ([(11, 32)], [])"
  by code_simp

end
