(* ===== verification/Regions_Props.thy ===== *)
theory Regions_Props
  imports Regions
begin

text \<open>
  What \<open>splitCFScriptBlocks\<close> promises: every region is the file's text at its offset with the line it
  starts on, the regions that are parsed follow each other without overlap, and nothing of the file
  is lost but blank stretches and the \<open><cfscript>\<close> tags themselves. A counterexample shows that a
  region to skip can overlap one that is parsed.
\<close>

section \<open>Line numbers\<close>

lemma sint_offset: "n < 2 ^ 31 \<Longrightarrow> sint (Int32 (of_nat n)) = int n"
proof -
  assume n: "n < 2 ^ 31"
  have "sint (of_nat n :: 64 word) = int n"
    using n by (simp add: signed_of_nat signed_take_bit_int_eq_self)
  then show ?thesis using n by (simp add: Int32_clamps conv_bounds)
qed

lemma line_search_sort_search:
  "line_search idx offset lo hi = sort_search_from (\<lambda>i. \<not> sint (idx ! i) \<le> int offset) lo hi"
proof (induction idx offset lo hi rule: line_search.induct)
  case (1 idx offset lo hi)
  then show ?case
    by (subst line_search.simps, subst sort_search_from.simps) (simp add: Let_def)
qed

lemma line_starts_props:
  assumes "length src < 2 ^ 31" "off \<le> length src"
  shows "sorted (map sint (line_starts src off)) \<and> (\<forall>w \<in> set (line_starts src off). int off < sint w) \<and>
    length (filter (\<lambda>w. sint w \<le> int n) (line_starts src off)) = count_list (take (n - off) (drop off src)) newline"
  using assms
proof (induction src off rule: line_starts.induct)
  case (1 src off)
  show ?case
  proof (cases "off < length src \<and> newline \<in> set (drop off src)")
    case False
    then have "line_starts src off = []"
      by (subst line_starts.simps) (auto simp flip: index_byte_None split: option.splits)
    moreover have "count_list (take (n - off) (drop off src)) newline = 0"
      using False 1(3) by (cases "off < length src") (auto simp: count_list_0_iff dest: in_set_takeD)
    ultimately show ?thesis by simp
  next
    case True
    then obtain i where i: "index_byte (drop off src) newline = Some i"
      by (metis index_byte_None not_Some_eq)
    have E: "line_starts src off = Int32 (of_nat (off + (i + 1))) # line_starts src (off + (i + 1))"
      using True i by (subst line_starts.simps) simp
    define a where "a = take i (drop off src)"
    define b where "b = drop (off + (i + 1)) src"
    have d: "drop off src = a @ newline # b"
      using index_byte_split[OF i] by (simp add: a_def b_def add.commute)
    have bound: "off + (i + 1) \<le> length src" "newline \<notin> set a" "length a = i"
      using i by (auto simp: index_byte_Some a_def)
    have IH: "sorted (map sint (line_starts src (off + (i + 1))))"
      "\<forall>w \<in> set (line_starts src (off + (i + 1))). int (off + (i + 1)) < sint w"
      "length (filter (\<lambda>w. sint w \<le> int n) (line_starts src (off + (i + 1)))) =
        count_list (take (n - (off + (i + 1))) (drop (off + (i + 1)) src)) newline"
      using 1(1)[OF conjunct1[OF True] i 1(2) bound(1)] by auto
    have w: "sint (Int32 (of_nat (off + (i + 1)))) = int (off + (i + 1))"
      using bound(1) 1(2) by (intro sint_offset) linarith
    have count: "count_list (take (n - off) (drop off src)) newline =
        (if off + (i + 1) \<le> n then 1 else 0) + count_list (take (n - (off + (i + 1))) b) newline"
    proof (cases "off + (i + 1) \<le> n")
      case True
      then obtain m where m: "n = off + (i + 1) + m" using le_Suc_ex by blast
      then have "take (n - off) (drop off src) = a @ newline # take (n - (off + (i + 1))) b"
        by (simp add: d bound(3))
      then show ?thesis using True bound(2) by (simp add: count_notin)
    next
      case False
      then have "take (n - off) (drop off src) = take (n - off) a" by (simp add: d bound(3))
      then have "newline \<notin> set (take (n - off) (drop off src))" using bound(2) by (metis in_set_takeD)
      then show ?thesis using False by (simp add: count_notin)
    qed
    show ?thesis using IH w count unfolding E b_def
      by (auto intro: order.strict_implies_order dest: less_trans)
  qed
qed

lemma lineAtOffset_newlines:
  assumes "length content < 2 ^ 31"
  shows "lineAtOffset (buildLineIdx content) n = int (count_list (take n content) newline)"
proof -
  let ?idx = "buildLineIdx content" and ?f = "\<lambda>i. \<not> sint (buildLineIdx content ! i) \<le> int n"
  note props = line_starts_props[OF assms, of 0 n]
  have sorted: "sorted (map sint ?idx)"
    using props by (auto simp: buildLineIdx_def intro: order.strict_implies_order)
  have mono: "?f j" if "i \<le> j" "j < length ?idx" "?f i" for i j
    using that sorted_nth_mono[OF sorted, of i j] by simp
  define r where "r = sort_search (length ?idx) ?f"
  note least = sort_search_least[of "length ?idx" ?f, folded r_def]
  have r_le: "r \<le> length ?idx" by (rule least(1)) (rule mono)
  have r: "\<not> ?f x" if "x < r" for x by (rule least(2)[OF _ that]) (rule mono)
  have r_first: "?f r" if "r < length ?idx" by (rule least(3)[OF _ that]) (rule mono)
  have "length (filter (\<lambda>w. sint w \<le> int n) ?idx) = r"
  proof -
    have "filter (\<lambda>w. sint w \<le> int n) (take r ?idx) = take r ?idx"
      using r r_le by (intro filter_True) (auto simp: in_set_conv_nth)
    moreover have "filter (\<lambda>w. sint w \<le> int n) (drop r ?idx) = []"
      unfolding filter_empty_conv
    proof
      fix w assume "w \<in> set (drop r ?idx)"
      then obtain j where "j < length ?idx - r" "w = ?idx ! (r + j)" by (auto simp: in_set_conv_nth)
      moreover from this have "?f (r + j)" using mono[of r "r + j"] r_first by simp
      ultimately show "\<not> sint w \<le> int n" by simp
    qed
    ultimately show ?thesis using r_le
      by (metis append_take_drop_id filter_append append_Nil2 length_take min.absorb2)
  qed
  then show ?thesis
    using props by (simp add: lineAtOffset_def line_search_sort_search r_def sort_search_def buildLineIdx_def)
qed

section \<open>The blocks the file is cut into\<close>

lemma TrimSpace_Nil [simp]: "TrimSpace [] = []"
  by (simp add: TrimSpace_def trim_left_space.simps trim_right_space.simps)

lemma add_region_if:
  "(if a < b then add_region content idx k a b else []) = add_region content idx k a b"
  by (auto simp: add_region_def slice_def)

lemma region_stop_at [simp]:
  "a \<le> b \<Longrightarrow> b \<le> length content \<Longrightarrow> regOffset (region_at content idx k a b) = a"
  "a \<le> b \<Longrightarrow> b \<le> length content \<Longrightarrow> length (regText (region_at content idx k a b)) = b - a"
  "regKind (region_at content idx k a b) = k"
  by (simp_all add: region_at_def)

text \<open>
  The cuts \<open>split_blocks\<close> makes, as rules: \<open>blocks content idx spans pos rs\<close> says that \<open>rs\<close> are the regions
  of the file from \<open>pos\<close> on.\<close>

definition tag_at :: "string \<Rightarrow> nat \<Rightarrow> string \<Rightarrow> bool" where
  "tag_at content p t \<longleftrightarrow> p + length t \<le> length content \<and> EqualFold (slice content p (p + length t)) t"

inductive blocks :: "string \<Rightarrow> 32 word list \<Rightarrow> (nat \<times> nat) list \<Rightarrow> nat \<Rightarrow> Region list \<Rightarrow> bool"
  for content idx where
  skip: "dropWhile (\<lambda>s. snd s \<le> pos) spans = (a, b) # rest \<Longrightarrow> blocks content idx rest b rs \<Longrightarrow>
    blocks content idx spans pos
      (add_region content idx RegionTag pos a @ region_at content idx RegionSkip a b # rs)"
| rest: "blocks content idx spans pos (add_region content idx RegionTag pos (length content))"
| opened: "pos \<le> at \<Longrightarrow> tag_at content at ''<cfscript>'' \<Longrightarrow>
    blocks content idx spans pos
      (add_region content idx RegionTag pos at @ add_region content idx RegionScript (at + 10) (length content))"
| closed: "pos \<le> at \<Longrightarrow> tag_at content at ''<cfscript>'' \<Longrightarrow> at + 10 \<le> c \<Longrightarrow> tag_at content c ''</cfscript>'' \<Longrightarrow>
    blocks content idx (dropWhile (\<lambda>s. snd s \<le> pos) spans) (c + 11) rs \<Longrightarrow>
    blocks content idx spans pos
      (add_region content idx RegionTag pos at @ add_region content idx RegionScript (at + 10) c @ rs)"

lemma tag_at_iff:
  "tag_at content p ''<cfscript>'' \<longleftrightarrow>
     p + 10 \<le> length content \<and> EqualFold (slice content p (p + 10)) ''<cfscript>''"
  "tag_at content p ''</cfscript>'' \<longleftrightarrow>
     p + 11 \<le> length content \<and> EqualFold (slice content p (p + 11)) ''</cfscript>''"
  by (simp_all add: tag_at_def eval_nat_numeral)

lemma slice_of_drop: "slice (drop k s) i j = slice s (k + i) (k + j)"
  by (simp add: slice_def add.commute)

lemma split_blocks_blocks: "blocks content idx spans pos (split_blocks content idx spans pos)"
proof (induction content idx spans pos rule: split_blocks.induct)
  case step: (1 content idx spans pos)
  let ?spans = "dropWhile (\<lambda>s. snd s \<le> pos) spans" and ?open = "nextCFScriptOpen content pos"
  let ?first = "?spans \<noteq> [] \<and> (case ?open of None \<Rightarrow> True | Some at \<Rightarrow> fst (hd ?spans) < at)"
  show ?case
  proof (cases ?first)
    case True
    then obtain a b more where ab: "?spans = (a, b) # more" by (metis list.exhaust surj_pair)
    then have "split_blocks content idx spans pos = add_region content idx RegionTag pos a @
        region_at content idx RegionSkip a b # split_blocks content idx more b"
      unfolding split_blocks.simps[of content idx spans pos] Let_def if_P[OF True] add_region_if by simp
    moreover have "blocks content idx more b (split_blocks content idx more b)"
      using step.IH(1)[OF refl refl True] ab by simp
    ultimately show ?thesis using blocks.skip[OF ab] by simp
  next
    case notfirst: False
    show ?thesis
    proof (cases ?open)
      case None
      then have "split_blocks content idx spans pos = add_region content idx RegionTag pos (length content)"
        unfolding split_blocks.simps[of content idx spans pos] Let_def if_not_P[OF notfirst] add_region_if
        by simp
      then show ?thesis using blocks.rest by simp
    next
      case (Some at)
      note at = nextCFScriptOpen_at[OF Some]
      then have tag: "pos \<le> at" "tag_at content at ''<cfscript>''" by (simp_all add: tag_at_iff)
      show ?thesis
      proof (cases "indexCFTag (drop (at + 10) content) ''/cfscript>''")
        case None
        then have "split_blocks content idx spans pos = add_region content idx RegionTag pos at @
            add_region content idx RegionScript (at + 10) (length content)"
          using Some
          unfolding split_blocks.simps[of content idx spans pos] Let_def if_not_P[OF notfirst] add_region_if
          by simp
        then show ?thesis using blocks.opened[OF tag] by simp
      next
        case close: (Some c)
        have "tag_at content (at + 10 + c) ''</cfscript>''"
          using indexCFTag_at[OF close] at by (auto simp: tag_at_iff slice_of_drop ac_simps)
        moreover have "split_blocks content idx spans pos = add_region content idx RegionTag pos at @
            add_region content idx RegionScript (at + 10) (at + 10 + c) @
            split_blocks content idx ?spans (at + 10 + c + 11)"
          using Some close
          unfolding split_blocks.simps[of content idx spans pos] Let_def if_not_P[OF notfirst] add_region_if
          by (simp add: add.commute add.left_commute)
        moreover have "blocks content idx ?spans (at + 10 + c + 11) (split_blocks content idx ?spans (at + 10 + c + 11))"
          using step.IH(2)[OF refl refl notfirst Some refl close] by (simp add: add.commute)
        ultimately show ?thesis using blocks.closed[OF tag, of "at + 10 + c"] by simp
      qed
    qed
  qed
qed

section \<open>The property\<close>

definition region_stop :: "Region \<Rightarrow> nat" where
  "region_stop r = regOffset r + length (regText r)"

definition follows :: "Region \<Rightarrow> Region \<Rightarrow> bool" where
  "follows a b \<longleftrightarrow> region_stop a \<le> regOffset b"

definition parsed :: "Region \<Rightarrow> bool" where
  "parsed r \<longleftrightarrow> regKind r \<noteq> RegionSkip"

definition skipped :: "Region \<Rightarrow> bool" where
  "skipped r \<longleftrightarrow> regKind r = RegionSkip"

text \<open>The region is the file's text at its offset, and it starts on the line of that offset.\<close>

definition region_ok :: "string \<Rightarrow> Region \<Rightarrow> bool" where
  "region_ok content r \<longleftrightarrow> region_stop r \<le> length content \<and>
     regText r = slice content (regOffset r) (region_stop r) \<and>
     regLine r = int (count_list (take (regOffset r) content) newline)"

text \<open>The byte at \<open>i\<close> is in a region, in a \<open><cfscript>\<close> or \<open></cfscript>\<close> tag, or in a blank stretch.\<close>

definition covered :: "string \<Rightarrow> Region list \<Rightarrow> nat \<Rightarrow> bool" where
  "covered content rs i \<longleftrightarrow> (\<exists>r \<in> set rs. regOffset r \<le> i \<and> i < region_stop r) \<or>
     (\<exists>p \<le> i. i < p + 10 \<and> tag_at content p ''<cfscript>'' \<or> i < p + 11 \<and> tag_at content p ''</cfscript>'') \<or>
     (\<exists>a \<le> i. \<exists>b. i < b \<and> b \<le> length content \<and> TrimSpace (slice content a b) = [])"

lemma region_stop_region_at [simp]:
  "a \<le> b \<Longrightarrow> b \<le> length content \<Longrightarrow> region_stop (region_at content idx k a b) = b"
  by (simp add: region_stop_def)

lemma add_region_mem:
  "r \<in> set (add_region content idx k a b) \<Longrightarrow> r = region_at content idx k a b \<and> a < b"
  by (cases "a < b") (auto simp: add_region_def slice_def split: if_splits)

lemma filter_add_region:
  "k \<noteq> RegionSkip \<Longrightarrow> filter parsed (add_region content idx k a b) = add_region content idx k a b"
  "k \<noteq> RegionSkip \<Longrightarrow> filter skipped (add_region content idx k a b) = []"
  by (simp_all add: add_region_def parsed_def skipped_def region_at_def)

lemma sorted_add_region [simp]: "sorted_wrt P (add_region content idx k a b)"
  by (simp add: add_region_def)

definition good_spans :: "nat \<Rightarrow> (nat \<times> nat) list \<Rightarrow> bool" where
  "good_spans n spans \<longleftrightarrow> (\<forall>s \<in> set spans. fst s < snd s \<and> snd s \<le> n) \<and> sorted_wrt (\<lambda>s t. snd s \<le> fst t) spans"

lemma sorted_wrt_dropWhile: "sorted_wrt P xs \<Longrightarrow> sorted_wrt P (dropWhile Q xs)"
  by (induction xs) auto

lemma good_spans_dropWhile: "good_spans n spans \<Longrightarrow> good_spans n (dropWhile P spans)"
  by (auto simp: good_spans_def sorted_wrt_dropWhile dest: set_dropWhileD)

lemma good_spans_next:
  assumes "good_spans n spans" "dropWhile (\<lambda>s. snd s \<le> pos) spans = (a, b) # rest"
  shows "a < b" "b \<le> n" "pos < b" "good_spans n rest" "s \<in> set rest \<Longrightarrow> b \<le> fst s"
    "(a, b) \<in> set spans" "set rest \<subseteq> set spans"
proof -
  have "good_spans n ((a, b) # rest)" using good_spans_dropWhile[OF assms(1)] assms(2) by metis
  then show "a < b" "b \<le> n" "good_spans n rest" "s \<in> set rest \<Longrightarrow> b \<le> fst s"
    by (auto simp: good_spans_def)
  show "pos < b" using hd_dropWhile[of "\<lambda>s. snd s \<le> pos" spans] assms(2) by simp
  have "set ((a, b) # rest) \<subseteq> set spans" using assms(2) set_dropWhileD by (metis subsetI)
  then show "(a, b) \<in> set spans" "set rest \<subseteq> set spans" by simp_all
qed

lemma blocks_regions:
  assumes "blocks content idx spans pos rs" "good_spans (length content) spans" "r \<in> set rs"
  shows "\<exists>k a b. r = region_at content idx k a b \<and> a \<le> b \<and> b \<le> length content"
  using assms
proof (induction rule: blocks.induct)
  case (skip pos spans a b rest rs)
  note g = good_spans_next[OF skip.prems(1) skip.hyps(1)]
  from skip.prems(2) consider "r \<in> set (add_region content idx RegionTag pos a)"
    | "r = region_at content idx RegionSkip a b" | "r \<in> set rs" by auto
  then show ?case
  proof cases
    case 1
    then show ?thesis using g(1,2) by (meson add_region_mem less_imp_le less_le_trans)
  next
    case 2
    then show ?thesis using g(1,2) less_imp_le by blast
  next
    case 3
    then show ?thesis using skip.IH g(4) by blast
  qed
next
  case (closed pos at c spans rs)
  have "at \<le> length content" "c \<le> length content" using closed.hyps by (simp_all add: tag_at_iff)
  then show ?case
    using closed.prems closed.IH[OF good_spans_dropWhile] by (auto dest!: add_region_mem) (metis less_imp_le)+
next
  case (opened pos at spans)
  have "at \<le> length content" using opened.hyps by (simp add: tag_at_iff)
  then show ?case using opened.prems by (auto dest!: add_region_mem) (metis less_imp_le order_refl)+
next
  case (rest spans pos)
  then show ?case by (auto dest!: add_region_mem) (metis less_imp_le order_refl)
qed

lemma sorted_append_follows:
  assumes "sorted_wrt follows xs" "sorted_wrt follows ys" "\<forall>x \<in> set xs. region_stop x \<le> m" "\<forall>y \<in> set ys. m \<le> regOffset y"
  shows "sorted_wrt follows (xs @ ys)"
  using assms unfolding sorted_wrt_append follows_def by (meson order_trans)

lemma add_region_bounds:
  "a \<le> length content \<Longrightarrow> b \<le> length content \<Longrightarrow> r \<in> set (add_region content idx k a b) \<Longrightarrow>
   regOffset r = a \<and> region_stop r = b"
  by (drule add_region_mem) simp

lemma blocks_parsed_order:
  assumes "blocks content idx spans pos rs" "good_spans (length content) spans" "pos \<le> length content"
  shows "sorted_wrt follows (filter parsed rs) \<and> (\<forall>r \<in> set (filter parsed rs). pos \<le> regOffset r)"
  using assms
proof (induction rule: blocks.induct)
  case (skip pos spans a b rest rs)
  note g = good_spans_next[OF skip.prems(1) skip.hyps(1)]
  note IH = skip.IH[OF g(4,2)]
  let ?gap = "add_region content idx RegionTag pos a"
  have gap: "\<forall>r \<in> set ?gap. regOffset r = pos \<and> region_stop r = a"
    using add_region_bounds[OF skip.prems(2), of a] g(1,2) by auto
  have "sorted_wrt follows (?gap @ filter parsed rs)"
    by (rule sorted_append_follows[where m = b]) (use IH gap g(1) in auto)
  then show ?case using IH gap g(3) by (auto simp: filter_add_region) (auto simp: parsed_def)
next
  case (rest spans pos)
  then show ?case using add_region_bounds[OF rest(2) order_refl] by (auto simp: filter_add_region)
next
  case (opened pos at spans)
  have at: "at + 10 \<le> length content" using opened.hyps by (simp add: tag_at_iff)
  let ?gap = "add_region content idx RegionTag pos at" and ?body = "add_region content idx RegionScript (at + 10) (length content)"
  have gap: "\<forall>r \<in> set ?gap. regOffset r = pos \<and> region_stop r = at"
    using add_region_bounds[OF opened.prems(2), of at] at by auto
  have body: "\<forall>r \<in> set ?body. regOffset r = at + 10"
    using add_region_bounds[OF at order_refl] by auto
  have "sorted_wrt follows (?gap @ ?body)"
    by (rule sorted_append_follows[where m = "at + 10"]) (use gap body in auto)
  then show ?case using gap body opened.hyps(1) by (auto simp: filter_add_region)
next
  case (closed pos at c spans rs)
  have at: "at + 10 \<le> length content" "c + 11 \<le> length content" using closed.hyps by (simp_all add: tag_at_iff)
  note IH = closed.IH[OF good_spans_dropWhile[OF closed.prems(1)] at(2)]
  let ?gap = "add_region content idx RegionTag pos at" and ?body = "add_region content idx RegionScript (at + 10) c"
  have gap: "\<forall>r \<in> set ?gap. regOffset r = pos \<and> region_stop r = at"
    using add_region_bounds[OF closed.prems(2), of at] at by auto
  have body: "\<forall>r \<in> set ?body. regOffset r = at + 10 \<and> region_stop r = c"
    using add_region_bounds[OF at(1), of c] at(2) by auto
  have "sorted_wrt follows (?body @ filter parsed rs)"
    by (rule sorted_append_follows[where m = "c + 11"]) (use IH body in auto)
  then have "sorted_wrt follows (?gap @ ?body @ filter parsed rs)"
    by (rule sorted_append_follows[where m = "at + 10", rotated]) (use IH gap body closed.hyps(3) in auto)
  then show ?case using IH gap body closed.hyps(1,3) by (auto simp: filter_add_region)
qed

lemma blocks_skip_order:
  assumes "blocks content idx spans pos rs" "good_spans (length content) spans"
  shows "sorted_wrt follows (filter skipped rs) \<and>
    (\<forall>r \<in> set (filter skipped rs). (regOffset r, region_stop r) \<in> set spans)"
  using assms
proof (induction rule: blocks.induct)
  case (skip pos spans a b rest rs)
  note g = good_spans_next[OF skip.prems(1) skip.hyps(1)]
  note IH = skip.IH[OF g(4)]
  let ?r = "region_at content idx RegionSkip a b"
  have r: "regOffset ?r = a" "region_stop ?r = b" using g(1,2) by (simp_all add: less_imp_le)
  have "b \<le> regOffset r" if "r \<in> set (filter skipped rs)" for r
    using IH that g(5)[of "(regOffset r, region_stop r)"] by (metis fst_conv)
  then have "\<forall>r \<in> set (filter skipped rs). follows ?r r" by (simp add: follows_def r)
  moreover have "filter skipped (add_region content idx RegionTag pos a @ ?r # rs) = ?r # filter skipped rs"
    by (simp add: filter_add_region skipped_def)
  moreover have "\<forall>r \<in> set (?r # filter skipped rs). (regOffset r, region_stop r) \<in> set spans"
    using IH g(6,7) r by auto
  ultimately show ?case using IH by (metis sorted_wrt.simps(2))
next
  case (closed pos at c spans rs)
  note IH = closed.IH[OF good_spans_dropWhile[OF closed.prems]]
  then have "\<forall>r \<in> set (filter skipped rs). (regOffset r, region_stop r) \<in> set spans"
    using set_dropWhileD by fast
  then show ?case using IH by (simp add: filter_add_region)
qed (simp_all add: filter_add_region)

lemma covered_mono: "covered content rs i \<Longrightarrow> set rs \<subseteq> set rs' \<Longrightarrow> covered content rs' i"
  unfolding covered_def by blast

lemma add_region_covers:
  assumes "a \<le> i" "i < b" "b \<le> length content" "set (add_region content idx k a b) \<subseteq> set rs"
  shows "covered content rs i"
proof (cases "TrimSpace (slice content a b) = []")
  case True
  then show ?thesis using assms unfolding covered_def by blast
next
  case False
  then have "region_at content idx k a b \<in> set rs" using assms(4) by (simp add: add_region_def)
  moreover have "regOffset (region_at content idx k a b) = a" "region_stop (region_at content idx k a b) = b"
    using assms by simp_all
  ultimately show ?thesis using assms(1,2) unfolding covered_def by metis
qed

lemma tag_covers:
  "tag_at content p ''<cfscript>'' \<Longrightarrow> p \<le> i \<Longrightarrow> i < p + 10 \<Longrightarrow> covered content rs i"
  "tag_at content p ''</cfscript>'' \<Longrightarrow> p \<le> i \<Longrightarrow> i < p + 11 \<Longrightarrow> covered content rs i"
  unfolding covered_def by blast+

lemma blocks_covered:
  assumes "blocks content idx spans pos rs" "good_spans (length content) spans" "pos \<le> i" "i < length content"
  shows "covered content rs i"
  using assms
proof (induction rule: blocks.induct)
  case (skip pos spans a b rest rs)
  note g = good_spans_next[OF skip.prems(1) skip.hyps(1)]
  let ?r = "region_at content idx RegionSkip a b"
  have r: "regOffset ?r = a" "region_stop ?r = b" using g(1,2) by (simp_all add: less_imp_le)
  consider "i < a" | "a \<le> i" "i < b" | "b \<le> i" by linarith
  then show ?case
  proof cases
    case 1
    then show ?thesis using skip.prems(2) g(1,2) by (intro add_region_covers[of pos i a]) auto
  next
    case 2
    then show ?thesis using r unfolding covered_def by (metis in_set_conv_decomp)
  next
    case 3
    show ?thesis by (rule covered_mono[OF skip.IH[OF g(4) 3 skip.prems(3)]]) auto
  qed
next
  case (rest spans pos)
  then show ?case by (intro add_region_covers[of pos i "length content"]) auto
next
  case (opened pos at spans)
  have at: "at + 10 \<le> length content" using opened.hyps by (simp add: tag_at_iff)
  consider "i < at" | "at \<le> i" "i < at + 10" | "at + 10 \<le> i" by linarith
  then show ?case
  proof cases
    case 1
    then show ?thesis using opened.prems at by (intro add_region_covers[of pos i at]) auto
  next
    case 2
    then show ?thesis by (rule tag_covers(1)[OF opened.hyps(2)])
  next
    case 3
    then show ?thesis using opened.prems by (intro add_region_covers[of "at + 10" i "length content"]) auto
  qed
next
  case (closed pos at c spans rs)
  have at: "at + 10 \<le> length content" "c + 11 \<le> length content" using closed.hyps by (simp_all add: tag_at_iff)
  consider "i < at" | "at \<le> i" "i < at + 10" | "at + 10 \<le> i" "i < c" | "c \<le> i" "i < c + 11" | "c + 11 \<le> i" by linarith
  then show ?case
  proof cases
    case 1
    then show ?thesis using closed.prems at by (intro add_region_covers[of pos i at]) auto
  next
    case 2
    then show ?thesis by (rule tag_covers(1)[OF closed.hyps(2)])
  next
    case 3
    then show ?thesis using at by (intro add_region_covers[of "at + 10" i c]) auto
  next
    case 4
    then show ?thesis by (rule tag_covers(2)[OF closed.hyps(4)])
  next
    case 5
    show ?thesis
      by (rule covered_mono[OF closed.IH[OF good_spans_dropWhile[OF closed.prems(1)] 5 closed.prems(3)]]) auto
  qed
qed

lemma good_spans_Cons:
  "good_spans n ((a, b) # ss) \<longleftrightarrow> a < b \<and> b \<le> n \<and> good_spans n ss \<and> (\<forall>s \<in> set ss. b \<le> fst s)"
  by (auto simp: good_spans_def)

lemma skip_spans_end:
  assumes "tagEndIndex (drop i content) = Some g" "i < length content"
  shows "i + g < length content"
    "indexCFTag (drop (i + g + 1) content) ''/script>'' = Some c \<Longrightarrow> i + g + 1 + c + 9 \<le> length content"
proof -
  show g: "i + g < length content" using tagEndIndex_gt[OF assms(1)] assms(2) by auto
  assume "indexCFTag (drop (i + g + 1) content) ''/script>'' = Some c"
  from indexCFTag_at[OF this] show "i + g + 1 + c + 9 \<le> length content" using g by auto
qed

lemma skip_spans_good:
  "good_spans (length content) (skip_spans content pos) \<and> (\<forall>s \<in> set (skip_spans content pos). pos \<le> fst s)"
proof (induction content pos rule: skip_spans.induct)
  case step: (1 content pos)
  show ?case
  proof (cases "pos < length content \<and> lt_char \<in> set (drop pos content)")
    case False
    then have "skip_spans content pos = []"
      by (subst skip_spans.simps) (auto simp flip: index_byte_None split: option.splits)
    then show ?thesis by (simp add: good_spans_def)
  next
    case True
    then obtain k where k: "index_byte (drop pos content) lt_char = Some k"
      by (metis index_byte_None not_Some_eq)
    let ?i = "k + pos" and ?no = "length content \<le> k + pos + 7 \<or> \<not> EqualFold (slice content (k + pos + 1) (k + pos + 7)) ''script''"
    note E = skip_spans.simps[of content pos, unfolded if_P[OF conjunct1[OF True]] k option.case Let_def]
    have i: "?i < length content" using k by (auto simp: index_byte_Some)
    have weaken: "\<forall>s \<in> set ss. m \<le> fst s \<Longrightarrow> pos \<le> m \<Longrightarrow> \<forall>s \<in> set ss. pos \<le> fst s" for m and ss :: "(nat \<times> nat) list"
      by (meson order_trans)
    consider "opens_comment content ?i" | "\<not> opens_comment content ?i" ?no
      | "\<not> opens_comment content ?i" "\<not> ?no" "\<not> tag_boundary (content ! (?i + 7))"
      | "\<not> opens_comment content ?i" "\<not> ?no" "tag_boundary (content ! (?i + 7))" by blast
    then show ?thesis
    proof cases
      case 1
      have "pos \<le> skipCFMLComment content ?i" using skipCFMLComment_ge[of ?i content] by simp
      note IH = step.IH(1)[OF conjunct1[OF True] k refl 1]
      show ?thesis using IH weaken[OF conjunct2[OF IH]] \<open>pos \<le> skipCFMLComment content ?i\<close>
        unfolding E if_P[OF 1] by blast
    next
      case 2
      note IH = step.IH(2)[OF conjunct1[OF True] k refl 2]
      have "pos \<le> ?i + 1" by simp
      then show ?thesis using IH weaken[OF conjunct2[OF IH]] unfolding E if_not_P[OF 2(1)] if_P[OF 2(2)] by blast
    next
      case 3
      note IH = step.IH(3)[OF conjunct1[OF True] k refl 3]
      have "pos \<le> ?i + 1" by simp
      then show ?thesis using IH weaken[OF conjunct2[OF IH]] unfolding E if_not_P[OF 3(1)] if_not_P[OF 3(2)] if_P[OF 3(3)] by blast
    next
      case 4
      show ?thesis
      proof (cases "tagEndIndex (drop ?i content)")
        case None
        then show ?thesis unfolding E if_not_P[OF 4(1)] if_not_P[OF 4(2)] by (simp add: 4(3) good_spans_def)
      next
        case (Some g)
        let ?close = "indexCFTag (drop (?i + g + 1) content) ''/script>''"
        let ?stop = "case ?close of None \<Rightarrow> length content | Some c \<Rightarrow> ?i + g + 1 + c + 9"
        have stop: "?i < ?stop" "?stop \<le> length content"
          using skip_spans_end[OF Some i] i by (auto split: option.splits)
        have IH: "good_spans (length content) (skip_spans content ?stop)"
            "\<forall>s \<in> set (skip_spans content ?stop). ?stop \<le> fst s"
          using step.IH(4)[OF conjunct1[OF True] k refl 4(1,2) _ Some refl refl refl refl] 4(3) by simp_all
        have eq: "skip_spans content pos =
            (if \<not> containsCFTag (slice content (?i + g + 1) (case ?close of None \<Rightarrow> length content | Some c \<Rightarrow> ?i + g + 1 + c))
             then [(?i, ?stop)] else []) @ skip_spans content ?stop"
          unfolding E if_not_P[OF 4(1)] if_not_P[OF 4(2)] by (simp add: 4(3) Some)
        have "good_spans (length content) ((?i, ?stop) # skip_spans content ?stop)"
          using IH stop by (simp add: good_spans_Cons)
        moreover have "\<forall>s \<in> set ((?i, ?stop) # skip_spans content ?stop). pos \<le> fst s"
          using weaken[OF IH(2)] stop(1) by simp
        ultimately show ?thesis using IH(1) unfolding eq by (simp only: split: if_split) simp
      qed
    qed
  qed
qed

lemma findScriptSkipSpans_good: "good_spans (length content) (findScriptSkipSpans content)"
  using skip_spans_good by (simp add: findScriptSkipSpans_def)

lemma splitCFScriptBlocks_region_ok:
  assumes "length content < 2 ^ 31" "r \<in> set (fst (splitCFScriptBlocks content))"
  shows "region_ok content r"
  using blocks_regions[OF split_blocks_blocks findScriptSkipSpans_good, of r content "buildLineIdx content" 0] assms(2)
  by (auto simp: splitCFScriptBlocks_def Let_def region_ok_def lineAtOffset_newlines[OF assms(1)])
    (simp_all add: region_at_def lineAtOffset_newlines[OF assms(1)])

text \<open>
  C19: Cutting a file into regions loses and repeats nothing that is parsed: every region is the
  file's own text at its offset and knows the line it starts on, the tag and script regions come in
  order without overlap, so do the regions to skip, and every byte is in a region, in a \<open><cfscript>\<close>
  or \<open></cfscript>\<close> tag or in a blank stretch.\<close>

theorem splitCFScriptBlocks_tiles:
  assumes "length content < 2 ^ 31"
  shows "list_all (region_ok content) (fst (splitCFScriptBlocks content)) \<and>
    sorted_wrt follows (filter parsed (fst (splitCFScriptBlocks content))) \<and>
    sorted_wrt follows (filter skipped (fst (splitCFScriptBlocks content))) \<and>
    list_all (covered content (fst (splitCFScriptBlocks content))) [0..<length content]"
proof -
  let ?idx = "buildLineIdx content" and ?spans = "findScriptSkipSpans content"
  let ?rs = "split_blocks content ?idx ?spans 0"
  note b = split_blocks_blocks[of content ?idx ?spans 0] and g = findScriptSkipSpans_good[of content]
  have "region_ok content r" if "r \<in> set ?rs" for r
    using splitCFScriptBlocks_region_ok[OF assms, of r] that by (simp add: splitCFScriptBlocks_def Let_def)
  moreover have "covered content ?rs i" if "i < length content" for i
    by (rule blocks_covered[OF b g _ that]) simp
  ultimately show ?thesis
    using blocks_parsed_order[OF b g] blocks_skip_order[OF b g]
    by (simp add: splitCFScriptBlocks_def Let_def list_all_iff)
qed

definition sample_page :: string where
  "sample_page = ''<cfset a = 1>'' @ [newline] @ ''<!--- <cfscript> ---><script>a<b</script>'' @ [newline] @
     ''<cfscript>f();</cfscript>''"

lemma splitCFScriptBlocks_tiles_witness:
  "list_all (covered sample_page (fst (splitCFScriptBlocks sample_page))) [0..<length sample_page] \<and>
   map (\<lambda>r. (regKind r, regLine r, regOffset r)) (fst (splitCFScriptBlocks sample_page)) =
     [(RegionTag, 0, 0), (RegionSkip, 1, 35), (RegionScript, 2, 66)]"
proof -
  have "length sample_page < 2 ^ 31" by code_simp
  from splitCFScriptBlocks_tiles[OF this]
  have "list_all (covered sample_page (fst (splitCFScriptBlocks sample_page))) [0..<length sample_page]" by blast
  moreover have "map (\<lambda>r. (regKind r, regLine r, regOffset r)) (fst (splitCFScriptBlocks sample_page)) =
     [(RegionTag, 0, 0), (RegionSkip, 1, 35), (RegionScript, 2, 66)]" by code_simp
  ultimately show ?thesis ..
qed

text \<open>
  A region to skip may overlap a script region, and swallow the tags after it: the search for
  \<open><script>\<close> blocks does not step over \<open><cfscript>\<close> ones, so the word \<open><script>\<close> in a string of a
  \<open><cfscript>\<close> block opens a block that runs to the end of the file.\<close>

definition script_in_string :: string where
  "script_in_string = ''<cfset a=1><cfscript>x('' @ [dquote] @ ''<script>'' @ [dquote] @ '')</cfscript></cffunction>''"

lemma splitCFScriptBlocks_overlap:
  "map (\<lambda>r. (regKind r, regOffset r, region_stop r)) (fst (splitCFScriptBlocks script_in_string)) =
     [(RegionTag, 0, 11), (RegionScript, 21, 34), (RegionSkip, 24, 58)]"
  by code_simp

end
