(* ===== verification/Script_Structure.thy ===== *)
theory Script_Structure
  imports Scanner_Props Regions_Props
begin

unbundle bit_operations_syntax

text \<open>
  The folding structure of a document (\<open>internal/parser/structure.go\<close>): one pass over the scanner's tokens
  keeps a stack of open brackets and the statement being read, and reports each bracket, list, switch
  case, chain of branches and comment that spans lines; \<open>StructureSpans\<close> puts it together with the walk
  over the markup, as \<open>ClassifyRegions\<close> splits the file. The stack is a list with the innermost bracket
  first; lines are integers.
\<close>

section \<open>Words\<close>

type_synonym wordClass = "16 word"

definition wordOperator :: wordClass where "wordOperator = 1"
definition wordLeading :: wordClass where "wordLeading = 2"
definition wordGrouping :: wordClass where "wordGrouping = 4"
definition wordAlone :: wordClass where "wordAlone = 8"
definition wordChain :: wordClass where "wordChain = 16"
definition wordElse :: wordClass where "wordElse = 32"
definition wordAttrs :: wordClass where "wordAttrs = 64"
definition wordSwitch :: wordClass where "wordSwitch = 128"
definition wordCase :: wordClass where "wordCase = 256"
definition wordReturn :: wordClass where "wordReturn = 512"

text \<open>\<open>class & flags != 0\<close>.\<close>

definition has :: "wordClass \<Rightarrow> wordClass \<Rightarrow> bool" where
  "has c flags \<longleftrightarrow> c AND flags \<noteq> 0"

definition word_classes :: "(string list \<times> wordClass) list" where
  "word_classes =
     [([''and'', ''or'', ''not'', ''xor'', ''eqv'', ''imp'', ''eq'', ''neq'', ''gt'', ''lt'', ''gte'', ''lte'',
        ''ge'', ''le'', ''contains'', ''mod'', ''equal'', ''less'', ''greater'', ''than'', ''does''], wordOperator),
      ([''is'', ''in''], wordOperator OR wordGrouping),
      ([''return''], wordLeading OR wordGrouping OR wordAlone OR wordReturn),
      ([''var'', ''new'', ''throw'', ''function'', ''final'', ''static'', ''public'', ''private'',
        ''package'', ''remote'', ''import''], wordLeading),
      ([''else''], wordLeading OR wordChain OR wordElse),
      ([''catch''], wordChain OR wordGrouping),
      ([''finally''], wordChain),
      ([''if'', ''while'', ''for''], wordGrouping),
      ([''switch''], wordGrouping OR wordSwitch),
      ([''break'', ''continue'', ''abort'', ''exit'', ''retry'', ''rethrow''], wordAlone),
      ([''component'', ''interface'', ''property''], wordAttrs),
      ([''case'', ''default''], wordCase)]"

definition classify :: "string \<Rightarrow> wordClass" where
  "classify w =
     (if length ''component'' < length w then 0
      else (case find (\<lambda>c. ToLower w \<in> set (fst c)) word_classes of None \<Rightarrow> 0 | Some c \<Rightarrow> snd c))"

definition startsAttributes :: "wordClass \<Rightarrow> wordClass \<Rightarrow> bool" where
  "startsAttributes first second \<longleftrightarrow> \<not> has first (wordLeading OR wordOperator OR wordCase) \<and> \<not> has second wordOperator"

definition isCloser :: "TokenKind \<Rightarrow> bool" where
  "isCloser k \<longleftrightarrow> k = TokRBrace \<or> k = TokRParen \<or> k = TokRBracket"

section \<open>The state\<close>

record structChain =
  elses :: "int list"
  chStart :: int
  chEnd :: int
  chBlocks :: int
  chDepth :: nat

definition no_chain :: structChain where
  "no_chain = \<lparr>elses = [], chStart = 0, chEnd = 0, chBlocks = 0, chDepth = 0\<rparr>"

record structFrame =
  chain :: structChain
  frStart :: int
  frLine :: int
  caseStart :: int
  outerStart :: int
  outerTokens :: nat
  outerFirst :: wordClass
  open_kind :: TokenKind
  outerAttrs :: bool
  fold_it :: bool
  switchBody :: bool

record structScan =
  st_spans :: "Span list"
  stack :: "structFrame list"
  pending :: structChain
  carry :: structChain
  stmtStart :: int
  stmtTokens :: nat
  lastLine :: int
  tentLine :: int
  tentPrevLine :: int
  stmtFirst :: wordClass
  prevClass :: wordClass
  tentClass :: wordClass
  prevKind :: TokenKind
  atStart :: bool
  attrs :: bool
  tentative :: bool
  caseColon :: bool

definition emit :: "Span list \<Rightarrow> structScan \<Rightarrow> structScan" where
  "emit ss st = st\<lparr>st_spans := st_spans st @ ss\<rparr>"

section \<open>Statements\<close>

definition endAttrStatement :: "int \<Rightarrow> structScan \<Rightarrow> structScan" where
  "endAttrStatement final st =
     (emit (if attrs st then span SpanBlock (stmtStart st) final else []) st)\<lparr>attrs := False\<rparr>"

definition settleTentative :: "TokenKind \<Rightarrow> int \<Rightarrow> structScan \<Rightarrow> structScan" where
  "settleTentative kind line st =
     (let st = st\<lparr>tentative := False\<rparr>
      in if kind = TokEquals then st
         else let keyword = tentClass st \<noteq> 0 \<and> \<not> has (tentClass st) wordOperator
              in if \<not> keyword \<and> (kind = TokLBrace \<or> tentLine st < line) then st
                 else (endAttrStatement (tentPrevLine st) st)
                   \<lparr>stmtStart := tentLine st, stmtFirst := tentClass st, stmtTokens := 1,
                    attrs := has (tentClass st) wordAttrs\<rparr>)"

text \<open>The state after the test, and whether the token begins a statement.\<close>

definition endsStatementByNewline :: "TokenKind \<Rightarrow> wordClass \<Rightarrow> int \<Rightarrow> structScan \<Rightarrow> structScan \<times> bool" where
  "endsStatementByNewline kind class line st =
     (if line \<le> lastLine st \<or> kind \<noteq> TokIdent \<or> has class wordOperator then (st, False)
      else if stack st \<noteq> [] \<and> open_kind (hd (stack st)) \<noteq> TokLBrace then (st, False)
      else if attrs st then
        (st\<lparr>tentative := True, tentLine := line, tentClass := class, tentPrevLine := lastLine st\<rparr>, False)
      else if stmtTokens st = 1 \<and> prevKind st = TokIdent \<and> \<not> has (prevClass st) wordAlone then (st, False)
      else (st,
        if prevKind st \<in> {TokString, TokNumber, TokRParen, TokRBracket} then True
        else if prevKind st = TokIdent then \<not> has (prevClass st) (wordOperator OR wordLeading)
        else False))"

definition flushChain :: "structScan \<Rightarrow> structScan" where
  "flushChain st =
     (let c = pending st
      in (emit (if 1 < chBlocks c \<and> chStart c < chEnd c then
                  span SpanBlock (chStart c) (chEnd c) @ concat (map (\<lambda>e. span SpanBlock e (chEnd c)) (elses c))
                else []) st)\<lparr>pending := no_chain\<rparr>)"

section \<open>Brackets\<close>

definition opensArgumentList :: "structScan \<Rightarrow> bool" where
  "opensArgumentList st =
     (if prevKind st \<in> {TokRParen, TokRBracket} then True
      else if prevKind st = TokIdent then \<not> has (prevClass st) (wordGrouping OR wordOperator)
      else False)"

definition opensArrayLiteral :: "structScan \<Rightarrow> bool" where
  "opensArrayLiteral st =
     (if prevKind st = TokIdent then has (prevClass st) (wordReturn OR wordOperator)
      else prevKind st \<notin> {TokRParen, TokRBracket, TokString, TokNumber})"

definition push :: "TokenKind \<Rightarrow> int \<Rightarrow> structScan \<Rightarrow> structScan" where
  "push opening line st =
     (let f = \<lparr>chain = no_chain, frStart = stmtStart st, frLine = line, caseStart = -1, outerStart = stmtStart st,
                outerTokens = stmtTokens st, outerFirst = stmtFirst st, open_kind = opening, outerAttrs = attrs st,
                fold_it = False, switchBody = False\<rparr>;
          (f, st) =
            (if opening = TokLBrace then
               (let f = f\<lparr>fold_it := True, switchBody := has (stmtFirst st) wordSwitch\<rparr>
                in if 0 < chBlocks (carry st) \<and> chDepth (carry st) = length (stack st) then
                     (f\<lparr>chain := (if has (stmtFirst st) wordElse
                                  then (carry st)\<lparr>elses := elses (carry st) @ [frStart f]\<rparr> else carry st)\<rparr>,
                      st\<lparr>carry := no_chain\<rparr>)
                   else (f, st))
             else if opening = TokLParen then (f\<lparr>fold_it := opensArgumentList st\<rparr>, st)
             else if opening = TokLBracket then (f\<lparr>fold_it := opensArrayLiteral st\<rparr>, st)
             else (f, st))
      in st\<lparr>stack := f # stack st, atStart := True\<rparr>)"

definition case_span :: "structFrame \<Rightarrow> structScan \<Rightarrow> Span list" where
  "case_span f st = (if 0 \<le> caseStart f then span SpanCase (caseStart f) (lastLine st) else [])"

definition opener :: "TokenKind \<Rightarrow> TokenKind" where
  "opener closing = (if closing = TokRBrace then TokLBrace else if closing = TokRParen then TokLParen else TokLBracket)"

definition pop :: "TokenKind \<Rightarrow> int \<Rightarrow> structScan \<Rightarrow> structScan" where
  "pop closing line st =
     (case dropWhile (\<lambda>f. open_kind f \<noteq> opener closing) (stack st) of
        [] \<Rightarrow> st
      | f # below \<Rightarrow>
          let opening = opener closing;
              kind = (if opening = TokLBrace then SpanBlock else SpanList);
              folds = (if fold_it f \<and> frStart f < line then
                         span kind (frStart f) line @
                         (if frStart f < frLine f then span kind (frLine f) line else [])
                       else []);
              st = emit ((if switchBody f then case_span f st else []) @ folds) (st\<lparr>stack := below\<rparr>)
          in if opening = TokLBrace then
               st\<lparr>atStart := True,
                  pending := (if 0 < chBlocks (chain f)
                    then \<lparr>elses = elses (chain f), chStart = chStart (chain f), chEnd = line,
                           chBlocks = chBlocks (chain f) + 1, chDepth = length below\<rparr>
                    else \<lparr>elses = [], chStart = frStart f, chEnd = line, chBlocks = 1, chDepth = length below\<rparr>)\<rparr>
             else st\<lparr>stmtStart := outerStart f, stmtFirst := outerFirst f, atStart := False,
                     stmtTokens := outerTokens f, attrs := outerAttrs f\<rparr>)"

definition caseLabel :: "int \<Rightarrow> structScan \<Rightarrow> structScan" where
  "caseLabel line st =
     (case stack st of
        [] \<Rightarrow> st
      | f # below \<Rightarrow>
          if \<not> switchBody f then st
          else (emit (case_span f st) st)\<lparr>stack := f\<lparr>caseStart := line\<rparr> # below, caseColon := True\<rparr>)"

section \<open>The pass\<close>

text \<open>The method \<open>token\<close>, in its three parts: what the token ends, what it begins, and what it is.\<close>

definition before_chain :: "wordClass \<Rightarrow> structScan \<Rightarrow> structScan" where
  "before_chain class st =
     (if 0 < chBlocks (pending st) then
        (if has class wordChain then st\<lparr>carry := pending st, pending := no_chain\<rparr> else flushChain st)
      else st)"

definition before_tentative :: "TokenKind \<Rightarrow> int \<Rightarrow> structScan \<Rightarrow> structScan" where
  "before_tentative kind line st = (if tentative st then settleTentative kind line st else st)"

definition before_newline :: "TokenKind \<Rightarrow> wordClass \<Rightarrow> int \<Rightarrow> structScan \<Rightarrow> structScan" where
  "before_newline kind class line st =
     (if \<not> atStart st then
        (case endsStatementByNewline kind class line st of (st, ends) \<Rightarrow> if ends then st\<lparr>atStart := True\<rparr> else st)
      else st)"

definition before_token :: "TokenKind \<Rightarrow> wordClass \<Rightarrow> int \<Rightarrow> structScan \<Rightarrow> structScan" where
  "before_token kind class line st =
     before_newline kind class line (before_tentative kind line (before_chain class st))"

definition begin_token :: "TokenKind \<Rightarrow> wordClass \<Rightarrow> int \<Rightarrow> structScan \<Rightarrow> structScan" where
  "begin_token kind class line st =
     (let st = (if atStart st \<and> \<not> isCloser kind then
                  st\<lparr>stmtStart := line, stmtFirst := class, atStart := False, stmtTokens := 0, attrs := has class wordAttrs\<rparr>
                else if stmtTokens st = 1 \<and> kind = TokIdent \<and> prevKind st = TokIdent \<and> startsAttributes (stmtFirst st) class
                then st\<lparr>attrs := True\<rparr> else st)
      in st\<lparr>stmtTokens := stmtTokens st + 1\<rparr>)"

definition act_token :: "TokenKind \<Rightarrow> wordClass \<Rightarrow> int \<Rightarrow> structScan \<Rightarrow> structScan" where
  "act_token kind class line st =
     (if kind \<in> {TokLBrace, TokLParen, TokLBracket} then push kind line st
      else if isCloser kind then pop kind line st
      else if kind = TokSemicolon then (endAttrStatement line st)\<lparr>atStart := True\<rparr>
      else if kind = TokComma then st\<lparr>atStart := True\<rparr>
      else if kind = TokIdent then (if has class wordCase then caseLabel line st else st)
      else if kind = TokColon then (if caseColon st then st\<lparr>caseColon := False, atStart := True\<rparr> else st)
      else st)"

definition token_class :: "Token \<Rightarrow> wordClass" where
  "token_class tok = (if tokKind tok = TokIdent then classify (tokValue tok) else 0)"

definition token_as :: "TokenKind \<Rightarrow> wordClass \<Rightarrow> int \<Rightarrow> structScan \<Rightarrow> structScan" where
  "token_as kind class line st =
     (act_token kind class line (begin_token kind class line (before_token kind class line st)))
       \<lparr>prevKind := kind, prevClass := class, lastLine := line\<rparr>"

definition struct_token :: "Token \<Rightarrow> int \<Rightarrow> structScan \<Rightarrow> structScan" where
  "struct_token tok line st = token_as (tokKind tok) (token_class tok) line st"

definition struct_start :: "Span list \<Rightarrow> structScan" where
  "struct_start spans =
     \<lparr>st_spans = spans, stack = [], pending = no_chain, carry = no_chain, stmtStart = 0, stmtTokens = 0, lastLine = 0,
      tentLine = 0, tentPrevLine = 0, stmtFirst = 0, prevClass = 0, tentClass = 0, prevKind = TokEOF, atStart = True,
      attrs = False, tentative = False, caseColon = False\<rparr>"

text \<open>One token of the loop of \<open>scriptStructure\<close>: a comment's span, nothing for a newline, or the scan's step.\<close>

definition step_at :: "int \<Rightarrow> Token \<Rightarrow> structScan \<Rightarrow> structScan" where
  "step_at line tok st =
     (if tokKind tok = TokNewline \<or> tokKind tok = TokLineComment then st
      else if tokKind tok = TokBlockComment \<or> tokKind tok = TokCFComment then
        emit (span SpanComment line (line + int (count_list (tokValue tok) newline))) st
      else struct_token tok line st)"

definition struct_step :: "int \<Rightarrow> Token \<Rightarrow> structScan \<Rightarrow> structScan" where
  "struct_step baseLine tok st = step_at (baseLine + int (tokLine tok)) tok st"

function struct_loop :: "string \<Rightarrow> int \<Rightarrow> nat \<Rightarrow> nat \<Rightarrow> structScan \<Rightarrow> structScan" where
  "struct_loop s baseLine pos line st =
     (let (tok, p, l) = scan_next s True pos line
      in if tokKind tok = TokEOF then flushChain st
         else struct_loop s baseLine p l (struct_step baseLine tok st))"
  by pat_completeness auto
termination
proof (relation "measure (\<lambda>(s, baseLine, pos, line, st). length s - pos)", goal_cases)
  case (2 s baseLine pos line st r tok r' p l)
  then have "scan_next s True pos line = (tok, p, l)" by simp
  from scan_next_gt[OF this 2(4)] show ?case by auto
qed simp

declare struct_loop.simps [simp del]

definition scriptStructure :: "string \<Rightarrow> int \<Rightarrow> Span list \<Rightarrow> Span list" where
  "scriptStructure s baseLine spans = st_spans (struct_loop s baseLine (sPos (NewScanner s)) 0 (struct_start spans))"

section \<open>The document\<close>

text \<open>\<open>isScriptFile\<close> and \<open>ClassifyRegionsIdx\<close>; the line index is nil for a script file.\<close>

definition isScriptFile :: "string \<Rightarrow> bool" where
  "isScriptFile content =
     (let tok = fst (NextSkipComments (NewScanner content))
      in if tokKind tok = TokIdent \<and> ToLower (tokValue tok) \<in> {''component'', ''interface'', ''property'', ''import''} then True
         else if hasScriptTag content then False
         else \<not> containsCFTag content)"

definition ClassifyRegionsIdx :: "string \<Rightarrow> Region list \<times> 32 word list option" where
  "ClassifyRegionsIdx content =
     (if isScriptFile content then
        ([\<lparr>regKind = RegionScript, regLine = 0, regText = content, regOffset = 0\<rparr>], None)
      else (let (rs, idx) = splitCFScriptBlocks content in (rs, Some idx)))"

definition ClassifyRegions :: "string \<Rightarrow> Region list" where
  "ClassifyRegions content = fst (ClassifyRegionsIdx content)"

definition startsWithMarkup :: "string \<Rightarrow> bool" where
  "startsWithMarkup content \<longleftrightarrow> tokKind (fst (NextSkipComments (NewScanner content))) = TokLT"

text \<open>One script region covering all of the file.\<close>

definition all_script :: "string \<Rightarrow> Region list \<Rightarrow> bool" where
  "all_script content rs \<longleftrightarrow>
     length rs = 1 \<and> regKind (rs ! 0) = RegionScript \<and> length (regText (rs ! 0)) = length content"

definition region_step :: "Span list \<times> (nat \<times> nat) list \<Rightarrow> Region \<Rightarrow> Span list \<times> (nat \<times> nat) list" where
  "region_step acc r =
     (if regKind r = RegionScript then
        (scriptStructure (regText r) (regLine r) (fst acc),
         snd acc @ [(regOffset r, regOffset r + length (regText r))])
      else acc)"

definition StructureSpans :: "string \<Rightarrow> Span list option" where
  "StructureSpans content =
     (let (rs, idx) = ClassifyRegionsIdx content;
          lines = (case idx of None \<Rightarrow> buildLineIdx content | Some i \<Rightarrow> i)
      in if all_script content rs \<and> startsWithMarkup content then tagStructure content [] lines []
         else let (spans, script) = foldl region_step ([], []) rs
              in if all_script content rs then Some spans
                 else tagStructure content script lines spans)"

end
