(* ===== verification/Func_Scopes.thy ===== *)
theory Func_Scopes
  imports Token_Stream Output_Context Script_Structure
begin

text \<open>
  The line ranges of a file's functions: those of script (\<open>findScriptFuncScopes\<close> of \<open>internal/parser/cfparser.go\<close>,
  on the tokens of the region), those of tags (\<open>findTagFuncScopesIdx\<close>, on its text), how a parse merges and
  sorts them (\<open>internal/parser/result.go\<close>), and the search for the one around a line.
\<close>

record FuncScope =
  scName :: string
  scAccess :: string
  scReturnType :: string
  scStart :: int
  scEnd :: int

definition no_scope :: FuncScope where
  "no_scope = \<lparr>scName = [], scAccess = [], scReturnType = [], scStart = -1, scEnd = -1\<rparr>"

definition findFuncScope :: "int \<Rightarrow> FuncScope list \<Rightarrow> FuncScope" where
  "findFuncScope line scopes =
     (case find (\<lambda>s. scStart s \<le> line \<and> line \<le> scEnd s) scopes of None \<Rightarrow> no_scope | Some s \<Rightarrow> s)"

section \<open>Functions in script\<close>

text \<open>The loop of \<open>skipToClose\<close>, with the last token read.\<close>

function to_close :: "TokenKind \<Rightarrow> TokenKind \<Rightarrow> nat \<Rightarrow> Token \<Rightarrow> stream \<Rightarrow> Token \<times> stream" where
  "to_close op_kind cl_kind n latest st =
     (if n = 0 then (latest, st)
      else let tok = PeekTok st
           in if tokKind tok = TokEOF then (tok, DropTok st)
              else to_close op_kind cl_kind
                (if tokKind tok = op_kind then n + 1 else if tokKind tok = cl_kind then n - 1 else n) tok (DropTok st))"
  by pat_completeness auto
termination
  by (relation "measure (\<lambda>(op_kind, cl_kind, n, latest, st). length (toks st))") (auto simp: PeekKind_def[symmetric] DropTok_less)

declare to_close.simps [simp del]

definition skipToClose :: "TokenKind \<Rightarrow> TokenKind \<Rightarrow> stream \<Rightarrow> Token \<times> stream" where
  "skipToClose op_kind cl_kind st = to_close op_kind cl_kind 1 no_token st"

lemma to_close_ahead: "ahead st (snd (to_close op_kind cl_kind n latest st))"
proof (induction op_kind cl_kind n latest st rule: to_close.induct)
  case (1 op_kind cl_kind n latest st)
  show ?case
    unfolding to_close.simps[of op_kind cl_kind n latest st] Let_def
    by (cases "n = 0"; cases "tokKind (PeekTok st) = TokEOF") (simp_all add: ahead_trans[OF DropTok_ahead 1[OF _ refl]])
qed

lemma skipToClose_ahead: "ahead st (snd (skipToClose op_kind cl_kind st))"
  by (simp add: skipToClose_def to_close_ahead)

lemma DropTok_le: "length (toks (DropTok st)) \<le> length (toks st)"
  by (rule ahead_length) simp

lemma skipToClose_le: "length (toks (snd (skipToClose op_kind cl_kind st))) \<le> length (toks st)"
  by (rule ahead_length[OF skipToClose_ahead])

lemmas stream_le = le_trans[OF skipToClose_le] le_trans[OF DropTok_le]

text \<open>\<open>skipFunctionAttrs\<close> with no reader for the values.\<close>

function skipFunctionAttrs :: "stream \<Rightarrow> stream" where
  "skipFunctionAttrs st =
     (if PeekKind st = TokIdent then
        let st = DropTok st
        in if PeekKind st \<noteq> TokEquals then skipFunctionAttrs st
           else let st = DropTok st; v = PeekKind st
                in if v \<noteq> TokString \<and> v \<noteq> TokIdent \<and> v \<noteq> TokNumber then skipFunctionAttrs st
                   else let st = DropTok st
                        in if v = TokIdent \<and> PeekKind st = TokLParen
                           then skipFunctionAttrs (snd (skipToClose TokLParen TokRParen (DropTok st)))
                           else skipFunctionAttrs st
      else st)"
  by pat_completeness auto

termination
  by (relation "measure (\<lambda>st. length (toks st))")
    (auto intro!: le_less_trans[OF _ DropTok_less] stream_le DropTok_le)

declare skipFunctionAttrs.simps [simp del]

lemma skipFunctionAttrs_ahead: "ahead st (skipFunctionAttrs st)"
proof (induction st rule: skipFunctionAttrs.induct)
  case (1 st)
  note E = skipFunctionAttrs.simps[of st, unfolded Let_def]
  let ?a = "DropTok st" let ?b = "DropTok ?a" let ?c = "DropTok ?b"
  have a: "ahead st ?a" "ahead st ?b" "ahead st ?c" "ahead st (snd (skipToClose TokLParen TokRParen (DropTok ?c)))"
    using DropTok_ahead ahead_trans skipToClose_ahead by metis+
  show ?case
  proof (cases "PeekKind st = TokIdent")
    case False
    then show ?thesis using E by simp
  next
    case True
    note IH = 1[OF True refl, unfolded Let_def]
    show ?thesis using E True IH(1) IH(2)[OF _ refl refl] IH(3)[OF _ refl refl _ refl] IH(4)[OF _ refl refl _ refl] a ahead_trans
      by (smt (verit, best))
  qed
qed

definition startsFunction :: "Token \<Rightarrow> stream \<Rightarrow> bool \<times> stream" where
  "startsFunction tok st =
     (if EqualFold (tokValue tok) ''function'' then (True, st)
      else if \<not> list_ex (EqualFold (tokValue tok)) [''public'', ''private'', ''remote'', ''package''] then (False, st)
      else if PeekKind st \<noteq> TokIdent then (False, st)
      else let following = PeekTok st; st = DropTok st
           in if EqualFold (tokValue following) ''function'' then (True, st)
              else if PeekKind st = TokIdent \<and> EqualFold (tokValue (PeekTok st)) ''function'' then (True, DropTok st)
              else (False, st))"

text \<open>A declaration from its name on, its scope if it has one.\<close>

definition script_function :: "int \<Rightarrow> int \<Rightarrow> stream \<Rightarrow> FuncScope list \<times> stream" where
  "script_function baseLine startLine st =
     (let nameTok = PeekTok st; st = DropTok st
      in if tokKind nameTok \<noteq> TokIdent then ([], st)
         else let lp = PeekKind st; st = DropTok st
              in if lp \<noteq> TokLParen then ([], st)
                 else let st = skipFunctionAttrs (snd (skipToClose TokLParen TokRParen st));
                          brace = PeekTok st;
                          scope = (\<lambda>final. [no_scope\<lparr>scName := tokValue nameTok, scStart := startLine, scEnd := baseLine + int (tokLine final)\<rparr>])
                      in if tokKind brace = TokSemicolon then (scope brace, DropTok st)
                         else if tokKind brace \<noteq> TokLBrace then ([], st)
                         else let (final, st) = skipToClose TokLBrace TokRBrace (DropTok st) in (scope final, st))"

lemma startsFunction_ahead: "ahead st (snd (startsFunction tok st))"
  by (simp add: startsFunction_def Let_def ahead_trans[OF DropTok_ahead DropTok_ahead])

lemma script_function_ahead: "ahead st (snd (script_function baseLine startLine st))"
proof -
  let ?a = "DropTok st" let ?b = "DropTok ?a"
  let ?c = "skipFunctionAttrs (snd (skipToClose TokLParen TokRParen ?b))"
  have "ahead st ?a" "ahead st ?b" by (metis DropTok_ahead ahead_trans)+
  moreover from this(2) have c: "ahead st ?c" by (metis ahead_trans skipToClose_ahead skipFunctionAttrs_ahead)
  moreover from c have "ahead st (DropTok ?c)" by (metis DropTok_ahead ahead_trans)
  moreover from this have "ahead st (snd (skipToClose TokLBrace TokRBrace (DropTok ?c)))" by (metis ahead_trans skipToClose_ahead)
  ultimately show ?thesis by (simp add: script_function_def Let_def case_prod_unfold)
qed

lemma script_scopes_less:
  assumes "tokKind (PeekTok st) \<noteq> TokEOF" "ahead (DropTok st) st'"
  shows "length (toks st') < length (toks st)"
  using DropTok_less[of st] ahead_length[OF assms(2)] assms(1) by (simp add: PeekKind_def)

text \<open>The loop of \<open>findScriptFuncScopes\<close>.\<close>

function script_scopes :: "int \<Rightarrow> stream \<Rightarrow> FuncScope list" where
  "script_scopes baseLine st =
     (let tok = PeekTok st
      in if tokKind tok = TokEOF then []
         else if tokKind tok \<noteq> TokIdent then script_scopes baseLine (DropTok st)
         else let (starts, st') = startsFunction tok (DropTok st)
              in if \<not> starts then script_scopes baseLine st'
                 else let (scope, st'') = script_function baseLine (baseLine + int (tokLine tok)) st'
                      in scope @ script_scopes baseLine st'')"
  by pat_completeness auto

termination
proof (relation "measure (\<lambda>(baseLine, st). length (toks st))", goal_cases)
  case (3 baseLine st tok r starts st')
  then have "st' = snd (startsFunction tok (DropTok st))" by (metis snd_conv)
  then show ?case using 3(1,2) by (simp add: script_scopes_less startsFunction_ahead)
next
  case (4 baseLine st tok r starts st' r2 scope st'')
  then have "st' = snd (startsFunction tok (DropTok st))" "st'' = snd (script_function baseLine (baseLine + int (tokLine tok)) st')"
    by (metis snd_conv)+
  then have "ahead (DropTok st) st''" using startsFunction_ahead script_function_ahead ahead_trans by metis
  then show ?case using 4(1,2) by (simp add: script_scopes_less)
qed (simp_all add: script_scopes_less)

declare script_scopes.simps [simp del]

definition findScriptFuncScopes :: "string \<Rightarrow> int \<Rightarrow> FuncScope list" where
  "findScriptFuncScopes s baseLine = script_scopes baseLine (tokens_of s False)"

section \<open>Functions in tags\<close>

text \<open>The count of open comments, from \<open>j\<close> up to \<open>i\<close>.\<close>

function comment_depth :: "string \<Rightarrow> nat \<Rightarrow> nat \<Rightarrow> nat \<Rightarrow> nat" where
  "comment_depth s i n j =
     (if j < i then
        if j + 4 < length s \<and> slice s j (j + 5) = ''<!---'' then comment_depth s i (n + 1) (j + 5)
        else if j + 3 < length s \<and> slice s j (j + 4) = ''--->'' then comment_depth s i (n - 1) (j + 4)
        else comment_depth s i n (j + 1)
      else n)"
  by pat_completeness auto
termination by (relation "measure (\<lambda>(s, i, n, j). i - j)") auto

declare comment_depth.simps [simp del]

lemma indexCFTag_bounds: "indexCFTag s want = Some at \<Longrightarrow> want \<noteq> [] \<Longrightarrow> at + 1 + length want \<le> length s"
  using indexCFTag_at by auto

text \<open>The loop of \<open>findTagFuncScopesIdx\<close>, with the count of open comments.\<close>

function tag_scopes :: "string \<Rightarrow> int \<Rightarrow> 32 word list \<Rightarrow> nat \<Rightarrow> nat \<Rightarrow> FuncScope list" where
  "tag_scopes s baseLine idx n pos =
     (case indexCFTag (drop pos s) ''cffunction'' of
        None \<Rightarrow> []
      | Some i \<Rightarrow>
          let i = i + pos; n = comment_depth s i n pos
          in if 0 < n then
               (case index_of (drop i s) ''--->'' of
                  None \<Rightarrow> [] | Some closeIdx \<Rightarrow> tag_scopes s baseLine idx (n - 1) (i + closeIdx + 4))
             else
               let tag = slice s i (min (i + 200) (length s));
                   scope = \<lparr>scName = getAttr tag ''name'', scAccess = getAttr tag ''access'',
                     scReturnType = getAttr tag ''returntype'', scStart = baseLine + lineAtOffset idx i,
                     scEnd = baseLine + int (length idx) - 1\<rparr>
               in (case indexCFTag (drop (i + 11) s) ''/cffunction'' of
                     None \<Rightarrow> [scope]
                   | Some closeIdx \<Rightarrow>
                       let closeEnd = i + 11 + closeIdx;
                           closeEnd = (case index_byte (drop closeEnd s) gt_char of
                             None \<Rightarrow> closeEnd | Some gt \<Rightarrow> closeEnd + gt + 1)
                       in scope\<lparr>scEnd := baseLine + lineAtOffset idx closeEnd\<rparr> # tag_scopes s baseLine idx n closeEnd))"
  by pat_completeness auto
termination
  by (relation "measure (\<lambda>(s, baseLine, idx, n, pos). Suc (length s) - pos)")
    (auto dest!: indexCFTag_bounds split: option.splits)

declare tag_scopes.simps [simp del]

definition findTagFuncScopesIdx :: "string \<Rightarrow> int \<Rightarrow> 32 word list option \<Rightarrow> FuncScope list" where
  "findTagFuncScopesIdx s baseLine idx =
     tag_scopes s baseLine (case idx of None \<Rightarrow> buildLineIdx s | Some i \<Rightarrow> i) 0 0"

definition findFuncScopesIn :: "Region list \<Rightarrow> FuncScope list" where
  "findFuncScopesIn rs =
     concat (map (\<lambda>r. if regKind r = RegionScript then findScriptFuncScopes (regText r) (regLine r)
       else findTagFuncScopesIdx (regText r) (regLine r) None) rs)"

definition FindFuncScopes :: "string \<Rightarrow> FuncScope list" where
  "FindFuncScopes content = findFuncScopesIn (ClassifyRegions content)"

section \<open>The scopes of a parse\<close>

text \<open>The scopes of the tags are added where no scope starts on their line, and all are sorted.\<close>

fun merge_scopes :: "FuncScope list \<Rightarrow> FuncScope list \<Rightarrow> FuncScope list" where
  "merge_scopes scopes [] = scopes"
| "merge_scopes scopes (sc # scs) =
     merge_scopes (if scStart sc \<in> scStart ` set scopes then scopes else scopes @ [sc]) scs"

text \<open>The inner loop of \<open>sortScopes\<close> moves \<open>sc\<close> left over the sorted prefix, given last first.\<close>

fun sink :: "FuncScope \<Rightarrow> FuncScope list \<Rightarrow> FuncScope list" where
  "sink sc [] = [sc]"
| "sink sc (p # ps) = (if scStart sc < scStart p then p # sink sc ps else sc # p # ps)"

definition sortScopes :: "FuncScope list \<Rightarrow> FuncScope list" where
  "sortScopes scopes = rev (foldl (\<lambda>done sc. sink sc done) [] scopes)"

end
