(* ===== verification/Incremental.thy ===== *)
theory Incremental
  imports Func_Scopes Index Client_Edits Cursor
begin

text \<open>
  A parse that follows its document (\<open>internal/parser/incremental.go\<close>, the caches of \<open>result.go\<close>). An edit inside a
  function moves the lines of what is below and forgets the function's answers; any other edit reads the
  signatures again. Reading a text is \<open>script_parser.go\<close> and \<open>tag_parser.go\<close>: here it is an argument, the
  \<open>Reader\<close>, with what the text declares that a parse collects and the signatures it settles, which may depend on
  all properties collected and on the references the parse had of its functions.
\<close>

section \<open>The parse\<close>

record ('p, 'l) Declared =
  dclProperties :: "'p list"
  dclLinks :: "'l list"
  dclExtends :: string

record ('l, 'm) Signatures =
  sgFuncs :: "FunctionDef list"
  sgRefs :: "ComponentRef list"
  sgScopes :: "FuncScope list"
  sgDelegates :: "Delegate list"
  sgMemberSets :: "'m list"
  sgFuncRefs :: "(string, ComponentRef list) gomap"
  sgFuncLinks :: "(string, 'l list) gomap"
  sgFuncCalls :: "(string, string list) gomap"

record ('p, 'l, 'm) Reader =
  declared :: "string \<Rightarrow> ('p, 'l) Declared"
  signatures :: "string \<Rightarrow> 'p list \<Rightarrow> (string, ComponentRef list) gomap \<Rightarrow> ('l, 'm) Signatures"

record ('p, 'l, 'm) ParseResult =
  prContent :: string
  prFuncs :: "FunctionDef list"
  prRefs :: "ComponentRef list"
  prScopes :: "FuncScope list"
  prExtends :: string
  prProperties :: "'p list"
  prDelegates :: "Delegate list"
  prLinks :: "'l list"
  prMemberSets :: "'m list"
  prScopedVars :: "(string list \<times> string list \<times> string list) option"
  prAllVars :: "string list option"
  prFuncVars :: "(string, string list) gomap"
  prFuncRefs :: "(string, ComponentRef list) gomap"
  prFuncLinks :: "(string, 'l list) gomap"
  prFuncCalls :: "(string, string list) gomap"

datatype EditKind = EditInFunc | EditGlobal | EditFull

text \<open>\<open>funcKey\<close>: the two lines of a function as a key.\<close>

definition funcKey :: "int \<Rightarrow> int \<Rightarrow> string" where
  "funcKey st en = Itoa st @ '':'' @ Itoa en"

section \<open>Where an edit is\<close>

definition closingTokenCol :: "string \<Rightarrow> nat \<Rightarrow> nat option" where
  "closingTokenCol content line =
     (case skip_lines content 0 line of
        None \<Rightarrow> None
      | Some lineStart \<Rightarrow>
          let lineText = (case index_byte (drop lineStart content) newline of
                None \<Rightarrow> drop lineStart content | Some lineEnd \<Rightarrow> slice content lineStart (lineStart + lineEnd))
          in case indexCFTag lineText ''/cffunction'' of
               Some idx \<Rightarrow> Some (utf16Len (take idx lineText))
             | None \<Rightarrow> map_option (\<lambda>i. utf16Len (take i lineText)) (last_index_byte lineText (CHR ''}'')))"

definition scope_holds :: "string \<Rightarrow> nat \<Rightarrow> nat \<Rightarrow> nat \<Rightarrow> FuncScope \<Rightarrow> bool" where
  "scope_holds content startLine endLine startChar s \<longleftrightarrow>
     scStart s < int startLine \<and>
     (int endLine < scEnd s \<or>
      int endLine = scEnd s \<and>
        (case closingTokenCol content (nat (scEnd s)) of None \<Rightarrow> False | Some closeCol \<Rightarrow> startChar \<le> closeCol))"

definition funcContaining :: "('p, 'l, 'm) ParseResult \<Rightarrow> nat \<Rightarrow> nat \<Rightarrow> nat \<Rightarrow> nat option" where
  "funcContaining pr startLine endLine startChar =
     map_option fst (find (\<lambda>(i, s). scope_holds (prContent pr) startLine endLine startChar s) (enumerate 0 (prScopes pr)))"

definition EditInFunction :: "('p, 'l, 'm) ParseResult \<Rightarrow> nat \<Rightarrow> nat \<Rightarrow> nat \<Rightarrow> bool" where
  "EditInFunction pr startLine endLine startChar \<longleftrightarrow> funcContaining pr startLine endLine startChar \<noteq> None"

section \<open>Following an edit\<close>

definition shift_scope :: "int \<Rightarrow> int \<Rightarrow> FuncScope \<Rightarrow> FuncScope" where
  "shift_scope editLine delta s =
     (if editLine < scStart s then s\<lparr>scStart := scStart s + delta, scEnd := scEnd s + delta\<rparr>
      else if editLine \<le> scEnd s then s\<lparr>scEnd := scEnd s + delta\<rparr>
      else s)"

text \<open>The lines of definitions and references are 32 bits wide: \<open>conv.Uint32(int(line) + delta)\<close>.\<close>

definition shift_line :: "nat \<Rightarrow> int \<Rightarrow> 32 word \<Rightarrow> 32 word" where
  "shift_line editLine delta l = (if line_after l (of_nat editLine) then shifted_line l (of_int delta) else l)"

definition shiftAfter :: "nat \<Rightarrow> int \<Rightarrow> ('p, 'l, 'm) ParseResult \<Rightarrow> ('p, 'l, 'm) ParseResult" where
  "shiftAfter editLine delta pr =
     (if delta = 0 then pr
      else pr\<lparr>prMemberSets := [],
              prScopes := map (shift_scope (int editLine) delta) (prScopes pr),
              prFuncs := map (\<lambda>f. f\<lparr>fnLine := shift_line editLine delta (fnLine f)\<rparr>) (prFuncs pr),
              prRefs := map (\<lambda>r. r\<lparr>refLine := shift_line editLine delta (refLine r)\<rparr>) (prRefs pr)\<rparr>)"

definition InvalidateFunc :: "int \<Rightarrow> int \<Rightarrow> ('p, 'l, 'm) ParseResult \<Rightarrow> ('p, 'l, 'm) ParseResult" where
  "InvalidateFunc funcStart funcEnd pr =
     (let key = funcKey funcStart funcEnd
      in pr\<lparr>prFuncVars := del key (prFuncVars pr), prFuncRefs := del key (prFuncRefs pr),
            prFuncLinks := del key (prFuncLinks pr)\<rparr>)"

definition resetGlobalCaches :: "('p, 'l, 'm) ParseResult \<Rightarrow> ('p, 'l, 'm) ParseResult" where
  "resetGlobalCaches pr = pr\<lparr>prScopedVars := None, prAllVars := None\<rparr>"

definition resetFuncCaches :: "('p, 'l, 'm) ParseResult \<Rightarrow> ('p, 'l, 'm) ParseResult" where
  "resetFuncCaches pr = pr\<lparr>prFuncVars := [], prFuncRefs := [], prFuncLinks := [], prFuncCalls := []\<rparr>"

text \<open>
  Reading the signatures: properties and links are added to those the parse has, and a text that extends
  nothing leaves the component it has.\<close>

definition extractSignatures ::
  "('p, 'l, 'm) Reader \<Rightarrow> ('p, 'l, 'm) ParseResult \<Rightarrow> ('p, 'l, 'm) ParseResult"
where
  "extractSignatures rd pr =
     (let d = declared rd (prContent pr); props = prProperties pr @ dclProperties d;
          sg = signatures rd (prContent pr) props (prFuncRefs pr)
      in pr\<lparr>prProperties := props, prLinks := prLinks pr @ dclLinks d,
            prExtends := (if dclExtends d \<noteq> [] then dclExtends d else prExtends pr),
            prFuncs := sgFuncs sg, prRefs := sgRefs sg, prScopes := sgScopes sg, prDelegates := sgDelegates sg,
            prMemberSets := sgMemberSets sg, prFuncRefs := sgFuncRefs sg, prFuncLinks := sgFuncLinks sg,
            prFuncCalls := sgFuncCalls sg\<rparr>)"

definition reparseShallow ::
  "('p, 'l, 'm) Reader \<Rightarrow> ('p, 'l, 'm) ParseResult \<Rightarrow> ('p, 'l, 'm) ParseResult"
where
  "reparseShallow rd pr =
     resetFuncCaches (resetGlobalCaches (extractSignatures rd
       (pr\<lparr>prFuncs := [], prRefs := [], prScopes := [], prMemberSets := []\<rparr>)))"

definition ParseWithOptions ::
  "('p, 'l, 'm) Reader \<Rightarrow> string \<Rightarrow> ('p, 'l, 'm) ParseResult"
where
  "ParseWithOptions rd content =
     extractSignatures rd
       \<lparr>prContent = content, prFuncs = [], prRefs = [], prScopes = [], prExtends = [], prProperties = [],
        prDelegates = [], prLinks = [], prMemberSets = [], prScopedVars = None, prAllVars = None, prFuncVars = [],
        prFuncRefs = [], prFuncLinks = [], prFuncCalls = []\<rparr>"

definition applyEdit ::
  "('p, 'l, 'm) Reader \<Rightarrow>
   nat \<Rightarrow> nat \<Rightarrow> nat \<Rightarrow> string \<Rightarrow> string \<Rightarrow> ('p, 'l, 'm) ParseResult \<Rightarrow> EditKind \<times> ('p, 'l, 'm) ParseResult"
where
  "applyEdit rd startLine startChar endLine newText edited pr =
     (let delta = int (count_list newText newline) - (int endLine - int startLine);
          funcIdx = funcContaining pr startLine endLine startChar;
          pr = pr\<lparr>prContent := edited\<rparr>
      in case funcIdx of
           Some i \<Rightarrow>
             let pr = shiftAfter startLine delta pr; sc = prScopes pr ! i
             in (EditInFunc, resetGlobalCaches (InvalidateFunc (scStart sc) (scEnd sc) pr))
         | None \<Rightarrow> (EditGlobal, reparseShallow rd pr))"

definition ParseApplyEdit ::
  "('p, 'l, 'm) Reader \<Rightarrow>
   Edit \<Rightarrow> ('p, 'l, 'm) ParseResult \<Rightarrow> EditKind \<times> ('p, 'l, 'm) ParseResult"
where
  "ParseApplyEdit rd e pr =
     applyEdit rd (StartLine e) (StartChar e) (EndLine e) (Text e) (apply_one (prContent pr) e) pr"

definition ApplyEditResult ::
  "('p, 'l, 'm) Reader \<Rightarrow>
   Edit \<Rightarrow> string \<Rightarrow> ('p, 'l, 'm) ParseResult \<Rightarrow> EditKind \<times> ('p, 'l, 'm) ParseResult"
where
  "ApplyEditResult rd e edited pr =
     applyEdit rd (StartLine e) (StartChar e) (EndLine e) (Text e) edited pr"

definition ApplyFullReplace ::
  "('p, 'l, 'm) Reader \<Rightarrow>
   string \<Rightarrow> ('p, 'l, 'm) ParseResult \<Rightarrow> ('p, 'l, 'm) ParseResult"
where
  "ApplyFullReplace rd content pr = reparseShallow rd (pr\<lparr>prContent := content\<rparr>)"

text \<open>The lines of a function's text (\<open>lineOffsets\<close>), and the names its body declares, kept under its key.\<close>

definition line_range :: "string \<Rightarrow> int \<Rightarrow> int \<Rightarrow> string list" where
  "line_range content st en = slice (split_lines content) (nat st) (Suc (nat en))"

definition FuncVars ::
  "(string list \<Rightarrow> string list) \<Rightarrow> int \<Rightarrow> int \<Rightarrow> ('p, 'l, 'm) ParseResult \<Rightarrow> string list \<times> ('p, 'l, 'm) ParseResult"
where
  "FuncVars names funcStart funcEnd pr =
     (let key = funcKey funcStart funcEnd
      in case get (prFuncVars pr) key of
           Some cached \<Rightarrow> (cached, pr)
         | None \<Rightarrow>
             let vars = names (line_range (prContent pr) funcStart funcEnd)
             in (vars, pr\<lparr>prFuncVars := put key vars (prFuncVars pr)\<rparr>))"

end
