(* ===== verification/Incremental_Props.thy ===== *)
theory Incremental_Props
  imports Incremental Positions
begin

text \<open>
  What a parse keeps of its document through an edit in a function: every other function's lines are
  the ones they were, and the edited one's are its own with the edited lines replaced.
\<close>

section \<open>The lines of an edited text\<close>

lemma split_lines_at_newline: "split_lines (m @ newline # r) = split_lines m @ split_lines r"
  by (induction m) (auto split: list.split)

lemma split_lines_plain: "newline \<notin> set l \<Longrightarrow> split_lines l = [l]"
  by (induction l) auto

lemma split_lines_after: "\<forall>l \<in> set ls. newline \<notin> set l \<Longrightarrow> split_lines (terminated ls @ r) = ls @ split_lines r"
  by (induction ls) (simp_all add: split_lines_at_newline split_lines_plain)

lemma split_lines_join: "ls \<noteq> [] \<Longrightarrow> \<forall>l \<in> set ls. newline \<notin> set l \<Longrightarrow> split_lines (join [newline] ls) = ls"
proof (induction ls rule: list_nonempty_induct)
  case (single x)
  then show ?case by (simp add: split_lines_plain)
next
  case (cons x xs)
  then show ?case using split_lines_at_newline[of x "join [newline] xs"] by (simp add: join_Cons split_lines_plain)
qed

lemma length_split_lines: "length (split_lines s) = Suc (count_list s newline)"
proof (induction s)
  case (Cons c s)
  then show ?case by (cases "split_lines s") auto
qed simp

lemma walk_chars_line:
  "off \<le> length s \<Longrightarrow> \<exists>k. fst (walk_chars s off col toChar) = off + k \<and> off + k \<le> length s \<and> newline \<notin> set (take k (drop off s))"
proof (induction s off col toChar rule: walk_chars.induct)
  case (1 s off col toChar)
  show ?case
  proof (cases "col < toChar \<and> off < length s \<and> s ! off \<noteq> newline")
    case False
    then show ?thesis using 1(3) by (auto simp: walk_chars.simps[of s off])
  next
    case True
    define n where "n = rune_size (drop off s)"
    have ne: "drop off s \<noteq> []" and hd: "hd (drop off s) = s ! off" using True by (simp_all add: hd_drop_conv_nth)
    have le: "off + n \<le> length s" using rune_size_le[of "drop off s"] True by (simp add: n_def le_diff_conv2)
    have plain: "newline \<notin> set (take n (drop off s))" unfolding n_def by (rule rune_bytes_no_newline[OF ne]) (use hd True in simp)
    have "\<exists>col'. walk_chars s off col toChar = walk_chars s (off + n) col' toChar \<and>
        (\<exists>k. fst (walk_chars s (off + n) col' toChar) = off + n + k \<and> off + n + k \<le> length s \<and>
          newline \<notin> set (take k (drop (off + n) s)))"
    proof (cases "byte (s ! off) < (0x80::nat)")
      case small: True
      then have "n = 1" using decode_ascii[OF ne] hd by (simp add: n_def rune_size_def)
      then show ?thesis using 1(1) True small le
        by (intro exI[of _ "col + 1"]) (simp add: walk_chars.simps[of s off])
    next
      case high: False
      let ?col = "col + utf16Units (fst (decode_rune (drop off s)))"
      have "walk_chars s off col toChar = walk_chars s (off + n) ?col toChar"
        using True high by (simp add: walk_chars.simps[of s off] case_prod_unfold Let_def n_def rune_size_def)
      moreover have "\<exists>k. fst (walk_chars s (off + n) ?col toChar) = off + n + k \<and> off + n + k \<le> length s \<and>
          newline \<notin> set (take k (drop (off + n) s))"
        using 1(2)[OF _ high refl prod.collapse] True le by (simp add: n_def rune_size_def)
      ultimately show ?thesis by blast
    qed
    then obtain col' k where w: "fst (walk_chars s off col toChar) = off + n + k" "off + n + k \<le> length s"
        "newline \<notin> set (take k (drop (off + n) s))" by auto
    have "take (n + k) (drop off s) = take n (drop off s) @ take k (drop (off + n) s)"
      unfolding take_add by (simp add: add.commute)
    then have "newline \<notin> set (take (n + k) (drop off s))" using plain w(3) by simp
    then show ?thesis using w by (intro exI[of _ "n + k"]) (simp add: add.assoc)
  qed
qed

lemma position_in_line:
  assumes "line < length (split_lines s)"
  obtains k where "k \<le> length (split_lines s ! line)"
    "take (PositionToOffset s line char) s = terminated (take line (split_lines s)) @ take k (split_lines s ! line)"
    "drop (PositionToOffset s line char) s = join [newline] (drop k (split_lines s ! line) # drop (Suc line) (split_lines s))"
proof -
  let ?ls = "split_lines s" and ?off = "PositionToOffset s line 0"
  let ?l = "?ls ! line" and ?rest = "drop (Suc line) ?ls"
  have skip: "skip_lines s 0 line = Some ?off" using assms by (simp add: PositionToOffset_col0 skip_lines_split)
  have at: "drop ?off s = join [newline] (?l # ?rest)" "take ?off s = terminated (take line ?ls)"
    using drop_at_line[OF assms] take_at_line[OF assms] Cons_nth_drop_Suc[OF assms] by simp_all
  have "?off \<le> length s" using skip_lines_split[of s line] assms content_at_line[OF assms] offset_of_line[OF assms]
    by (metis le_add1 length_append)
  from walk_chars_line[OF this] obtain k where "fst (walk_chars s ?off 0 char) = ?off + k" and
      k: "?off + k \<le> length s" "newline \<notin> set (take k (drop ?off s))" by blast
  then have pos: "PositionToOffset s line char = ?off + k" unfolding PositionToOffset_def[of s line char] skip by simp
  have plain: "newline \<notin> set ?l" by (rule split_lines_no_newline[OF nth_mem[OF assms]])
  have kl: "k \<le> length ?l"
  proof (rule ccontr)
    assume long: "\<not> k \<le> length ?l"
    have "k \<le> length (drop ?off s)" using k(1) by simp
    then have "?rest \<noteq> []" using at(1) long by auto
    then have "drop ?off s = ?l @ newline # join [newline] ?rest" using at(1) by (simp add: join_Cons)
    then have "newline \<in> set (take k (drop ?off s))" using long by (cases "k - length ?l") auto
    then show False using k(2) by simp
  qed
  have split: "join [newline] (?l # ?rest) = take k ?l @ join [newline] (drop k ?l # ?rest)"
    by (cases "?rest = []") (simp_all add: join_Cons del: drop_eq_Nil)
  have front: "take k (take k ?l @ r) = take k ?l" "drop k (take k ?l @ r) = r" for r using kl by simp_all
  have "take (?off + k) s = take ?off s @ take k (drop ?off s)" by (rule take_add)
  also have "\<dots> = terminated (take line ?ls) @ take k ?l" unfolding at split front ..
  finally have t: "take (PositionToOffset s line char) s = terminated (take line ?ls) @ take k ?l" unfolding pos .
  have "drop (?off + k) s = drop k (drop ?off s)" by (simp add: add.commute)
  also have "\<dots> = join [newline] (drop k ?l # ?rest)" unfolding at split front ..
  finally have "drop (PositionToOffset s line char) s = join [newline] (drop k ?l # ?rest)" unfolding pos .
  from that[OF kl t this] show thesis .
qed

lemma edit_lines:
  assumes "startLine \<le> endLine" "endLine < length (split_lines s)"
  obtains mid where "split_lines (ApplyEdit s startLine startChar endLine endChar t) =
      take startLine (split_lines s) @ mid @ drop (Suc endLine) (split_lines s)"
    "length mid = Suc (count_list t newline)"
proof -
  let ?ls = "split_lines s"
  have st: "startLine < length ?ls" using assms by simp
  have plain: "\<forall>l \<in> set ?ls. newline \<notin> set l" using split_lines_no_newline by blast
  obtain k where k: "k \<le> length (?ls ! startLine)"
      "take (PositionToOffset s startLine startChar) s = terminated (take startLine ?ls) @ take k (?ls ! startLine)"
    using position_in_line[OF st] by blast
  obtain j where j: "drop (PositionToOffset s endLine endChar) s =
      join [newline] (drop j (?ls ! endLine) # drop (Suc endLine) ?ls)"
    using position_in_line[OF assms(2)] by blast
  let ?m = "take k (?ls ! startLine) @ t @ drop j (?ls ! endLine)"
  have ends: "newline \<notin> set (take k (?ls ! startLine))" "newline \<notin> set (drop j (?ls ! endLine))"
    using plain nth_mem[OF st] nth_mem[OF assms(2)] by (meson in_set_takeD in_set_dropD)+
  have all_drop: "\<forall>l \<in> set (drop (Suc endLine) ?ls). newline \<notin> set l"
    and all_take: "\<forall>l \<in> set (take startLine ?ls). newline \<notin> set l"
    using plain by (meson in_set_dropD in_set_takeD)+
  have "split_lines (?m @ (if drop (Suc endLine) ?ls = [] then [] else newline # join [newline] (drop (Suc endLine) ?ls))) =
      split_lines ?m @ drop (Suc endLine) ?ls"
    using split_lines_at_newline[of ?m "join [newline] (drop (Suc endLine) ?ls)"]
      split_lines_join[of "drop (Suc endLine) ?ls", OF _ all_drop] by (cases "drop (Suc endLine) ?ls = []") simp_all
  moreover have "ApplyEdit s startLine startChar endLine endChar t = terminated (take startLine ?ls) @
      ?m @ (if drop (Suc endLine) ?ls = [] then [] else newline # join [newline] (drop (Suc endLine) ?ls))"
    unfolding ApplyEdit_def Let_def k(2) j by (simp add: join_Cons)
  ultimately have "split_lines (ApplyEdit s startLine startChar endLine endChar t) =
      take startLine ?ls @ split_lines ?m @ drop (Suc endLine) ?ls"
    by (simp only: split_lines_after[OF all_take])
  moreover have "length (split_lines ?m) = Suc (count_list t newline)"
    by (simp only: length_split_lines count_list_append count_notin[OF ends(1)] count_notin[OF ends(2)] add_0 add_0_right)
  ultimately show thesis using that by blast
qed

section \<open>The functions of an edited text\<close>

definition scopes_apart :: "nat \<Rightarrow> FuncScope list \<Rightarrow> bool" where
  "scopes_apart n ss \<longleftrightarrow> sorted_wrt (\<lambda>a b. scEnd a < scStart b) ss \<and>
     list_all (\<lambda>s. 0 \<le> scStart s \<and> scStart s \<le> scEnd s \<and> scEnd s < int n) ss"

definition scope_text :: "('p, 'l, 'm) ParseResult \<Rightarrow> nat \<Rightarrow> string list" where
  "scope_text pr j = line_range (prContent pr) (scStart (prScopes pr ! j)) (scEnd (prScopes pr ! j))"

lemma shift_scope_0 [simp]: "shift_scope l 0 = id"
  by (rule ext) (simp add: shift_scope_def)

lemma shiftAfter_scopes: "prScopes (shiftAfter l delta pr) = map (shift_scope (int l) delta) (prScopes pr)"
  by (simp add: shiftAfter_def)

lemma shiftAfter_content [simp]: "prContent (shiftAfter l delta pr) = prContent pr"
  by (simp add: shiftAfter_def)

lemma caches_keep [simp]:
  "prContent (InvalidateFunc a b pr) = prContent pr" "prScopes (InvalidateFunc a b pr) = prScopes pr"
  "prFuncs (InvalidateFunc a b pr) = prFuncs pr" "prRefs (InvalidateFunc a b pr) = prRefs pr"
  "prContent (resetGlobalCaches pr) = prContent pr" "prScopes (resetGlobalCaches pr) = prScopes pr"
  "prFuncs (resetGlobalCaches pr) = prFuncs pr" "prRefs (resetGlobalCaches pr) = prRefs pr"
  by (simp_all add: InvalidateFunc_def resetGlobalCaches_def Let_def)

lemma find_enumerate:
  "find (\<lambda>(i, x). P x) (enumerate k xs) = Some r \<Longrightarrow> k \<le> fst r \<and> fst r < k + length xs \<and> snd r = xs ! (fst r - k) \<and> P (snd r)"
proof (induction xs arbitrary: k)
  case (Cons x xs)
  show ?case
  proof (cases "P x")
    case False
    then have "find (\<lambda>(i, x). P x) (enumerate (Suc k) xs) = Some r" using Cons.prems by simp
    from Cons.IH[OF this] show ?thesis by (auto simp: nth_Cons' Suc_diff_le)
  qed (use Cons.prems in auto)
qed simp

lemma funcContaining_scope:
  "funcContaining pr startLine endLine startChar = Some i \<Longrightarrow>
     i < length (prScopes pr) \<and> scope_holds (prContent pr) startLine endLine startChar (prScopes pr ! i)"
  by (auto simp: funcContaining_def dest!: find_enumerate)

text \<open>An edit in a function, taken apart.\<close>

lemma ParseApplyEdit_in_func:
  assumes "ParseApplyEdit rd e pr = (EditInFunc, pr')"
  obtains i where "funcContaining pr (StartLine e) (EndLine e) (StartChar e) = Some i"
    "prContent pr' = apply_one (prContent pr) e"
    "prScopes pr' = map (shift_scope (int (StartLine e))
       (int (count_list (Text e) newline) - (int (EndLine e) - int (StartLine e)))) (prScopes pr)"
    "prFuncs pr' = prFuncs (shiftAfter (StartLine e)
       (int (count_list (Text e) newline) - (int (EndLine e) - int (StartLine e))) pr)"
    "prRefs pr' = prRefs (shiftAfter (StartLine e)
       (int (count_list (Text e) newline) - (int (EndLine e) - int (StartLine e))) pr)"
  using assms that
  by (auto simp: ParseApplyEdit_def applyEdit_def Let_def shiftAfter_scopes split: option.splits)
    (auto simp: shiftAfter_def)

lemma slice_replaced:
  assumes "ls' = take p ls @ mid @ drop q ls" "p \<le> q" "q \<le> length ls" "int q + delta = int (p + length mid)"
  shows "j \<le> p \<Longrightarrow> slice ls' i j = slice ls i j"
    and "q \<le> i \<Longrightarrow> slice ls' (nat (int i + delta)) (nat (int j + delta)) = slice ls i j"
    and "i \<le> p \<Longrightarrow> q \<le> j \<Longrightarrow> slice ls' i (nat (int j + delta)) = slice ls i p @ mid @ slice ls q j"
proof -
  have p: "length (take p ls) = p" using assms(2,3) by simp
  show "j \<le> p \<Longrightarrow> slice ls' i j = slice ls i j" 
    using p by (simp add: slice_def assms(1) drop_take[symmetric])
  have j: "nat (int j + delta) = p + length mid + (j - q)" if "q \<le> j" for j using assms(4) that by simp
  have take_j: "take (nat (int j + delta)) ls' = take p ls @ mid @ take (j - q) (drop q ls)" if "q \<le> j"
    unfolding j[OF that] assms(1) using p by simp
  show "q \<le> i \<Longrightarrow> slice ls' (nat (int i + delta)) (nat (int j + delta)) = slice ls i j"
  proof (cases "q \<le> j")
    case True
    assume i: "q \<le> i"
    have "drop (nat (int i + delta)) (take p ls @ mid @ take (j - q) (drop q ls)) = drop (i - q) (take (j - q) (drop q ls))"
      unfolding j[OF i] using p by simp
    then have "drop (nat (int i + delta)) (take (nat (int j + delta)) ls') = drop (i - q) (take (j - q) (drop q ls))"
      unfolding take_j[OF True] .
    also have "\<dots> = drop i (take j ls)" using i True by (simp add: take_drop)
    finally show ?thesis unfolding slice_def drop_take[symmetric] .
  next
    case False
    assume i: "q \<le> i"
    then have "nat (int j + delta) \<le> nat (int i + delta)" using False by simp
    then show ?thesis using i False by (simp add: slice_def)
  qed
  show "i \<le> p \<Longrightarrow> q \<le> j \<Longrightarrow> slice ls' i (nat (int j + delta)) = slice ls i p @ mid @ slice ls q j"
    using p unfolding slice_def drop_take[symmetric] by (simp add: take_j take_drop)
qed

lemma shift_scope_text:
  assumes ls': "split_lines c' = take sl (split_lines c) @ mid @ drop (Suc el) (split_lines c)"
    and le: "sl \<le> el" "el < length (split_lines c)"
    and delta: "delta = int (length mid) - 1 - (int el - int sl)"
    and s: "0 \<le> scStart s" "scStart s \<le> scEnd s" "scEnd s < int (length (split_lines c))"
    and s': "s' = shift_scope (int sl) delta s"
  shows "scEnd s < int sl \<Longrightarrow> s' = s \<and> line_range c' (scStart s') (scEnd s') = line_range c (scStart s) (scEnd s)"
    and "int el < scStart s \<Longrightarrow> s' = s\<lparr>scStart := scStart s + delta, scEnd := scEnd s + delta\<rparr> \<and>
      line_range c' (scStart s') (scEnd s') = line_range c (scStart s) (scEnd s)"
    and "scStart s < int sl \<Longrightarrow> int el \<le> scEnd s \<Longrightarrow> s' = s\<lparr>scEnd := scEnd s + delta\<rparr> \<and>
      line_range c' (scStart s') (scEnd s') =
        slice (split_lines c) (nat (scStart s)) sl @ mid @ slice (split_lines c) (Suc el) (Suc (nat (scEnd s)))"
proof -
  let ?ls = "split_lines c"
  have "Suc el \<le> length ?ls" "sl \<le> Suc el" "int (Suc el) + delta = int (sl + length mid)" using le delta by auto
  note rep = slice_replaced[OF ls' this(2,1,3)]
  have st: "int (nat (scStart s)) = scStart s" and en: "int (Suc (nat (scEnd s))) = scEnd s + 1" using s by auto
  have fin: "nat (int (Suc (nat (scEnd s))) + delta) = Suc (nat (scEnd s + delta))" if "0 \<le> scEnd s + delta"
    using that en by linarith
  show "scEnd s < int sl \<Longrightarrow> s' = s \<and> line_range c' (scStart s') (scEnd s') = line_range c (scStart s) (scEnd s)"
    using s rep(1)[of "Suc (nat (scEnd s))" "nat (scStart s)"] by (simp add: s' shift_scope_def line_range_def nat_less_iff Suc_le_eq)
  {
    assume b: "int el < scStart s"
    then have "slice (split_lines c') (nat (scStart s + delta)) (Suc (nat (scEnd s + delta))) =
        slice ?ls (nat (scStart s)) (Suc (nat (scEnd s)))"
      using rep(2)[of "nat (scStart s)" "Suc (nat (scEnd s))"] fin delta s le unfolding st by simp
    then show "s' = s\<lparr>scStart := scStart s + delta, scEnd := scEnd s + delta\<rparr> \<and>
        line_range c' (scStart s') (scEnd s') = line_range c (scStart s) (scEnd s)"
      using b le by (simp add: s' shift_scope_def line_range_def)
  }
  {
    assume b: "scStart s < int sl" "int el \<le> scEnd s"
    then have "slice (split_lines c') (nat (scStart s)) (Suc (nat (scEnd s + delta))) =
        slice ?ls (nat (scStart s)) sl @ mid @ slice ?ls (Suc el) (Suc (nat (scEnd s)))"
      using rep(3)[of "nat (scStart s)" "Suc (nat (scEnd s))"] fin delta s le by simp
    then show "s' = s\<lparr>scEnd := scEnd s + delta\<rparr> \<and> line_range c' (scStart s') (scEnd s') =
        slice ?ls (nat (scStart s)) sl @ mid @ slice ?ls (Suc el) (Suc (nat (scEnd s)))"
      using b le by (simp add: s' shift_scope_def line_range_def)
  }
qed

lemma scopes_apart_nth:
  assumes "scopes_apart n ss"
  shows "j < k \<Longrightarrow> k < length ss \<Longrightarrow> scEnd (ss ! j) < scStart (ss ! k)"
    and "j < length ss \<Longrightarrow> 0 \<le> scStart (ss ! j) \<and> scStart (ss ! j) \<le> scEnd (ss ! j) \<and> scEnd (ss ! j) < int n"
  using assms by (simp_all add: scopes_apart_def sorted_wrt_iff_nth_less list_all_length)

text \<open>Where the scopes are with respect to an edit in the one at \<open>i\<close>, and where they are after it.\<close>

lemma shift_scope_cases:
  assumes "scopes_apart n ss" "i < length ss" "scStart (ss ! i) < int sl" "int el \<le> scEnd (ss ! i)" "sl \<le> el" "j < length ss"
  shows "j < i \<Longrightarrow> scEnd (ss ! j) < int sl \<and> shift_scope (int sl) delta (ss ! j) = ss ! j"
    and "i < j \<Longrightarrow> int el < scStart (ss ! j) \<and>
      shift_scope (int sl) delta (ss ! j) = (ss ! j)\<lparr>scStart := scStart (ss ! j) + delta, scEnd := scEnd (ss ! j) + delta\<rparr>"
    and "shift_scope (int sl) delta (ss ! i) = (ss ! i)\<lparr>scEnd := scEnd (ss ! i) + delta\<rparr>"
  using scopes_apart_nth(1)[OF assms(1), of j i] scopes_apart_nth(1)[OF assms(1), of i j]
    scopes_apart_nth(2)[OF assms(1), of j] assms(2-6)
  by (auto simp: shift_scope_def)

lemma shift_scopes_apart:
  assumes a: "scopes_apart n ss" "i < length ss" "scStart (ss ! i) < int sl" "int el \<le> scEnd (ss ! i)" "sl \<le> el"
    and delta: "int sl \<le> int el + delta" "int n' = int n + delta"
  shows "scopes_apart n' (map (shift_scope (int sl) delta) ss)"
  unfolding scopes_apart_def
proof
  let ?sh = "shift_scope (int sl) delta"
  note cases = shift_scope_cases[OF a, where delta = delta] and ok = scopes_apart_nth[OF a(1)]
  have "scEnd (?sh (ss ! j)) < scStart (?sh (ss ! k))" if "j < k" "k < length ss" for j k
  proof -
    consider "k < i" | "k = i" | "j = i" | "j < i" "i < k" | "i < j" using that by linarith
    then show ?thesis using cases[of j] cases[of k] ok(1)[OF that] that delta a(5) by cases auto
  qed
  then show "sorted_wrt (\<lambda>a b. scEnd a < scStart b) (map ?sh ss)" by (simp add: sorted_wrt_iff_nth_less)
  have "0 \<le> scStart (?sh (ss ! j)) \<and> scStart (?sh (ss ! j)) \<le> scEnd (?sh (ss ! j)) \<and> scEnd (?sh (ss ! j)) < int n'"
    if "j < length ss" for j
  proof -
    consider "j < i" | "j = i" | "i < j" by linarith
    then show ?thesis
      using cases[OF that] ok(2)[OF that] ok(2)[OF a(2)] ok(1)[of j i] that a delta by cases auto
  qed
  then show "list_all (\<lambda>s. 0 \<le> scStart s \<and> scStart s \<le> scEnd s \<and> scEnd s < int n') (map ?sh ss)"
    by (simp add: list_all_length)
qed

text \<open>
  C37: An edit the parse takes to be inside a function, where no two functions share a line: the other functions'
  line ranges hold the lines they held before the edit, the edited one's holds its own with the edited lines
  replaced, and no two functions share a line again.\<close>

theorem edit_in_function_keeps_text:
  assumes "ParseApplyEdit rd e pr = (EditInFunc, pr')" "StartLine e \<le> EndLine e"
    "scopes_apart (length (split_lines (prContent pr))) (prScopes pr)"
  shows "scopes_apart (length (split_lines (prContent pr'))) (prScopes pr') \<and>
    length (prScopes pr') = length (prScopes pr) \<and>
    (\<exists>i mid. funcContaining pr (StartLine e) (EndLine e) (StartChar e) = Some i \<and>
       length mid = Suc (count_list (Text e) newline) \<and>
       split_lines (prContent pr') = take (StartLine e) (split_lines (prContent pr)) @ mid @
         drop (Suc (EndLine e)) (split_lines (prContent pr)) \<and>
       (\<forall>j < length (prScopes pr). scope_text pr' j =
          (if j = i then slice (split_lines (prContent pr)) (nat (scStart (prScopes pr ! i))) (StartLine e) @ mid @
             slice (split_lines (prContent pr)) (Suc (EndLine e)) (Suc (nat (scEnd (prScopes pr ! i))))
           else scope_text pr j)))"
proof -
  let ?ls = "split_lines (prContent pr)" and ?sl = "StartLine e" and ?el = "EndLine e" and ?ss = "prScopes pr"
  let ?delta = "int (count_list (Text e) newline) - (int ?el - int ?sl)"
  obtain i where i: "funcContaining pr ?sl ?el (StartChar e) = Some i"
    and content: "prContent pr' = apply_one (prContent pr) e" and scopes: "prScopes pr' = map (shift_scope (int ?sl) ?delta) ?ss"
    using ParseApplyEdit_in_func[OF assms(1)] by metis
  note ok = scopes_apart_nth[OF assms(3)]
  have il: "i < length ?ss" and inn: "scStart (?ss ! i) < int ?sl" "int ?el \<le> scEnd (?ss ! i)"
    using funcContaining_scope[OF i] by (auto simp: scope_holds_def)
  have el: "?el < length ?ls" using ok(2)[OF il] inn by linarith
  obtain mid where lines: "split_lines (prContent pr') = take ?sl ?ls @ mid @ drop (Suc ?el) ?ls"
    and mid: "length mid = Suc (count_list (Text e) newline)"
    using edit_lines[OF assms(2) el] unfolding content apply_one_def by blast
  have "int (length (split_lines (prContent pr'))) = int (length ?ls) + ?delta" unfolding lines using assms(2) el mid by simp
  then have apart: "scopes_apart (length (split_lines (prContent pr'))) (prScopes pr')"
    unfolding scopes by (rule shift_scopes_apart[OF assms(3) il inn assms(2), rotated]) simp
  have delta: "?delta = int (length mid) - 1 - (int ?el - int ?sl)" by (simp add: mid)
  have "scope_text pr' j = (if j = i then slice ?ls (nat (scStart (?ss ! i))) ?sl @ mid @
      slice ?ls (Suc ?el) (Suc (nat (scEnd (?ss ! i)))) else scope_text pr j)" if "j < length ?ss" for j
  proof -
    from ok(2)[OF that] have "0 \<le> scStart (?ss ! j)" "scStart (?ss ! j) \<le> scEnd (?ss ! j)" "scEnd (?ss ! j) < int (length ?ls)"
      by simp_all
    note rng = shift_scope_text[OF lines assms(2) el delta this refl] and at = shift_scope_cases[OF assms(3) il inn assms(2) that]
    have t: "scope_text pr' j = line_range (prContent pr') (scStart (shift_scope (int ?sl) ?delta (?ss ! j)))
        (scEnd (shift_scope (int ?sl) ?delta (?ss ! j)))" using that by (simp add: scope_text_def scopes)
    consider "j < i" | "j = i" | "i < j" by linarith
    then show ?thesis
    proof cases
      case 1
      from conjunct2[OF rng(1)[OF conjunct1[OF at(1)[OF this]]]] 1 show ?thesis unfolding t by (simp add: scope_text_def)
    next
      case 2
      then have "scStart (?ss ! j) < int ?sl" "int ?el \<le> scEnd (?ss ! j)" using inn by simp_all
      from conjunct2[OF rng(3)[OF this]] 2 show ?thesis unfolding t by simp
    next
      case 3
      from conjunct2[OF rng(2)[OF conjunct1[OF at(2)[OF this]]]] 3 show ?thesis unfolding t by (simp add: scope_text_def)
    qed
  qed
  then show ?thesis using apart i mid lines by (auto simp: scopes)
qed

text \<open>A reader of scopes alone, for examples.\<close>

definition scope_reader :: "(string \<Rightarrow> FuncScope list) \<Rightarrow> (unit, unit, unit) Reader" where
  "scope_reader scopes = \<lparr>declared = (\<lambda>_. \<lparr>dclProperties = [], dclLinks = [], dclExtends = []\<rparr>),
     signatures = (\<lambda>c _ _. \<lparr>sgFuncs = [], sgRefs = [], sgScopes = scopes c, sgDelegates = [], sgMemberSets = [],
       sgFuncRefs = [], sgFuncLinks = [], sgFuncCalls = []\<rparr>)\<rparr>"

definition three_functions :: string where
  "three_functions = join [newline] [''a() {'', ''}'', ''b() {'', ''}'', ''c() {'', ''}'']"

definition insert_at :: "nat \<Rightarrow> nat \<Rightarrow> string \<Rightarrow> Edit" where
  "insert_at l c t = \<lparr>StartLine = l, StartChar = c, EndLine = l, EndChar = c, Text = t\<rparr>"

definition scope_lines :: "('p, 'l, 'm) ParseResult \<Rightarrow> (int \<times> int) list" where
  "scope_lines pr = map (\<lambda>s. (scStart s, scEnd s)) (prScopes pr)"

definition sample_scopes :: "(int \<times> int) list \<Rightarrow> FuncScope list" where
  "sample_scopes rs = map (\<lambda>(a, b). no_scope\<lparr>scStart := a, scEnd := b\<rparr>) rs"

abbreviation three_reader :: "(unit, unit, unit) Reader" where
  "three_reader \<equiv> scope_reader (\<lambda>_. sample_scopes [(0, 1), (2, 3), (4, 5)])"

definition three_parsed :: "(unit, unit, unit) ParseResult" where
  "three_parsed = ParseWithOptions three_reader three_functions"

lemma edit_in_function_keeps_text_witness:
  "\<exists>pr'. ParseApplyEdit three_reader (insert_at 1 0 [newline, newline]) three_parsed = (EditInFunc, pr') \<and>
     scopes_apart (length (split_lines (prContent pr'))) (prScopes pr') \<and> scope_lines pr' = [(0, 3), (4, 5), (6, 7)]"
proof -
  let ?e = "insert_at 1 0 [newline, newline]"
  have kind: "fst (ParseApplyEdit three_reader ?e three_parsed) = EditInFunc \<and>
      scope_lines (snd (ParseApplyEdit three_reader ?e three_parsed)) = [(0, 3), (4, 5), (6, 7)]" by code_simp
  then have r: "ParseApplyEdit three_reader ?e three_parsed = (EditInFunc, snd (ParseApplyEdit three_reader ?e three_parsed))"
    by (simp add: prod_eq_iff)
  have "scopes_apart (length (split_lines (prContent three_parsed))) (prScopes three_parsed)" by code_simp
  moreover have "StartLine ?e \<le> EndLine ?e" by (simp add: insert_at_def)
  ultimately have "scopes_apart (length (split_lines (prContent (snd (ParseApplyEdit three_reader ?e three_parsed)))))
      (prScopes (snd (ParseApplyEdit three_reader ?e three_parsed)))"
    using edit_in_function_keeps_text[OF r] by blast
  then show ?thesis using r kind by (intro exI[of _ "snd (ParseApplyEdit three_reader ?e three_parsed)"]) simp
qed

text \<open>
  Where two functions share a line, an edit in the first one leaves the second one's start behind: it moves from
  line 1 to line 2, and a parse of the edited text says so.\<close>

lemma shared_line_left_behind:
  "let doc = join [newline] [''function a() {'', ''} function b() {'', ''}''];
       reader = scope_reader (\<lambda>_. sample_scopes [(0, 1), (1, 2)]);
       (kind, pr) = ParseApplyEdit reader (insert_at 1 0 [newline]) (ParseWithOptions reader doc)
   in kind = EditInFunc \<and> scope_lines pr = [(0, 2), (1, 3)] \<and>
      prContent pr = join [newline] [''function a() {'', [], ''} function b() {'', ''}'']"
  by code_simp

text \<open>
  The test for an edit on a function's last line looks at where the edit starts: one that deletes the closing
  brace counts as inside the function, and the text is not read again though the function has no end any more.\<close>

lemma closing_brace_deleted:
  "let e = \<lparr>StartLine = 1, StartChar = 0, EndLine = 1, EndChar = 1, Text = []\<rparr>;
       (kind, pr) = ParseApplyEdit three_reader e three_parsed
   in kind = EditInFunc \<and> scope_lines pr = [(0, 1), (2, 3), (4, 5)] \<and>
      take 3 (split_lines (prContent pr)) = [''a() {'', [], ''b() {'']"
  by code_simp

text \<open>
  The names of a function's body are kept under its lines and are not moved with it: after two lines are added to
  the first function, the second one is where the third one was, and is given the third one's names.\<close>

lemma names_of_another_function:
  "let pr = snd (FuncVars id 4 5 three_parsed);
       pr' = snd (ParseApplyEdit three_reader (insert_at 1 0 [newline, newline]) pr)
   in scope_lines pr' ! 1 = (4, 5) \<and> scope_text pr' 1 = [''b() {'', ''}''] \<and>
      fst (FuncVars id 4 5 pr') = [''c() {'', ''}'']"
  by code_simp

text \<open>
  What a text declares is added to what the parse has: after every reparse the links are there once more, and a
  property the text no longer declares stays.\<close>

lemma reparse_accumulates:
  "prLinks (reparseShallow rd pr) = prLinks pr @ dclLinks (declared rd (prContent pr)) \<and>
   prProperties (reparseShallow rd pr) = prProperties pr @ dclProperties (declared rd (prContent pr)) \<and>
   (dclExtends (declared rd (prContent pr)) = [] \<longrightarrow> prExtends (reparseShallow rd pr) = prExtends pr)"
  by (simp add: reparseShallow_def resetFuncCaches_def resetGlobalCaches_def extractSignatures_def Let_def)

end
