(* ===== verification/Accessors.thy ===== *)
theory Accessors
  imports Fold_Search Tag_End Ast Cursor Go_Maps
begin

text \<open>
  The properties of a component (\<open>internal/parser/result.go\<close>, \<open>delegates.go\<close>): the component a property holds, by its
  type, its relationship or its injection, the accessors its engine generates for it, and the methods the component
  delegates. The configuration's patterns and lookups are the fields of \<open>PropertyLookups\<close>.
\<close>

record propertyDef =
  propName :: string
  propType :: string
  propLine :: "32 word"
  propAttrs :: "(string, string) gomap"

definition attr :: "propertyDef \<Rightarrow> string \<Rightarrow> string" where
  "attr p k = (case get (propAttrs p) k of None \<Rightarrow> [] | Some v \<Rightarrow> v)"

definition ContainsAny :: "string \<Rightarrow> string \<Rightarrow> bool" where
  "ContainsAny s cs \<longleftrightarrow> list_ex (\<lambda>c. c \<in> set cs) s"

section \<open>Types\<close>

definition ascii_letter :: "char \<Rightarrow> bool" where
  "ascii_letter c \<longleftrightarrow> (97::nat) \<le> byte (lower_char c) \<and> byte (lower_char c) \<le> (122::nat)"

definition isIdentifier :: "string \<Rightarrow> bool" where
  "isIdentifier s \<longleftrightarrow> s \<noteq> [] \<and>
     list_all (\<lambda>(i, c). ascii_letter c \<or> c = CHR ''_'' \<or> c = CHR ''$'' \<or> 0 < i \<and> is_digit c) (enumerate 0 s)"

definition isComponentType :: "string \<Rightarrow> bool" where
  "isComponentType t \<longleftrightarrow> CHR ''.'' \<in> set t \<and> list_all isIdentifier (split_on (CHR ''.'') t)"

definition primitiveTypes :: "string list" where
  "primitiveTypes = [''string'', ''numeric'', ''boolean'', ''date'', ''struct'', ''array'', ''query'',
     ''binary'', ''guid'', ''uuid'', ''void'', ''any'', ''xml'', ''function'']"

definition looksLikeCFCType :: "string \<Rightarrow> bool" where
  "looksLikeCFCType t \<longleftrightarrow> CHR ''.'' \<in> set t \<or> ToLower t \<notin> set primitiveTypes"

section \<open>Injections\<close>

definition coldboxSystem :: string where "coldboxSystem = ''coldbox.system.''"

definition injectionDSL :: "(string, string) gomap" where
  "injectionDSL =
    [(''coldbox'', ''web.Controller''),
     (''coldbox:flash'', ''web.flash.AbstractFlashScope''),
     (''coldbox:renderer'', ''web.Renderer''),
     (''coldbox:requestcontext'', ''web.context.RequestContext''),
     (''coldbox:router'', ''web.routing.Router''),
     (''coldbox:requestservice'', ''web.services.RequestService''),
     (''coldbox:interceptorservice'', ''web.services.InterceptorService''),
     (''coldbox:moduleservice'', ''web.services.ModuleService''),
     (''coldbox:routingservice'', ''web.services.RoutingService''),
     (''coldbox:handlerservice'', ''web.services.HandlerService''),
     (''coldbox:loaderservice'', ''web.services.LoaderService''),
     (''coldbox:schedulerservice'', ''web.services.SchedulerService''),
     (''coldbox:asyncmanager'', ''async.AsyncManager''),
     (''wirebox'', ''ioc.Injector''),
     (''wirebox:root'', ''ioc.Injector''),
     (''wirebox:binder'', ''ioc.config.Binder''),
     (''wirebox:populator'', ''core.dynamic.ObjectPopulator''),
     (''wirebox:asyncmanager'', ''async.AsyncManager''),
     (''cachebox'', ''cache.CacheFactory''),
     (''logbox'', ''logging.LogBox''),
     (''logbox:root'', ''logging.Logger'')]"

definition coldboxModels :: "(string, string) gomap" where
  "coldboxModels =
    [(''htmlhelper'', ''modules.HTMLHelper.models.HTMLHelper''),
     (''renderer'', ''web.Renderer''),
     (''datamarshaller'', ''core.conversion.DataMarshaller''),
     (''xmlconverter'', ''core.conversion.XMLConverter'')]"

definition dslComponent :: "string \<Rightarrow> string" where
  "dslComponent ident =
     (let lower = ToLower ident
      in case get injectionDSL lower of
           Some c \<Rightarrow> coldboxSystem @ c
         | None \<Rightarrow>
             if HasPrefix lower ''logbox:logger:'' then coldboxSystem @ ''logging.Logger''
             else if HasPrefix lower ''cachebox:'' \<and> \<not> ContainsAny (drop 9 lower) '':{}#''
             then coldboxSystem @ ''cache.providers.CacheBoxColdBoxProvider''
             else [])"

definition cut_fold :: "string \<Rightarrow> string \<Rightarrow> string" where
  "cut_fold p s = (if length p < length s \<and> EqualFold (take (length p) s) p then drop (length p) s else s)"

definition no_name_chars :: string where
  "no_name_chars = '':{}$#/'' @ [CHR 0x5C, CHR '' '']"

definition injectedComponent :: "string \<Rightarrow> string" where
  "injectedComponent inject =
     (let ident = cut_fold ''provider:'' (TrimSpace inject); c = dslComponent ident
      in if c \<noteq> [] then c
         else
           let ident = (if cut_fold ''id:'' ident \<noteq> ident then cut_fold ''id:'' ident else cut_fold ''model:'' ident);
               (name, module, qualified) = (case Cut ident (CHR ''@'') of None \<Rightarrow> (ident, [], False) | Some (n, m) \<Rightarrow> (n, m, True))
           in case (if qualified \<and> EqualFold module ''coldbox'' then get coldboxModels (ToLower name) else None) of
                Some c \<Rightarrow> coldboxSystem @ c
              | None \<Rightarrow>
                  if name = [] \<or> ContainsAny name no_name_chars then []
                  else if ToLower name \<in> set [''box'', ''executor'', ''java'', ''entityservice''] then []
                  else if qualified \<and> module \<noteq> [] \<and> \<not> ContainsAny module no_name_chars then name @ ''@'' @ module
                  else name)"

definition extractBeanName :: "string \<Rightarrow> string" where
  "extractBeanName inject =
     (let s = TrimSpace inject
      in case index_byte s (CHR ''@'') of
           Some (Suc i) \<Rightarrow> take (Suc i) s
         | _ \<Rightarrow> (case last_index_byte s (CHR '':'') of Some i \<Rightarrow> drop (i + 1) s | None \<Rightarrow> s))"

definition normalizeBeanKey :: "string \<Rightarrow> string" where
  "normalizeBeanKey inject =
     (let s = TrimSpace inject
      in case index_byte s (CHR ''@'') of
           Some (Suc i) \<Rightarrow> ToLower (take (Suc i) s) @ ''@'' @ ToLower (drop (Suc i + 1) s)
         | _ \<Rightarrow>
             (case last_index_byte s (CHR '':'') of
                None \<Rightarrow> ToLower s
              | Some i \<Rightarrow>
                  let ns = take i s; name = drop (i + 1) s;
                      ns = (case last_index_byte ns (CHR '':'') of None \<Rightarrow> ns | Some j \<Rightarrow> drop (j + 1) ns)
                  in ToLower name @ ''@'' @ ToLower ns))"

section \<open>The component of a property\<close>

definition collectionEntity :: "propertyDef \<Rightarrow> string" where
  "collectionEntity p =
     (if ToLower (attr p ''fieldtype'') \<notin> set [''one-to-many'', ''many-to-many''] then []
      else let cfc = TrimSpace (attr p ''cfc'') in if cfc = [] \<or> CHR ''#'' \<in> set cfc then [] else cfc)"

definition relatedEntity :: "propertyDef \<Rightarrow> string" where
  "relatedEntity p =
     (if ToLower (attr p ''fieldtype'') \<notin> set [''many-to-one'', ''one-to-one''] then []
      else if propType p \<noteq> [] \<and> \<not> EqualFold (propType p) ''any'' then []
      else let cfc = TrimSpace (attr p ''cfc'') in if cfc = [] \<or> CHR ''#'' \<in> set cfc then [] else cfc)"

definition documentedComponent :: "propertyDef \<Rightarrow> string" where
  "documentedComponent p =
     (if propType p \<noteq> [] \<and> \<not> EqualFold (propType p) ''any'' \<and> \<not> EqualFold (propType p) ''struct'' then []
      else if isComponentType (attr p ''doc_generic'') then attr p ''doc_generic'' else [])"

record PropertyResolver =
  prMatch :: string
  prResolve :: string
  prAttribute :: string

definition cut_capture :: "string \<Rightarrow> (string \<times> string) option" where
  "cut_capture pattern = map_option (\<lambda>i. (take i pattern, drop (i + 2) pattern)) (index_of pattern ''$1'')"

definition matchPropertyPattern :: "string \<Rightarrow> string \<Rightarrow> string \<Rightarrow> string" where
  "matchPropertyPattern val pattern resolve =
     (case cut_capture pattern of
        None \<Rightarrow> if EqualFold val pattern then resolve else []
      | Some (front, back) \<Rightarrow>
          if length val < length front + length back then []
          else if \<not> EqualFold (take (length front) val) front then []
          else if \<not> EqualFold (drop (length val - length back) val) back then []
          else let captured = slice val (length front) (length val - length back);
                   resolved = TrimSuffix (replace_all ''$1'' captured resolve) ''.cfc''
               in replace_all ''/'' ''.'' resolved)"

fun ResolveProperty :: "(string, string) gomap \<Rightarrow> PropertyResolver list \<Rightarrow> string" where
  "ResolveProperty attrs [] = []"
| "ResolveProperty attrs (r # rs) =
     (case get attrs (ToLower (prAttribute r)) of
        None \<Rightarrow> ResolveProperty attrs rs
      | Some val \<Rightarrow>
          if val = [] then ResolveProperty attrs rs
          else let resolved = matchPropertyPattern val (prMatch r) (prResolve r)
               in if resolved \<noteq> [] then resolved else ResolveProperty attrs rs)"

text \<open>The lookups a parse is configured with, and \<open>ResolveFromCall\<close> with its resolvers.\<close>

record PropertyLookups =
  luResolvers :: "PropertyResolver list"
  luBean :: "(string \<Rightarrow> string) option"
  luPropertyBean :: "(string \<Rightarrow> (string, string) gomap \<Rightarrow> string) option"
  luFromCall :: "string \<Rightarrow> string"

definition bean_call :: "string \<Rightarrow> string" where
  "bean_call n = ''getBean('' @ [CHR 0x22] @ n @ [CHR 0x22, CHR '')'']"

definition opt_lookup :: "(string \<Rightarrow> string) option \<Rightarrow> string \<Rightarrow> string" where
  "opt_lookup f n = (case f of None \<Rightarrow> [] | Some g \<Rightarrow> g n)"

text \<open>The first answer that is not empty.\<close>

fun first_answer :: "string list \<Rightarrow> string" where
  "first_answer [] = []"
| "first_answer (x # xs) = (if x \<noteq> [] then x else first_answer xs)"

definition propertyBeanComponent :: "PropertyLookups \<Rightarrow> bool \<Rightarrow> bool \<Rightarrow> propertyDef \<Rightarrow> string" where
  "propertyBeanComponent lu accessors persistent p =
     (if luPropertyBean lu \<noteq> None \<and> \<not> accessors \<and> \<not> persistent then []
      else
        let inject = attr p ''inject'';
            bean = (case luBean lu of None \<Rightarrow> []
              | Some b \<Rightarrow>
                  let lookup = (case luPropertyBean lu of None \<Rightarrow> b | Some pb \<Rightarrow> (\<lambda>n. pb n (propAttrs p)))
                  in first_answer ((if inject \<noteq> [] then [lookup (normalizeBeanKey inject), lookup (extractBeanName inject)] else [])
                       @ [lookup (propName p)]))
        in if bean \<noteq> [] then bean
           else if luPropertyBean lu \<noteq> None then []
           else injectedComponent (if get (propAttrs p) ''inject'' = Some [] then propName p else inject))"

definition propertyComponent :: "PropertyLookups \<Rightarrow> bool \<Rightarrow> bool \<Rightarrow> propertyDef \<Rightarrow> string" where
  "propertyComponent lu accessors persistent p =
     (let resolved = (if luResolvers lu \<noteq> [] \<and> propAttrs p \<noteq> [] then ResolveProperty (propAttrs p) (luResolvers lu) else []);
          related = relatedEntity p
      in if resolved \<noteq> [] then resolved
         else if propType p \<noteq> [] \<and> looksLikeCFCType (propType p) then propType p
         else if documentedComponent p \<noteq> [] then documentedComponent p
         else if persistent \<and> related \<noteq> [] then related
         else
           let bean = (if related \<noteq> [] then opt_lookup (luBean lu) related else []);
               call = (if related \<noteq> [] then luFromCall lu (bean_call related) else [])
           in if bean \<noteq> [] then bean
              else if call \<noteq> [] \<and> \<not> EqualFold call related then call
              else propertyBeanComponent lu accessors persistent p)"

definition relationshipBeanComponent :: "PropertyLookups \<Rightarrow> propertyDef \<Rightarrow> string" where
  "relationshipBeanComponent lu p =
     (let related = collectionEntity p
      in if related = [] then []
         else let bean = opt_lookup (luBean lu) related; resolved = luFromCall lu (bean_call related)
              in if bean \<noteq> [] then bean else if EqualFold resolved related then [] else resolved)"

definition any_component :: string where "any_component = ''$any''"

definition mockDecorations :: "string list" where
  "mockDecorations =
    [''$'', ''$spy'', ''$property'', ''$getproperty'', ''$results'', ''$throws'', ''$callback'', ''$args'',
     ''$calllog'', ''$count'', ''$times'', ''$never'', ''$verifycallcount'', ''$atleast'', ''$once'', ''$atmost'',
     ''$debug'', ''$reset'']"

definition IsMockDecoration :: "string \<Rightarrow> bool" where
  "IsMockDecoration name \<longleftrightarrow> HasPrefix name ''$'' \<and> ToLower name \<in> set mockDecorations"

definition callHopName :: "string \<Rightarrow> string" where
  "callHopName hop =
     (if HasPrefix hop ''$call:'' then
        let expression = drop 6 hop;
            name = (case index_byte expression (CHR ''('') of None \<Rightarrow> expression | Some i \<Rightarrow> take i expression)
        in TrimSpace (case last_index_byte name (CHR ''.'') of None \<Rightarrow> name | Some i \<Rightarrow> drop (i + 1) name)
      else hop)"

definition restTypes :: "string list \<Rightarrow> bool" where
  "restTypes rest \<longleftrightarrow> list_ex (\<lambda>h. \<not> EqualFold (callHopName h) ''init'' \<and> \<not> IsMockDecoration (callHopName h)) rest"

definition field_step :: "(string, string) gomap \<Rightarrow> ComponentRef \<Rightarrow> (string, string) gomap" where
  "field_step m ref =
     (if refThis ref then m
      else
        let candidate = (if refComponent ref = [] \<or> refChainBase ref \<noteq> [] \<or> restTypes (refChainRest ref) then any_component
              else refComponent ref);
            key = ToLower (refVariable ref);
            previous = (case get m key of None \<Rightarrow> [] | Some v \<Rightarrow> v);
            candidate = (if previous \<noteq> [] \<and> \<not> EqualFold previous candidate then any_component else candidate)
        in put key candidate m)"

definition propertyFieldComponents :: "ComponentRef list \<Rightarrow> (string, string) gomap" where
  "propertyFieldComponents refs = foldl field_step [] refs"

section \<open>The accessors\<close>

definition ucFirst :: "string \<Rightarrow> string" where
  "ucFirst s = (case s of [] \<Rightarrow> [] | c # r \<Rightarrow>
     if (97::nat) \<le> byte c \<and> byte c \<le> (122::nat) then char_of (byte c - 32 :: nat) # r else s)"

definition relationshipMethods :: "propertyDef \<Rightarrow> string list" where
  "relationshipMethods p =
     (let name = ucFirst (propName p);
          singular = attr p ''singularname'';
          singular = ucFirst (if singular = [] then propName p else singular);
          ft = ToLower (attr p ''fieldtype'')
      in if ft \<in> set [''one-to-many'', ''many-to-many''] then
           [''add'' @ singular, ''remove'' @ singular, ''has'' @ name, ''has'' @ singular]
         else if ft \<in> set [''many-to-one'', ''one-to-one''] then [''has'' @ name]
         else [])"

definition new_function :: "string \<Rightarrow> uri \<Rightarrow> 32 word \<Rightarrow> FunctionDef" where
  "new_function name u line = \<lparr>fnName = name, fnURI = u, fnLine = line, fnArguments = [], fnReturnType = [],
     fnReturnSources = [], fnReturnComponent = [], fnElementComponent = [], fnDocReturn = [], fnReturnVar = [],
     fnReturnLine = 0, fnReturnsStruct = False\<rparr>"

definition new_ref :: "string \<Rightarrow> string \<Rightarrow> uri \<Rightarrow> 32 word \<Rightarrow> ComponentRef" where
  "new_ref variable component u line = \<lparr>refVariable = variable, refComponent = component, refURI = u, refLine = line,
     refThis = False, refRebinds = False, refBaseGuess = False, refStrictChain = False, refChainBase = [],
     refChainMethod = [], refChainRest = [], refVisibleFrom = 0, refVisibleTo = 0\<rparr>"

text \<open>
  One round for a property, on the names taken, the functions and the references. The code looks a generated getter
  up by its place to fill it in; here it is filled in where it is made.\<close>

definition getter_of ::
  "PropertyLookups \<Rightarrow> bool \<Rightarrow> bool \<Rightarrow> (string, string) gomap \<Rightarrow> uri \<Rightarrow> propertyDef \<Rightarrow> FunctionDef" where
  "getter_of lu accessors persistent held u p =
     (let element_comp = (if persistent then collectionEntity p
            else if collectionEntity p = [] then [] else relationshipBeanComponent lu p);
          component = propertyComponent lu accessors persistent p;
          returned = (if component \<noteq> [] then component
            else if propType p = [] \<or> EqualFold (propType p) ''any'' then
              (case get held (ToLower (propName p)) of None \<Rightarrow> [] | Some c \<Rightarrow> c)
            else [])
      in (new_function (''get'' @ ucFirst (propName p)) u (propLine p))
           \<lparr>fnReturnType := propType p, fnElementComponent := element_comp, fnReturnComponent := returned\<rparr>)"

definition setter_of :: "uri \<Rightarrow> propertyDef \<Rightarrow> FunctionDef" where
  "setter_of u p =
     (new_function (''set'' @ ucFirst (propName p)) u (propLine p))
       \<lparr>fnArguments := [\<lparr>argName = propName p, argType = propType p, argHint = [], argComponent = [], argRequired = False\<rparr>],
        fnReturnComponent := TrimPrefix u ''file://''\<rparr>"

text \<open>A function is added unless its name is taken.\<close>

definition add_new :: "string set \<times> FunctionDef list \<Rightarrow> FunctionDef \<Rightarrow> string set \<times> FunctionDef list" where
  "add_new = (\<lambda>(taken, fs) f.
     if ToLower (fnName f) \<in> taken then (taken, fs) else (insert (ToLower (fnName f)) taken, fs @ [f]))"

definition generated ::
  "PropertyLookups \<Rightarrow> bool \<Rightarrow> bool \<Rightarrow> (string, string) gomap \<Rightarrow> uri \<Rightarrow> propertyDef \<Rightarrow> FunctionDef list" where
  "generated lu accessors persistent held u p =
     getter_of lu accessors persistent held u p # setter_of u p #
     map (\<lambda>m. new_function m u (propLine p)) (relationshipMethods p)"

definition generatePropertyAccessors ::
  "PropertyLookups \<Rightarrow> bool \<Rightarrow> bool \<Rightarrow> uri \<Rightarrow> propertyDef list \<Rightarrow> FunctionDef list \<Rightarrow> ComponentRef list \<Rightarrow>
   FunctionDef list \<times> ComponentRef list"
where
  "generatePropertyAccessors lu accessors persistent u props fs refs =
     (let held = propertyFieldComponents refs;
          taken = (\<lambda>f. ToLower (fnName f)) ` set fs;
          fs' = snd (foldl (\<lambda>st p. foldl add_new st (generated lu accessors persistent held u p)) (taken, fs) props);
          typed = filter (\<lambda>p. propertyComponent lu accessors persistent p \<noteq> []) props
      in (fs', refs @ map (\<lambda>p. new_ref (propName p) (propertyComponent lu accessors persistent p) u (propLine p)) typed))"

section \<open>What is generated\<close>

lemma ToLower_ucFirst: "ToLower (ucFirst s) = ToLower s"
proof (cases s)
  case (Cons c r)
  have "list_all (\<lambda>c. (97::nat) \<le> byte c \<and> byte c \<le> (122::nat) \<longrightarrow> lower_char (char_of (byte c - 32 :: nat)) = lower_char c)
      (map char_of [0..<256::nat])" by code_simp
  moreover have "c \<in> set (map char_of [0..<256::nat])"
    by (auto simp: image_iff intro!: bexI[of _ "of_char c"])
  ultimately show ?thesis using Cons by (auto simp: ucFirst_def ToLower_def list_all_iff)
qed (simp add: ucFirst_def)

definition lower_name :: "FunctionDef \<Rightarrow> string" where
  "lower_name f = ToLower (fnName f)"

definition taken_ok :: "FunctionDef list \<Rightarrow> string set \<times> FunctionDef list \<Rightarrow> bool" where
  "taken_ok fs0 = (\<lambda>(taken, fs). taken = lower_name ` set fs \<and>
     (\<exists>new. fs = fs0 @ new \<and> distinct (map lower_name new) \<and> lower_name ` set new \<inter> lower_name ` set fs0 = {}))"

lemma add_new_ok: "taken_ok fs0 st \<Longrightarrow> taken_ok fs0 (add_new st f)"
proof -
  assume ok: "taken_ok fs0 st"
  obtain taken fs where st: "st = (taken, fs)" by force
  then obtain new where new: "taken = lower_name ` set fs" "fs = fs0 @ new" "distinct (map lower_name new)"
      "lower_name ` set new \<inter> lower_name ` set fs0 = {}"
    using ok by (auto simp: taken_ok_def)
  show ?thesis
  proof (cases "lower_name f \<in> taken")
    case True
    then show ?thesis using ok st by (simp add: add_new_def lower_name_def)
  next
    case False
    then have "taken_ok fs0 (insert (lower_name f) taken, fs @ [f])"
      using new unfolding taken_ok_def by (auto intro!: exI[of _ "new @ [f]"])
    then show ?thesis using False st by (simp add: add_new_def lower_name_def)
  qed
qed

lemma fold_add_new:
  assumes "taken_ok fs0 st"
  shows "taken_ok fs0 (foldl add_new st gs) \<and> fst st \<subseteq> fst (foldl add_new st gs) \<and>
    lower_name ` set gs \<subseteq> fst (foldl add_new st gs) \<and>
    set (snd (foldl add_new st gs)) \<subseteq> set (snd st) \<union> set gs"
  using assms
proof (induction gs arbitrary: st)
  case (Cons g gs)
  have step: "fst st \<subseteq> fst (add_new st g)" "lower_name g \<in> fst (add_new st g)"
    "set (snd (add_new st g)) \<subseteq> insert g (set (snd st))"
    by (auto simp: add_new_def lower_name_def split: prod.splits)
  then show ?case using Cons.IH[OF add_new_ok[OF Cons.prems], of g] by auto
qed simp

lemma foldl_concat: "foldl (\<lambda>st p. foldl f st (g p)) st ps = foldl f st (concat (map g ps))"
  by (induction ps arbitrary: st) simp_all

lemma generated_names:
  "lower_name (getter_of lu acc per held u p) = ''get'' @ ToLower (propName p)"
  "lower_name (setter_of u p) = ''set'' @ ToLower (propName p)"
proof -
  have "ToLower ''get'' = ''get''" "ToLower ''set'' = ''set''" by code_simp+
  then show "lower_name (getter_of lu acc per held u p) = ''get'' @ ToLower (propName p)"
    "lower_name (setter_of u p) = ''set'' @ ToLower (propName p)"
    unfolding lower_name_def getter_of_def setter_of_def new_function_def Let_def
    by (simp_all only: FunctionDef.simps ToLower_append ToLower_ucFirst)
qed

text \<open>
  C36: Accessors are added to a component's own functions, which stay as they are and come first. After that every
  property has a getter and a setter by name, letters of either case being the same, and every method of its
  relationship. None of the functions added has the name of another one, whatever the declared functions are.\<close>

theorem accessors_generated:
  assumes "generatePropertyAccessors lu acc per u props fs refs = (fs', refs')"
  shows "(\<exists>new. fs' = fs @ new \<and> distinct (map lower_name new) \<and> lower_name ` set new \<inter> lower_name ` set fs = {} \<and>
      set new \<subseteq> (\<Union>p \<in> set props. set (generated lu acc per (propertyFieldComponents refs) u p))) \<and>
    (\<forall>p \<in> set props. {''get'' @ ToLower (propName p), ''set'' @ ToLower (propName p)} \<union>
      ToLower ` set (relationshipMethods p) \<subseteq> lower_name ` set fs')"
proof -
  let ?gen = "generated lu acc per (propertyFieldComponents refs) u"
  let ?gs = "concat (map ?gen props)" and ?st = "(lower_name ` set fs, fs)"
  have ok: "taken_ok fs ?st" by (simp add: taken_ok_def)
  have fs': "fs' = snd (foldl add_new ?st ?gs)"
    using assms by (simp add: generatePropertyAccessors_def Let_def foldl_concat lower_name_def[abs_def])
  note add = fold_add_new[OF ok, of ?gs]
  from add obtain new where new: "fs' = fs @ new" "distinct (map lower_name new)" "lower_name ` set new \<inter> lower_name ` set fs = {}"
    and taken: "fst (foldl add_new ?st ?gs) = lower_name ` set fs'"
    unfolding fs' taken_ok_def by (auto simp: case_prod_unfold)
  have "set new \<inter> set fs = {}" using new(3) by auto
  then have sub: "set new \<subseteq> set ?gs" using add new(1) unfolding fs'[symmetric] by auto
  have names: "{''get'' @ ToLower (propName p), ''set'' @ ToLower (propName p)} \<union> ToLower ` set (relationshipMethods p) \<subseteq>
      lower_name ` set (?gen p)" for p
    by (auto simp: generated_def generated_names image_image) (simp add: lower_name_def new_function_def)
  have "lower_name ` set (?gen p) \<subseteq> lower_name ` set fs'" if "p \<in> set props" for p
    using add that taken by (simp add: image_Union UN_subset_iff)
  then show ?thesis using new sub order_trans[OF names] by (intro conjI exI[of _ new] ballI) auto
qed

definition sample_property :: "string \<Rightarrow> (string, string) gomap \<Rightarrow> propertyDef" where
  "sample_property n attrs = \<lparr>propName = n, propType = [], propLine = 3, propAttrs = attrs\<rparr>"

definition no_lookups :: PropertyLookups where
  "no_lookups = \<lparr>luResolvers = [], luBean = None, luPropertyBean = None, luFromCall = (\<lambda>_. [])\<rparr>"

definition sample_props :: "propertyDef list" where
  "sample_props = [sample_property ''site'' [(''fieldtype'', ''many-to-one''), (''cfc'', ''models.Site'')],
     sample_property ''log'' [(''inject'', ''logbox:logger:{this}'')]]"

lemma accessors_generated_witness:
  "let own = [new_function ''getSite'' ''file:///a.cfc'' 9];
       (fs, refs) = generatePropertyAccessors no_lookups True True ''file:///a.cfc'' sample_props own []
   in (\<forall>p \<in> set sample_props. {''get'' @ ToLower (propName p), ''set'' @ ToLower (propName p)} \<union>
         ToLower ` set (relationshipMethods p) \<subseteq> lower_name ` set fs) \<and>
      map fnName fs = [''getSite'', ''setSite'', ''hasSite'', ''getLog'', ''setLog''] \<and>
      map refComponent refs = [''models.Site'', ''coldbox.system.logging.Logger'']"
proof -
  let ?own = "[new_function ''getSite'' ''file:///a.cfc'' 9]"
  let ?g = "generatePropertyAccessors no_lookups True True ''file:///a.cfc'' sample_props ?own []"
  have "map fnName (fst ?g) = [''getSite'', ''setSite'', ''hasSite'', ''getLog'', ''setLog''] \<and>
      map refComponent (snd ?g) = [''models.Site'', ''coldbox.system.logging.Logger'']" by code_simp
  moreover have "\<forall>p \<in> set sample_props. {''get'' @ ToLower (propName p), ''set'' @ ToLower (propName p)} \<union>
      ToLower ` set (relationshipMethods p) \<subseteq> lower_name ` set (fst ?g)"
    using accessors_generated[of no_lookups True True "''file:///a.cfc''" sample_props ?own "[]" "fst ?g" "snd ?g"] by simp
  ultimately show ?thesis by (simp add: case_prod_unfold Let_def)
qed

end
