(* ===== verification/Delegations.thy ===== *)
theory Delegations
  imports Accessors
begin

text \<open>
  The delegations a component declares (\<open>internal/parser/delegates.go\<close>): those of its properties and those of its
  \<open>delegates\<close> attribute, which is read from the declaration alone.
\<close>

definition splitList :: "string \<Rightarrow> string list" where
  "splitList s = filter (\<lambda>v. v \<noteq> []) (map TrimSpace (split_on (CHR '','') s))"

definition flagOrName :: "propertyDef \<Rightarrow> string \<Rightarrow> string" where
  "flagOrName p key = (case get (propAttrs p) key of None \<Rightarrow> [] | Some v \<Rightarrow> if v = [] then propName p else v)"

definition declaration_blanks :: string where
  "declaration_blanks = [CHR '' '', CHR 0x09, CHR 0x0D, CHR 0x0A]"

definition componentAttr :: "string \<Rightarrow> string \<Rightarrow> string" where
  "componentAttr content name =
     (let brace = index_byte content (CHR ''{'');
          scope = (case brace of None \<Rightarrow> content | Some e \<Rightarrow> take e content);
          fin = (case indexFold scope ''<cfcomponent'' of
            Some t \<Rightarrow> map_option (\<lambda>gt. t + gt) (tagEndIndex (drop t content))
          | None \<Rightarrow> brace)
      in case fin of None \<Rightarrow> []
         | Some e \<Rightarrow>
             let front = take e content
             in case indexFold front name of None \<Rightarrow> []
                | Some i \<Rightarrow>
                    let rest = trim_left_set (drop (i + length name) front) declaration_blanks
                    in if \<not> HasPrefix rest ''='' then []
                       else let rest = trim_left_set (tl rest) declaration_blanks
                            in if rest = [] \<or> hd rest \<notin> set quotes then []
                               else (case index_byte (tl rest) (hd rest) of None \<Rightarrow> [] | Some q \<Rightarrow> take q (tl rest)))"

definition no_delegate :: Delegate where
  "no_delegate = \<lparr>dgTarget = [], dgPrefix = [], dgSuffix = [], dgIncludes = [], dgExcludes = [], dgLine = 0\<rparr>"

text \<open>\<open>strings.LastIndexAny(ref, "<>")\<close> is the nearest of either before the end.\<close>

definition parseDelegateItem :: "string \<Rightarrow> Delegate" where
  "parseDelegateItem item =
     (let (ref, method) = (case Cut item (CHR ''='') of None \<Rightarrow> (item, []) | Some (a, b) \<Rightarrow> (a, TrimSpace b));
          d = (if method \<noteq> [] then no_delegate\<lparr>dgIncludes := [method]\<rparr> else no_delegate)
      in case last_before (\<lambda>c. c = CHR ''<'' \<or> c = CHR ''>'') ref (length ref) of
           None \<Rightarrow> d\<lparr>dgTarget := TrimSpace ref\<rparr>
         | Some i \<Rightarrow>
             let affix = TrimSpace (take i ref); target = TrimSpace (drop (i + 1) ref);
                 affix = (if affix = [] then target else affix)
             in (if ref ! i = CHR ''>'' then d\<lparr>dgPrefix := affix\<rparr> else d\<lparr>dgSuffix := affix\<rparr>)\<lparr>dgTarget := target\<rparr>)"

definition property_delegate :: "propertyDef \<Rightarrow> Delegate" where
  "property_delegate p =
     \<lparr>dgTarget = (if attr p ''inject'' = [] then propName p else attr p ''inject''),
      dgPrefix = flagOrName p ''delegateprefix'', dgSuffix = flagOrName p ''delegatesuffix'',
      dgIncludes = splitList (attr p ''delegate''), dgExcludes = splitList (attr p ''delegateexcludes''),
      dgLine = propLine p\<rparr>"

definition is_cfc :: "uri \<Rightarrow> bool" where
  "is_cfc u \<longleftrightarrow> 4 \<le> length u \<and> EqualFold (drop (length u - 4) u) ''.cfc''"

definition collectDelegates :: "uri \<Rightarrow> string \<Rightarrow> propertyDef list \<Rightarrow> Delegate list" where
  "collectDelegates u content props =
     map property_delegate (filter (\<lambda>p. get (propAttrs p) ''delegate'' \<noteq> None) props) @
     (if is_cfc u then map parseDelegateItem (splitList (componentAttr content ''delegates'')) else [])"

definition EntityName :: "uri \<Rightarrow> string \<Rightarrow> string" where
  "EntityName u content = (if is_cfc u then TrimSpace (componentAttr content ''entityname'') else [])"

section \<open>What a delegation gives\<close>

lemma parseDelegateItem_examples:
  "DelegatedMethod (parseDelegateItem ''ram > Memory'') ''ramRead'' = ''Read''"
  "DelegatedMethod (parseDelegateItem ''<Memory'') ''ReadMemory'' = ''Read''"
  "DelegatedMethod (parseDelegateItem ''Worker=vacation'') ''vacation'' = ''vacation''"
  "DelegatedMethod (parseDelegateItem ''Worker=vacation'') ''work'' = []"
  "dgTarget (parseDelegateItem ''ram > Memory'') = ''Memory''"
  by code_simp+

text \<open>
  The attribute is looked for as a piece of text, once: where an attribute before it mentions its name, it is
  not seen.\<close>

definition declares_delegates :: "string \<Rightarrow> string" where
  "declares_delegates hint =
     ''component hint='' @ [CHR 0x22] @ hint @ [CHR 0x22] @ '' delegates='' @ [CHR 0x22] @ ''Memory'' @ [CHR 0x22] @ '' {}''"

lemma componentAttr_mentioned:
  "componentAttr (declares_delegates ''a cache'') ''delegates'' = ''Memory'' \<and>
   componentAttr (declares_delegates ''delegates to Memory'') ''delegates'' = []"
  by code_simp

end
