(* ===== verification/Paths.thy ===== *)
theory Paths
  imports Go_Path Go_Maps Uris "HOL-Library.Product_Lexorder"
begin

text \<open>
  Component paths on disk (\<open>internal/path/path.go\<close>): a dotted name is tried against the mappings, the
  directory of the file that uses it and the default mapping, each segment matched in a directory listing.
  The file system is a parameter, \<open>fs\<close>, the names \<open>ReadDir\<close> gives for a directory, \<open>None\<close> where it fails.
  A mapping of names to directories is an association list in the order a range over it visits.
\<close>

type_synonym lister = "string \<Rightarrow> string list option"

section \<open>Listings that are kept\<close>

text \<open>\<open>None\<close> is the nil cache.\<close>

type_synonym DirCache = "(string, string list) gomap option"

definition NewDirCache :: DirCache where "NewDirCache = Some []"

definition namesIn :: "lister \<Rightarrow> string \<Rightarrow> DirCache \<Rightarrow> (string list \<times> bool) option" where
  "namesIn fs dir c =
     (case Option.bind c (\<lambda>m. get m dir) of
        Some names \<Rightarrow> Some (names, True) | None \<Rightarrow> map_option (\<lambda>names. (names, False)) (fs dir))"

definition keep :: "string \<Rightarrow> string list \<Rightarrow> DirCache \<Rightarrow> DirCache" where
  "keep dir names c = map_option (put dir names) c"

text \<open>The two loops over the names: as it is written, then in any case; the empty string for none.\<close>

definition entry_for :: "string list \<Rightarrow> string \<Rightarrow> string" where
  "entry_for names seg =
     (let found = (case find (\<lambda>name. name = seg) names of None \<Rightarrow> [] | Some name \<Rightarrow> name)
      in if found \<noteq> [] then found
         else (case find (\<lambda>name. EqualFold name seg) names of None \<Rightarrow> [] | Some name \<Rightarrow> name))"

fun resolveSegmentsCached :: "lister \<Rightarrow> string \<Rightarrow> string list \<Rightarrow> DirCache \<Rightarrow> string \<times> DirCache" where
  "resolveSegmentsCached fs dir [] c = (dir, c)"
| "resolveSegmentsCached fs dir (seg # segs) c =
     (case namesIn fs dir c of
        None \<Rightarrow> ([], c)
      | Some (names, cached) \<Rightarrow>
          let found = entry_for names seg
          in if found = [] then ([], c)
             else resolveSegmentsCached fs (path_join [dir, found]) segs (if cached then c else keep dir names c))"

section \<open>Mappings\<close>

definition Trim :: "string \<Rightarrow> char \<Rightarrow> string" where
  "Trim s c = TrimRight (TrimLeft s c) c"

definition slashes_to_dots :: "string \<Rightarrow> string" where
  "slashes_to_dots s = map (\<lambda>c. if c = CHR ''/'' then CHR ''.'' else c) s"

definition nestedMappingKey :: "string \<Rightarrow> string" where
  "nestedMappingKey k =
     (let k = slashes_to_dots (Trim k (CHR ''/'')) in if CHR ''.'' \<notin> set k then [] else k)"

definition lookupFold :: "(string, string) gomap \<Rightarrow> string \<Rightarrow> string option" where
  "lookupFold m key =
     (case get m key of Some v \<Rightarrow> Some v
      | None \<Rightarrow> map_option snd (find (\<lambda>(k, v). EqualFold k key) m))"

text \<open>The segments of a dotted path, the last with its extension.\<close>

definition file_segments :: "string list \<Rightarrow> string list" where
  "file_segments segs = butlast segs @ [last segs @ ''.cfc'']"

definition dotted :: "string \<Rightarrow> string list" where
  "dotted path = file_segments (split_on (CHR ''.'') path)"

definition nested_match :: "string \<Rightarrow> string \<Rightarrow> bool" where
  "nested_match dotPath k =
     (let n = nestedMappingKey k
      in n \<noteq> [] \<and> length n < length dotPath \<and> dotPath ! length n = CHR ''.'' \<and> EqualFold (take (length n) dotPath) n)"

definition nested_keys :: "string \<Rightarrow> (string, string) gomap \<Rightarrow> string list" where
  "nested_keys dotPath m =
     sort_key (\<lambda>k. (- int (length (nestedMappingKey k)), k)) (filter (nested_match dotPath) (map fst m))"

definition nested_rest :: "string \<Rightarrow> string \<Rightarrow> string list" where
  "nested_rest dotPath k = dotted (drop (length (nestedMappingKey k) + 1) dotPath)"

text \<open>The loop of \<open>resolveNestedMapping\<close> over the sorted keys.\<close>

fun try_nested :: "lister \<Rightarrow> string \<Rightarrow> (string, string) gomap \<Rightarrow> string list \<Rightarrow> DirCache \<Rightarrow> string \<times> DirCache" where
  "try_nested fs dotPath m [] c = ([], c)"
| "try_nested fs dotPath m (k # ks) c =
     (let (abs, c) = resolveSegmentsCached fs (case get m k of None \<Rightarrow> [] | Some v \<Rightarrow> v) (nested_rest dotPath k) c
      in if abs \<noteq> [] then (abs, c) else try_nested fs dotPath m ks c)"

definition resolveNestedMapping :: "lister \<Rightarrow> string \<Rightarrow> (string, string) gomap \<Rightarrow> DirCache \<Rightarrow> string \<times> DirCache" where
  "resolveNestedMapping fs dotPath m c = try_nested fs dotPath m (nested_keys dotPath m) c"

section \<open>Resolution\<close>

definition normalized :: "string \<Rightarrow> string" where
  "normalized dotPath =
     (if CHR ''/'' \<in> set dotPath then slashes_to_dots (TrimPrefix dotPath ''/'') else dotPath)"

text \<open>\<open>strings.SplitN(dotPath, ".", 2)\<close>.\<close>

definition split_first :: "string \<Rightarrow> string \<times> string option" where
  "split_first s = (case index_byte s (CHR ''.'') of None \<Rightarrow> (s, None) | Some i \<Rightarrow> (take i s, Some (drop (i + 1) s)))"

definition mapped_segments :: "string \<Rightarrow> string list" where
  "mapped_segments dotPath =
     (case split_first dotPath of (first, Some rest) \<Rightarrow> dotted rest | (first, None) \<Rightarrow> file_segments [first])"

definition ResolvePathCached :: "lister \<Rightarrow> string \<Rightarrow> string \<Rightarrow> (string, string) gomap \<Rightarrow> DirCache \<Rightarrow> string \<times> DirCache" where
  "ResolvePathCached fs dotPath baseDir m c =
     (let dotPath = normalized dotPath;
          (abs, c) = resolveNestedMapping fs dotPath m c
      in if abs \<noteq> [] then (abs, c)
         else
           let (abs, c) = (case lookupFold m (fst (split_first dotPath)) of
                 None \<Rightarrow> ([], c) | Some mapped \<Rightarrow> resolveSegmentsCached fs mapped (mapped_segments dotPath) c)
           in if abs \<noteq> [] then (abs, c)
              else
                let (abs, c) = resolveSegmentsCached fs baseDir (dotted dotPath) c
                in if abs \<noteq> [] then (abs, c)
                   else (case lookupFold m [] of
                       None \<Rightarrow> ([], c)
                     | Some root \<Rightarrow> if root = [] then ([], c) else resolveSegmentsCached fs root (dotted dotPath) c))"

definition ResolvePath :: "lister \<Rightarrow> string \<Rightarrow> string \<Rightarrow> (string, string) gomap \<Rightarrow> string" where
  "ResolvePath fs dotPath baseDir m = fst (ResolvePathCached fs dotPath baseDir m None)"

section \<open>Names of paths\<close>

definition InFolderNamed :: "string list \<Rightarrow> string \<Rightarrow> string list" where
  "InFolderNamed roots rel =
     (case index_byte (TrimPrefix rel ''/'') (CHR ''/'') of
        None \<Rightarrow> []
      | Some i \<Rightarrow>
          let seg = take i (TrimPrefix rel ''/''); rest = drop (i + 1) (TrimPrefix rel ''/'')
          in if seg = [] \<or> rest = [] then []
             else map (\<lambda>root. path_join [root, rest]) (filter (\<lambda>root. EqualFold (path_base root) seg) roots))"

definition ResolveFrom :: "string \<Rightarrow> string \<Rightarrow> string" where
  "ResolveFrom baseDir p = (if HasPrefix p ''/'' then p else path_join [baseDir, p])"

definition ResolveMappings :: "(string, string) gomap \<Rightarrow> string \<Rightarrow> (string, string) gomap" where
  "ResolveMappings raw baseDir = map (\<lambda>(k, v). (k, ResolveFrom baseDir v)) raw"

text \<open>\<open>c | 0x20\<close> is the letter \<open>l\<close>, with the lengths \<open>IsCFMLFile\<close> checks before it looks.\<close>

definition letter_at :: "string \<Rightarrow> nat \<Rightarrow> char \<Rightarrow> bool" where
  "letter_at path back l \<longleftrightarrow> or (of_char (path ! (length path - back)) :: 8 word) 0x20 = of_char l"

definition IsCFMLFile :: "string \<Rightarrow> bool" where
  "IsCFMLFile path =
     (if length path < 4 then False
      else if letter_at path 1 (CHR ''c'') then
        4 < length path \<and> path ! (length path - 4) = CHR ''.'' \<and> letter_at path 3 (CHR ''c'') \<and> letter_at path 2 (CHR ''f'')
      else if letter_at path 1 (CHR ''m'') \<or> letter_at path 1 (CHR ''s'') then
        path ! (length path - 4) = CHR ''.'' \<and> letter_at path 3 (CHR ''c'') \<and> letter_at path 2 (CHR ''f'')
      else if letter_at path 1 (CHR ''l'') then
        5 < length path \<and> path ! (length path - 5) = CHR ''.'' \<and> letter_at path 4 (CHR ''c'') \<and> letter_at path 3 (CHR ''f'') \<and>
        letter_at path 2 (CHR ''m'')
      else False)"

definition IsCFCFile :: "string \<Rightarrow> bool" where
  "IsCFCFile path \<longleftrightarrow> 4 < length path \<and> path ! (length path - 4) = CHR ''.'' \<and> letter_at path 3 (CHR ''c'') \<and>
     letter_at path 2 (CHR ''f'') \<and> letter_at path 1 (CHR ''c'')"

definition IsBinary :: "string \<Rightarrow> bool" where
  "IsBinary data \<longleftrightarrow> list_ex (\<lambda>c. c = CHR 0x00) (take 512 data)"

text \<open>\<open>CfcNameFromURI\<close>: the extension is from the last dot of the base.\<close>

definition CfcNameFromURI :: "string \<Rightarrow> string" where
  "CfcNameFromURI fileURI =
     (let path = TrimPrefix fileURI ''file://'';
          path = (case path_unescape path of None \<Rightarrow> path | Some d \<Rightarrow> d);
          base = path_base path
      in TrimSuffix base (path_ext base))"

definition SamePath :: "string \<Rightarrow> string \<Rightarrow> bool" where
  "SamePath a b \<longleftrightarrow> a \<noteq> [] \<and> b \<noteq> [] \<and> EqualFold (path_clean a) (path_clean b)"

section \<open>What resolution finds\<close>

text \<open>A kept listing is the directory's.\<close>

definition cache_ok :: "lister \<Rightarrow> DirCache \<Rightarrow> bool" where
  "cache_ok fs c \<longleftrightarrow> (case c of None \<Rightarrow> True | Some m \<Rightarrow> list_all (\<lambda>(dir, names). fs dir = Some names) m)"

text \<open>The walk without a cache.\<close>

fun walk :: "lister \<Rightarrow> string \<Rightarrow> string list \<Rightarrow> string" where
  "walk fs dir [] = dir"
| "walk fs dir (seg # segs) =
     (case fs dir of None \<Rightarrow> []
      | Some names \<Rightarrow> if entry_for names seg = [] then [] else walk fs (path_join [dir, entry_for names seg]) segs)"

lemma cache_ok_get: "cache_ok fs (Some m) \<Longrightarrow> get m dir = Some names \<Longrightarrow> fs dir = Some names"
  by (auto simp: cache_ok_def list_all_iff dest!: map_of_SomeD)

lemma list_all_put: "list_all P m \<Longrightarrow> P (k, v) \<Longrightarrow> list_all P (put k v m)"
  by (induction m) auto

lemma cache_ok_keep: "cache_ok fs c \<Longrightarrow> fs dir = Some names \<Longrightarrow> cache_ok fs (keep dir names c)"
  by (cases c) (simp_all add: keep_def cache_ok_def list_all_put)

lemma namesIn_ok:
  assumes "cache_ok fs c"
  shows "namesIn fs dir c = None \<longleftrightarrow> fs dir = None" "namesIn fs dir c = Some (names, b) \<Longrightarrow> fs dir = Some names"
proof -
  consider (listed) "Option.bind c (\<lambda>m. get m dir) = None" | (kept) m ns where "c = Some m" "get m dir = Some ns"
    by (cases c; cases "Option.bind c (\<lambda>m. get m dir)") auto
  then have "namesIn fs dir c = map_option (\<lambda>names. (names, False)) (fs dir) \<or>
      (\<exists>ns. namesIn fs dir c = Some (ns, True) \<and> fs dir = Some ns)"
    by cases (use assms cache_ok_get in \<open>auto simp: namesIn_def\<close>)
  then show "namesIn fs dir c = None \<longleftrightarrow> fs dir = None" "namesIn fs dir c = Some (names, b) \<Longrightarrow> fs dir = Some names"
    by (cases "fs dir"; auto)+
qed

lemma resolveSegmentsCached_walk:
  "cache_ok fs c \<Longrightarrow> fst (resolveSegmentsCached fs dir segs c) = walk fs dir segs \<and>
     cache_ok fs (snd (resolveSegmentsCached fs dir segs c))"
proof (induction segs arbitrary: dir c)
  case (Cons seg segs)
  show ?case
  proof (cases "namesIn fs dir c")
    case None
    then have "fs dir = None" using namesIn_ok(1)[OF Cons.prems] by blast
    then show ?thesis using Cons.prems None by simp
  next
    case (Some r)
    obtain names b where r: "r = (names, b)" by (cases r)
    have fs: "fs dir = Some names" using namesIn_ok(2)[OF Cons.prems] Some r by simp
    have "cache_ok fs (if b then c else keep dir names c)" using Cons.prems cache_ok_keep fs by simp
    from Cons.IH[OF this] show ?thesis using Some r fs Cons.prems by (simp add: Let_def)
  qed
qed simp

text \<open>The places a name is looked for in, and the first that has it.\<close>

definition places :: "string \<Rightarrow> string \<Rightarrow> (string, string) gomap \<Rightarrow> (string \<times> string list) list" where
  "places path baseDir m =
     map (\<lambda>k. (case get m k of None \<Rightarrow> [] | Some v \<Rightarrow> v, nested_rest path k)) (nested_keys path m) @
     (case lookupFold m (fst (split_first path)) of None \<Rightarrow> [] | Some mapped \<Rightarrow> [(mapped, mapped_segments path)]) @
     [(baseDir, dotted path)] @
     (case lookupFold m [] of None \<Rightarrow> [] | Some root \<Rightarrow> if root = [] then [] else [(root, dotted path)])"

fun first_found :: "lister \<Rightarrow> (string \<times> string list) list \<Rightarrow> string" where
  "first_found fs [] = []"
| "first_found fs ((root, segs) # ps) = (if walk fs root segs \<noteq> [] then walk fs root segs else first_found fs ps)"

lemma first_found_append:
  "first_found fs (ps @ qs) = (if first_found fs ps \<noteq> [] then first_found fs ps else first_found fs qs)"
  by (induction fs ps rule: first_found.induct) simp_all

lemma try_nested_first:
  "cache_ok fs c \<Longrightarrow>
     fst (try_nested fs path m ks c) = first_found fs (map (\<lambda>k. (case get m k of None \<Rightarrow> [] | Some v \<Rightarrow> v, nested_rest path k)) ks) \<and>
     cache_ok fs (snd (try_nested fs path m ks c))"
proof (induction ks arbitrary: c)
  case (Cons k ks)
  let ?root = "case get m k of None \<Rightarrow> [] | Some v \<Rightarrow> v"
  obtain abs c' where R: "resolveSegmentsCached fs ?root (nested_rest path k) c = (abs, c')" by (metis surj_pair)
  have "abs = walk fs ?root (nested_rest path k)" "cache_ok fs c'"
    using resolveSegmentsCached_walk[OF Cons.prems, of ?root "nested_rest path k"] R by simp_all
  then show ?case using Cons.IH[of c'] R by (simp add: Let_def)
qed simp

text \<open>What one part of the search gives: the first found of its places, with the cache still true.\<close>

definition searched :: "lister \<Rightarrow> (string \<times> string list) list \<Rightarrow> string \<times> DirCache \<Rightarrow> bool" where
  "searched fs ps r \<longleftrightarrow> fst r = first_found fs ps \<and> cache_ok fs (snd r)"

lemma searched_nil: "cache_ok fs c \<Longrightarrow> searched fs [] ([], c)"
  by (simp add: searched_def)

lemma searched_one: "cache_ok fs c \<Longrightarrow> searched fs [(root, segs)] (resolveSegmentsCached fs root segs c)"
  using resolveSegmentsCached_walk[of fs c root segs] by (simp add: searched_def)

lemma searched_nested: "cache_ok fs c \<Longrightarrow>
    searched fs (map (\<lambda>k. (case get m k of None \<Rightarrow> [] | Some v \<Rightarrow> v, nested_rest path k)) ks) (try_nested fs path m ks c)"
  using try_nested_first by (simp add: searched_def)

lemma searched_then:
  assumes "searched fs ps r" "\<And>c. cache_ok fs c \<Longrightarrow> searched fs qs (f c)"
  shows "searched fs (ps @ qs) (let (abs, c) = r in if abs \<noteq> [] then (abs, c) else f c)"
  using assms(1) assms(2)[of "snd r"] by (auto simp: searched_def first_found_append case_prod_unfold)

lemma ResolvePathCached_searched:
  assumes "cache_ok fs c"
  shows "searched fs (places (normalized path) baseDir m) (ResolvePathCached fs path baseDir m c)"
  unfolding ResolvePathCached_def places_def resolveNestedMapping_def Let_def[of "normalized path"]
  by (intro searched_then searched_nested assms)
    (auto intro: searched_one searched_nil split: option.splits)

section \<open>Properties\<close>

fun resolve_run :: "lister \<Rightarrow> DirCache \<Rightarrow> (string \<times> string \<times> (string, string) gomap) list \<Rightarrow> string list" where
  "resolve_run fs c [] = []"
| "resolve_run fs c ((path, baseDir, m) # qs) =
     (let (abs, c) = ResolvePathCached fs path baseDir m c in abs # resolve_run fs c qs)"

lemma ResolvePath_first: "ResolvePath fs path baseDir m = first_found fs (places (normalized path) baseDir m)"
  using ResolvePathCached_searched[of fs None path baseDir m] by (simp add: ResolvePath_def searched_def cache_ok_def)

lemma resolve_run_fresh:
  "cache_ok fs c \<Longrightarrow> resolve_run fs c qs = map (\<lambda>(path, baseDir, m). ResolvePath fs path baseDir m) qs"
proof (induction qs arbitrary: c)
  case (Cons q qs)
  obtain path baseDir m where q: "q = (path, baseDir, m)" by (metis prod_cases3)
  have "searched fs (places (normalized path) baseDir m) (ResolvePathCached fs path baseDir m c)"
    using ResolvePathCached_searched[OF Cons.prems] .
  then show ?case using Cons.IH[of "snd (ResolvePathCached fs path baseDir m c)"]
    by (simp add: q searched_def ResolvePath_first case_prod_unfold Let_def)
qed simp

text \<open>
  C28: A shared cache of directory listings changes no answer: however many component paths are resolved
  through it, against whatever mappings, each is what listing every directory again would give.\<close>

theorem DirCache_transparent:
  "resolve_run fs NewDirCache qs = map (\<lambda>(path, baseDir, m). ResolvePath fs path baseDir m) qs"
  by (rule resolve_run_fresh) (simp add: cache_ok_def NewDirCache_def)

text \<open>\<open>p\<close> is reached from a directory through entries that are the segments in some case, the exact one
  where there is one.\<close>

inductive on_disk :: "lister \<Rightarrow> string \<Rightarrow> string list \<Rightarrow> string \<Rightarrow> bool" for fs where
  here: "on_disk fs dir [] dir"
| entry: "fs dir = Some names \<Longrightarrow> name \<in> set names \<Longrightarrow> EqualFold name seg \<Longrightarrow> (seg \<in> set names \<Longrightarrow> seg \<noteq> [] \<Longrightarrow> name = seg) \<Longrightarrow>
    on_disk fs (path_join [dir, name]) segs p \<Longrightarrow> on_disk fs dir (seg # segs) p"

lemma find_mem: "find P xs = Some x \<Longrightarrow> x \<in> set xs \<and> P x"
  by (induction xs) (auto split: if_splits)

lemma find_same: "find (\<lambda>x. x = y) xs = (if y \<in> set xs then Some y else None)"
  by (induction xs) auto

lemma entry_for_mem:
  assumes "entry_for names seg \<noteq> []"
  shows "entry_for names seg \<in> set names" "EqualFold (entry_for names seg) seg"
    "seg \<in> set names \<Longrightarrow> seg \<noteq> [] \<Longrightarrow> entry_for names seg = seg"
  using assms by (auto simp: entry_for_def find_same split: option.splits if_splits dest: find_mem)

lemma walk_on_disk: "walk fs dir segs \<noteq> [] \<Longrightarrow> on_disk fs dir segs (walk fs dir segs)"
proof (induction segs arbitrary: dir)
  case (Cons seg segs)
  then obtain names where fs: "fs dir = Some names" and e: "entry_for names seg \<noteq> []"
    by (auto split: option.splits if_splits)
  note m = entry_for_mem[OF e]
  show ?case using on_disk.entry[OF fs m(1,2) m(3) Cons.IH] Cons.prems fs e by simp
qed (simp add: on_disk.here)

text \<open>
  C27: A component path is found in the first place that has it, and only there: the mappings whose name is
  a prefix of several segments, the longest first, the mapping named by the first segment, the directory
  of the file that uses it, the default mapping. What is found is a path of entries that are on disk, each
  the segment as it is written where the directory has that, in another case where it has not.\<close>

theorem ResolvePath_place:
  "(case find (\<lambda>(root, segs). walk fs root segs \<noteq> []) (places (normalized path) baseDir m) of
      None \<Rightarrow> ResolvePath fs path baseDir m = []
    | Some (root, segs) \<Rightarrow> on_disk fs root segs (ResolvePath fs path baseDir m)) \<and>
   sorted (map (\<lambda>k. - int (length (nestedMappingKey k))) (nested_keys (normalized path) m))"
proof -
  have "first_found fs ps = (case find (\<lambda>(root, segs). walk fs root segs \<noteq> []) ps of
      None \<Rightarrow> [] | Some (root, segs) \<Rightarrow> walk fs root segs)" for ps
    by (induction fs ps rule: first_found.induct) simp_all
  moreover have "sorted (map (\<lambda>k. (- int (length (nestedMappingKey k)), k)) (nested_keys (normalized path) m))"
    by (simp add: nested_keys_def)
  then have "sorted (map (\<lambda>k. - int (length (nestedMappingKey k))) (nested_keys (normalized path) m))"
    unfolding sorted_map by (rule sorted_wrt_mono_rel[rotated]) auto
  ultimately show ?thesis
    by (auto simp: ResolvePath_first walk_on_disk split: option.splits dest!: find_mem)
qed

section \<open>The order of the mappings\<close>

lemma find_fold_unique:
  "distinct (map (ToLower \<circ> fst) m) \<Longrightarrow> mset m' = mset m \<Longrightarrow>
     find (\<lambda>(k, v). EqualFold k key) m' = find (\<lambda>(k, v). EqualFold k key) m"
proof -
  assume d: "distinct (map (ToLower \<circ> fst) m)" and p: "mset m' = mset m"
  have s: "set m' = set m" using p by (rule mset_eq_setD)
  have u: "x = y" if "x \<in> set m" "y \<in> set m" "EqualFold (fst x) key" "EqualFold (fst y) key" for x y
    using d that by (auto simp: distinct_map inj_on_def EqualFold_def)
  show ?thesis
  proof (cases "find (\<lambda>(k, v). EqualFold k key) m")
    case None
    then have "find (\<lambda>(k, v). EqualFold k key) m' = None" unfolding find_None_iff s .
    then show ?thesis using None by simp
  next
    case (Some x)
    then have x: "x \<in> set m" "EqualFold (fst x) key" using find_mem by fastforce+
    have "find (\<lambda>(k, v). EqualFold k key) m' \<noteq> None" unfolding find_None_iff s case_prod_unfold using x by blast
    then obtain y where y: "find (\<lambda>(k, v). EqualFold k key) m' = Some y" by blast
    then have "y \<in> set m" "EqualFold (fst y) key" using s find_mem by fastforce+
    then show ?thesis using u[OF x(1) _ x(2)] Some y by simp
  qed
qed

lemma lookupFold_any_order:
  assumes "distinct (map (ToLower \<circ> fst) m)" "mset m' = mset m"
  shows "lookupFold m' key = lookupFold m key"
proof -
  have d: "distinct_keys m" using assms(1) by (metis distinct_map map_map)
  moreover have "distinct_keys m'" using d assms(2) by (metis mset_eq_imp_distinct_iff mset_map)
  ultimately have "get m' = get m" using assms(2) by (metis map_of_inject_set mset_eq_setD)
  then show ?thesis unfolding lookupFold_def find_fold_unique[OF assms, of key] by simp
qed

text \<open>With two mappings whose names differ only in case the order decides.\<close>

lemma lookupFold_order_matters:
  "lookupFold [(''/App'', ''a''), (''/app'', ''b'')] ''/APP'' = Some ''a''"
  "lookupFold [(''/app'', ''b''), (''/App'', ''a'')] ''/APP'' = Some ''b''"
  by code_simp+

end
