(* ===== verification/Did_Change.thy ===== *)
theory Did_Change
  imports Incremental_Props Delegations Paths Index_Props
begin

text \<open>
  One open document in the server (\<open>internal/server/handler.go\<close>, \<open>server.go\<close>): its text, its parse and the index follow
  what the editor sends. Edits inside functions are followed at once, others are parsed later, before the next
  request or when a timer fires. The document's URI \<open>u\<close> is an argument; the rest of the server is the index.
\<close>

record FuncRange =
  frName :: string
  frStart :: int
  frEnd :: int

record ('p, 'l, 'm) Server =
  svText :: "string option"
  svParse :: "('p, 'l, 'm) ParseResult option"
  svRanges :: "FuncRange list"
  svIndex :: index
  svPending :: bool
  svChanges :: nat

text \<open>What a document's text gives beside its signatures, and the configuration.\<close>

record ('p, 'l, 'm) Env =
  envReader :: "('p, 'l, 'm) Reader"
  envScoped :: "string \<Rightarrow> string list \<times> string list \<times> string list"
  envIncludes :: "string \<Rightarrow> string list"
  envPersistent :: "string \<Rightarrow> bool"
  envOrm :: "uri \<Rightarrow> bool"

datatype Change = Partial Edit | Whole string

section \<open>The text\<close>

definition collect_step :: "string \<times> Edit list \<Rightarrow> Change \<Rightarrow> string \<times> Edit list" where
  "collect_step = (\<lambda>(content, edits) ch. case ch of Whole t \<Rightarrow> (t, []) | Partial e \<Rightarrow> (content, edits @ [e]))"

definition applyContentChanges :: "string \<Rightarrow> Change list \<Rightarrow> string" where
  "applyContentChanges content changes =
     (let (content, edits) = foldl collect_step (content, []) changes
      in if edits = [] then content else ApplyEdits content edits)"

section \<open>The index\<close>

definition scopesToFuncRanges :: "('p, 'l, 'm) ParseResult \<Rightarrow> FuncRange list" where
  "scopesToFuncRanges pr = map (\<lambda>s. \<lparr>frName = scName s, frStart = scStart s, frEnd = scEnd s\<rparr>) (prScopes pr)"

text \<open>\<open>ThisVars\<close>, with the memo of the scan.\<close>

definition ThisVars ::
  "('p, 'l, 'm) Env \<Rightarrow> ('p, 'l, 'm) ParseResult \<Rightarrow> string list \<times> ('p, 'l, 'm) ParseResult" where
  "ThisVars env pr =
     (case prScopedVars pr of
        Some (_, _, this) \<Rightarrow> (this, pr)
      | None \<Rightarrow> (snd (snd (envScoped env (prContent pr))), pr\<lparr>prScopedVars := Some (envScoped env (prContent pr))\<rparr>))"

definition reindexFromParseResult ::
  "('p, 'l, 'm) Env \<Rightarrow> uri \<Rightarrow> ('p, 'l, 'm) ParseResult \<Rightarrow> index \<Rightarrow> ('p, 'l, 'm) ParseResult \<times> index" where
  "reindexFromParseResult env u pr idx =
     (if \<not> IsCFMLFile u then (pr, idx)
      else
        let idx = IndexFileFromResult u (prFuncs pr) (prRefs pr) idx;
            (this, pr) = ThisVars env pr;
            idx = SetThisVars u this idx;
            idx = SetIncludes u (envIncludes env (prContent pr)) idx;
            idx = SetExtends u (prExtends pr) idx;
            idx = SetDelegates u (prDelegates pr) idx
        in if IsCFCFile u \<and> envPersistent env (prContent pr) \<and> envOrm env u then
             let idx = SetEntity (CfcNameFromURI u) u idx; name = EntityName u (prContent pr)
             in (pr, if name \<noteq> [] then SetEntity name u idx else idx)
           else (pr, idx))"

text \<open>The parse is the document's, with the ranges and the index brought up to it.\<close>

definition publish ::
  "('p, 'l, 'm) Env \<Rightarrow> uri \<Rightarrow> ('p, 'l, 'm) ParseResult \<Rightarrow> ('p, 'l, 'm) Server \<Rightarrow> ('p, 'l, 'm) Server" where
  "publish env u pr sv =
     (let (pr', idx) = reindexFromParseResult env u pr (svIndex sv)
      in sv\<lparr>svParse := Some pr', svRanges := scopesToFuncRanges pr, svIndex := idx\<rparr>)"

section \<open>Deferred parses\<close>

definition flushReparse :: "('p, 'l, 'm) Env \<Rightarrow> uri \<Rightarrow> ('p, 'l, 'm) Server \<Rightarrow> ('p, 'l, 'm) Server" where
  "flushReparse env u sv =
     (case (svPending sv, svParse sv, svText sv) of
        (True, Some pr, Some latest) \<Rightarrow>
          publish env u (ApplyFullReplace (envReader env) latest pr) (sv\<lparr>svPending := False\<rparr>)
      | _ \<Rightarrow> sv\<lparr>svPending := False\<rparr>)"

definition reparse_timer :: "('p, 'l, 'm) Env \<Rightarrow> uri \<Rightarrow> ('p, 'l, 'm) Server \<Rightarrow> ('p, 'l, 'm) Server" where
  "reparse_timer env u sv = flushReparse env u (sv\<lparr>svChanges := 0\<rparr>)"

section \<open>Notifications\<close>

definition handleDidOpen :: "('p, 'l, 'm) Env \<Rightarrow> uri \<Rightarrow> string \<Rightarrow> ('p, 'l, 'm) Server \<Rightarrow> ('p, 'l, 'm) Server" where
  "handleDidOpen env u content sv =
     (if \<not> IsCFMLFile u then sv
      else publish env u (ParseWithOptions (envReader env) content) ((flushReparse env u sv)\<lparr>svText := Some content\<rparr>))"

definition in_function :: "('p, 'l, 'm) ParseResult \<Rightarrow> Change \<Rightarrow> bool" where
  "in_function pr ch = (case ch of Whole _ \<Rightarrow> False | Partial e \<Rightarrow> EditInFunction pr (StartLine e) (EndLine e) (StartChar e))"

definition editsInPlace :: "('p, 'l, 'm) Server \<Rightarrow> Change list \<Rightarrow> bool" where
  "editsInPlace sv changes =
     (case (svParse sv, changes) of (Some pr, ch # _) \<Rightarrow> \<not> svPending sv \<and> in_function pr ch | _ \<Rightarrow> False)"

text \<open>
  The loop over the changes: the text, the parse, whether the rest was only applied to the text, the line of the
  last edit and the kind of the last one, \<open>EditInFunc\<close> to begin with.\<close>

type_synonym ('p, 'l, 'm) followed = "string \<times> ('p, 'l, 'm) ParseResult option \<times> bool \<times> nat \<times> EditKind"

fun follow ::
  "('p, 'l, 'm) Reader \<Rightarrow> string \<Rightarrow> ('p, 'l, 'm) ParseResult option \<Rightarrow> bool \<Rightarrow> nat \<Rightarrow> EditKind \<Rightarrow> Change list \<Rightarrow>
   ('p, 'l, 'm) followed"
where
  "follow rd content pr deferred editLine kind [] = (content, pr, deferred, editLine, kind)"
| "follow rd content pr deferred editLine kind (ch # rest) =
     (if deferred \<or> (case pr of None \<Rightarrow> False | Some p \<Rightarrow> \<not> in_function p ch) then
        (applyContentChanges content (ch # rest), pr, True, editLine, kind)
      else (case ch of
          Whole t \<Rightarrow>
            (case pr of None \<Rightarrow> follow rd t None False editLine kind rest
             | Some p \<Rightarrow> follow rd t (Some (ApplyFullReplace rd t p)) False editLine EditFull rest)
        | Partial e \<Rightarrow>
            let content = apply_one content e
            in (case pr of None \<Rightarrow> follow rd content None False (StartLine e) kind rest
                | Some p \<Rightarrow> (let (k, p') = ApplyEditResult rd e content p
                    in follow rd content (Some p') False (StartLine e) k rest))))"

definition line_delta :: "Change list \<Rightarrow> int" where
  "line_delta changes = sum_list (map (\<lambda>ch. case ch of Whole _ \<Rightarrow> 0
     | Partial e \<Rightarrow> int (count_list (Text e) newline) - (int (EndLine e) - int (StartLine e))) changes)"

text \<open>\<open>fresh\<close>: the last change is more than 200 ms ago, which starts a new count.\<close>

definition handleDidChange ::
  "('p, 'l, 'm) Env \<Rightarrow> uri \<Rightarrow> bool \<Rightarrow> Change list \<Rightarrow> ('p, 'l, 'm) Server \<Rightarrow> ('p, 'l, 'm) Server" where
  "handleDidChange env u fresh changes sv =
     (if changes = [] \<or> \<not> IsCFMLFile u then sv
      else (case svText sv of None \<Rightarrow> sv
        | Some content \<Rightarrow>
            let n = (if fresh then 0 else svChanges sv) + 1;
                sv = sv\<lparr>svChanges := n\<rparr>
            in if 50 < length changes \<or> 5 < n \<and> \<not> editsInPlace sv changes then
                 sv\<lparr>svText := Some (applyContentChanges content changes), svPending := True\<rparr>
               else
                 let (content', pr, deferred, editLine, kind) =
                       follow (envReader env) content (svParse sv) (svParse sv \<noteq> None \<and> svPending sv) 0 EditInFunc changes;
                     sv = sv\<lparr>svText := Some content', svParse := pr\<rparr>
                 in if deferred then sv\<lparr>svPending := True\<rparr>
                    else (case pr of
                        None \<Rightarrow> publish env u (ParseWithOptions (envReader env) content') sv
                      | Some p \<Rightarrow>
                          (case kind of
                             EditInFunc \<Rightarrow>
                               if line_delta changes = 0 then sv
                               else sv\<lparr>svIndex := ShiftLines u (of_nat editLine) (of_int (line_delta changes)) (svIndex sv)\<rparr>
                           | _ \<Rightarrow> publish env u p sv))))"

definition handleDidClose :: "('p, 'l, 'm) Server \<Rightarrow> ('p, 'l, 'm) Server" where
  "handleDidClose sv = sv\<lparr>svText := None, svParse := None, svRanges := [], svChanges := 0, svPending := False\<rparr>"

end
