(* ===== verification/Did_Change_Props.thy ===== *)
theory Did_Change_Props
  imports Did_Change
begin

text \<open>
  The document, its parse and the index in step: over all sequences of notifications, requests and timers.
\<close>

section \<open>The index of one file\<close>

lemma ShiftLines_file:
  assumes "index_ok s"
  shows "map snd (FunctionsForFile (ShiftLines u al delta s) u) =
    map (\<lambda>d. if line_after (fnLine d) al then fn_shift delta d else d) (map snd (FunctionsForFile s u))"
proof -
  have "snd (subst (func_reps u al delta s) p) = (if line_after (fnLine (snd p)) al then fn_shift delta (snd p) else snd p)"
    if "p \<in> set (FunctionsForFile s u)" for p
    using that unfolding func_reps_def FunctionsForFile_def
    by (subst subst_shift_reps) (use views_okD(5)[OF index_okD(1)[OF assms]] in auto)
  then show ?thesis by (simp add: FunctionsForFile_def ShiftLines_views[OF assms])
qed

lemma shiftAfter_funcs:
  "prFuncs (shiftAfter l delta pr) =
     (if delta = 0 then prFuncs pr
      else map (\<lambda>d. if line_after (fnLine d) (of_nat l) then fn_shift (of_int delta) d else d) (prFuncs pr))"
  by (simp add: shiftAfter_def shift_line_def fn_shift_def if_distrib[of "\<lambda>l. d\<lparr>fnLine := l\<rparr>" for d])

lemma setters_file [simp]:
  "FunctionsForFile (SetThisVars v vs s) u = FunctionsForFile s u" "FunctionsForFile (SetIncludes v ps s) u = FunctionsForFile s u"
  "FunctionsForFile (SetExtends v x s) u = FunctionsForFile s u" "FunctionsForFile (SetDelegates v ds s) u = FunctionsForFile s u"
  "FunctionsForFile (SetEntity n v s) u = FunctionsForFile s u"
  by (simp_all add: FunctionsForFile_def SetThisVars_def SetIncludes_def setIncludesLocked_def SetExtends_def SetDelegates_def
      SetEntity_def Let_def split: option.split)

lemma ThisVars_keeps: "ThisVars env pr = (vs, pr') \<Longrightarrow> prContent pr' = prContent pr \<and> prFuncs pr' = prFuncs pr"
  by (auto simp: ThisVars_def split: option.splits)

lemma reindex_keeps:
  assumes "reachable idx" "reindexFromParseResult env u pr idx = (pr', idx')"
  shows "reachable idx' \<and> prContent pr' = prContent pr \<and> prFuncs pr' = prFuncs pr \<and>
    (IsCFMLFile u \<longrightarrow> map snd (FunctionsForFile idx' u) = prFuncs pr)"
proof -
  obtain this pr1 where t: "ThisVars env pr = (this, pr1)" by force
  have r: "reachable (SetDelegates a b (SetExtends c d (SetIncludes e f (SetThisVars g h (IndexFileFromResult i j k idx)))))"
    for a b c d e f g h i j k
    by (intro reachable_step[OF _ delegate_list] reachable_step[OF _ extends] reachable_step[OF _ include_list]
        reachable_step[OF _ this_vars] reachable_step[OF _ index_result] assms(1))
  have f: "map snd (FunctionsForFile (IndexFileFromResult u (prFuncs pr) rs idx) u) = prFuncs pr" for rs
    by (simp add: FunctionsForFile_def IndexFileFromResult_files alloc_props(3))
  show ?thesis
    using assms(2) ThisVars_keeps[OF t] assms(1)
    by (auto simp: reindexFromParseResult_def t f Let_def intro: reachable_step[OF _ entity] r split: if_splits)
qed

section \<open>Following changes\<close>

definition client_step :: "string \<Rightarrow> Change \<Rightarrow> string" where
  "client_step content ch = (case ch of Whole t \<Rightarrow> t | Partial e \<Rightarrow> apply_one content e)"

definition change_text :: "Change \<Rightarrow> string" where
  "change_text ch = (case ch of Whole t \<Rightarrow> t | Partial e \<Rightarrow> Text e)"

lemma client_step_valid: "valid_utf8 content \<Longrightarrow> valid_utf8 (change_text ch) \<Longrightarrow> valid_utf8 (client_step content ch)"
  by (cases ch) (simp_all add: client_step_def change_text_def apply_one_valid)

lemma collect_client:
  "valid_utf8 content \<Longrightarrow> \<forall>e \<in> set edits. valid_utf8 (Text e) \<Longrightarrow> \<forall>ch \<in> set changes. valid_utf8 (change_text ch) \<Longrightarrow>
   foldl collect_step (content, edits) changes = (c, es) \<Longrightarrow>
   valid_utf8 c \<and> (\<forall>e \<in> set es. valid_utf8 (Text e)) \<and> foldl apply_one c es = foldl client_step (foldl apply_one content edits) changes"
proof (induction changes arbitrary: content edits)
  case (Cons ch changes)
  show ?case
  proof (cases ch)
    case (Whole t)
    then show ?thesis using Cons.IH[of t "[]"] Cons.prems by (simp add: collect_step_def client_step_def change_text_def)
  next
    case (Partial e)
    then show ?thesis
      using Cons.IH[of content "edits @ [e]"] Cons.prems by (simp add: collect_step_def client_step_def change_text_def)
  qed
qed simp

lemma applyContentChanges_client:
  assumes "valid_utf8 content" "\<forall>ch \<in> set changes. valid_utf8 (change_text ch)"
  shows "applyContentChanges content changes = foldl client_step content changes"
proof -
  obtain c es where c: "foldl collect_step (content, []) changes = (c, es)" by force
  from collect_client[OF assms(1) _ assms(2) c] show ?thesis
    by (cases "es = []") (simp_all add: applyContentChanges_def c ApplyEdits_foldl)
qed

lemma applyEdit_content [simp]: "prContent (snd (applyEdit rd sl sc el t edited pr)) = edited"
  by (simp add: applyEdit_def Let_def reparseShallow_def resetFuncCaches_def resetGlobalCaches_def[of "extractSignatures _ _"]
      extractSignatures_def split: option.split)

lemma ApplyFullReplace_content [simp]: "prContent (ApplyFullReplace rd t pr) = t"
  by (simp add: ApplyFullReplace_def reparseShallow_def resetFuncCaches_def resetGlobalCaches_def extractSignatures_def Let_def)

lemma follow_content:
  "follow rd content pr d0 l0 k0 changes = (c, pr', d, l, k) \<Longrightarrow> \<forall>p. pr = Some p \<longrightarrow> prContent p = content \<Longrightarrow> \<not> d \<Longrightarrow>
     (\<forall>p. pr' = Some p \<longrightarrow> prContent p = c) \<and> (pr' = None \<longleftrightarrow> pr = None)"
proof (induction changes arbitrary: content pr d0 l0 k0)
  case (Cons ch rest)
  have go: "\<not> (d0 \<or> (case pr of None \<Rightarrow> False | Some p \<Rightarrow> \<not> in_function p ch))" using Cons.prems by (auto split: if_splits)
  show ?case
  proof (cases ch)
    case (Whole t)
    then have "pr = None" using go by (cases pr) (auto simp: in_function_def)
    then show ?thesis using Cons.IH[of t None False l0 k0] Cons.prems go Whole by simp
  next
    case (Partial e)
    show ?thesis
    proof (cases pr)
      case None
      then show ?thesis using Cons.IH[of "apply_one content e" None False "StartLine e" k0] Cons.prems go Partial by simp
    next
      case (Some p)
      obtain k1 p1 where a: "ApplyEditResult rd e (apply_one content e) p = (k1, p1)" by force
      then have "prContent p1 = apply_one content e" by (metis ApplyEditResult_def applyEdit_content snd_conv)
      then show ?thesis
        using Cons.IH[of "apply_one content e" "Some p1" False "StartLine e" k1] Cons.prems go Partial Some a by simp
    qed
  qed
qed simp

lemma follow_text:
  "follow rd content pr d0 l0 k0 changes = (c, rest) \<Longrightarrow> valid_utf8 content \<Longrightarrow> \<forall>ch \<in> set changes. valid_utf8 (change_text ch) \<Longrightarrow>
     c = foldl client_step content changes"
proof (induction changes arbitrary: content pr d0 l0 k0)
  case (Cons ch more)
  show ?case
  proof (cases "d0 \<or> (case pr of None \<Rightarrow> False | Some p \<Rightarrow> \<not> in_function p ch)")
    case True
    then show ?thesis using Cons.prems applyContentChanges_client[of content "ch # more"] by simp
  next
    case False
    have "\<exists>pr' l k. follow rd (client_step content ch) pr' False l k more = (c, rest)"
      using Cons.prems(1) False
      by (cases ch; cases pr) (simp_all add: client_step_def Let_def case_prod_unfold, blast+)
    then show ?thesis using Cons.IH client_step_valid[of content ch] Cons.prems by fastforce
  qed
qed simp

section \<open>Steps\<close>

text \<open>
  What happens to a document: notifications whose changes are as \<open>P\<close> says, requests, which parse what is pending,
  timers, and steps of the index that leave the definitions of the document's file as they are.\<close>

inductive doc_step ::
  "('p, 'l, 'm) Env \<Rightarrow> uri \<Rightarrow> (Change list \<Rightarrow> bool) \<Rightarrow> ('p, 'l, 'm) Server \<Rightarrow> ('p, 'l, 'm) Server \<Rightarrow> bool"
  for env u P where
  did_open: "doc_step env u P sv (handleDidOpen env u content sv)"
| did_change: "P changes \<Longrightarrow> doc_step env u P sv (handleDidChange env u fresh changes sv)"
| did_close: "doc_step env u P sv (handleDidClose sv)"
| request: "doc_step env u P sv (flushReparse env u sv)"
| timer: "doc_step env u P sv (reparse_timer env u sv)"
| elsewhere: "reachable idx \<Longrightarrow> FunctionsForFile idx u = FunctionsForFile (svIndex sv) u \<Longrightarrow>
    doc_step env u P sv (sv\<lparr>svIndex := idx\<rparr>)"

definition server_start :: "('p, 'l, 'm) Server" where
  "server_start = \<lparr>svText = None, svParse = None, svRanges = [], svIndex = New, svPending = False, svChanges = 0\<rparr>"

definition in_step :: "uri \<Rightarrow> ('p, 'l, 'm) Server \<Rightarrow> bool" where
  "in_step u sv \<longleftrightarrow> reachable (svIndex sv) \<and> (svText sv = None \<longleftrightarrow> svParse sv = None) \<and>
     (\<forall>p. svParse sv = Some p \<and> \<not> svPending sv \<longrightarrow>
        svText sv = Some (prContent p) \<and> map snd (FunctionsForFile (svIndex sv) u) = prFuncs p)"

lemma publish_in_step:
  assumes "reachable (svIndex sv)" "svText sv = Some (prContent pr)" "IsCFMLFile u"
  shows "in_step u (publish env u pr sv)"
proof -
  obtain pr' idx where r: "reindexFromParseResult env u pr (svIndex sv) = (pr', idx)" by force
  from reindex_keeps[OF assms(1) r] show ?thesis using assms by (simp add: in_step_def publish_def r)
qed

lemma flush_in_step:
  assumes "in_step u sv" "IsCFMLFile u"
  shows "in_step u (flushReparse env u sv)"
proof (cases "svPending sv \<and> svParse sv \<noteq> None")
  case True
  then obtain pr latest where "svParse sv = Some pr" "svText sv = Some latest" using assms(1) by (auto simp: in_step_def)
  then show ?thesis
    using True assms publish_in_step[of "sv\<lparr>svPending := False\<rparr>" "ApplyFullReplace (envReader env) latest pr" u env]
    by (simp add: flushReparse_def in_step_def)
next
  case False
  then have "flushReparse env u sv = sv\<lparr>svPending := False\<rparr>"
    by (cases "svPending sv"; cases "svParse sv") (simp_all add: flushReparse_def)
  then show ?thesis using assms False by (auto simp: in_step_def)
qed

text \<open>One change that is followed in place.\<close>

lemma in_place_change:
  assumes "in_step u sv" "svParse sv = Some p" "\<not> svPending sv" "in_function p (Partial e)"
    "ApplyEditResult rd e (apply_one (prContent p) e) p = (k, p')"
  shows "k = EditInFunc \<and> prContent p' = apply_one (prContent p) e \<and>
    prFuncs p' = (if line_delta [Partial e] = 0 then map snd (FunctionsForFile (svIndex sv) u)
      else map snd (FunctionsForFile (ShiftLines u (of_nat (StartLine e)) (of_int (line_delta [Partial e])) (svIndex sv)) u))"
proof -
  obtain i where i: "funcContaining p (StartLine e) (EndLine e) (StartChar e) = Some i"
    using assms(4) by (auto simp: in_function_def EditInFunction_def)
  let ?d = "line_delta [Partial e]"
  have "p' = (let pr = shiftAfter (StartLine e) ?d (p\<lparr>prContent := apply_one (prContent p) e\<rparr>)
      in resetGlobalCaches (InvalidateFunc (scStart (prScopes pr ! i)) (scEnd (prScopes pr ! i)) pr))" "k = EditInFunc"
    using assms(5) by (auto simp: ApplyEditResult_def applyEdit_def i line_delta_def Let_def)
  moreover have "map snd (FunctionsForFile (svIndex sv) u) = prFuncs p" "index_ok (svIndex sv)"
    using assms(1-3) by (auto simp: in_step_def intro: reachable_ok)
  ultimately show ?thesis by (simp add: Let_def shiftAfter_funcs ShiftLines_file)
qed

lemma change_in_step:
  assumes ok: "in_step u sv" and u: "IsCFMLFile u" and one: "length changes \<le> 1"
  shows "in_step u (handleDidChange env u fresh changes sv)"
proof (cases "changes = [] \<or> svText sv = None")
  case True
  then show ?thesis using ok by (auto simp: handleDidChange_def)
next
  case False
  then obtain ch content where ch: "changes = [ch]" and content: "svText sv = Some content"
    using one by (cases changes) auto
  then obtain p where p: "svParse sv = Some p" using ok by (auto simp: in_step_def)
  let ?n = "(if fresh then 0 else svChanges sv) + 1"
  let ?sv = "sv\<lparr>svChanges := ?n\<rparr>"
  show ?thesis
  proof (cases "50 < length changes \<or> 5 < ?n \<and> \<not> editsInPlace ?sv changes \<or> svPending sv \<or> \<not> in_function p ch")
    case True
    then show ?thesis using ok u content p False unfolding ch
      by (auto simp: handleDidChange_def in_step_def Let_def)
  next
    case quiet: False
    then obtain e where e: "ch = Partial e" by (cases ch) (auto simp: in_function_def)
    obtain k p' where a: "ApplyEditResult (envReader env) e (apply_one content e) p = (k, p')" by force
    have c: "content = prContent p" using ok p content quiet by (auto simp: in_step_def)
    note new = in_place_change[OF ok p _ _ a[unfolded c]]
    have "handleDidChange env u fresh changes sv =
        (let sv' = ?sv\<lparr>svText := Some (apply_one content e), svParse := Some p'\<rparr>
         in if line_delta [Partial e] = 0 then sv'
            else sv'\<lparr>svIndex := ShiftLines u (of_nat (StartLine e)) (of_int (line_delta [Partial e])) (svIndex sv)\<rparr>)"
      using quiet u content p e a new ch by (simp add: handleDidChange_def editsInPlace_def Let_def)
    moreover have "reachable (ShiftLines u x y (svIndex sv))" for x y
      using ok by (auto simp: in_step_def intro: reachable_step[OF _ shift_lines])
    ultimately show ?thesis using ok new quiet e c by (auto simp: in_step_def Let_def)
  qed
qed

lemma doc_step_in_step:
  assumes "doc_step env u P sv sv'" "in_step u sv" "IsCFMLFile u" "\<And>changes. P changes \<Longrightarrow> length changes \<le> 1"
  shows "in_step u sv'"
  using assms
proof (induction rule: doc_step.induct)
  case (did_open sv content)
  from flush_in_step[OF did_open(1,2), of env] have "reachable (svIndex (flushReparse env u sv))" by (simp add: in_step_def)
  then show ?case
    using did_open(2) publish_in_step[of "(flushReparse env u sv)\<lparr>svText := Some content\<rparr>" "ParseWithOptions (envReader env) content" u env]
    by (simp add: handleDidOpen_def ParseWithOptions_def extractSignatures_def Let_def)
next
  case (did_change changes sv fresh)
  then show ?case by (simp add: change_in_step)
next
  case (did_close sv)
  then show ?case by (simp add: handleDidClose_def in_step_def)
next
  case (request sv)
  then show ?case by (simp add: flush_in_step)
next
  case (timer sv)
  then show ?case using flush_in_step[of u "sv\<lparr>svChanges := 0\<rparr>" env] by (simp add: reparse_timer_def in_step_def)
next
  case (elsewhere idx sv)
  then show ?case by (auto simp: in_step_def)
qed

lemma doc_steps_in_step:
  assumes "(doc_step env u P)\<^sup>*\<^sup>* server_start sv" "IsCFMLFile u" "\<And>changes. P changes \<Longrightarrow> length changes \<le> 1"
  shows "in_step u sv"
  using assms(1)
proof (induction rule: rtranclp_induct)
  case base
  show ?case by (simp add: in_step_def server_start_def)
next
  case (step y z)
  show ?case by (rule doc_step_in_step[OF step(2,3) assms(2,3)])
qed

text \<open>
  C38: A document edited one change at a time, with requests, timers, closing, opening and work on other files in
  between in any order (work that leaves the file's functions alone and drops folders only by prefixes
  that agree with their files' URIs, so that the index stays \<open>reachable\<close>): whenever no parse is pending, the parse is of the document's text and the index lists for the
  file exactly the parse's functions, lines included. A request leaves no parse pending.\<close>

theorem index_follows_document:
  assumes "(doc_step env u (\<lambda>changes. length changes \<le> 1))\<^sup>*\<^sup>* server_start sv" "IsCFMLFile u" "svParse sv = Some p"
    "\<not> svPending sv"
  shows "svText sv = Some (prContent p) \<and> map snd (FunctionsForFile (svIndex sv) u) = prFuncs p \<and>
    \<not> svPending (flushReparse env u sv')"
proof -
  have "in_step u sv" by (rule doc_steps_in_step[OF assms(1,2)])
  moreover have "\<not> svPending (flushReparse env u sv')"
    by (auto simp: flushReparse_def publish_def case_prod_unfold Let_def split: bool.split option.split)
  ultimately show ?thesis using assms by (simp add: in_step_def)
qed

section \<open>An example, and what is not in step\<close>

definition three_defs :: "(unit, unit, unit) Reader" where
  "three_defs = \<lparr>declared = declared three_reader,
     signatures = (\<lambda>c ps rs. (signatures three_reader c ps rs)
       \<lparr>sgFuncs := [sample_fn ''a'' file_a 0, sample_fn ''b'' file_a 2, sample_fn ''c'' file_a 4]\<rparr>)\<rparr>"

definition three_env :: "(unit, unit, unit) Env" where
  "three_env = \<lparr>envReader = three_defs, envScoped = (\<lambda>_. ([], [], [])), envIncludes = (\<lambda>_. []), envPersistent = (\<lambda>_. False),
     envOrm = (\<lambda>_. False)\<rparr>"

definition opened :: "(unit, unit, unit) Server" where
  "opened = handleDidOpen three_env file_a three_functions server_start"

definition indexed_lines :: "('p, 'l, 'm) Server \<Rightarrow> (32 word) list" where
  "indexed_lines sv = map (\<lambda>e. fnLine (snd e)) (FunctionsForFile (svIndex sv) file_a)"

definition parsed_lines :: "('p, 'l, 'm) Server \<Rightarrow> (32 word) list" where
  "parsed_lines sv = (case svParse sv of None \<Rightarrow> [] | Some p \<Rightarrow> map fnLine (prFuncs p))"

definition one_line_more :: "(unit, unit, unit) Server" where
  "one_line_more = handleDidChange three_env file_a True [Partial (insert_at 1 0 [newline])] opened"

lemma index_follows_document_witness:
  "\<exists>p. svParse one_line_more = Some p \<and> svText one_line_more = Some (prContent p) \<and> indexed_lines one_line_more = [0, 3, 5]"
proof -
  let ?P = "\<lambda>changes :: Change list. length changes \<le> 1"
  have "doc_step three_env file_a ?P server_start opened" unfolding opened_def by (rule did_open)
  moreover have "doc_step three_env file_a ?P opened one_line_more" unfolding one_line_more_def by (rule did_change) simp
  ultimately have steps: "(doc_step three_env file_a ?P)\<^sup>*\<^sup>* server_start one_line_more"
    by (meson converse_rtranclp_into_rtranclp r_into_rtranclp)
  have u: "IsCFMLFile file_a" by code_simp
  have now: "svParse one_line_more \<noteq> None \<and> \<not> svPending one_line_more \<and> indexed_lines one_line_more = [0, 3, 5]" by code_simp
  then obtain p where "svParse one_line_more = Some p" by auto
  then show ?thesis using index_follows_document[OF steps u, of p] now by auto
qed

text \<open>
  A notification of two edits shifts the index once, by the sum of the lines below the last edit: the definition
  between the two edits, and that of the function the last one is in, are left where they were.\<close>

lemma two_edits_shift_once:
  "let sv = handleDidChange three_env file_a True [Partial (insert_at 1 0 [newline]), Partial (insert_at 6 0 [newline])] opened
   in \<not> svPending sv \<and> parsed_lines sv = [0, 3, 5] \<and> indexed_lines sv = [0, 2, 4]"
  by code_simp

text \<open>The ranges completion looks functions up in are not moved by an edit in a function.\<close>

lemma ranges_left_behind:
  "map (\<lambda>r. (frStart r, frEnd r)) (svRanges one_line_more) = [(0, 1), (2, 3), (4, 5)] \<and>
   map_option scope_lines (svParse one_line_more) = Some [(0, 2), (3, 4), (5, 6)]"
  by code_simp

text \<open>The text, for a notification of any number of changes, is the client's.\<close>

lemma handleDidChange_text:
  assumes "svText sv = Some content" "IsCFMLFile u" "valid_utf8 content" "\<forall>ch \<in> set changes. valid_utf8 (change_text ch)"
  shows "svText (handleDidChange env u fresh changes sv) = Some (foldl client_step content changes)"
proof (cases "changes = []")
  case False
  obtain c pr d l k where f: "follow (envReader env) content (svParse sv) (svParse sv \<noteq> None \<and> svPending sv) 0 EditInFunc changes =
      (c, pr, d, l, k)" by (metis prod_cases5)
  have c: "c = foldl client_step content changes" by (rule follow_text[OF f assms(3,4)])
  have p: "svText (publish env u q s) = svText s" for q s by (simp add: publish_def case_prod_unfold Let_def)
  show ?thesis
    using False assms(1,2) f c applyContentChanges_client[OF assms(3,4)]
    by (simp add: handleDidChange_def Let_def p split: option.split EditKind.split)
qed (use assms(1) in \<open>simp add: handleDidChange_def\<close>)

end
