(* ===== verification/Func_Scopes_Props.thy ===== *)
theory Func_Scopes_Props
  imports Func_Scopes Regions_Props "HOL-Library.Multiset"
begin

text \<open>
  The scopes of script and of tags come in order, each from its declaration to a line at or after it,
  and overlap at most in the line one ends and the next starts on, in one text and over the regions of
  a file (\<open>FindFuncScopes\<close>); so the scope around a line is the only one. Sorting is the stable sort by
  start line. The scopes a parse merges (\<open>merge_scopes\<close>) join those of the regions with those of the
  tags of the whole text, and may nest in a file that mixes the two.
\<close>

section \<open>Order\<close>

fun scopes_ok :: "int \<Rightarrow> int \<Rightarrow> FuncScope list \<Rightarrow> bool" where
  "scopes_ok lo hi [] = True"
| "scopes_ok lo hi (s # ss) = (lo \<le> scStart s \<and> scStart s \<le> scEnd s \<and> scEnd s \<le> hi \<and> scopes_ok (scEnd s) hi ss)"

lemma scopes_ok_mono: "scopes_ok lo hi ss \<Longrightarrow> lo' \<le> lo \<Longrightarrow> scopes_ok lo' hi ss"
  by (cases ss) auto

lemma scopes_ok_upper: "scopes_ok lo hi ss \<Longrightarrow> hi \<le> hi' \<Longrightarrow> scopes_ok lo hi' ss"
  by (induction ss arbitrary: lo) auto

lemma scopes_ok_start: "scopes_ok lo hi ss \<Longrightarrow> s \<in> set ss \<Longrightarrow> lo \<le> scStart s \<and> scStart s \<le> scEnd s \<and> scEnd s \<le> hi"
proof (induction ss arbitrary: lo)
  case (Cons a ss)
  then show ?case using Cons.IH[of "scEnd a"] by force
qed simp

lemma scopes_ok_find:
  "scopes_ok lo hi ss \<Longrightarrow> s \<in> set ss \<Longrightarrow> scStart s < line \<Longrightarrow> line < scEnd s \<Longrightarrow> findFuncScope line ss = s"
proof (induction ss arbitrary: lo)
  case (Cons a ss)
  show ?case
  proof (cases "s = a")
    case True
    then show ?thesis using Cons.prems by (simp add: findFuncScope_def)
  next
    case False
    then have s: "s \<in> set ss" using Cons.prems(2) by simp
    have "scEnd a \<le> scStart s" using scopes_ok_start[of "scEnd a" hi ss s] s Cons.prems(1) by simp
    then have "\<not> (scStart a \<le> line \<and> line \<le> scEnd a)" using Cons.prems(3) by linarith
    then have "findFuncScope line (a # ss) = findFuncScope line ss" by (auto simp: findFuncScope_def)
    then show ?thesis using Cons.IH[of "scEnd a"] s Cons.prems by simp
  qed
qed simp

text \<open>\<open>below l st\<close>: what is left to read is on line \<open>l\<close> or after it.\<close>

definition below :: "nat \<Rightarrow> stream \<Rightarrow> bool" where
  "below l st \<longleftrightarrow> (\<forall>t \<in> set (toks st). l \<le> tokLine t) \<and> l \<le> snd (stop st)"

lemma below_ahead: "below l st \<Longrightarrow> ahead st st' \<Longrightarrow> below l st'"
  by (auto simp: below_def ahead_def)

lemma below_mono: "below l st \<Longrightarrow> k \<le> l \<Longrightarrow> below k st"
  by (auto simp: below_def intro: order_trans)

lemma below_peek: "below l st \<Longrightarrow> l \<le> tokLine (PeekTok st)"
  by (cases "toks st") (auto simp: below_def PeekTok_def NextTok_def eof_token_def)

lemma below_next:
  assumes "stream_ok s st"
  shows "below (tokLine (PeekTok st)) (DropTok st)" "tokLine (PeekTok st) \<le> snd (stop st)"
  using stream_ok_lines[OF assms]
  by (cases "toks st"; auto simp: below_def PeekTok_def DropTok_def NextTok_def eof_token_def)+

lemma ahead_stop: "ahead st st' \<Longrightarrow> stop st' = stop st"
  by (simp add: ahead_def)

text \<open>A token between line \<open>l\<close> and what is left to read.\<close>

definition between :: "nat \<Rightarrow> Token \<Rightarrow> stream \<Rightarrow> bool" where
  "between l t st \<longleftrightarrow> l \<le> tokLine t \<and> below (tokLine t) st \<and> tokLine t \<le> snd (stop st)"

lemma between_next: "stream_ok s st \<Longrightarrow> below l st \<Longrightarrow> between l (PeekTok st) (DropTok st)"
  using below_next below_peek ahead_stop[OF DropTok_ahead[of st]] by (simp add: between_def)

lemma to_close_between:
  "stream_ok s st \<Longrightarrow> below l st \<Longrightarrow> (n = 0 \<Longrightarrow> between l latest st) \<Longrightarrow>
   case to_close op_kind cl_kind n latest st of (t, st') \<Rightarrow> between l t st'"
proof (induction op_kind cl_kind n latest st rule: to_close.induct)
  case (1 op_kind cl_kind n latest st)
  note E = to_close.simps[of op_kind cl_kind n latest st, unfolded Let_def]
  note tok = between_next[OF 1(2,3)]
  have drop: "stream_ok s (DropTok st)" "below l (DropTok st)"
    using stream_ok_ahead[OF 1(2) DropTok_ahead] below_ahead[OF 1(3) DropTok_ahead] .
  consider "n = 0" | "n \<noteq> 0" "tokKind (PeekTok st) = TokEOF" | "n \<noteq> 0" "tokKind (PeekTok st) \<noteq> TokEOF" by blast
  then show ?case
  proof cases
    case 3
    show ?thesis unfolding E if_not_P[OF 3(1)] if_not_P[OF 3(2)]
      by (rule 1(1)[OF 3(1) refl 3(2) drop tok])
  qed (use 1(4) tok E in simp_all)
qed

lemma skipToClose_between:
  assumes "stream_ok s st" "below l st"
  shows "between l (fst (skipToClose op_kind cl_kind st)) (snd (skipToClose op_kind cl_kind st))"
  using to_close_between[OF assms, of 1 no_token op_kind cl_kind] by (simp add: skipToClose_def case_prod_unfold)

lemma script_function_scopes:
  assumes "stream_ok s st" "below l st" "script_function base (base + int l) st = (ss, st')" "sc \<in> set ss"
  shows "ss = [sc]" "scStart sc = base + int l" "\<exists>t. scEnd sc = base + int (tokLine t) \<and> between l t st'"
proof -
  let ?b = "DropTok (DropTok st)"
  let ?c = "skipFunctionAttrs (snd (skipToClose TokLParen TokRParen ?b))"
  have c: "ahead st ?c" by (metis DropTok_ahead ahead_trans skipToClose_ahead skipFunctionAttrs_ahead)
  note ok = stream_ok_ahead[OF assms(1) c] below_ahead[OF assms(2) c]
  note d = stream_ok_ahead[OF ok(1) DropTok_ahead] below_ahead[OF ok(2) DropTok_ahead]
  have "ss = [sc] \<and> scStart sc = base + int l \<and> (\<exists>t. scEnd sc = base + int (tokLine t) \<and> between l t st')"
    using assms(3,4) between_next[OF ok] skipToClose_between[OF d, of TokLBrace TokRBrace]
    unfolding script_function_def Let_def
    by (cases "tokKind (PeekTok st) = TokIdent"; cases "PeekKind (DropTok st) = TokLParen";
        cases "tokKind (PeekTok ?c) = TokSemicolon"; cases "tokKind (PeekTok ?c) = TokLBrace")
      (auto simp: case_prod_unfold)
  then show "ss = [sc]" "scStart sc = base + int l" "\<exists>t. scEnd sc = base + int (tokLine t) \<and> between l t st'" by blast+
qed

lemma script_scopes_ok:
  "stream_ok s st \<Longrightarrow> below l st \<Longrightarrow> scopes_ok (base + int l) (base + int (snd (stop st))) (script_scopes base st)"
proof (induction base st arbitrary: l rule: script_scopes.induct)
  case (1 base st)
  let ?tok = "PeekTok st"
  note E = script_scopes.simps[of base st, unfolded Let_def]
  note tok = between_next[OF 1(4,5), unfolded between_def]
  have drop: "stream_ok s (DropTok st)" "below l (DropTok st)" "stop (DropTok st) = stop st"
    using stream_ok_ahead[OF 1(4) DropTok_ahead] below_ahead[OF 1(5) DropTok_ahead] ahead_stop[OF DropTok_ahead] .
  obtain starts st1 where S: "startsFunction ?tok (DropTok st) = (starts, st1)" by (cases "startsFunction ?tok (DropTok st)")
  have a1: "ahead (DropTok st) st1" using startsFunction_ahead[of "DropTok st" ?tok] S by simp
  note ok1 = stream_ok_ahead[OF drop(1) a1]
  obtain ss st2 where F: "script_function base (base + int (tokLine ?tok)) st1 = (ss, st2)" by (metis surj_pair)
  have a2: "ahead st1 st2" using script_function_ahead[of st1 base "base + int (tokLine ?tok)"] F by simp
  note ok2 = stream_ok_ahead[OF ok1 a2]
  have stops: "stop st1 = stop st" "stop st2 = stop st" using ahead_stop a1 a2 drop(3) by metis+
  have b1: "below (tokLine ?tok) st1" using below_ahead[OF _ a1] tok by blast
  consider (eof) "tokKind ?tok = TokEOF" | (other) "tokKind ?tok \<noteq> TokEOF" "tokKind ?tok \<noteq> TokIdent"
    | (no) "tokKind ?tok = TokIdent" "\<not> starts" | (yes) "tokKind ?tok = TokIdent" starts by blast
  then show ?case
  proof cases
    case eof
    then show ?thesis using E by simp
  next
    case other
    then show ?thesis using E 1(1)[OF refl other drop(1,2)] drop(3) by simp
  next
    case no
    have "scopes_ok (base + int l) (base + int (snd (stop st1))) (script_scopes base st1)"
      using 1(2)[OF refl _ _ S[symmetric] refl no(2) ok1 below_ahead[OF drop(2) a1]] no(1) by simp
    then show ?thesis using E no S stops by simp
  next
    case yes
    have rest: "scopes_ok (base + int k) (base + int (snd (stop st))) (script_scopes base st2)" if "below k st2" for k
      using 1(3)[OF refl _ _ S[symmetric] refl _ F[symmetric] refl ok2 that] yes stops by simp
    have R: "script_scopes base st = ss @ script_scopes base st2" using E yes S F by simp
    show ?thesis
    proof (cases ss)
      case Nil
      then show ?thesis using R rest[OF below_ahead[OF below_ahead[OF drop(2) a1] a2]] by simp
    next
      case (Cons sc)
      then have sc: "sc \<in> set ss" by simp
      note f = script_function_scopes[OF ok1 b1 F sc]
      then obtain t where t: "scEnd sc = base + int (tokLine t)" "between (tokLine ?tok) t st2" by blast
      then have "scopes_ok (scEnd sc) (base + int (snd (stop st))) (script_scopes base st2)"
        using rest[of "tokLine t"] by (simp add: between_def)
      then show ?thesis using R f t tok stops by (simp add: between_def)
    qed
  qed
qed

lemma findScriptFuncScopes_ok:
  "scopes_ok base (base + int (count_list s newline)) (findScriptFuncScopes s base)"
proof -
  have ok: "stream_ok s (tokens_of s False)" by (rule tokens_of_ok)
  have "scopes_ok (base + int 0) (base + int (snd (stop (tokens_of s False)))) (findScriptFuncScopes s base)"
    unfolding findScriptFuncScopes_def by (rule script_scopes_ok[OF ok]) (simp add: below_def)
  moreover have "snd (stop (tokens_of s False)) \<le> count_list s newline"
    using ok by (auto simp: stream_ok_def intro: line_ok_total)
  ultimately show ?thesis by (auto intro: scopes_ok_upper)
qed

section \<open>Tags\<close>

lemma newlines_before_mono: "p \<le> q \<Longrightarrow> newlines_before s p \<le> newlines_before s q"
  by (metis newlines_before_def take_add le_add_diff_inverse count_list_append le_add1)

lemma newlines_before_total: "newlines_before s p \<le> count_list s newline"
  by (metis newlines_before_def append_take_drop_id count_list_append le_add1)

lemma tag_scopes_ok:
  "length s < 2 ^ 31 \<Longrightarrow>
   scopes_ok (base + int (newlines_before s pos)) (base + int (count_list s newline)) (tag_scopes s base (buildLineIdx s) n pos)"
proof -
  have "length s < 2 ^ 31 \<Longrightarrow> idx = buildLineIdx s \<Longrightarrow>
      scopes_ok (base + int (newlines_before s pos)) (base + int (count_list s newline)) (tag_scopes s base idx n pos)" for idx
  proof (induction s base idx n pos rule: tag_scopes.induct)
    case (1 s base idx n pos)
    note E = tag_scopes.simps[of s base idx n pos]
    have line: "lineAtOffset idx k = int (newlines_before s k)" for k
      using lineAtOffset_newlines[OF 1(3)] 1(4) by (simp add: newlines_before_def)
    show ?case
    proof (cases "indexCFTag (drop pos s) ''cffunction''")
      case None
      then show ?thesis using E by simp
    next
      case (Some i)
      define at where "at = i + pos"
      define m where "m = comment_depth s at n pos"
      note E1 = E[unfolded Some option.case Let_def at_def[symmetric] m_def[symmetric]]
      note IH = 1(1,2)[OF Some at_def m_def]
      have pos_at: "newlines_before s pos \<le> newlines_before s at" by (rule newlines_before_mono) (simp add: at_def)
      show ?thesis
      proof (cases "0 < m")
        case True
        show ?thesis
        proof (cases "index_of (drop at s) ''--->''")
          case None
          then show ?thesis using E1 True by simp
        next
          case (Some k)
          have "newlines_before s pos \<le> newlines_before s (at + k + 4)"
            by (rule newlines_before_mono) (simp add: at_def)
          then show ?thesis using E1 True Some IH(1)[OF True Some 1(3,4)] by (auto intro: scopes_ok_mono)
        qed
      next
        case False
        have total: "length idx = Suc (count_list s newline)"
          using 1(4) length_line_starts[of s 0] by (simp add: buildLineIdx_def)
        show ?thesis
        proof (cases "indexCFTag (drop (at + 11) s) ''/cffunction''")
          case None
          then show ?thesis using E1 False total pos_at newlines_before_total[of s at] by (simp add: line)
        next
          case (Some k)
          define closeEnd where "closeEnd = (case index_byte (drop (at + 11 + k) s) gt_char of
            None \<Rightarrow> at + 11 + k | Some gt \<Rightarrow> at + 11 + k + gt + 1)"
          have "at \<le> closeEnd" by (simp add: closeEnd_def split: option.splits)
          then have "newlines_before s at \<le> newlines_before s closeEnd" by (rule newlines_before_mono)
          then show ?thesis
            using E1 False Some IH(2)[OF False refl refl Some refl closeEnd_def 1(3,4)] pos_at
              newlines_before_total[of s closeEnd]
            by (simp add: line closeEnd_def[symmetric])
        qed
      qed
    qed
  qed
  then show "length s < 2 ^ 31 \<Longrightarrow> ?thesis" by blast
qed

text \<open>The scopes of one text, in script or in tags.\<close>

lemma text_scopes_ordered:
  assumes "length s < 2 ^ 31" "scopes = findScriptFuncScopes s base \<or> scopes = findTagFuncScopesIdx s base None"
  shows "scopes_ok base (base + int (count_list s newline)) scopes"
  using assms(2) findScriptFuncScopes_ok[of base s] tag_scopes_ok[OF assms(1), of base 0 0]
  by (auto simp: findTagFuncScopesIdx_def newlines_before_def)

section \<open>The regions of a file\<close>

lemma scopes_ok_append:
  "scopes_ok lo m xs \<Longrightarrow> scopes_ok m hi ys \<Longrightarrow> lo \<le> m \<Longrightarrow> m \<le> hi \<Longrightarrow> scopes_ok lo hi (xs @ ys)"
  by (induction xs arbitrary: lo) (auto intro: scopes_ok_mono)

text \<open>A region to skip in which no tag opens a function.\<close>

definition no_function_skipped :: "Region list \<Rightarrow> bool" where
  "no_function_skipped rs \<longleftrightarrow> list_all (\<lambda>r. indexCFTag (regText r) ''cffunction'' = None) (filter skipped rs)"

definition region_scopes :: "Region \<Rightarrow> FuncScope list" where
  "region_scopes r = (if regKind r = RegionScript then findScriptFuncScopes (regText r) (regLine r)
     else findTagFuncScopesIdx (regText r) (regLine r) None)"

lemma findFuncScopesIn_Cons: "findFuncScopesIn (r # rs) = region_scopes r @ findFuncScopesIn rs"
  by (simp add: findFuncScopesIn_def region_scopes_def)

lemma region_scopes_ok:
  assumes "length content < 2 ^ 31" "region_ok content r"
  shows "scopes_ok (int (newlines_before content (regOffset r))) (int (newlines_before content (region_stop r))) (region_scopes r)"
proof -
  have r: "region_stop r \<le> length content" "regText r = slice content (regOffset r) (region_stop r)"
    "regLine r = int (newlines_before content (regOffset r))"
    using assms(2) by (simp_all add: region_ok_def newlines_before_def)
  have le: "regOffset r \<le> region_stop r" by (simp add: region_stop_def)
  have "take (region_stop r) content = take (regOffset r) content @ regText r"
    unfolding r(2) slice_def using le by (metis append_take_drop_id drop_take min.absorb1 take_take)
  then have stop: "regLine r + int (count_list (regText r) newline) = int (newlines_before content (region_stop r))"
    by (simp add: r(3) newlines_before_def)
  have "length (regText r) < 2 ^ 31" using assms(1) r(1) by (simp add: region_stop_def)
  then have "scopes_ok (regLine r) (regLine r + int (count_list (regText r) newline)) (region_scopes r)"
    by (rule text_scopes_ordered) (simp add: region_scopes_def)
  then show ?thesis unfolding stop r(3)[symmetric] .
qed

lemma skipped_scopes: "skipped r \<Longrightarrow> indexCFTag (regText r) ''cffunction'' = None \<Longrightarrow> region_scopes r = []"
  by (simp add: skipped_def region_scopes_def findTagFuncScopesIdx_def tag_scopes.simps[of "regText r"])

lemma regions_scopes_ok:
  assumes "length content < 2 ^ 31"
  shows "list_all (region_ok content) rs \<Longrightarrow> no_function_skipped rs \<Longrightarrow> sorted_wrt follows (filter parsed rs) \<Longrightarrow>
    \<forall>r \<in> set (filter parsed rs). p \<le> regOffset r \<Longrightarrow>
    scopes_ok (int (newlines_before content p)) (int (count_list content newline)) (findFuncScopesIn rs)"
proof (induction rs arbitrary: p)
  case Nil
  then show ?case by (simp add: findFuncScopesIn_def)
next
  case (Cons r rs)
  have rest: "list_all (region_ok content) rs" "no_function_skipped rs" "sorted_wrt follows (filter parsed rs)"
    using Cons.prems(1-3) by (auto simp: no_function_skipped_def split: if_splits)
  note IH = Cons.IH[OF rest]
  show ?case
  proof (cases "parsed r")
    case True
    have le: "newlines_before content p \<le> newlines_before content (regOffset r)"
      "newlines_before content (regOffset r) \<le> newlines_before content (region_stop r)"
      using Cons.prems(4) True by (auto simp: region_stop_def intro!: newlines_before_mono)
    have "scopes_ok (int (newlines_before content (region_stop r))) (int (count_list content newline)) (findFuncScopesIn rs)"
      by (rule IH) (use Cons.prems(3) True in \<open>auto simp: follows_def\<close>)
    moreover have "scopes_ok (int (newlines_before content p)) (int (newlines_before content (region_stop r))) (region_scopes r)"
      by (rule scopes_ok_mono[OF region_scopes_ok[OF assms]]) (use Cons.prems(1) le(1) in simp_all)
    ultimately show ?thesis unfolding findFuncScopesIn_Cons
      using le newlines_before_total[of content "region_stop r"] by (auto intro: scopes_ok_append)
  next
    case False
    then have "skipped r" by (simp add: parsed_def skipped_def)
    then have "region_scopes r = []" using Cons.prems(2) skipped_scopes by (simp add: no_function_skipped_def)
    then show ?thesis unfolding findFuncScopesIn_Cons using IH[of p] Cons.prems(4) by simp
  qed
qed

lemma ClassifyRegions_ordered:
  assumes "length content < 2 ^ 31"
  shows "list_all (region_ok content) (ClassifyRegions content)"
    "sorted_wrt follows (filter parsed (ClassifyRegions content))"
proof -
  have split: "list_all (region_ok content) (fst (splitCFScriptBlocks content))"
    using splitCFScriptBlocks_region_ok[OF assms] by (simp add: list_all_iff)
  have order: "sorted_wrt follows (filter parsed (fst (splitCFScriptBlocks content)))"
    using blocks_parsed_order[OF split_blocks_blocks[of content _ _ 0] findScriptSkipSpans_good]
    by (simp add: splitCFScriptBlocks_def Let_def)
  show "list_all (region_ok content) (ClassifyRegions content)"
    using split by (simp add: ClassifyRegions_def ClassifyRegionsIdx_def case_prod_unfold Let_def region_ok_def region_stop_def)
  show "sorted_wrt follows (filter parsed (ClassifyRegions content))"
    using order by (simp add: ClassifyRegions_def ClassifyRegionsIdx_def case_prod_unfold Let_def parsed_def)
qed

text \<open>
  C22: The functions of a file, found in its script and tag regions (\<open>FindFuncScopes\<close>), come in order: each
  begins at or after the line the one before it ends on and ends at or after its own first line, within
  the lines of the file; so a line strictly inside one is in no other, and the search for the function
  around the line gives that one. It holds of a file of less than 2 GiB in which no region to skip holds
  a \<open><cffunction\<close>: such a region may lie over a script region (\<open>splitCFScriptBlocks_overlap\<close>), and the
  search does look for tags in it (\<open>skipped_function_out_of_order\<close>). It is not about the scopes a parse
  merges with those of the whole text's tags, which may nest.\<close>

theorem func_scopes_ordered:
  assumes "length content < 2 ^ 31" "no_function_skipped (ClassifyRegions content)"
  shows "scopes_ok 0 (int (count_list content newline)) (FindFuncScopes content) \<and>
    (\<forall>sc \<in> set (FindFuncScopes content). \<forall>line. scStart sc < line \<and> line < scEnd sc \<longrightarrow>
       findFuncScope line (FindFuncScopes content) = sc)"
proof -
  have ok: "scopes_ok 0 (int (count_list content newline)) (FindFuncScopes content)"
    using regions_scopes_ok[OF assms(1) ClassifyRegions_ordered(1)[OF assms(1)] assms(2)
        ClassifyRegions_ordered(2)[OF assms(1)], of 0]
    by (simp add: FindFuncScopes_def newlines_before_def)
  then show ?thesis using scopes_ok_find by blast
qed

definition mixed_page :: string where
  "mixed_page = ''<cffunction name=a>'' @ [newline, newline] @ ''</cffunction>'' @ [newline] @
     ''<cfscript>function b() {}</cfscript>''"

lemma func_scopes_ordered_witness:
  "map regKind (ClassifyRegions mixed_page) = [RegionTag, RegionScript] \<and>
   map (\<lambda>sc. (scName sc, scStart sc, scEnd sc)) (FindFuncScopes mixed_page) = [(''a'', 0, 2), (''b'', 3, 3)] \<and>
   scopes_ok 0 3 (FindFuncScopes mixed_page) \<and> scName (findFuncScope 1 (FindFuncScopes mixed_page)) = ''a''"
proof -
  have regions: "ClassifyRegions mixed_page =
    [\<lparr>regKind = RegionTag, regLine = 0,
       regText = ''<cffunction name=a>'' @ [newline, newline] @ ''</cffunction>'' @ [newline], regOffset = 0\<rparr>,
     \<lparr>regKind = RegionScript, regLine = 3, regText = ''function b() {}'', regOffset = 45\<rparr>]"
    by code_simp
  have tags: "findTagFuncScopesIdx (''<cffunction name=a>'' @ [newline, newline] @ ''</cffunction>'' @ [newline]) 0 None =
      [\<lparr>scName = ''a'', scAccess = [], scReturnType = [], scStart = 0, scEnd = 2\<rparr>]" by code_simp
  have script: "findScriptFuncScopes ''function b() {}'' 3 =
      [\<lparr>scName = ''b'', scAccess = [], scReturnType = [], scStart = 3, scEnd = 3\<rparr>]" by code_simp
  have scopes: "FindFuncScopes mixed_page =
    [\<lparr>scName = ''a'', scAccess = [], scReturnType = [], scStart = 0, scEnd = 2\<rparr>,
     \<lparr>scName = ''b'', scAccess = [], scReturnType = [], scStart = 3, scEnd = 3\<rparr>]"
    unfolding FindFuncScopes_def regions findFuncScopesIn_Cons region_scopes_def
    by (simp add: findFuncScopesIn_def tags[simplified] script[simplified])
  have "length mixed_page < 2 ^ 31" by code_simp
  moreover have "no_function_skipped (ClassifyRegions mixed_page)"
    unfolding regions no_function_skipped_def by (simp add: skipped_def)
  ultimately have ordered: "scopes_ok 0 (int (count_list mixed_page newline)) (FindFuncScopes mixed_page)"
    "\<forall>sc \<in> set (FindFuncScopes mixed_page). \<forall>line. scStart sc < line \<and> line < scEnd sc \<longrightarrow>
       findFuncScope line (FindFuncScopes mixed_page) = sc"
    using func_scopes_ordered[of mixed_page] by blast+
  have "int (count_list mixed_page newline) = 3" by code_simp
  then have "scopes_ok 0 3 (FindFuncScopes mixed_page)" using ordered(1) by simp
  moreover have "scName (findFuncScope 1 (FindFuncScopes mixed_page)) = ''a''" using ordered(2) by (simp add: scopes)
  ultimately show ?thesis unfolding regions by (simp add: scopes)
qed

text \<open>
  A \<open><script>\<close> in a string of a \<open><cfscript>\<close> block, with \<open><cffunction\<close> in an attribute: the function
  found in the region to skip comes after, and begins before, one of the script region it lies over.\<close>

definition skipped_function_page :: string where
  "skipped_function_page = ''<b><cfscript>'' @ [dquote] @ ''<script a=<cffunction>'' @ [dquote, newline] @
     ''function f();</cfscript>x''"

lemma skipped_function_out_of_order:
  "map (\<lambda>sc. (scName sc, scStart sc)) (FindFuncScopes skipped_function_page) = [(''f'', 1), ([], 0)]"
  by code_simp

text \<open>The search for \<open></cffunction>\<close> does not step over comments, so one in a comment ends the function.\<close>

lemma tag_scope_ends_in_comment:
  "map (\<lambda>sc. (scStart sc, scEnd sc)) (findTagFuncScopesIdx
     (''<cffunction name=a><!--- </cffunction> --->'' @ [newline] @ ''</cffunction>'') 0 None) = [(0, 0)]"
  by code_simp

section \<open>Sorting\<close>

lemma sink_props:
  "sorted (map scStart (rev ps)) \<Longrightarrow>
   sorted (map scStart (rev (sink sc ps))) \<and> mset (sink sc ps) = add_mset sc (mset ps) \<and>
   (\<forall>k. filter (\<lambda>x. scStart x = k) (rev (sink sc ps)) = filter (\<lambda>x. scStart x = k) (rev ps) @ filter (\<lambda>x. scStart x = k) [sc])"
proof (induction ps)
  case (Cons p ps)
  then have IH: "sorted (map scStart (rev (sink sc ps)))" "mset (sink sc ps) = add_mset sc (mset ps)"
    "\<forall>k. filter (\<lambda>x. scStart x = k) (rev (sink sc ps)) = filter (\<lambda>x. scStart x = k) (rev ps) @ filter (\<lambda>x. scStart x = k) [sc]"
    by (simp_all add: sorted_append)
  have "set (sink sc ps) = insert sc (set ps)" using arg_cong[OF IH(2), of set_mset] by simp
  then show ?case using IH Cons.prems by (auto simp: sorted_append)
qed simp

lemma sortScopes_sort: "sortScopes scopes = sort_key scStart scopes"
proof -
  define D where "D = (\<lambda>xs. foldl (\<lambda>d sc. sink sc d) [] xs)"
  have "sorted (map scStart (rev (D xs))) \<and> mset (D xs) = mset xs \<and>
      (\<forall>k. filter (\<lambda>x. scStart x = k) (rev (D xs)) = filter (\<lambda>x. scStart x = k) xs)" for xs
  proof (induction xs rule: rev_induct)
    case (snoc x xs)
    then show ?case using sink_props[of "D xs" x] by (simp add: D_def)
  qed (simp add: D_def)
  then have "sort_key scStart scopes = rev (D scopes)"
    by (intro properties_for_sort_key) (simp_all add: eq_commute)
  then show ?thesis by (simp add: sortScopes_def D_def)
qed

end
