(* ===== verification/Structure_Props.thy ===== *)
theory Structure_Props
  imports Script_Structure
begin

text \<open>
  What folding a document promises: every span covers more than one line of it, in script, in markup
  and in a file that mixes the two.
\<close>

section \<open>The bracket scan\<close>

definition wf_span :: "int \<Rightarrow> Span \<Rightarrow> bool" where
  "wf_span n s \<longleftrightarrow> 0 \<le> Start s \<and> Start s < Stop s \<and> Stop s \<le> n"

lemma wf_span_span: "0 \<le> a \<Longrightarrow> b \<le> n \<Longrightarrow> list_all (wf_span n) (span k a b)"
  by (simp add: span_def wf_span_def)

lemma wf_span_spans: "list_all ((\<le>) 0) as \<Longrightarrow> b \<le> n \<Longrightarrow> list_all (wf_span n) (concat (map (\<lambda>a. span k a b) as))"
  by (induction as) (simp_all add: wf_span_span)

definition chain_ok :: "int \<Rightarrow> structChain \<Rightarrow> bool" where
  "chain_ok n c \<longleftrightarrow> 0 \<le> chStart c \<and> chEnd c \<le> n \<and> list_all ((\<le>) 0) (elses c)"

definition bracket_ok :: "int \<Rightarrow> structFrame \<Rightarrow> bool" where
  "bracket_ok n f \<longleftrightarrow> chain_ok n (chain f) \<and> 0 \<le> frStart f \<and> 0 \<le> frLine f \<and> 0 \<le> outerStart f"

text \<open>Every line the scan has noted is a line of the document.\<close>

definition scan_ok :: "int \<Rightarrow> structScan \<Rightarrow> bool" where
  "scan_ok n st \<longleftrightarrow> 0 \<le> n \<and> list_all (wf_span n) (st_spans st) \<and> list_all (bracket_ok n) (stack st) \<and>
     chain_ok n (pending st) \<and> chain_ok n (carry st) \<and> 0 \<le> stmtStart st \<and> lastLine st \<le> n \<and>
     0 \<le> tentLine st \<and> tentPrevLine st \<le> n"

lemma no_chain_ok [simp]: "0 \<le> n \<Longrightarrow> chain_ok n no_chain"
  by (simp add: chain_ok_def no_chain_def)

lemma scan_ok_flags [simp]:
  "scan_ok n (st\<lparr>atStart := b\<rparr>) = scan_ok n st" "scan_ok n (st\<lparr>attrs := b\<rparr>) = scan_ok n st"
  "scan_ok n (st\<lparr>tentative := b\<rparr>) = scan_ok n st" "scan_ok n (st\<lparr>caseColon := b\<rparr>) = scan_ok n st"
  "scan_ok n (st\<lparr>stmtTokens := k\<rparr>) = scan_ok n st" "scan_ok n (st\<lparr>stmtFirst := w\<rparr>) = scan_ok n st"
  "scan_ok n (st\<lparr>prevKind := p\<rparr>) = scan_ok n st" "scan_ok n (st\<lparr>prevClass := w\<rparr>) = scan_ok n st"
  "scan_ok n (st\<lparr>tentClass := w\<rparr>) = scan_ok n st"
  by (simp_all add: scan_ok_def)

lemma scan_ok_lines [simp]:
  "scan_ok n st \<Longrightarrow> 0 \<le> a \<Longrightarrow> scan_ok n (st\<lparr>stmtStart := a\<rparr>)"
  "scan_ok n st \<Longrightarrow> a \<le> n \<Longrightarrow> scan_ok n (st\<lparr>lastLine := a\<rparr>)"
  "scan_ok n st \<Longrightarrow> 0 \<le> a \<Longrightarrow> scan_ok n (st\<lparr>tentLine := a\<rparr>)"
  "scan_ok n st \<Longrightarrow> a \<le> n \<Longrightarrow> scan_ok n (st\<lparr>tentPrevLine := a\<rparr>)"
  "scan_ok n st \<Longrightarrow> chain_ok n c \<Longrightarrow> scan_ok n (st\<lparr>pending := c\<rparr>)"
  "scan_ok n st \<Longrightarrow> chain_ok n c \<Longrightarrow> scan_ok n (st\<lparr>carry := c\<rparr>)"
  "scan_ok n st \<Longrightarrow> list_all (bracket_ok n) fs \<Longrightarrow> scan_ok n (st\<lparr>stack := fs\<rparr>)"
  by (simp_all add: scan_ok_def)

lemma scan_ok_emit: "scan_ok n st \<Longrightarrow> list_all (wf_span n) ss \<Longrightarrow> scan_ok n (emit ss st)"
  by (simp add: scan_ok_def emit_def)

lemma scan_okD:
  assumes "scan_ok n st"
  shows "0 \<le> n" "list_all (bracket_ok n) (stack st)" "chain_ok n (pending st)" "chain_ok n (carry st)"
    "0 \<le> stmtStart st" "lastLine st \<le> n" "0 \<le> tentLine st" "tentPrevLine st \<le> n"
  using assms by (simp_all add: scan_ok_def)

lemma endAttrStatement_ok: "scan_ok n st \<Longrightarrow> final \<le> n \<Longrightarrow> scan_ok n (endAttrStatement final st)"
  by (simp add: endAttrStatement_def scan_ok_emit wf_span_span scan_okD(5))

lemma flushChain_ok:
  assumes "scan_ok n st"
  shows "scan_ok n (flushChain st)"
proof -
  note c = scan_okD(3)[OF assms, unfolded chain_ok_def]
  have "scan_ok n (emit (if 1 < chBlocks (pending st) \<and> chStart (pending st) < chEnd (pending st) then
      span SpanBlock (chStart (pending st)) (chEnd (pending st)) @
      concat (map (\<lambda>e. span SpanBlock e (chEnd (pending st))) (elses (pending st))) else []) st)"
    by (rule scan_ok_emit[OF assms]) (use c in \<open>simp add: wf_span_span wf_span_spans\<close>)
  then show ?thesis unfolding flushChain_def Let_def by (rule scan_ok_lines(5)) (simp add: scan_okD(1)[OF assms])
qed

lemma settleTentative_ok:
  assumes "scan_ok n st"
  shows "scan_ok n (settleTentative kind line st)"
  using endAttrStatement_ok[of n "st\<lparr>tentative := False\<rparr>" "tentPrevLine st"] scan_okD(7,8)[OF assms] assms
  by (simp add: settleTentative_def Let_def)

lemma before_token_ok:
  assumes "scan_ok n st" "0 \<le> line"
  shows "scan_ok n (before_token kind class line st)"
proof -
  have chain: "scan_ok n (before_chain class st)"
    using assms scan_okD(1,3)[OF assms(1)] by (simp add: before_chain_def flushChain_ok)
  define b where "b = before_tentative kind line (before_chain class st)"
  have b: "scan_ok n b" using chain by (simp add: b_def before_tentative_def settleTentative_ok)
  have "scan_ok n (fst (endsStatementByNewline kind class line b))"
    using b scan_okD(6)[OF b] assms(2) by (simp add: endsStatementByNewline_def)
  then show ?thesis unfolding before_token_def before_newline_def b_def[symmetric]
    using b by (simp add: case_prod_unfold)
qed

lemma begin_token_ok: "scan_ok n st \<Longrightarrow> 0 \<le> line \<Longrightarrow> scan_ok n (begin_token kind class line st)"
  by (simp add: begin_token_def Let_def)

lemma push_ok:
  assumes "scan_ok n st" "0 \<le> line"
  shows "scan_ok n (push opening line st)"
proof -
  note d = scan_okD[OF assms(1)]
  have c: "chain_ok n (carry st\<lparr>elses := elses (carry st) @ [stmtStart st]\<rparr>)"
    using d(4,5) by (simp add: chain_ok_def)
  show ?thesis using assms d c
    by (simp add: push_def Let_def bracket_ok_def)
qed

lemma case_span_ok: "scan_ok n st \<Longrightarrow> list_all (wf_span n) (case_span f st)"
  by (simp add: case_span_def wf_span_span scan_okD(6))

lemma pop_ok:
  assumes "scan_ok n st" "0 \<le> line" "line \<le> n"
  shows "scan_ok n (pop closing line st)"
proof (cases "dropWhile (\<lambda>f. open_kind f \<noteq> opener closing) (stack st)")
  case Nil
  show ?thesis using assms(1) unfolding pop_def Nil by simp
next
  case (Cons f below)
  have "set (f # below) \<subseteq> set (stack st)" using Cons set_dropWhileD by (metis subsetI)
  then have f: "bracket_ok n f" and below: "list_all (bracket_ok n) below"
    using scan_okD(2)[OF assms(1)] by (auto simp: list_all_iff)
  define folds where "folds = (let kind = (if opener closing = TokLBrace then SpanBlock else SpanList)
    in if fold_it f \<and> frStart f < line then
      span kind (frStart f) line @ (if frStart f < frLine f then span kind (frLine f) line else []) else [])"
  have folds: "list_all (wf_span n) folds" using f assms(3) by (simp add: folds_def Let_def bracket_ok_def wf_span_span)
  define st' where "st' = emit ((if switchBody f then case_span f st else []) @ folds) (st\<lparr>stack := below\<rparr>)"
  have st': "scan_ok n st'" unfolding st'_def
    by (rule scan_ok_emit) (use assms(1) below folds case_span_ok[OF assms(1), of f] in simp_all)
  have "pop closing line st =
      (if opener closing = TokLBrace then
         st'\<lparr>atStart := True,
           pending := (if 0 < chBlocks (chain f)
             then \<lparr>elses = elses (chain f), chStart = chStart (chain f), chEnd = line,
                    chBlocks = chBlocks (chain f) + 1, chDepth = length below\<rparr>
             else \<lparr>elses = [], chStart = frStart f, chEnd = line, chBlocks = 1, chDepth = length below\<rparr>)\<rparr>
       else st'\<lparr>stmtStart := outerStart f, stmtFirst := outerFirst f, atStart := False,
              stmtTokens := outerTokens f, attrs := outerAttrs f\<rparr>)"
    unfolding pop_def Cons st'_def folds_def Let_def by (simp add: emit_def)
  then show ?thesis using st' f assms(3) by (simp add: bracket_ok_def chain_ok_def)
qed

lemma caseLabel_ok:
  assumes "scan_ok n st"
  shows "scan_ok n (caseLabel line st)"
proof (cases "stack st")
  case (Cons f below)
  then have "list_all (bracket_ok n) (f\<lparr>caseStart := line\<rparr> # below)"
    using scan_okD(2)[OF assms] by (simp add: bracket_ok_def)
  then show ?thesis using Cons assms scan_ok_emit[OF assms case_span_ok[OF assms], of f]
    by (simp add: caseLabel_def)
qed (use assms in \<open>simp add: caseLabel_def\<close>)

lemma struct_token_ok:
  assumes "scan_ok n st" "0 \<le> line" "line \<le> n"
  shows "scan_ok n (struct_token tok line st)"
proof -
  have "scan_ok n (act_token kind w line s)" if "scan_ok n s" for kind w s
    using that assms(2,3) by (simp add: act_token_def push_ok pop_ok endAttrStatement_ok caseLabel_ok)
  then show ?thesis using assms by (simp add: struct_token_def token_as_def before_token_ok begin_token_ok)
qed

section \<open>The loop over the tokens\<close>

lemma newlines_slice:
  assumes "line_ok s p l" "line_ok s q m" "p \<le> q"
  shows "int l + int (count_list (slice s p q) newline) = int m"
proof -
  have "take q s = take p s @ slice s p q"
    using slice_append[of 0 p q s] assms(3) by (simp add: slice_def)
  then show ?thesis using assms(1,2) by (simp add: line_ok_def newlines_before_def)
qed

lemma scan_at_comment:
  assumes "tokKind (fst (scan_at s interp p l)) = TokBlockComment \<or> tokKind (fst (scan_at s interp p l)) = TokCFComment"
  shows "\<exists>r kind. scan_at s interp p l = token_at s kind p l r"
proof -
  have kinds: "charToKind c \<noteq> TokBlockComment \<and> charToKind c \<noteq> TokCFComment" for c
  proof -
    have "list_all (\<lambda>x. snd x \<noteq> TokBlockComment \<and> snd x \<noteq> TokCFComment) punctuation"
      by (simp add: punctuation_def)
    then show ?thesis
      by (auto simp: charToKind_def list_all_iff split: option.splits dest!: map_of_SomeD)
  qed
  define Q where "Q = (\<lambda>x. tokKind (fst x) = TokBlockComment \<or> tokKind (fst x) = TokCFComment \<longrightarrow>
    (\<exists>r kind. x = token_at s kind p l r))"
  have at: "Q (token_at s kind p l r)" for kind r unfolding Q_def by blast
  have fixed: "Q (\<lparr>tokKind = kind, tokValue = v, tokOffset = p, tokLine = l\<rparr>, q)"
    if "kind \<noteq> TokBlockComment" "kind \<noteq> TokCFComment" for kind v q using that by (simp add: Q_def)
  have "Q (scan_at s interp p l)"
    unfolding scan_at_def Let_def by (intro token_ok_if[where P = Q] at fixed) (simp_all add: kinds)
  then show ?thesis using assms unfolding Q_def by blast
qed

lemma struct_step_ok:
  assumes "line_ok s pos line" "scan_next s interp pos line = (tok, p, l)"
    "scan_ok n st" "0 \<le> base" "base + int (count_list s newline) \<le> n"
  shows "scan_ok n (struct_step base tok st)"
proof -
  have ok: "token_ok s (tok, p, l)" using scan_next_line[OF assms(1), of interp] assms(2) by simp
  then have t: "line_ok s (tokOffset tok) (tokLine tok)" and e: "line_ok s p l" by (simp_all add: token_ok_def)
  have line: "0 \<le> base + int (tokLine tok)" "base + int (tokLine tok) \<le> n"
    using line_ok_total[OF t] assms(4,5) by linarith+
  have comment: "base + int (tokLine tok) + int (count_list (tokValue tok) newline) \<le> n"
    if c: "tokKind tok = TokBlockComment \<or> tokKind tok = TokCFComment"
  proof -
    have at: "scan_next s interp pos line = scan_at s interp (skip_blanks s pos) line" "skip_blanks s pos < length s"
      using c assms(2) by (auto simp: scan_next_def Let_def split: if_splits)
    have N: "scan_at s interp (skip_blanks s pos) line = (tok, p, l)" using at(1) assms(2) by simp
    then obtain r kind where "(tok, p, l) = token_at s kind (skip_blanks s pos) line r"
      using scan_at_comment[of s interp "skip_blanks s pos" line] c by (metis fst_conv)
    then have v: "tokValue tok = slice s (tokOffset tok) p" "tokOffset tok = skip_blanks s pos"
      by (auto simp: token_at_def)
    have "tokOffset tok \<le> p" using scan_at_gt[OF at(2), of interp line] unfolding N v(2) by simp
    from newlines_slice[OF t e this] show ?thesis
      using line_ok_total[OF e] assms(5) v(1) by simp
  qed
  have token: "scan_ok n (struct_token tok (base + int (tokLine tok)) st)"
    using struct_token_ok[OF assms(3) line] .
  have emit: "scan_ok n (emit (span SpanComment (base + int (tokLine tok))
      (base + int (tokLine tok) + int (count_list (tokValue tok) newline))) st)"
    if c: "tokKind tok = TokBlockComment \<or> tokKind tok = TokCFComment"
    by (rule scan_ok_emit[OF assms(3) wf_span_span[OF line(1) comment[OF c]]])
  show ?thesis using assms(3) token emit unfolding struct_step_def step_at_def by presburger
qed

lemma struct_loop_ok:
  "line_ok s pos line \<Longrightarrow> scan_ok n st \<Longrightarrow> 0 \<le> base \<Longrightarrow> base + int (count_list s newline) \<le> n \<Longrightarrow>
   scan_ok n (struct_loop s base pos line st)"
proof (induction s base pos line st rule: struct_loop.induct)
  case (1 s base pos line st)
  obtain tok p l where N: "scan_next s True pos line = (tok, p, l)" by (metis prod_cases3)
  have "token_ok s (tok, p, l)" using scan_next_line[OF 1(2), of True] N by simp
  then have p: "line_ok s p l" by (simp add: token_ok_def)
  note E = struct_loop.simps[of s base pos line st, unfolded N Let_def prod.case]
  show ?case
  proof (cases "tokKind tok = TokEOF")
    case True
    show ?thesis unfolding E if_P[OF True] by (rule flushChain_ok[OF 1(3)])
  next
    case False
    show ?thesis unfolding E if_not_P[OF False]
      by (rule 1(1)[OF N[symmetric] refl refl False p struct_step_ok[OF 1(2) N 1(3-5)] 1(4,5)])
  qed
qed

lemma scriptStructure_ok:
  assumes "list_all (wf_span n) spans" "0 \<le> base" "base + int (count_list s newline) \<le> n"
  shows "list_all (wf_span n) (scriptStructure s base spans)"
proof -
  have n: "0 \<le> n" using assms(2,3) by linarith
  then have "scan_ok n (struct_start spans)" using assms(1) by (simp add: scan_ok_def struct_start_def)
  from struct_loop_ok[OF NewScanner_line this assms(2,3)] show ?thesis
    by (simp add: scriptStructure_def scan_ok_def)
qed

section \<open>The document\<close>

lemma region_steps_ok:
  assumes "list_all (region_ok content) rs" "list_all (wf_span (int (count_list content newline))) (fst acc)"
  shows "list_all (wf_span (int (count_list content newline))) (fst (foldl region_step acc rs))"
  using assms
proof (induction rs arbitrary: acc)
  case (Cons r rs)
  have "list_all (wf_span (int (count_list content newline))) (fst (region_step acc r))"
  proof (cases "regKind r = RegionScript")
    case True
    let ?a = "regOffset r" and ?b = "region_stop r"
    have r: "?b \<le> length content" "regText r = slice content ?a ?b" "regLine r = int (newlines_before content ?a)"
      using Cons.prems(1) by (simp_all add: region_ok_def newlines_before_def)
    have ab: "?a \<le> ?b" by (simp add: region_stop_def)
    then have l: "line_ok content ?a (newlines_before content ?a)" "line_ok content ?b (newlines_before content ?b)"
      using r(1) by (simp_all add: line_ok_def)
    from newlines_slice[OF l ab] line_ok_total[OF l(2)]
    have "regLine r + int (count_list (regText r) newline) \<le> int (count_list content newline)"
      unfolding r(3) using arg_cong[OF r(2), of "\<lambda>t. count_list t newline"] by linarith
    moreover have "0 \<le> regLine r" by (simp add: r(3))
    ultimately show ?thesis using scriptStructure_ok[OF Cons.prems(2)] True
      by (simp only: region_step_def simp_thms if_True fst_conv)
  qed (use Cons.prems in \<open>simp add: region_step_def\<close>)
  then show ?case using Cons by simp
qed simp

lemma span_ok_wf: "span_ok n s \<Longrightarrow> wf_span n s"
  by (simp add: span_ok_def wf_span_def)

lemma ClassifyRegionsIdx_ok:
  assumes "length content < 2 ^ 31"
  shows "list_all (region_ok content) (fst (ClassifyRegionsIdx content))"
    "snd (ClassifyRegionsIdx content) = None \<or> snd (ClassifyRegionsIdx content) = Some (buildLineIdx content)"
  using splitCFScriptBlocks_region_ok[OF assms]
  by (auto simp: ClassifyRegionsIdx_def list_all_iff region_ok_def region_stop_def case_prod_unfold
      splitCFScriptBlocks_def Let_def)

text \<open>
  The spans of a document begin before they end and lie within its lines, in script, in markup and in a
  file that mixes the two; and the one way the search can panic is a document that ends in
  \<open><\<close> or \<open></\<close> and a tag's name.\<close>

lemma StructureSpans_lines:
  assumes "length content < 2 ^ 31"
  shows "case StructureSpans content of
     None \<Rightarrow> ends_in_tag_name content
   | Some ss \<Rightarrow> list_all (wf_span (int (count_list content newline))) ss"
proof -
  let ?n = "int (count_list content newline)"
  obtain rs idx where C: "ClassifyRegionsIdx content = (rs, idx)" by (cases "ClassifyRegionsIdx content")
  note ok = ClassifyRegionsIdx_ok[OF assms, unfolded C fst_conv snd_conv]
  have lines: "(case idx of None \<Rightarrow> buildLineIdx content | Some i \<Rightarrow> i) = buildLineIdx content"
    using ok(2) by auto
  obtain spans script where F: "foldl region_step ([], []) rs = (spans, script)"
    by (cases "foldl region_step ([], []) rs")
  have spans: "list_all (wf_span ?n) spans"
    using region_steps_ok[OF ok(1), of "([], [])"] by (simp add: F)
  have walk: "case tagStructure content script' (buildLineIdx content) ss' of
     None \<Rightarrow> ends_in_tag_name content | Some ss \<Rightarrow> list_all (wf_span ?n) ss"
    if "list_all (wf_span ?n) ss'" for script' ss'
    by (rule tagStructure_ok[OF that span_ok_wf])
  show ?thesis
    unfolding StructureSpans_def C Let_def prod.case lines F
    using spans walk[OF spans] walk[of "[]"] by simp
qed

end
