(* ===== verification/Folding.thy ===== *)
theory Folding
  imports Func_Scopes_Props Structure_Props Conv
begin

text \<open>
  The answer to a folding request (\<open>foldingRanges\<close> of \<open>internal/server/folding.go\<close>): the functions of the parse
  and the spans of the document, as folds that leave the closing line visible, sorted, each line range
  once. A fold's kind is the empty string but for comments. Lines become 32-bit words by clamping; they
  are 64-bit before.
\<close>

record FoldingRange =
  StartLine :: "32 word"
  EndLine :: "32 word"
  FoldKind :: string





text \<open>The order of the sort: by first line, and the longer fold first.\<close>

datatype fold_key = Fold_Key (key_start: "32 word") (key_end: "32 word")

instantiation fold_key :: linorder
begin

definition less_eq_fold_key :: "fold_key \<Rightarrow> fold_key \<Rightarrow> bool" where
  "less_eq_fold_key a b \<longleftrightarrow> key_start a < key_start b \<or> key_start a = key_start b \<and> key_end b \<le> key_end a"

definition less_fold_key :: "fold_key \<Rightarrow> fold_key \<Rightarrow> bool" where
  "less_fold_key a b \<longleftrightarrow> key_start a < key_start b \<or> key_start a = key_start b \<and> key_end b < key_end a"

instance
  by standard (auto simp: less_eq_fold_key_def less_fold_key_def intro: fold_key.expand)

end

definition fold_key :: "FoldingRange \<Rightarrow> fold_key" where
  "fold_key f = Fold_Key (StartLine f) (EndLine f)"



section \<open>Properties\<close>














end
