(* ===== verification/Flow_Blocks.thy ===== *)
theory Flow_Blocks
  imports Ast
begin

text \<open>
  The blocks of a function (\<open>internal/parser/flow.go\<close>): which block each assignment was made in, which blocks
  were open at each return, and from the two the assignments a returned variable may hold. A block is
  named by the 32-bit file offset past its opener. A \<open>flowBlocks\<close> is one parser's stack; the \<open>flowRecord\<close>
  it points to is shared by the parsers of a file's regions, so the operations that write it take it
  and return it apart. The stack keeps the order of the slice, the innermost block last.
\<close>

section \<open>The stack of open blocks\<close>

record flowBlocks =
  fbBase :: nat
  fbShift :: "32 word"
  fbStack :: "32 word list"
  fbKinds :: "string list"
  fbEnds :: "nat list"

record refNote =
  noteName :: string
  noteLine :: "32 word"
  noteBlock :: "32 word"

record returnNote =
  retLine :: "32 word"
  retFrom :: nat
  retTo :: nat

record flowRecord =
  fr_notes :: "refNote list"
  in_order :: bool
  returns :: "returnNote list"
  open_blocks :: "32 word list"

definition kindBraceless :: string where "kindBraceless = ''{;''"

definition blockUnknown :: "32 word" where "blockUnknown = - 1"

definition newFlowBlocks :: "nat \<Rightarrow> flowBlocks \<times> flowRecord" where
  "newFlowBlocks base =
     (\<lparr>fbBase = base, fbShift = 0, fbStack = [], fbKinds = [], fbEnds = []\<rparr>,
      \<lparr>fr_notes = [], in_order = True, returns = [], open_blocks = []\<rparr>)"

definition region :: "nat \<Rightarrow> 32 word \<Rightarrow> flowBlocks" where
  "region base shift = \<lparr>fbBase = base, fbShift = shift, fbStack = [], fbKinds = [], fbEnds = []\<rparr>"

definition block_at :: "flowBlocks \<Rightarrow> nat \<Rightarrow> 32 word" where
  "block_at fb offset = of_nat (fbBase fb + offset + 1)"

definition open_block :: "nat \<Rightarrow> string \<Rightarrow> flowBlocks \<Rightarrow> flowBlocks" where
  "open_block offset kind fb = fb\<lparr>fbStack := fbStack fb @ [block_at fb offset], fbKinds := fbKinds fb @ [kind]\<rparr>"

text \<open>\<open>close_index\<close> is the index \<open>close\<close> cuts the stack at, going down from \<open>i\<close> entries.\<close>

primrec close_index :: "string list \<Rightarrow> string \<Rightarrow> nat \<Rightarrow> nat option" where
  "close_index kinds kind 0 = None"
| "close_index kinds kind (Suc i) =
     (if kind \<noteq> [] \<and> kinds ! i \<noteq> kind then close_index kinds kind i else Some i)"

definition close_block :: "string \<Rightarrow> flowBlocks \<Rightarrow> flowBlocks" where
  "close_block kind fb =
     (case close_index (fbKinds fb) kind (length (fbStack fb)) of
        None \<Rightarrow> fb | Some i \<Rightarrow> fb\<lparr>fbStack := take i (fbStack fb), fbKinds := take i (fbKinds fb)\<rparr>)"

definition openBraceless :: "nat \<Rightarrow> nat \<Rightarrow> flowBlocks \<Rightarrow> flowBlocks" where
  "openBraceless offset stop fb = (open_block offset kindBraceless fb)\<lparr>fbEnds := fbEnds fb @ [stop]\<rparr>"

text \<open>One turn of the loops below, \<open>None\<close> where \<open>stack[:len(stack)-1]\<close> panics.\<close>

definition drop_end :: "flowBlocks \<Rightarrow> flowBlocks option" where
  "drop_end fb =
     (if fbStack fb = [] \<or> fbKinds fb = [] then None
      else Some (fb\<lparr>fbEnds := butlast (fbEnds fb), fbStack := butlast (fbStack fb), fbKinds := butlast (fbKinds fb)\<rparr>))"

primrec drop_ends :: "nat \<Rightarrow> flowBlocks \<Rightarrow> flowBlocks option" where
  "drop_ends 0 fb = Some fb"
| "drop_ends (Suc n) fb = Option.bind (drop_end fb) (drop_ends n)"

definition closeEnded :: "nat \<Rightarrow> flowBlocks \<Rightarrow> flowBlocks option" where
  "closeEnded offset fb = drop_ends (length (takeWhile (\<lambda>e. e \<le> offset) (rev (fbEnds fb)))) fb"

definition dropBraceless :: "flowBlocks \<Rightarrow> flowBlocks option" where
  "dropBraceless fb = drop_ends (length (fbEnds fb)) fb"

definition innermost :: "flowBlocks \<Rightarrow> 32 word" where
  "innermost fb = (if fbStack fb = [] then 0 else last (fbStack fb))"

section \<open>The record\<close>

definition note_ref :: "flowBlocks \<Rightarrow> string \<Rightarrow> 32 word \<Rightarrow> 32 word \<Rightarrow> flowRecord \<Rightarrow> flowRecord" where
  "note_ref fb name line block r =
     (let line = line + fbShift fb
      in r\<lparr>in_order := (in_order r \<and> (fr_notes r = [] \<or> noteLine (last (fr_notes r)) \<le> line)),
           fr_notes := fr_notes r @ [\<lparr>noteName = name, noteLine = line, noteBlock = block\<rparr>]\<rparr>)"

definition noteReturn :: "flowBlocks \<Rightarrow> 32 word \<Rightarrow> flowRecord \<Rightarrow> flowRecord" where
  "noteReturn fb line r =
     (let opened = open_blocks r @ fbStack fb
      in r\<lparr>open_blocks := opened,
           returns := returns r @ [\<lparr>retLine = line + fbShift fb, retFrom = length (open_blocks r), retTo = length opened\<rparr>]\<rparr>)"

definition openAt :: "flowRecord \<Rightarrow> 32 word \<Rightarrow> 32 word list" where
  "openAt r line =
     (case find (\<lambda>n. retLine n = line) (rev (returns r)) of
        None \<Rightarrow> [] | Some n \<Rightarrow> slice (open_blocks r) (retFrom n) (retTo n))"

definition sort_notes :: "flowRecord \<Rightarrow> flowRecord" where
  "sort_notes r = (if in_order r then r else r\<lparr>fr_notes := sort_key (\<lambda>n. uint (noteLine n)) (fr_notes r), in_order := True\<rparr>)"

text \<open>The loop of \<open>blockOf\<close> over the notes of the line, with the block found so far.\<close>

fun block_scan :: "refNote list \<Rightarrow> ComponentRef \<Rightarrow> 32 word option \<Rightarrow> 32 word" where
  "block_scan [] ref found = (case found of None \<Rightarrow> 0 | Some b \<Rightarrow> b)"
| "block_scan (n # ns) ref found =
     (if noteLine n \<noteq> refLine ref then (case found of None \<Rightarrow> 0 | Some b \<Rightarrow> b)
      else if \<not> EqualFold (noteName n) (refVariable ref) then block_scan ns ref found
      else if found \<noteq> None \<and> noteBlock n \<noteq> the found then blockUnknown
      else block_scan ns ref (Some (noteBlock n)))"

definition blockOf :: "ComponentRef \<Rightarrow> flowRecord \<Rightarrow> 32 word \<times> flowRecord" where
  "blockOf ref r =
     (let r = sort_notes r;
          i = sort_search (length (fr_notes r)) (\<lambda>i. \<not> uint (noteLine (fr_notes r ! i)) < uint (refLine ref))
      in (block_scan (drop i (fr_notes r)) ref None, r))"

definition always :: "ComponentRef \<Rightarrow> 32 word list \<Rightarrow> flowRecord \<Rightarrow> bool \<times> flowRecord" where
  "always ref opened r =
     (let (b, r) = blockOf ref r in (b = 0 \<or> b = blockUnknown \<or> b \<in> set opened, r))"

section \<open>The assignments that reach a return\<close>

text \<open>\<open>refReaching\<close> of \<open>result.go\<close>: the first ref, and the best, the latest at or before the line.\<close>

fun ref_scan :: "ComponentRef list \<Rightarrow> string \<Rightarrow> 32 word \<Rightarrow> (ComponentRef \<Rightarrow> bool) \<Rightarrow>
    ComponentRef option \<times> ComponentRef option \<Rightarrow> ComponentRef option \<times> ComponentRef option" where
  "ref_scan [] name line admit acc = acc"
| "ref_scan (ref # refs) name line admit (first, best) =
     (if \<not> EqualFold (refVariable ref) name \<or> \<not> admit ref then ref_scan refs name line admit (first, best)
      else ref_scan refs name line admit
        (if first = None then Some ref else first,
         if refLine ref \<le> line \<and> (best = None \<or> refLine (the best) \<le> refLine ref) then Some ref else best))"

definition refReaching :: "ComponentRef list \<Rightarrow> string \<Rightarrow> 32 word \<Rightarrow> (ComponentRef \<Rightarrow> bool) \<Rightarrow> ComponentRef option" where
  "refReaching refs name line admit =
     (let (first, best) = ref_scan refs name line admit (None, None) in if best = None then first else best)"

definition reach_step :: "32 word list \<Rightarrow> ComponentRef list \<times> flowRecord \<Rightarrow> ComponentRef \<Rightarrow> ComponentRef list \<times> flowRecord" where
  "reach_step opened acc ref =
     (let (out, r) = acc; (runs, r) = always ref opened r in ((if runs then [] else out) @ [ref], r))"

definition candidates :: "ComponentRef list \<Rightarrow> string \<Rightarrow> 32 word \<Rightarrow> (ComponentRef \<Rightarrow> bool) \<Rightarrow> ComponentRef list" where
  "candidates refs name line admit =
     filter (\<lambda>ref. refLine ref \<le> line \<and> EqualFold (refVariable ref) name \<and> admit ref) refs"

text \<open>\<open>rec\<close> is \<open>None\<close> where the receiver is \<open>nil\<close>.\<close>

definition reaching :: "flowRecord option \<Rightarrow> ComponentRef list \<Rightarrow> string \<Rightarrow> 32 word \<Rightarrow> (ComponentRef \<Rightarrow> bool) \<Rightarrow>
    ComponentRef list \<times> flowRecord option" where
  "reaching rec refs name line admit =
     (let opened = (case rec of None \<Rightarrow> [] | Some r \<Rightarrow> openAt r line);
          before = candidates refs name line admit;
          single = (case refReaching refs name line admit of None \<Rightarrow> [] | Some ref \<Rightarrow> [ref])
      in if opened = [] \<or> before = [] then (single, rec)
         else (case rec of None \<Rightarrow> (single, rec)
           | Some r \<Rightarrow>
               let (out, r) = foldl (reach_step opened) ([], r) (sort_key (\<lambda>ref. uint (refLine ref)) before)
               in (out, Some r)))"

fun agree_rest :: "string \<Rightarrow> string list \<Rightarrow> bool \<Rightarrow> string" where
  "agree_rest agreed [] disagree = (if agreed = ''$any'' then ''$any'' else if disagree then [] else agreed)"
| "agree_rest agreed (c # cs) disagree =
     (if c = ''$any'' then ''$any'' else agree_rest agreed cs (disagree \<or> \<not> EqualFold agreed c))"

definition agreedComponent :: "ComponentRef list \<Rightarrow> (ComponentRef \<Rightarrow> string) \<Rightarrow> string" where
  "agreedComponent refs held =
     (case map held refs of [] \<Rightarrow> [] | c # cs \<Rightarrow> agree_rest c cs False)"

end
