(* ===== verification/Flow_Props.thy ===== *)
theory Flow_Props
  imports Flow_Blocks
begin

text \<open>
  What the blocks are for: the assignments given for a return are those that some run of the function
  can have made last, and the stack of blocks is never popped empty.
\<close>

section \<open>The block of an assignment\<close>

definition noted_blocks :: "flowRecord \<Rightarrow> ComponentRef \<Rightarrow> 32 word list" where
  "noted_blocks r ref =
     map noteBlock (filter (\<lambda>n. noteLine n = refLine ref \<and> EqualFold (noteName n) (refVariable ref)) (fr_notes r))"

definition agreed_block :: "32 word option \<Rightarrow> 32 word list \<Rightarrow> 32 word" where
  "agreed_block found bs =
     (case found of
        None \<Rightarrow> (case bs of [] \<Rightarrow> 0 | b # bs \<Rightarrow> if list_all ((=) b) bs then b else blockUnknown)
      | Some b \<Rightarrow> if list_all ((=) b) bs then b else blockUnknown)"

definition record_ok :: "flowRecord \<Rightarrow> bool" where
  "record_ok r \<longleftrightarrow> (in_order r \<longrightarrow> sorted (map (\<lambda>n. uint (noteLine n)) (fr_notes r)))"

lemma record_ok_new: "record_ok (snd (newFlowBlocks base))"
  by (simp add: record_ok_def newFlowBlocks_def)

lemma record_ok_note: "record_ok r \<Longrightarrow> record_ok (note_ref fb name line block r)"
  by (cases "fr_notes r" rule: rev_cases)
    (auto simp: record_ok_def note_ref_def Let_def sorted_append word_le_def intro: order_trans)

lemma record_ok_return: "record_ok (noteReturn fb line r) = record_ok r"
  by (simp add: record_ok_def noteReturn_def Let_def)

lemma sort_notes_simps [simp]:
  "record_ok (sort_notes r)" if "record_ok r"
  using that by (simp add: record_ok_def sort_notes_def)

lemma sort_notes_sorted: "record_ok r \<Longrightarrow> sorted (map (\<lambda>n. uint (noteLine n)) (fr_notes (sort_notes r)))"
  by (simp add: record_ok_def sort_notes_def)

lemma sort_notes_idem [simp]: "sort_notes (sort_notes r) = sort_notes r"
  by (simp add: sort_notes_def)

lemma filter_line_sort:
  "filter (\<lambda>n. noteLine n = l \<and> P n) (sort_key (\<lambda>n. uint (noteLine n)) ns) = filter (\<lambda>n. noteLine n = l \<and> P n) ns"
proof -
  have "filter (\<lambda>n. uint (noteLine n) = uint l) (sort_key (\<lambda>n. uint (noteLine n)) ns) =
      filter (\<lambda>n. uint (noteLine n) = uint l) ns"
    by (rule sort_key_stable)
  then have "filter P (filter (\<lambda>n. noteLine n = l) (sort_key (\<lambda>n. uint (noteLine n)) ns)) =
      filter P (filter (\<lambda>n. noteLine n = l) ns)" by (simp add: word_uint_eq_iff)
  then show ?thesis by (simp add: conj_commute)
qed

lemma noted_blocks_sort [simp]: "noted_blocks (sort_notes r) ref = noted_blocks r ref"
  by (simp add: noted_blocks_def sort_notes_def filter_line_sort)

lemma block_scan_agreed:
  "block_scan ns ref found = agreed_block found
     (map noteBlock (filter (\<lambda>n. EqualFold (noteName n) (refVariable ref)) (takeWhile (\<lambda>n. noteLine n = refLine ref) ns)))"
  by (induction ns ref found rule: block_scan.induct)
    (auto simp: agreed_block_def list_all_iff split: option.splits list.splits)

lemma takeWhile_filter_sorted:
  "sorted (map f xs) \<Longrightarrow> \<forall>x \<in> set xs. (k::int) \<le> f x \<Longrightarrow> takeWhile (\<lambda>x. f x = k) xs = filter (\<lambda>x. f x = k) xs"
proof (induction xs)
  case (Cons x xs)
  show ?case
  proof (cases "f x = k")
    case False
    then have "k < f x" using Cons.prems(2) by simp
    then have "\<forall>y \<in> set xs. f y \<noteq> k" using Cons.prems(1) by auto
    then show ?thesis using False by (simp add: filter_empty_conv)
  qed (use Cons in simp)
qed simp

lemma blockOf_noted:
  assumes "record_ok r"
  shows "blockOf ref r = (agreed_block None (noted_blocks r ref), sort_notes r)"
proof -
  let ?ns = "fr_notes (sort_notes r)" and ?f = "\<lambda>n. uint (noteLine n)" and ?l = "uint (refLine ref)"
  define i where "i = sort_search (length ?ns) (\<lambda>i. \<not> ?f (?ns ! i) < ?l)"
  note sorted = sort_notes_sorted[OF assms]
  have mono: "\<not> ?f (?ns ! k) < ?l" if "j \<le> k" "k < length ?ns" "\<not> ?f (?ns ! j) < ?l" for j k
    using that sorted_nth_mono[OF sorted, of j k] by simp
  note least = sort_search_least[of "length ?ns" "\<lambda>i. \<not> ?f (?ns ! i) < ?l", folded i_def]
  have i: "i \<le> length ?ns" by (rule least(1)) (rule mono)
  have low: "?f (?ns ! x) < ?l" if "x < i" for x using least(2)[OF _ that] mono by blast
  have high: "\<forall>n \<in> set (drop i ?ns). ?l \<le> ?f n"
  proof
    fix n assume "n \<in> set (drop i ?ns)"
    then obtain j where j: "j < length ?ns - i" "n = ?ns ! (i + j)" by (auto simp: in_set_conv_nth)
    then have "i < length ?ns" by simp
    then have "\<not> ?f (?ns ! i) < ?l" by (intro least(3)) (rule mono)
    then have "\<not> ?f (?ns ! (i + j)) < ?l" using mono[of i "i + j"] j by simp
    then show "?l \<le> ?f n" unfolding j(2) by linarith
  qed
  have "filter (\<lambda>n. ?f n = ?l) (take i ?ns) = []"
    unfolding filter_empty_conv
  proof
    fix n assume "n \<in> set (take i ?ns)"
    then obtain j where "j < i" and n: "n = ?ns ! j" by (auto simp: in_set_conv_nth)
    then have "?f (?ns ! j) < ?l" using low by blast
    then show "?f n \<noteq> ?l" unfolding n by linarith
  qed
  moreover have "filter (\<lambda>n. ?f n = ?l) (drop i ?ns) = takeWhile (\<lambda>n. ?f n = ?l) (drop i ?ns)"
    using takeWhile_filter_sorted[OF _ high] sorted by (simp add: drop_map[symmetric] sorted_wrt_drop)
  ultimately have "filter (\<lambda>n. ?f n = ?l) ?ns = takeWhile (\<lambda>n. ?f n = ?l) (drop i ?ns)"
    by (metis append_take_drop_id filter_append append_Nil)
  then have "takeWhile (\<lambda>n. noteLine n = refLine ref) (drop i ?ns) = filter (\<lambda>n. noteLine n = refLine ref) ?ns"
    by (simp add: word_uint_eq_iff)
  then have "fst (blockOf ref r) = agreed_block None (noted_blocks (sort_notes r) ref)"
    by (simp add: blockOf_def Let_def i_def[symmetric] block_scan_agreed noted_blocks_def conj_commute)
  then show ?thesis by (simp add: blockOf_def Let_def prod_eq_iff)
qed

section \<open>The assignments that reach a return\<close>

text \<open>The assignment is in no block, in one open at the return, or in a block that is not known.\<close>

definition surely_runs :: "flowRecord \<Rightarrow> 32 word list \<Rightarrow> ComponentRef \<Rightarrow> bool" where
  "surely_runs r opened ref \<longleftrightarrow>
     (let b = agreed_block None (noted_blocks r ref) in b = 0 \<or> b = blockUnknown \<or> b \<in> set opened)"

lemma reach_fold:
  "record_ok r \<Longrightarrow> fst (foldl (reach_step opened) (out, r) refs) =
     foldl (\<lambda>out ref. (if surely_runs r opened ref then [] else out) @ [ref]) out refs"
proof (induction refs arbitrary: out r)
  case (Cons ref refs)
  have "surely_runs (sort_notes r) opened = surely_runs r opened"
    by (rule ext) (simp add: surely_runs_def)
  then show ?case using Cons.IH[of "sort_notes r"] Cons.prems
    by (simp add: reach_step_def always_def blockOf_noted surely_runs_def Let_def)
qed simp

definition restart :: "('a \<Rightarrow> bool) \<Rightarrow> 'a list \<Rightarrow> 'a list" where
  "restart P xs = foldl (\<lambda>out x. (if P x then [] else out) @ [x]) [] xs"

lemma restart_snoc: "restart P (xs @ [x]) = (if P x then [] else restart P xs) @ [x]"
  by (simp add: restart_def)

lemma restart_split:
  "\<exists>pre. xs = pre @ restart P xs \<and> list_all (Not \<circ> P) (tl (restart P xs)) \<and>
     (pre = [] \<or> P (hd (restart P xs))) \<and> (xs \<noteq> [] \<longrightarrow> restart P xs \<noteq> [])"
proof (induction xs rule: rev_induct)
  case (snoc x xs)
  then obtain pre where p: "xs = pre @ restart P xs" "list_all (Not \<circ> P) (tl (restart P xs))"
      "pre = [] \<or> P (hd (restart P xs))" "xs \<noteq> [] \<longrightarrow> restart P xs \<noteq> []" by blast
  show ?case
  proof (cases "P x")
    case True
    then show ?thesis by (intro exI[of _ xs]) (simp add: restart_snoc)
  next
    case False
    then show ?thesis unfolding restart_snoc using p by (intro exI[of _ pre]) (cases "restart P xs"; auto simp: list_all_iff)
  qed
qed (simp add: restart_def)

text \<open>
  A run makes the assignments of \<open>xs\<close> it meets in their order, and every one that surely runs.\<close>

definition run_of :: "('a \<Rightarrow> bool) \<Rightarrow> 'a list \<Rightarrow> 'a list \<Rightarrow> bool" where
  "run_of P xs run \<longleftrightarrow> subseq run xs \<and> subseq (filter P xs) run"

lemma restart_fold_runs:
  assumes "xs \<noteq> []"
  shows "set (restart P xs) = {last run | run. run \<noteq> [] \<and> run_of P xs run}"
proof -
  obtain pre out where o: "out = restart P xs" "xs = pre @ out"
    "list_all (Not \<circ> P) (tl out)" "pre = [] \<or> P (hd out)" "out \<noteq> []"
    using restart_split[of xs P] assms by metis
  have "\<exists>run. x = last run \<and> run \<noteq> [] \<and> run_of P xs run" if x: "x \<in> set out" for x
  proof -
    obtain a b where ab: "out = a @ x # b" using x by (meson split_list)
    have "set b \<subseteq> set (tl out)" unfolding ab by (cases a) auto
    then have "filter P b = []" using o(3) by (auto simp: filter_empty_conv list_all_iff)
    then have "run_of P xs (filter P (pre @ a) @ [x])"
      unfolding run_of_def o(2) ab
      by (auto intro!: list_emb_append_mono simp: subseq_filter_left)
    then show ?thesis by (intro exI[of _ "filter P (pre @ a) @ [x]"]) simp
  qed
  moreover have "last run \<in> set out" if run: "run \<noteq> []" "run_of P xs run" for run
  proof -
    have "subseq run (pre @ out)" using run(2) o(2) by (simp add: run_of_def)
    then obtain r1 r2 where r: "run = r1 @ r2" "subseq r1 pre" "subseq r2 out"
      by (auto elim: subseq_appendE)
    have "r2 \<noteq> []"
    proof
      assume nil: "r2 = []"
      then have "pre \<noteq> []" using r run(1) by auto
      then have "P (hd out)" using o(4) by simp
      then have "length (filter P pre) < length (filter P xs)" using o(2,5) by (cases out) auto
      moreover have "length (filter P xs) \<le> length (filter P run)"
        using list_emb_length[OF subseq_filter[of "filter P xs" run P]] run(2) by (simp add: run_of_def)
      moreover have "length (filter P run) \<le> length (filter P pre)"
        using list_emb_length[OF subseq_filter[of run pre P]] r nil by simp
      ultimately show False by linarith
    qed
    then have run2: "last run = last r2" "last r2 \<in> set r2" using r(1) by simp_all
    from list_emb_set[OF r(3) run2(2)] obtain y where "y \<in> set out" "last r2 = y" by blast
    then show ?thesis using run2(1) by simp
  qed
  ultimately show ?thesis unfolding o(1)[symmetric] by blast
qed

text \<open>
  C23: The assignments given for a returned variable are exactly those that some run of the function can
  have made last: a run makes assignments to the variable at or before the return's line in the order of
  their lines, and at least those whose block is open at the return, or unknown, or none.\<close>

theorem reaching_last_of_runs:
  assumes "record_ok r" "openAt r line \<noteq> []" "candidates refs name line admit \<noteq> []"
  shows "set (fst (reaching (Some r) refs name line admit)) =
    {last run | run. run \<noteq> [] \<and> run_of (surely_runs r (openAt r line))
       (sort_key (\<lambda>ref. uint (refLine ref)) (candidates refs name line admit)) run}"
proof -
  let ?before = "sort_key (\<lambda>ref. uint (refLine ref)) (candidates refs name line admit)"
  have "?before \<noteq> []" using assms(3) by (metis length_0_conv length_sort)
  from restart_fold_runs[OF this] reach_fold[OF assms(1), of "openAt r line" "[]" ?before]
  show ?thesis using assms(2,3) by (simp add: reaching_def restart_def Let_def case_prod_unfold)
qed

definition sample_ref :: "string \<Rightarrow> 32 word \<Rightarrow> ComponentRef" where
  "sample_ref held line =
     \<lparr>refVariable = ''x'', refComponent = held, refURI = [], refLine = line, refThis = False, refRebinds = False,
      refBaseGuess = False, refStrictChain = False, refChainBase = [], refChainMethod = [], refChainRest = [],
      refVisibleFrom = 0, refVisibleTo = 0\<rparr>"

text \<open>\<open>x = new A(); x = new B(); if (c) { X = new C(); } return x;\<close>, one statement to a line.\<close>

definition sample_refs :: "ComponentRef list" where
  "sample_refs = [sample_ref ''A'' 1, sample_ref ''B'' 2, sample_ref ''C'' 3]"

definition sample_record :: flowRecord where
  "sample_record =
     (let body = open_block 13 [] (region 0 0); branch = open_block 40 [] body
      in noteReturn body 4 (note_ref branch ''X'' 3 (innermost branch) (note_ref body ''x'' 2 (innermost body)
           (note_ref body ''x'' 1 (innermost body) (snd (newFlowBlocks 0))))))"

lemma reaching_last_of_runs_witness:
  "map refComponent (fst (reaching (Some sample_record) sample_refs ''x'' 4 (\<lambda>_. True))) = [''B'', ''C''] \<and>
   set (fst (reaching (Some sample_record) sample_refs ''x'' 4 (\<lambda>_. True))) =
     {last run | run. run \<noteq> [] \<and> run_of (surely_runs sample_record (openAt sample_record 4))
        (sort_key (\<lambda>ref. uint (refLine ref)) (candidates sample_refs ''x'' 4 (\<lambda>_. True))) run}"
proof -
  have "record_ok sample_record"
    by (simp add: sample_record_def Let_def record_ok_return record_ok_note record_ok_new)
  moreover have "openAt sample_record 4 \<noteq> []" "candidates sample_refs ''x'' 4 (\<lambda>_. True) \<noteq> []" by code_simp+
  moreover have "map refComponent (fst (reaching (Some sample_record) sample_refs ''x'' 4 (\<lambda>_. True))) = [''B'', ''C'']"
    by code_simp
  ultimately show ?thesis using reaching_last_of_runs by blast
qed

section \<open>The component a return holds\<close>

lemma agree_rest_value:
  "agree_rest c cs d =
     (if ''$any'' \<in> set (c # cs) then ''$any'' else if d \<or> list_ex (\<lambda>x. \<not> EqualFold c x) cs then [] else c)"
  by (induction c cs d rule: agree_rest.induct) auto

lemma agreedComponent_value:
  "agreedComponent refs held =
     (if refs = [] then []
      else if ''$any'' \<in> held ` set refs then ''$any''
      else if list_all (\<lambda>ref. EqualFold (held (hd refs)) (held ref)) refs then held (hd refs) else [])"
  by (cases refs) (auto simp: agreedComponent_def agree_rest_value list_all_iff list_ex_iff)

section \<open>The stack\<close>

text \<open>What \<open>parseBody\<close> does to the stack, and how deep in braces it is.\<close>

datatype flow_op = Open_Brace nat | Close_Brace | Open_Braceless nat nat | Close_Ended nat | Drop_Braceless

fun flow_step :: "flow_op \<Rightarrow> flowBlocks \<Rightarrow> flowBlocks option" where
  "flow_step (Open_Brace offset) fb = Some (open_block offset [] fb)"
| "flow_step Close_Brace fb = Some (close_block [] fb)"
| "flow_step (Open_Braceless offset stop) fb = Some (openBraceless offset stop fb)"
| "flow_step (Close_Ended offset) fb = closeEnded offset fb"
| "flow_step Drop_Braceless fb = dropBraceless fb"

fun flow_run :: "flow_op list \<Rightarrow> flowBlocks \<Rightarrow> flowBlocks option" where
  "flow_run [] fb = Some fb"
| "flow_run (op # ops) fb = Option.bind (flow_step op fb) (flow_run ops)"

text \<open>No brace is closed that was not opened.\<close>

fun braces_match :: "nat \<Rightarrow> flow_op list \<Rightarrow> bool" where
  "braces_match depth [] = True"
| "braces_match depth (Open_Brace _ # ops) = braces_match (depth + 1) ops"
| "braces_match depth (Close_Brace # ops) = (0 < depth \<and> braces_match (depth - 1) ops)"
| "braces_match depth (_ # ops) = braces_match depth ops"

definition stack_ok :: "nat \<Rightarrow> flowBlocks \<Rightarrow> bool" where
  "stack_ok depth fb \<longleftrightarrow> length (fbKinds fb) = length (fbStack fb) \<and> depth + length (fbEnds fb) = length (fbStack fb)"

lemma drop_end_ok:
  assumes "stack_ok depth fb" "fbEnds fb \<noteq> []"
  obtains fb' where "drop_end fb = Some fb'" "stack_ok depth fb'" "length (fbEnds fb') = length (fbEnds fb) - 1"
proof -
  have "fbStack fb \<noteq> []" "fbKinds fb \<noteq> []" using assms by (auto simp: stack_ok_def)
  moreover from this assms have "stack_ok depth
      (fb\<lparr>fbEnds := butlast (fbEnds fb), fbStack := butlast (fbStack fb), fbKinds := butlast (fbKinds fb)\<rparr>)"
    by (simp add: stack_ok_def Suc_le_eq add_diff_assoc)
  ultimately show ?thesis using that by (simp add: drop_end_def)
qed

lemma drop_ends_ok:
  "stack_ok depth fb \<Longrightarrow> n \<le> length (fbEnds fb) \<Longrightarrow> \<exists>fb'. drop_ends n fb = Some fb' \<and> stack_ok depth fb'"
proof (induction n arbitrary: fb)
  case (Suc n)
  then have "fbEnds fb \<noteq> []" by auto
  from drop_end_ok[OF Suc.prems(1) this] obtain fb'
    where "drop_end fb = Some fb'" "stack_ok depth fb'" "length (fbEnds fb') = length (fbEnds fb) - 1" .
  then show ?case using Suc.IH[of fb'] Suc.prems(2) by simp
qed simp

lemma close_block_ok: "stack_ok depth fb \<Longrightarrow> 0 < depth \<Longrightarrow> stack_ok (depth - 1) (close_block [] fb)"
  by (cases "length (fbStack fb)") (auto simp: close_block_def stack_ok_def)

lemma flow_run_ok:
  "stack_ok depth fb \<Longrightarrow> braces_match depth ops \<Longrightarrow> flow_run ops fb \<noteq> None"
proof (induction ops arbitrary: depth fb)
  case (Cons op ops)
  note st = Cons.prems(1)
  show ?case
  proof (cases op)
    case (Open_Brace offset)
    have "stack_ok (depth + 1) (open_block offset [] fb)" using st by (simp add: stack_ok_def open_block_def)
    from Cons.IH[OF this] show ?thesis using Cons.prems(2) Open_Brace by simp
  next
    case Close_Brace
    then show ?thesis using Cons.IH[OF close_block_ok[OF st]] Cons.prems(2) by simp
  next
    case (Open_Braceless offset stop)
    have "stack_ok depth (openBraceless offset stop fb)"
      using st by (simp add: stack_ok_def openBraceless_def open_block_def)
    from Cons.IH[OF this] show ?thesis using Cons.prems(2) Open_Braceless by simp
  next
    case (Close_Ended offset)
    have "length (takeWhile (\<lambda>e. e \<le> offset) (rev (fbEnds fb))) \<le> length (fbEnds fb)"
      by (metis length_rev length_takeWhile_le)
    from drop_ends_ok[OF st this] obtain fb' where "closeEnded offset fb = Some fb'" "stack_ok depth fb'"
      by (auto simp: closeEnded_def)
    then show ?thesis using Cons.IH[of depth fb'] Cons.prems(2) Close_Ended by simp
  next
    case Drop_Braceless
    from drop_ends_ok[OF st order_refl] obtain fb' where "dropBraceless fb = Some fb'" "stack_ok depth fb'"
      by (auto simp: dropBraceless_def)
    then show ?thesis using Cons.IH[of depth fb'] Cons.prems(2) Drop_Braceless by simp
  qed
qed simp

text \<open>
  Tracking the blocks of a function never panics: whatever statements without braces end where, in
  whatever order the braces of the body open and close, no block is popped off an empty stack, as long
  as no brace is closed that was not opened.\<close>

theorem flow_run_no_panic:
  assumes "braces_match 0 ops"
  shows "flow_run ops (region base shift) \<noteq> None"
  by (rule flow_run_ok[OF _ assms]) (simp add: stack_ok_def region_def)

lemma flow_run_no_panic_witness:
  "map_option fbStack (flow_run [Open_Brace 0, Open_Braceless 10 30, Close_Ended 31, Open_Brace 40] (region 0 0)) = Some [1, 41] \<and>
   flow_run [Open_Brace 0, Open_Braceless 10 30, Close_Ended 31, Open_Brace 40] (region 0 0) \<noteq> None"
proof -
  have "braces_match 0 [Open_Brace 0, Open_Braceless 10 30, Close_Ended 31, Open_Brace 40]" by code_simp
  from flow_run_no_panic[OF this] show ?thesis by code_simp
qed

end
