(* ===== verification/Global_Vars.thy ===== *)
theory Global_Vars
  imports Func_Scopes Conv
begin

text \<open>
  The scan of script for the names a file declares outside its functions (\<open>globalScriptParser\<close> of
  \<open>internal/parser/script_parser.go\<close>), on the tokens of a region, with the scopes of the variables
  (\<open>internal/parser/ast.go\<close>). Each method takes the stream and returns it after what it read, with the
  declarations it made.
\<close>

section \<open>Scopes\<close>

datatype Scope =
  ScopeLocal | ScopeArguments | ScopeThis | ScopeVariables | ScopeURL | ScopeForm | ScopeCGI | ScopeCookie
  | ScopeClient | ScopeApplication | ScopeRequest | ScopeSession | ScopeServer

record VarDef =
  vdName :: string
  vdScope :: Scope
  vdLine :: "32 word"
  vdFuncStart :: int
  vdFuncEnd :: int

definition readOnlyScopePrefixes :: "(string \<times> Scope) list" where
  "readOnlyScopePrefixes =
     [(''url'', ScopeURL), (''form'', ScopeForm), (''cgi'', ScopeCGI), (''cookie'', ScopeCookie), (''client'', ScopeClient),
      (''application'', ScopeApplication), (''request'', ScopeRequest), (''session'', ScopeSession), (''server'', ScopeServer)]"

text \<open>\<open>None\<close> where the word names no scope.\<close>

definition ScopeForPrefix :: "string \<Rightarrow> Scope option" where
  "ScopeForPrefix name =
     (let w = ToLower name
      in if w \<in> {''local'', ''var''} then Some ScopeLocal
         else if w = ''arguments'' then Some ScopeArguments
         else if w = ''this'' then Some ScopeThis
         else if w = ''variables'' then Some ScopeVariables
         else map_of readOnlyScopePrefixes w)"

fun ScopeName :: "Scope \<Rightarrow> string" where
  "ScopeName ScopeLocal = ''local''"
| "ScopeName ScopeArguments = ''arguments''"
| "ScopeName ScopeThis = ''this''"
| "ScopeName ScopeVariables = ''variables''"
| "ScopeName ScopeURL = ''url''"
| "ScopeName ScopeForm = ''form''"
| "ScopeName ScopeCGI = ''cgi''"
| "ScopeName ScopeCookie = ''cookie''"
| "ScopeName ScopeClient = ''client''"
| "ScopeName ScopeApplication = ''application''"
| "ScopeName ScopeRequest = ''request''"
| "ScopeName ScopeSession = ''session''"
| "ScopeName ScopeServer = ''server''"

lemma ScopeForPrefix_ScopeName: "ScopeForPrefix (ScopeName s) = Some s"
  by (cases s; hypsubst_thin; code_simp)

definition isKeyword :: "string \<Rightarrow> bool" where
  "isKeyword s \<longleftrightarrow> ToLower s \<in> set
     [''var'', ''local'', ''if'', ''else'', ''for'', ''while'', ''do'', ''switch'', ''case'', ''try'', ''catch'', ''finally'',
      ''return'', ''break'', ''continue'', ''function'', ''component'', ''interface'', ''new'', ''throw'', ''import'', ''true'',
      ''false'', ''and'', ''or'', ''not'', ''eq'', ''neq'', ''lt'', ''gt'', ''lte'', ''gte'', ''mod'', ''in'', ''default'', ''null'']"

section \<open>Skipping\<close>

text \<open>The loop of \<open>skipGroup\<close>.\<close>

function group_rest :: "TokenKind \<Rightarrow> TokenKind \<Rightarrow> nat \<Rightarrow> stream \<Rightarrow> bool \<times> stream" where
  "group_rest op_kind cl_kind n st =
     (if n = 0 then (True, st)
      else let k = PeekKind st
           in if k = TokEOF then (False, DropTok st)
              else group_rest op_kind cl_kind (if k = op_kind then n + 1 else if k = cl_kind then n - 1 else n) (DropTok st))"
  by pat_completeness auto
termination by (relation "measure (\<lambda>(op_kind, cl_kind, n, st). length (toks st))") (auto simp: DropTok_less)

declare group_rest.simps [simp del]

definition group_kinds :: "(TokenKind \<times> TokenKind) list" where
  "group_kinds = [(TokLParen, TokRParen), (TokLBrace, TokRBrace), (TokLBracket, TokRBracket)]"

definition skipGroup :: "stream \<Rightarrow> bool \<times> stream" where
  "skipGroup st =
     (case map_of group_kinds (PeekKind st) of
        None \<Rightarrow> (False, st) | Some cl_kind \<Rightarrow> group_rest (PeekKind st) cl_kind 1 (DropTok st))"

definition looksLikeTagAttrs :: "stream \<Rightarrow> bool" where
  "looksLikeTagAttrs st \<longleftrightarrow> PeekKind st = TokIdent \<and> PeekKind (DropTok st) = TokEquals"

text \<open>The rest of a \<open>#...#\<close> value.\<close>

function hash_rest :: "stream \<Rightarrow> bool \<times> stream" where
  "hash_rest st =
     (let k = PeekKind st
      in if k \<in> {TokEOF, TokLBrace, TokLT, TokGT} then (False, DropTok st)
         else if k = TokHash then (True, DropTok st)
         else hash_rest (DropTok st))"
  by pat_completeness auto
termination by (relation "measure (\<lambda>st. length (toks st))") (auto simp: DropTok_less)

declare hash_rest.simps [simp del]

lemma group_rest_ahead: "ahead st (snd (group_rest op_kind cl_kind n st))"
proof (induction op_kind cl_kind n st rule: group_rest.induct)
  case (1 op_kind cl_kind n st)
  show ?case unfolding group_rest.simps[of op_kind cl_kind n st] Let_def
    by (cases "n = 0"; cases "PeekKind st = TokEOF") (simp_all add: ahead_trans[OF DropTok_ahead 1[OF _ refl]])
qed

lemma hash_rest_ahead: "ahead st (snd (hash_rest st))"
proof (induction st rule: hash_rest.induct)
  case (1 st)
  show ?case unfolding hash_rest.simps[of st] Let_def
    by (cases "PeekKind st \<in> {TokEOF, TokLBrace, TokLT, TokGT}"; cases "PeekKind st = TokHash")
      (auto simp del: insert_iff simp: ahead_trans[OF DropTok_ahead 1[OF refl]])
qed

lemma skipGroup_ahead: "ahead st (snd (skipGroup st))"
  by (auto simp: skipGroup_def split: option.splits intro: ahead_trans[OF DropTok_ahead group_rest_ahead])

definition value_part :: "stream \<Rightarrow> bool \<times> stream" where
  "value_part st =
     (let k = PeekKind st
      in if k = TokHash then hash_rest (DropTok st)
         else if k = TokLParen \<or> k = TokLBracket then skipGroup st
         else (True, DropTok st))"

lemma skipGroup_less:
  "PeekKind st \<in> {TokLParen, TokLBracket} \<Longrightarrow> length (toks (snd (skipGroup st))) < length (toks st)"
  using le_less_trans[OF ahead_length[OF group_rest_ahead[of "DropTok st"]] DropTok_less[of st]]
  by (auto simp: skipGroup_def group_kinds_def)

lemma value_part_less: "PeekKind st \<noteq> TokEOF \<Longrightarrow> length (toks (snd (value_part st))) < length (toks st)"
  using le_less_trans[OF ahead_length[OF hash_rest_ahead[of "DropTok st"]] DropTok_less[of st]]
    skipGroup_less[of st] DropTok_less[of st] by (auto simp: value_part_def Let_def)

lemma value_part_ahead: "ahead st (snd (value_part st))"
  using ahead_trans[OF DropTok_ahead hash_rest_ahead] skipGroup_ahead by (simp add: value_part_def Let_def)

function skipTagAttrValue :: "stream \<Rightarrow> bool \<times> stream" where
  "skipTagAttrValue st =
     (if PeekKind st \<in> {TokEOF, TokSemicolon, TokLBrace, TokRBrace, TokLT, TokGT} then (False, st)
      else let (ok, st') = value_part st
           in if \<not> ok then (False, st')
              else if PeekKind st' \<in> {TokLParen, TokLBracket, TokDot, TokAmpersand, TokHash} then skipTagAttrValue st'
              else (True, st'))"
  by pat_completeness auto
termination
proof (relation "measure (\<lambda>st. length (toks st))", goal_cases)
  case (2 st r ok st')
  then have "st' = snd (value_part st)" by (metis snd_conv)
  then show ?case using value_part_less[of st] 2(1) by simp
qed simp

declare skipTagAttrValue.simps [simp del]

lemma skipTagAttrValue_ahead: "ahead st (snd (skipTagAttrValue st))"
proof (induction st rule: skipTagAttrValue.induct)
  case (1 st)
  obtain ok st' where V: "value_part st = (ok, st')" by (cases "value_part st")
  have a: "ahead st st'" using value_part_ahead[of st] V by simp
  note E = skipTagAttrValue.simps[of st, unfolded V Let_def prod.case]
  show ?case unfolding E
    using 1[OF _ V[symmetric] refl] ahead_trans[OF a] a
    by (auto simp del: insert_iff)
qed

lemma two_dropped:
  assumes "looksLikeTagAttrs st" "ahead (DropTok (DropTok st)) st'"
  shows "length (toks st') < length (toks st)"
  using assms(1) DropTok_less[of st] ahead_length[OF ahead_trans[OF DropTok_ahead[of "DropTok st"] assms(2)]]
  by (simp add: looksLikeTagAttrs_def)

function skipTagAttrs :: "stream \<Rightarrow> stream" where
  "skipTagAttrs st =
     (if looksLikeTagAttrs st then
        let (ok, st') = skipTagAttrValue (DropTok (DropTok st)) in if ok then skipTagAttrs st' else st'
      else st)"
  by pat_completeness auto

termination
proof (relation "measure (\<lambda>st. length (toks st))", goal_cases)
  case (2 st r ok st')
  then have "st' = snd (skipTagAttrValue (DropTok (DropTok st)))" by (metis snd_conv)
  then show ?case using two_dropped[OF 2(1)] skipTagAttrValue_ahead by simp
qed simp

declare skipTagAttrs.simps [simp del]

lemma skipTagAttrs_ahead: "ahead st (skipTagAttrs st)"
proof (induction st rule: skipTagAttrs.induct)
  case (1 st)
  obtain ok st' where V: "skipTagAttrValue (DropTok (DropTok st)) = (ok, st')" by (metis surj_pair)
  have "ahead (DropTok (DropTok st)) st'" using skipTagAttrValue_ahead[of "DropTok (DropTok st)"] V by simp
  then have a: "ahead st st'" by (meson DropTok_ahead ahead_trans)
  show ?case unfolding skipTagAttrs.simps[of st] V Let_def prod.case
    using 1[OF _ V[symmetric] refl] ahead_trans[OF a] a by auto
qed

section \<open>Declarations\<close>

definition var_at :: "int \<Rightarrow> string \<Rightarrow> Scope \<Rightarrow> Token \<Rightarrow> VarDef" where
  "var_at baseLine name scope tok =
     \<lparr>vdName = name, vdScope = scope, vdLine = Conv.Uint32 (word_of_int (baseLine + int (tokLine tok))), vdFuncStart = 0, vdFuncEnd = 0\<rparr>"

definition consumeAssignment :: "stream \<Rightarrow> stream" where
  "consumeAssignment st =
     (let st = DropTok st in if PeekKind st = TokLBrace \<or> PeekKind st = TokLBracket then snd (skipGroup st) else st)"

text \<open>What \<open>parseVar\<close> and \<open>parseDot\<close> share: a name followed by \<open>=\<close>.\<close>

definition declared :: "int \<Rightarrow> Scope \<Rightarrow> Token \<Rightarrow> stream \<Rightarrow> VarDef list \<times> stream" where
  "declared baseLine scope tok st =
     (let name = PeekTok st; st = DropTok st
      in if tokKind name \<noteq> TokIdent \<or> PeekKind st \<noteq> TokEquals then ([], st)
         else ([var_at baseLine (tokValue name) scope tok], consumeAssignment st))"

definition parseVar :: "int \<Rightarrow> Token \<Rightarrow> stream \<Rightarrow> VarDef list \<times> stream" where
  "parseVar baseLine tok st = declared baseLine ScopeVariables tok st"

definition parseDot :: "int \<Rightarrow> Token \<Rightarrow> Scope \<Rightarrow> stream \<Rightarrow> VarDef list \<times> stream" where
  "parseDot baseLine tok scope st =
     (if PeekKind st \<noteq> TokDot then ([], st) else declared baseLine scope tok (DropTok st))"

definition parsePlain :: "int \<Rightarrow> Token \<Rightarrow> bool \<Rightarrow> stream \<Rightarrow> VarDef list \<times> stream" where
  "parsePlain baseLine tok afterLT st =
     (if isKeyword (tokValue tok) then ([], st)
      else if PeekKind st = TokLParen then ([], snd (skipGroup st))
      else if \<not> afterLT \<and> PeekKind st = TokIdent \<and> looksLikeTagAttrs st then ([], skipTagAttrs st)
      else if PeekKind st \<noteq> TokEquals then ([], st)
      else ([var_at baseLine (tokValue tok) ScopeVariables tok], consumeAssignment st))"

function skip_past_line :: "int \<Rightarrow> int \<Rightarrow> stream \<Rightarrow> stream" where
  "skip_past_line baseLine final st =
     (let tok = PeekTok st
      in if tokKind tok = TokEOF \<or> final < baseLine + int (tokLine tok) then DropTok st
         else skip_past_line baseLine final (DropTok st))"
  by pat_completeness auto
termination
  by (relation "measure (\<lambda>(baseLine, final, st). length (toks st))") (auto simp: PeekKind_def[symmetric] DropTok_less)

declare skip_past_line.simps [simp del]

definition skipPastScope :: "int \<Rightarrow> FuncScope list \<Rightarrow> int \<Rightarrow> stream \<Rightarrow> stream" where
  "skipPastScope baseLine scopes line st =
     (let fs = findFuncScope line scopes
      in if scStart fs = -1 then st else skip_past_line baseLine (scEnd fs) st)"

text \<open>The tokens of a \<open>property\<close> up to its semicolon.\<close>

function skip_property :: "stream \<Rightarrow> stream" where
  "skip_property st =
     (if PeekKind st = TokEOF \<or> PeekKind st = TokSemicolon then DropTok st else skip_property (DropTok st))"
  by pat_completeness auto
termination by (relation "measure (\<lambda>st. length (toks st))") (auto simp: DropTok_less)

declare skip_property.simps [simp del]

text \<open>The switch of \<open>parse\<close> on a word outside the functions.\<close>

definition global_word :: "int \<Rightarrow> Token \<Rightarrow> bool \<Rightarrow> stream \<Rightarrow> VarDef list \<times> stream" where
  "global_word baseLine tok afterLT st =
     (let w = ToLower (tokValue tok)
      in if w = ''var'' then parseVar baseLine tok st
         else if w = ''local'' then parseDot baseLine tok ScopeVariables st
         else if w = ''this'' then parseDot baseLine tok ScopeThis st
         else if w = ''variables'' then parseDot baseLine tok ScopeVariables st
         else if w = ''component'' \<or> w = ''interface'' then ([], skipTagAttrs st)
         else if w \<in> {''function'', ''public'', ''private'', ''remote'', ''package''} then ([], st)
         else if w = ''property'' then ([], skip_property st)
         else parsePlain baseLine tok afterLT st)"

lemma consumeAssignment_ahead: "ahead st (consumeAssignment st)"
  by (simp add: consumeAssignment_def Let_def ahead_trans[OF DropTok_ahead skipGroup_ahead])

lemma skip_past_line_ahead: "ahead st (skip_past_line baseLine final st)"
proof (induction baseLine final st rule: skip_past_line.induct)
  case (1 baseLine final st)
  show ?case unfolding skip_past_line.simps[of baseLine final st] Let_def
    using ahead_trans[OF DropTok_ahead 1[OF refl]] by simp
qed

lemma skip_property_ahead: "ahead st (skip_property st)"
proof (induction st rule: skip_property.induct)
  case (1 st)
  show ?case unfolding skip_property.simps[of st] using ahead_trans[OF DropTok_ahead 1] by simp
qed

lemma declared_ahead: "ahead st (snd (declared baseLine scope tok st))"
  using ahead_trans[OF DropTok_ahead consumeAssignment_ahead, of st] by (simp add: declared_def Let_def)

lemma global_word_ahead: "ahead st (snd (global_word baseLine tok afterLT st))"
proof -
  have "ahead st (snd (parseDot baseLine tok scope st))" for scope
    using ahead_trans[OF DropTok_ahead declared_ahead] by (simp add: parseDot_def)
  moreover have "ahead st (snd (parsePlain baseLine tok afterLT st))"
    by (simp add: parsePlain_def skipGroup_ahead skipTagAttrs_ahead consumeAssignment_ahead)
  ultimately show ?thesis
    by (simp add: global_word_def Let_def parseVar_def declared_ahead skipTagAttrs_ahead skip_property_ahead)
qed

text \<open>The method \<open>parse\<close>; \<open>afterLT\<close> says whether the token before was a \<open><\<close>.\<close>

function global_parse :: "int \<Rightarrow> FuncScope list \<Rightarrow> bool \<Rightarrow> stream \<Rightarrow> VarDef list" where
  "global_parse baseLine scopes afterLT st =
     (let tok = PeekTok st; isLT = (tokKind tok = TokLT); line = baseLine + int (tokLine tok)
      in if tokKind tok = TokEOF then []
         else if tokKind tok \<noteq> TokIdent then global_parse baseLine scopes isLT (DropTok st)
         else if scStart (findFuncScope line scopes) \<noteq> -1 then
           global_parse baseLine scopes isLT (skipPastScope baseLine scopes line (DropTok st))
         else let (vs, st') = global_word baseLine tok afterLT (DropTok st)
              in vs @ global_parse baseLine scopes isLT st')"
  by pat_completeness auto
termination
proof (relation "measure (\<lambda>(baseLine, scopes, afterLT, st). length (toks st))", goal_cases)
  case (3 baseLine scopes afterLT st tok isLT line)
  have "ahead (DropTok st) (skipPastScope baseLine scopes line (DropTok st))"
    by (simp add: skipPastScope_def Let_def skip_past_line_ahead)
  then show ?case using 3(1,4) script_scopes_less by simp
next
  case (4 baseLine scopes afterLT st tok isLT line r vs st')
  then have "st' = snd (global_word baseLine tok afterLT (DropTok st))" by (metis snd_conv)
  then show ?case using 4(1,4) script_scopes_less global_word_ahead by simp
qed (simp_all add: script_scopes_less)

declare global_parse.simps [simp del]

definition globalScriptParser :: "string \<Rightarrow> int \<Rightarrow> FuncScope list \<Rightarrow> VarDef list" where
  "globalScriptParser s baseLine scopes = global_parse baseLine scopes False (tokens_of s True)"

section \<open>Properties\<close>

definition vars_at :: "32 word \<Rightarrow> VarDef list \<Rightarrow> bool" where
  "vars_at line vs \<longleftrightarrow> list_all (\<lambda>v. vdLine v = line) vs"

definition scan_line :: "int \<Rightarrow> Token \<Rightarrow> 32 word" where
  "scan_line baseLine tok = Conv.Uint32 (word_of_int (baseLine + int (tokLine tok)))"

lemma declared_at: "vars_at (scan_line baseLine tok) (fst (declared baseLine scope tok st))"
  by (simp add: declared_def Let_def vars_at_def var_at_def scan_line_def)

lemma global_word_at: "vars_at (scan_line baseLine tok) (fst (global_word baseLine tok afterLT st))"
proof -
  have nil: "vars_at line []" for line by (simp add: vars_at_def)
  have "vars_at (scan_line baseLine tok) (fst (parseDot baseLine tok scope st))" for scope
    by (simp add: parseDot_def declared_at nil)
  moreover have "vars_at (scan_line baseLine tok) (fst (parsePlain baseLine tok afterLT st))"
    by (simp add: parsePlain_def vars_at_def var_at_def scan_line_def)
  ultimately show ?thesis by (simp add: global_word_def Let_def parseVar_def declared_at nil)
qed

lemma skipPastScope_ahead: "ahead st (skipPastScope baseLine scopes line st)"
  by (simp add: skipPastScope_def Let_def skip_past_line_ahead)

definition outside_at :: "int \<Rightarrow> FuncScope list \<Rightarrow> Token list \<Rightarrow> VarDef \<Rightarrow> bool" where
  "outside_at baseLine scopes ts v \<longleftrightarrow>
     list_ex (\<lambda>t. vdLine v = scan_line baseLine t \<and> scStart (findFuncScope (baseLine + int (tokLine t)) scopes) = -1) ts"

lemma outside_ahead: "ahead st st' \<Longrightarrow> outside_at baseLine scopes (toks st') v \<Longrightarrow> outside_at baseLine scopes (toks st) v"
  using ahead_tokens by (force simp: outside_at_def list_ex_iff)

lemma global_parse_outside:
  "list_all (outside_at baseLine scopes (toks st)) (global_parse baseLine scopes afterLT st)"
proof (induction baseLine scopes afterLT st rule: global_parse.induct)
  case (1 baseLine scopes afterLT st)
  let ?tok = "PeekTok st" let ?lt = "tokKind ?tok = TokLT" let ?line = "baseLine + int (tokLine ?tok)"
  obtain vs st' where W: "global_word baseLine ?tok afterLT (DropTok st) = (vs, st')" by (metis surj_pair)
  have step: "list_all (outside_at baseLine scopes (toks st)) xs"
    if "list_all (outside_at baseLine scopes (toks st'')) xs" "ahead (DropTok st) st''" for xs st''
    using that(1) outside_ahead[OF ahead_trans[OF DropTok_ahead that(2)]] by (simp add: list_all_iff)
  have here: "list_all (outside_at baseLine scopes (toks st)) vs"
    if "tokKind ?tok = TokIdent" "scStart (findFuncScope ?line scopes) = -1"
  proof -
    have "?tok \<in> set (toks st)" using PeekTok_mem[of st] that(1) by (simp add: PeekKind_def)
    then show ?thesis using that(2) global_word_at[of baseLine ?tok afterLT "DropTok st"] W
      by (auto simp: vars_at_def outside_at_def list_all_iff list_ex_iff)
  qed
  have ah: "ahead (DropTok st) st'" using global_word_ahead[of "DropTok st" baseLine ?tok afterLT] W by simp
  consider (stop) "tokKind ?tok = TokEOF" | (other) "tokKind ?tok \<noteq> TokEOF" "tokKind ?tok \<noteq> TokIdent"
    | (inside) "tokKind ?tok = TokIdent" "scStart (findFuncScope ?line scopes) \<noteq> -1"
    | (outside) "tokKind ?tok = TokIdent" "scStart (findFuncScope ?line scopes) = -1" by fastforce
  then show ?case
  proof cases
    case stop
    then show ?thesis by (simp add: global_parse.simps[of baseLine scopes afterLT st] Let_def)
  next
    case other
    then show ?thesis using step[OF 1(1)[OF refl refl refl other] ahead_refl]
      by (simp add: global_parse.simps[of baseLine scopes afterLT st] Let_def)
  next
    case inside
    then show ?thesis using step[OF 1(2)[OF refl refl refl _ _ inside(2)] skipPastScope_ahead]
      by (simp add: global_parse.simps[of baseLine scopes afterLT st] Let_def)
  next
    case outside
    then show ?thesis using step[OF 1(3)[OF refl refl refl _ _ _ W[symmetric] refl] ah] here
      by (simp add: global_parse.simps[of baseLine scopes afterLT st] Let_def W)
  qed
qed

text \<open>
  A name is declared outside every function: each declaration the scan makes is at the line of a token
  of the text whose line is in no function's lines.\<close>

theorem globalScriptParser_outside:
  "list_all (\<lambda>v. list_ex (\<lambda>t. vdLine v = Conv.Uint32 (word_of_int (baseLine + int (tokLine t))) \<and>
       scStart (findFuncScope (baseLine + int (tokLine t)) scopes) = -1) (toks (tokens_of s True)))
     (globalScriptParser s baseLine scopes)"
  using global_parse_outside[of baseLine scopes "tokens_of s True" False]
  by (simp add: globalScriptParser_def outside_at_def[abs_def] scan_line_def)

text \<open>
  \<open>skipPastScope\<close> reads the first token past the function and drops it: a name set right after a function is
  not declared, the same with a semicolon between is.\<close>

definition after_function :: "string \<Rightarrow> string" where
  "after_function sep = ''function f(){'' @ [CHR 0x0A] @ ''}'' @ [CHR 0x0A] @ sep @ ''x=1;''"

lemma skipPastScope_drops:
  "map vdName (globalScriptParser (after_function []) 0 (findScriptFuncScopes (after_function []) 0)) = []"
  "map vdName (globalScriptParser (after_function '';'') 0 (findScriptFuncScopes (after_function '';'') 0)) = [''x'']"
  by code_simp+

end
