(* ===== verification/Component_Path.thy ===== *)
theory Component_Path
  imports Paths Ancestors Index
begin

text \<open>
  The file a component's name means (\<open>ComponentPath\<close> of \<open>internal/resolve/resolve.go\<close>, with the WireBox ids of
  \<open>wirebox.go\<close>). A name is rewritten by the configured expressions and then looked for in one place after
  another; several of these places ask for another name, so the search is recursive. The recursion takes a
  bound, \<open>None\<close> is a search the bound stops, and the properties say when it is never needed.

  A \<open>world\<close> is what the search reads: the file system (\<open>Stat\<close>, \<open>Listing\<close>), the configuration, the index, what the
  workspace's WireBox files say, and, as functions, the mappings of an application, the names in \<open>box.json\<close>
  and \<open>module.json\<close>, the framework stubs and the conversions of URIs. The resolver's memory of earlier
  answers (\<open>resolveCache\<close>, \<open>appRootCache\<close>, \<open>slugCache\<close>) is not part of it.
\<close>

record idTarget =
  target_path :: string
  target_dir :: string

record wireboxWorkspace =
  namespaces :: "(string, string list) gomap"
  cfmappings :: "(string, string) gomap"
  ids :: "(string, idTarget) gomap"

record world =
  Stat :: "string \<Rightarrow> bool option"
  Listing :: lister
  IsDirEntry :: "string \<Rightarrow> bool"
  WorkspaceFolders :: "string list"
  Mappings :: "(string, string) gomap"
  callerMappings :: "(string, string) gomap option"
  ExpressionMappings :: "(string, string) gomap"
  Idx :: "index option"
  wirebox :: "wireboxWorkspace option"
  LoadAppMappings :: "string \<Rightarrow> (string, string) gomap"
  boxSlug :: "string \<Rightarrow> string"
  lucliModuleName :: "string \<Rightarrow> string"
  StubPath :: "string \<Rightarrow> string"
  Namespaced :: "string \<Rightarrow> string"
  IsStub :: "string \<Rightarrow> bool"
  IDPackages :: "string list"
  FromURI :: "string \<Rightarrow> string"
  ToURI :: "string \<Rightarrow> string"

section \<open>Strings\<close>

definition dots :: "string \<Rightarrow> string" where
  "dots component = slashes_to_dots (TrimPrefix component ''/'')"

definition MockPrefix :: string where "MockPrefix = ''$mock:''"
definition EntityPrefix :: string where "EntityPrefix = ''entity:''"

section \<open>Applications, packages and modules\<close>

definition FindApplicationRoot :: "world \<Rightarrow> string \<Rightarrow> string" where
  "FindApplicationRoot w dir =
     (case find_up (\<lambda>d. list_ex (\<lambda>name. Stat w (path_join [d, name]) \<noteq> None) [''Application.cfc'', ''Application.cfm'']) dir of
        None \<Rightarrow> [] | Some d \<Rightarrow> d)"

definition merge_mapping :: "(string, string) gomap \<Rightarrow> string \<times> string \<Rightarrow> (string, string) gomap" where
  "merge_mapping merged kv = put (fst kv) (snd kv) (filter (\<lambda>(existing, _). \<not> EqualFold existing (fst kv)) merged)"

definition effectiveMappings :: "world \<Rightarrow> string \<Rightarrow> (string, string) gomap" where
  "effectiveMappings w baseDir =
     (case callerMappings w of Some m \<Rightarrow> m
      | None \<Rightarrow>
          let appDir = FindApplicationRoot w baseDir;
              app = LoadAppMappings w (if appDir = [] then baseDir else appDir)
          in if app = [] then Mappings w
             else if Mappings w = [] then app
             else foldl merge_mapping app (Mappings w))"

definition slugRoot :: "world \<Rightarrow> string \<Rightarrow> string \<Rightarrow> (string \<times> string) option" where
  "slugRoot w component baseDir =
     (case Cut component (CHR ''.'') of None \<Rightarrow> None
      | Some (first, rest) \<Rightarrow>
          if first = [] \<or> rest = [] then None
          else map_option (\<lambda>dir. (dir, rest)) (find_up (\<lambda>dir. boxSlug w dir \<noteq> [] \<and> EqualFold (boxSlug w dir) first) baseDir))"

definition lucliModuleRoot :: "world \<Rightarrow> string \<Rightarrow> string \<Rightarrow> (string \<times> string) option" where
  "lucliModuleRoot w component baseDir =
     (case Cut component (CHR ''.'') of None \<Rightarrow> None
      | Some (first, rest) \<Rightarrow>
          if \<not> EqualFold first ''modules'' then None
          else (case Cut rest (CHR ''.'') of None \<Rightarrow> None
            | Some (name, rest) \<Rightarrow>
                if name = [] \<or> rest = [] then None
                else map_option (\<lambda>dir. (dir, rest))
                  (find_up (\<lambda>dir. lucliModuleName w dir \<noteq> [] \<and> EqualFold (lucliModuleName w dir) name) baseDir)))"

definition in_roots :: "world \<Rightarrow> string \<Rightarrow> string list \<Rightarrow> (string, string) gomap \<Rightarrow> string" where
  "in_roots w component roots m =
     (case find (\<lambda>root. ResolvePath (Listing w) component root m \<noteq> []) roots of
        None \<Rightarrow> [] | Some root \<Rightarrow> ResolvePath (Listing w) component root m)"

definition inFolderNamed :: "world \<Rightarrow> string \<Rightarrow> string" where
  "inFolderNamed w component =
     (case Cut (dots component) (CHR ''.'') of None \<Rightarrow> []
      | Some (seg, rest) \<Rightarrow>
          if seg = [] \<or> rest = [] then []
          else in_roots w rest (filter (\<lambda>root. EqualFold (path_base root) seg) (WorkspaceFolders w)) [])"

section \<open>What the engine ships\<close>

definition engineImports :: "string list" where
  "engineImports = [''dbinfo'', ''feed'', ''ftp'', ''http'', ''ldap'', ''mail'', ''pop'', ''query'', ''storedproc'']"

definition luceeComponents :: string where "luceeComponents = ''org.lucee.cfml.''"
definition adobeComponents :: string where "adobeComponents = ''com.adobe.coldfusion.''"
definition adobeAdminAPI :: string where "adobeAdminAPI = ''cfide.adminapi.''"

definition engineComponent :: "string \<Rightarrow> string option" where
  "engineComponent component =
     (let lower = ToLower component
      in if lower \<in> set engineImports then Some (luceeComponents @ component)
         else if HasPrefix lower luceeComponents \<and> length luceeComponents < length lower then Some component
         else if HasPrefix lower adobeComponents \<or> HasPrefix lower adobeAdminAPI then Some []
         else None)"

definition engineSource :: "world \<Rightarrow> string \<Rightarrow> string" where
  "engineSource w qualified =
     (case Idx w of None \<Rightarrow> []
      | Some ix \<Rightarrow>
          if qualified = [] then []
          else (case FindFilesByBasename ix (map (\<lambda>c. if c = CHR ''.'' then CHR ''/'' else c) qualified) of
              [] \<Rightarrow> [] | c # _ \<Rightarrow> c))"

section \<open>Files by their name\<close>

definition nearer :: "string \<Rightarrow> (string \<times> nat) option \<Rightarrow> string \<Rightarrow> (string \<times> nat) option" where
  "nearer baseDir best c =
     (case path_rel baseDir c of None \<Rightarrow> best
      | Some rel \<Rightarrow>
          let dist = count_list rel (CHR ''/'')
          in (case best of None \<Rightarrow> Some (c, dist)
              | Some (b, d) \<Rightarrow> if dist < d \<or> dist = d \<and> c < b then Some (c, dist) else best))"

definition by_name :: "world \<Rightarrow> index \<Rightarrow> string \<Rightarrow> string \<Rightarrow> string" where
  "by_name w ix component baseDir =
     (case filter (\<lambda>c. \<not> IsStub w c) (FindFilesByBasename ix component) of
        [] \<Rightarrow> [] | [c] \<Rightarrow> c
      | cs \<Rightarrow> (case foldl (nearer baseDir) None cs of None \<Rightarrow> [] | Some (b, _) \<Rightarrow> b))"

definition closer :: "world \<Rightarrow> string \<Rightarrow> (string \<times> nat) option \<Rightarrow> string \<Rightarrow> (string \<times> nat) option" where
  "closer w from best u =
     (let d = URIDistance from u
      in (case best of None \<Rightarrow> Some (FromURI w u, d) | Some (_, bd) \<Rightarrow> if d < bd then Some (FromURI w u, d) else best))"

definition nearestEntity :: "world \<Rightarrow> string \<Rightarrow> string \<Rightarrow> string" where
  "nearestEntity w name baseDir =
     (case Idx w of None \<Rightarrow> []
      | Some ix \<Rightarrow>
          (case foldl (closer w (ToURI w (path_join [baseDir, ''x.cfc'']))) None (EntityCandidates ix name) of
             None \<Rightarrow> [] | Some (p, _) \<Rightarrow> p))"

section \<open>The search\<close>

type_synonym lookup = "string \<Rightarrow> string \<Rightarrow> string option"

text \<open>The first that is not empty; what comes after it is not asked.\<close>

fun first_path :: "string option list \<Rightarrow> string option" where
  "first_path [] = Some []"
| "first_path (None # ps) = None"
| "first_path (Some p # ps) = (if p \<noteq> [] then Some p else first_path ps)"

definition inModuleModels :: "world \<Rightarrow> index \<Rightarrow> string \<Rightarrow> string list \<Rightarrow> string" where
  "inModuleModels w ix name dirs =
     (if dirs = [] \<or> name = [] \<or> list_ex (\<lambda>c. c \<in> set name) [CHR ''.'', CHR ''/'', CHR 0x5C] then []
      else (case sort (concat (map (\<lambda>c. map (\<lambda>_. c) (filter (\<lambda>d. HasPrefix (ToLower c) (ToLower (path_join [d, ''models'']) @ ''/'')) dirs))
          (FindFilesByBasename ix name))) of [] \<Rightarrow> [] | hit # _ \<Rightarrow> hit))"

definition moduleMapping_tokens :: "string list" where
  "moduleMapping_tokens = [''#moduleMapping#.'', ''#moduleMapping#/'']"

text \<open>The functions that ask for another name take the search for it, \<open>ask\<close>.\<close>

definition idTargetPath :: "lookup \<Rightarrow> wireboxWorkspace \<Rightarrow> idTarget \<Rightarrow> string option" where
  "idTargetPath ask wb t =
     (let path = target_path t
      in (case find (\<lambda>token. length token < length path \<and> EqualFold (take (length token) path) token) moduleMapping_tokens of
            Some token \<Rightarrow> ask (drop (length token) path) (target_dir t)
          | None \<Rightarrow>
              first_path
                [(case Cut path (CHR ''.'') of None \<Rightarrow> Some []
                  | Some (first, rest) \<Rightarrow> (case get (cfmappings wb) (ToLower first) of None \<Rightarrow> Some [] | Some dir \<Rightarrow> ask rest dir)),
                 ask path (target_dir t)]))"

text \<open>The id of a component with no dot, if it is one.\<close>

definition mapped_id :: "world \<Rightarrow> string \<Rightarrow> (wireboxWorkspace \<times> idTarget) option" where
  "mapped_id w component =
     (case wirebox w of None \<Rightarrow> None
      | Some wb \<Rightarrow>
          if CHR ''.'' \<in> set component then None
          else (case get (ids wb) (ToLower component) of None \<Rightarrow> None
            | Some t \<Rightarrow> if EqualFold (target_path t) component then None else Some (wb, t)))"

definition wireboxID :: "lookup \<Rightarrow> world \<Rightarrow> string \<Rightarrow> string \<Rightarrow> (string \<times> bool) option" where
  "wireboxID ask w component baseDir =
     (case mapped_id w component of
        Some (wb, t) \<Rightarrow> map_option (\<lambda>p. (p, True)) (idTargetPath ask wb t)
      | None \<Rightarrow>
          (case Cut component (CHR ''@'') of None \<Rightarrow> Some ([], False)
           | Some (name, ns) \<Rightarrow>
               let p = (case (wirebox w, Idx w) of
                   (Some wb, Some ix) \<Rightarrow> inModuleModels w ix name (get_list (namespaces wb) (ToLower ns)) | _ \<Rightarrow> [])
               in if p \<noteq> [] then Some (p, True) else map_option (\<lambda>p. (p, True)) (ask name baseDir)))"

definition inModuleMapping :: "lookup \<Rightarrow> world \<Rightarrow> string \<Rightarrow> string option" where
  "inModuleMapping ask w component =
     (case Cut component (CHR ''.'') of None \<Rightarrow> Some []
      | Some (first, rest) \<Rightarrow>
          if rest = [] then Some []
          else (case wirebox w of None \<Rightarrow> Some []
            | Some wb \<Rightarrow> (case get (cfmappings wb) (ToLower first) of None \<Rightarrow> Some [] | Some dir \<Rightarrow> ask rest dir)))"

definition uninstalledModule :: "world \<Rightarrow> string \<Rightarrow> bool" where
  "uninstalledModule w component \<longleftrightarrow>
     (case Cut component (CHR ''@'') of None \<Rightarrow> False
      | Some (_, ns) \<Rightarrow> ns \<noteq> [] \<and> (case wirebox w of None \<Rightarrow> True | Some wb \<Rightarrow> get_list (namespaces wb) (ToLower ns) = []))"

definition bare :: "string \<Rightarrow> bool" where
  "bare component \<longleftrightarrow> CHR ''.'' \<notin> set component \<and> CHR ''/'' \<notin> set component"

definition lastResortPath :: "lookup \<Rightarrow> world \<Rightarrow> string \<Rightarrow> string \<Rightarrow> string option" where
  "lastResortPath ask w component baseDir =
     (case engineComponent component of
        Some qualified \<Rightarrow> Some (engineSource w qualified)
      | None \<Rightarrow>
          if \<not> bare component then Some []
          else first_path
            ((case Idx w of None \<Rightarrow> []
              | Some ix \<Rightarrow>
                  [Some (by_name w ix component baseDir),
                   Some (let u = LookupEntity ix component in if u \<noteq> [] then FromURI w u else []),
                   Some (let p = LookupBean ix component in if HasPrefix p ''/'' then p else [])]) @
             map (\<lambda>pkg. ask (pkg @ ''.'' @ component) baseDir) (IDPackages w)))"

definition componentPathUncached :: "lookup \<Rightarrow> world \<Rightarrow> string \<Rightarrow> string \<Rightarrow> string option" where
  "componentPathUncached ask w component baseDir =
     (if HasPrefix component ''/'' \<and> HasSuffix (ToLower component) ''.cfc'' \<and> Stat w component = Some False then Some component
      else if HasPrefix component EntityPrefix then
        (let name = drop (length EntityPrefix) component; p = nearestEntity w name baseDir
         in if p \<noteq> [] then Some p else ask name baseDir)
      else if CHR ''@'' \<in> set component then map_option fst (wireboxID ask w component baseDir)
      else
        let m = effectiveMappings w baseDir; appDir = FindApplicationRoot w baseDir
        in first_path
          [Some (ResolvePath (Listing w) component baseDir m),
           Some (if appDir = [] then [] else ResolvePath (Listing w) component appDir m),
           Some (in_roots w component (WorkspaceFolders w) m),
           Some (inFolderNamed w component),
           inModuleMapping ask w component,
           Some (case slugRoot w component baseDir of None \<Rightarrow> [] | Some (root, rest) \<Rightarrow> ResolvePath (Listing w) rest root []),
           Some (case lucliModuleRoot w component baseDir of None \<Rightarrow> [] | Some (root, rest) \<Rightarrow> ResolvePath (Listing w) rest root []),
           Some (StubPath w component),
           Some (Namespaced w component),
           map_option (\<lambda>(p, ok). if ok then p else []) (wireboxID ask w component baseDir),
           lastResortPath ask w component baseDir])"

text \<open>The configured expressions in the order they apply, longest first (\<open>ExpressionMappingOrder\<close>).\<close>

definition ExpressionMappingOrder :: "(string, string) gomap \<Rightarrow> string list" where
  "ExpressionMappingOrder m = sort_key (\<lambda>k. (- int (length k), k)) (map fst m)"

definition apply_expression :: "(string, string) gomap \<Rightarrow> string \<Rightarrow> string \<Rightarrow> string" where
  "apply_expression m component key =
     (let v = (case get m key of None \<Rightarrow> [] | Some v \<Rightarrow> v)
      in foldl (\<lambda>c expr. if expr \<noteq> [] \<and> Contains c expr then replace_all expr v c else c) component (split_on (CHR ''|'') key))"

definition named :: "world \<Rightarrow> string \<Rightarrow> string" where
  "named w component =
     TrimPrefix (foldl (apply_expression (ExpressionMappings w)) component (ExpressionMappingOrder (ExpressionMappings w))) MockPrefix"

definition search :: "lookup \<Rightarrow> world \<Rightarrow> lookup" where
  "search ask w component baseDir =
     (let component = named w component
      in if CHR ''|'' \<in> set component
         then first_path (map (\<lambda>alt. componentPathUncached ask w alt baseDir) (split_on (CHR ''|'') component))
         else componentPathUncached ask w component baseDir)"

fun ComponentPath :: "nat \<Rightarrow> world \<Rightarrow> lookup" where
  "ComponentPath 0 w component baseDir = None"
| "ComponentPath (Suc n) w component baseDir = search (ComponentPath n w) w component baseDir"

end
