(* ===== verification/Component_Path_Props.thy ===== *)
theory Component_Path_Props
  imports Component_Path
begin

text \<open>
  When the search for a component ends. Every name it asks for on the way is shorter, except the target of
  a WireBox id and a bare name put in a framework's package; so it ends where those cannot lead back to a
  bare name, and an example shows that it need not where they can.
\<close>

section \<open>The names a search asks for\<close>

definition id_asks :: "wireboxWorkspace \<Rightarrow> idTarget \<Rightarrow> string list" where
  "id_asks wb t =
     (let path = target_path t
      in (case find (\<lambda>token. length token < length path \<and> EqualFold (take (length token) path) token) moduleMapping_tokens of
            Some token \<Rightarrow> [drop (length token) path]
          | None \<Rightarrow>
              (case Cut path (CHR ''.'') of None \<Rightarrow> []
               | Some (first, rest) \<Rightarrow> if get (cfmappings wb) (ToLower first) = None then [] else [rest]) @ [path]))"

definition wirebox_asks :: "world \<Rightarrow> string \<Rightarrow> string list" where
  "wirebox_asks w component =
     (case mapped_id w component of
        Some (wb, t) \<Rightarrow> id_asks wb t
      | None \<Rightarrow> (case Cut component (CHR ''@'') of None \<Rightarrow> [] | Some (name, ns) \<Rightarrow> [name]))"

definition mapping_asks :: "world \<Rightarrow> string \<Rightarrow> string list" where
  "mapping_asks w component =
     (case (Cut component (CHR ''.''), wirebox w) of
        (Some (first, rest), Some wb) \<Rightarrow> if get (cfmappings wb) (ToLower first) = None then [] else [rest]
      | _ \<Rightarrow> [])"

definition asks :: "world \<Rightarrow> string \<Rightarrow> string list" where
  "asks w component =
     (if HasPrefix component EntityPrefix then [drop (length EntityPrefix) component]
      else if CHR ''@'' \<in> set component then wirebox_asks w component
      else mapping_asks w component @ wirebox_asks w component @
        (if bare component then map (\<lambda>pkg. pkg @ ''.'' @ component) (IDPackages w) else []))"

definition returns :: "'a option \<Rightarrow> bool" where
  "returns x \<longleftrightarrow> x \<noteq> None"

lemma returns_simps [simp]: "returns (Some p)" "returns (map_option f x) \<longleftrightarrow> returns x"
  by (simp_all add: returns_def)

lemma first_path_returns: "list_all returns ps \<Longrightarrow> returns (first_path ps)"
  by (induction ps rule: first_path.induct) (auto simp: returns_def)

definition answers :: "lookup \<Rightarrow> string list \<Rightarrow> bool" where
  "answers ask cs \<longleftrightarrow> list_all (\<lambda>c. \<forall>d. returns (ask c d)) cs"

lemma answers_append [simp]: "answers ask (xs @ ys) \<longleftrightarrow> answers ask xs \<and> answers ask ys"
  by (simp add: answers_def)

lemma answers_simps [simp]: "answers ask []" "answers ask (c # cs) \<longleftrightarrow> (\<forall>d. returns (ask c d)) \<and> answers ask cs"
  by (simp_all add: answers_def)

lemma idTargetPath_returns: "answers ask (id_asks wb t) \<Longrightarrow> returns (idTargetPath ask wb t)"
  unfolding idTargetPath_def id_asks_def Let_def
  by (auto intro!: first_path_returns simp del: first_path.simps split: option.splits prod.splits if_splits)

lemma wireboxID_returns: "answers ask (wirebox_asks w c) \<Longrightarrow> returns (wireboxID ask w c d)"
  unfolding wireboxID_def wirebox_asks_def Let_def
  by (auto simp: idTargetPath_returns split: option.splits prod.splits)

lemma inModuleMapping_returns: "answers ask (mapping_asks w c) \<Longrightarrow> returns (inModuleMapping ask w c)"
  unfolding inModuleMapping_def mapping_asks_def
  by (auto split: option.splits prod.splits if_splits)

lemma lastResortPath_returns:
  assumes "bare c \<longrightarrow> answers ask (map (\<lambda>pkg. pkg @ ''.'' @ c) (IDPackages w))"
  shows "returns (lastResortPath ask w c d)"
  unfolding lastResortPath_def
  using assms by (auto intro!: first_path_returns simp: answers_def list_all_iff simp del: first_path.simps split: option.splits)

lemma componentPathUncached_returns: "answers ask (asks w c) \<Longrightarrow> returns (componentPathUncached ask w c d)"
  unfolding componentPathUncached_def asks_def Let_def
  by (auto intro!: first_path_returns
      simp: wireboxID_returns inModuleMapping_returns lastResortPath_returns simp del: first_path.simps split: if_splits)

section \<open>More bound changes no answer\<close>

text \<open>The order of the searches: one that answers what another does and maybe more.\<close>

definition extends :: "lookup \<Rightarrow> lookup \<Rightarrow> bool" where
  "extends ask ask' \<longleftrightarrow> (\<forall>c d p. ask c d = Some p \<longrightarrow> ask' c d = Some p)"

definition below :: "'a option \<Rightarrow> 'a option \<Rightarrow> bool" where
  "below x y \<longleftrightarrow> x = None \<or> x = y"

lemma below_simps [simp]: "below x x" "below None y"
  by (simp_all add: below_def)

lemma below_map: "below x y \<Longrightarrow> below (map_option f x) (map_option f y)"
  by (auto simp: below_def)

lemma first_path_below: "list_all2 below ps qs \<Longrightarrow> below (first_path ps) (first_path qs)"
proof (induction ps qs rule: list_all2_induct)
  case (Cons p ps q qs)
  then show ?case by (cases p) (auto simp: below_def split: if_splits)
qed simp

lemma below_ask: "extends ask ask' \<Longrightarrow> below (ask c d) (ask' c d)"
  by (cases "ask c d") (auto simp: extends_def below_def)

lemma idTargetPath_below: "extends ask ask' \<Longrightarrow> below (idTargetPath ask wb t) (idTargetPath ask' wb t)"
  using below_ask[of ask ask'] unfolding idTargetPath_def Let_def
  by (auto intro!: first_path_below simp del: first_path.simps split: option.splits)

lemma wireboxID_below: "extends ask ask' \<Longrightarrow> below (wireboxID ask w c d) (wireboxID ask' w c d)"
  using below_ask[of ask ask'] unfolding wireboxID_def Let_def
  by (auto simp: below_map idTargetPath_below split: option.splits prod.splits)

lemma inModuleMapping_below: "extends ask ask' \<Longrightarrow> below (inModuleMapping ask w c) (inModuleMapping ask' w c)"
  using below_ask[of ask ask'] unfolding inModuleMapping_def by (auto split: option.splits prod.splits)

lemma lastResortPath_below: "extends ask ask' \<Longrightarrow> below (lastResortPath ask w c d) (lastResortPath ask' w c d)"
  using below_ask[of ask ask'] unfolding lastResortPath_def
  by (auto intro!: first_path_below simp: list_all2_append list.rel_refl list_all2_map1 list_all2_map2 list_all2_same
      simp del: first_path.simps split: option.splits)

lemma componentPathUncached_below:
  "extends ask ask' \<Longrightarrow> below (componentPathUncached ask w c d) (componentPathUncached ask' w c d)"
  using below_ask[of ask ask'] unfolding componentPathUncached_def Let_def
  by (auto intro!: first_path_below simp: below_map wireboxID_below inModuleMapping_below lastResortPath_below
      simp del: first_path.simps)

lemma search_below: "extends ask ask' \<Longrightarrow> below (search ask w c d) (search ask' w c d)"
  unfolding search_def Let_def
  by (auto intro!: first_path_below simp: componentPathUncached_below list_all2_map1 list_all2_map2 list_all2_same)

lemma ComponentPath_below: "below (ComponentPath n w c d) (ComponentPath (Suc n) w c d)"
proof (induction n arbitrary: c d)
  case (Suc n)
  then have "extends (ComponentPath n w) (ComponentPath (Suc n) w)"
    unfolding extends_def below_def by (metis option.distinct(1))
  from search_below[OF this] show ?case by (simp only: ComponentPath.simps(2))
qed simp

lemma ComponentPath_more:
  assumes "ComponentPath n w c d = Some p" "n \<le> m"
  shows "ComponentPath m w c d = Some p"
  using assms(2,1)
proof (induction m rule: dec_induct)
  case (step m)
  then show ?case using ComponentPath_below[of m w c d] by (simp add: below_def del: ComponentPath.simps)
qed

section \<open>When the search ends\<close>

lemma Cut_less: "Cut c d = Some (first, rest) \<Longrightarrow> length rest < length c \<and> length first < length c"
  by (auto simp: Cut_def index_byte_Some)

text \<open>Cutting the modules' mappings off the front of a name stops before its last segment.\<close>

function settled :: "wireboxWorkspace \<Rightarrow> string \<Rightarrow> bool" where
  "settled wb c \<longleftrightarrow> \<not> HasPrefix c EntityPrefix \<and> \<not> HasPrefix c MockPrefix \<and>
     (case Cut c (CHR ''.'') of None \<Rightarrow> False
      | Some (first, rest) \<Rightarrow> get (cfmappings wb) (ToLower first) = None \<or> settled wb rest)"
  by pat_completeness auto

termination by (relation "measure (\<lambda>(wb, c). length c)") (auto dest: Cut_less)

declare settled.simps [simp del]

definition safe :: "wireboxWorkspace \<Rightarrow> string \<Rightarrow> bool" where
  "safe wb c \<longleftrightarrow> settled wb c \<and> CHR ''@'' \<notin> set c \<and> CHR ''|'' \<notin> set c"

text \<open>The names that do not get shorter settle: the targets of ids, and the packages of frameworks.\<close>

definition wirebox_of :: "world \<Rightarrow> wireboxWorkspace" where
  "wirebox_of w = (case wirebox w of None \<Rightarrow> \<lparr>namespaces = [], cfmappings = [], ids = []\<rparr> | Some wb \<Rightarrow> wb)"

definition ids_settle :: "world \<Rightarrow> bool" where
  "ids_settle w \<longleftrightarrow>
     list_all (\<lambda>(_, t). list_all (safe (wirebox_of w)) (id_asks (wirebox_of w) t)) (ids (wirebox_of w)) \<and>
     list_all (\<lambda>pkg. safe (wirebox_of w) (pkg @ ''.'')) (IDPackages w)"

lemma prefix_dotted:
  assumes "CHR ''.'' \<notin> set p"
  shows "HasPrefix (s @ CHR ''.'' # c) p \<longleftrightarrow> HasPrefix s p"
proof -
  have "take (length p) (s @ CHR ''.'' # c) = p \<Longrightarrow> length p \<le> length s"
  proof (rule ccontr)
    assume t: "take (length p) (s @ CHR ''.'' # c) = p" and n: "\<not> length p \<le> length s"
    then have "p ! length s = CHR ''.''" by (metis linorder_not_le nth_append_length nth_take)
    then show False using assms n by (metis linorder_not_le nth_mem)
  qed
  moreover have "take (length p) s = p \<Longrightarrow> length p \<le> length s" by (metis length_take min.cobounded1)
  ultimately show ?thesis by (cases "length p \<le> length s") (simp, blast)
qed

lemma Cut_dotted:
  "Cut (s @ CHR ''.'' # c) (CHR ''.'') =
     (case Cut s (CHR ''.'') of None \<Rightarrow> Some (s, c) | Some (first, rest) \<Rightarrow> Some (first, rest @ CHR ''.'' # c))"
proof (cases "index_byte s (CHR ''.'')")
  case None
  then have "index_byte (s @ CHR ''.'' # c) (CHR ''.'') = Some (length s)"
    by (auto simp: index_byte_Some nth_append)
  then show ?thesis using None by (simp add: Cut_def del: index_byte_None)
next
  case (Some i)
  then have "index_byte (s @ CHR ''.'' # c) (CHR ''.'') = Some i" by (auto simp: index_byte_Some nth_append)
  moreover have "i < length s" using Some by (simp add: index_byte_Some)
  ultimately show ?thesis using Some by (simp add: Cut_def)
qed

lemma Cut_nil: "Cut [] c = None"
  by (simp add: Cut_def)

lemma settled_package: "settled wb (pkg @ ''.'') \<Longrightarrow> settled wb (pkg @ CHR ''.'' # c)"
proof (induction "length pkg" arbitrary: pkg rule: less_induct)
  case less
  have nodot: "CHR ''.'' \<notin> set EntityPrefix" "CHR ''.'' \<notin> set MockPrefix" by code_simp+
  note E = settled.simps[of wb "pkg @ _"] Cut_dotted prefix_dotted[OF nodot(1)] prefix_dotted[OF nodot(2)]
  show ?case
  proof (cases "Cut pkg (CHR ''.'')")
    case None
    then show ?thesis using less.prems unfolding E None by (simp add: settled.simps[of wb "[]"] Cut_nil)
  next
    case (Some r)
    obtain first rest where r: "r = (first, rest)" by (cases r)
    have "length rest < length pkg" using Cut_less Some r by blast
    from less.hyps[OF this] show ?thesis using less.prems unfolding E Some r by (simp only: option.case prod.case) blast
  qed
qed

lemma safe_dotted: "safe wb c \<Longrightarrow> CHR ''.'' \<in> set c \<and> CHR ''@'' \<notin> set c \<and> \<not> HasPrefix c EntityPrefix \<and> \<not> HasPrefix c MockPrefix"
proof -
  assume s: "safe wb c"
  then have "Cut c (CHR ''.'') \<noteq> None" unfolding safe_def settled.simps[of wb c] by (cases "Cut c (CHR ''.'')") simp_all
  then have "index_byte c (CHR ''.'') \<noteq> None" by (auto simp: Cut_def simp del: index_byte_None)
  then show ?thesis using s by (simp add: safe_def settled.simps[of wb c])
qed

lemma Cut_rest_set: "Cut c d = Some (first, rest) \<Longrightarrow> set rest \<subseteq> set c"
  by (auto simp: Cut_def dest: in_set_dropD)

lemma mapping_asks_safe:
  assumes "safe (wirebox_of w) c" "x \<in> set (mapping_asks w c)"
  shows "safe (wirebox_of w) x \<and> length x < length c"
proof -
  obtain first rest wb d where c: "Cut c (CHR ''.'') = Some (first, rest)" "wirebox w = Some wb"
    "get (cfmappings wb) (ToLower first) = Some d" "x = rest"
    using assms(2) by (cases "Cut c (CHR ''.'')"; cases "wirebox w") (auto simp: mapping_asks_def split: if_splits)
  then have "wirebox_of w = wb" by (simp add: wirebox_of_def)
  then have "settled wb rest" using assms(1) c by (simp add: safe_def settled.simps[of wb c])
  then show ?thesis using assms(1) c Cut_less[OF c(1)] Cut_rest_set[OF c(1)] \<open>wirebox_of w = wb\<close> by (auto simp: safe_def)
qed

lemma wirebox_asks_bound:
  assumes "ids_settle w" "x \<in> set (wirebox_asks w c)"
  shows "safe (wirebox_of w) x \<or> length x < length c"
proof (cases "mapped_id w c")
  case None
  then show ?thesis using assms(2) Cut_less by (cases "Cut c (CHR ''@'')") (auto simp: wirebox_asks_def)
next
  case (Some r)
  then obtain wb t where r: "r = (wb, t)" "wirebox w = Some wb" "get (ids wb) (ToLower c) = Some t"
    by (auto simp: mapped_id_def split: option.splits if_splits)
  then have "(ToLower c, t) \<in> set (ids (wirebox_of w))" "wirebox_of w = wb" by (auto simp: wirebox_of_def map_of_SomeD)
  then have "list_all (safe wb) (id_asks wb t)" using assms(1) by (auto simp: ids_settle_def list_all_iff)
  then show ?thesis using assms(2) Some r \<open>wirebox_of w = wb\<close> by (simp add: wirebox_asks_def list_all_iff)
qed

lemma asks_safe: "safe (wirebox_of w) c \<Longrightarrow> x \<in> set (asks w c) \<Longrightarrow> safe (wirebox_of w) x \<and> length x < length c"
proof -
  assume s: "safe (wirebox_of w) c" and x: "x \<in> set (asks w c)"
  note d = safe_dotted[OF s]
  have "mapped_id w c = None" using d by (auto simp: mapped_id_def split: option.splits)
  moreover have "Cut c (CHR ''@'') = None" using d by (simp add: Cut_def)
  ultimately have "x \<in> set (mapping_asks w c)" using x d by (simp add: asks_def wirebox_asks_def bare_def)
  then show ?thesis using mapping_asks_safe[OF s] by blast
qed

lemma mapping_asks_less: "x \<in> set (mapping_asks w c) \<Longrightarrow> length x < length c"
  by (cases "Cut c (CHR ''.'')"; cases "wirebox w") (auto simp: mapping_asks_def Cut_less split: if_splits)

lemma asks_bound:
  assumes "ids_settle w" "CHR ''|'' \<notin> set c" "x \<in> set (asks w c)"
  shows "safe (wirebox_of w) x \<or> length x < length c"
proof -
  have pkg: "safe (wirebox_of w) (pkg @ CHR ''.'' # c)" if "pkg \<in> set (IDPackages w)" "CHR ''@'' \<notin> set c" for pkg
    using assms(1,2) that settled_package[of "wirebox_of w" pkg c]
    by (auto simp: ids_settle_def list_all_iff safe_def)
  have entity: "0 < length EntityPrefix" by code_simp
  have "HasPrefix c EntityPrefix \<Longrightarrow> 0 < length c" using entity by auto
  then show ?thesis
    using assms(3) wirebox_asks_bound[OF assms(1)] mapping_asks_less pkg entity
    by (auto simp: asks_def split: if_splits)
qed

lemma answers_bound:
  "list_all (\<lambda>x. \<exists>n. \<forall>d. returns (ComponentPath n w x d)) xs \<Longrightarrow> \<exists>n. answers (ComponentPath n w) xs"
proof (induction xs)
  case (Cons x xs)
  then obtain n m where n: "\<forall>d. returns (ComponentPath n w x d)" and m: "answers (ComponentPath m w) xs" by auto
  have more: "returns (ComponentPath (max n m) w c d)" if "returns (ComponentPath k w c d)" "k \<le> max n m" for k c d
    using that unfolding returns_def by (metis ComponentPath_more option.exhaust option.distinct(1))
  have "\<forall>d. returns (ComponentPath (max n m) w x d)" using n more[of n x] by simp
  moreover have "answers (ComponentPath (max n m) w) xs"
    using m more[of m] unfolding answers_def list_all_iff by (meson max.cobounded2)
  ultimately have "answers (ComponentPath (max n m) w) (x # xs)" by simp
  then show ?case by blast
qed (auto simp: answers_def)

lemma split_on_part: "p \<in> set (split_on d s) \<Longrightarrow> d \<notin> set p \<and> length p \<le> length s"
proof (induction s arbitrary: p)
  case (Cons c s)
  obtain l ls where S: "split_on d s = l # ls" by (cases "split_on d s") auto
  have IH: "d \<notin> set q \<and> length q \<le> length s" if "q \<in> set (l # ls)" for q using Cons.IH[of q] that S by simp
  show ?case
  proof (cases "p \<in> set (l # ls)")
    case True
    then show ?thesis using IH[of p] by simp
  next
    case False
    then have "p = [] \<or> c \<noteq> d \<and> p = c # l" using Cons.prems S by (auto split: if_splits)
    then show ?thesis using IH[of l] by auto
  qed
qed simp

lemma named_plain: "ExpressionMappings w = [] \<Longrightarrow> named w c = TrimPrefix c MockPrefix"
  by (simp add: named_def ExpressionMappingOrder_def)

definition rank :: "wireboxWorkspace \<Rightarrow> string \<Rightarrow> nat \<times> nat" where
  "rank wb c = ((if safe wb c then 0 else 1), length c)"

definition alternatives :: "world \<Rightarrow> string \<Rightarrow> string list" where
  "alternatives w c = (if CHR ''|'' \<in> set (named w c) then split_on (CHR ''|'') (named w c) else [named w c])"

lemma search_returns: "list_all (\<lambda>a. answers ask (asks w a)) (alternatives w c) \<Longrightarrow> returns (search ask w c d)"
  unfolding search_def alternatives_def Let_def
  by (auto intro!: first_path_returns simp: componentPathUncached_returns list_all_iff)

lemma alternatives_asks:
  assumes "ids_settle w" "ExpressionMappings w = []" "a \<in> set (alternatives w c)" "x \<in> set (asks w a)"
  shows "(rank (wirebox_of w) x, rank (wirebox_of w) c) \<in> less_than <*lex*> less_than"
proof -
  let ?wb = "wirebox_of w"
  have len: "length (named w c) \<le> length c" using assms(2) by (simp add: named_plain TrimPrefix_def)
  show ?thesis
  proof (cases "safe ?wb c")
    case True
    then have "named w c = c" using safe_dotted[OF True] by (simp add: named_plain[OF assms(2)] TrimPrefix_def)
    then have "a = c" using True assms(3) by (simp add: alternatives_def safe_def)
    then show ?thesis using asks_safe[OF True] assms(4) by (simp add: rank_def)
  next
    case False
    have a: "CHR ''|'' \<notin> set a" "length a \<le> length c"
      using assms(3) split_on_part len by (fastforce simp: alternatives_def split: if_splits)+
    then show ?thesis using asks_bound[OF assms(1) a(1) assms(4)] False by (auto simp: rank_def)
  qed
qed

lemma ComponentPath_ends:
  assumes "ids_settle w" "ExpressionMappings w = []"
  shows "\<exists>n. \<forall>d. returns (ComponentPath n w c d)"
proof (induction c rule: wf_induct_rule[OF wf_inv_image[of "less_than <*lex*> less_than" "rank (wirebox_of w)"]])
  case 1
  show ?case by (simp add: wf_lex_prod)
next
  case (2 c)
  then have "list_all (\<lambda>x. \<exists>n. \<forall>d. returns (ComponentPath n w x d)) (concat (map (asks w) (alternatives w c)))"
    using alternatives_asks[OF assms] by (auto simp: list_all_iff in_inv_image)
  from answers_bound[OF this] obtain n where "answers (ComponentPath n w) (concat (map (asks w) (alternatives w c)))" ..
  then have "list_all (\<lambda>a. answers (ComponentPath n w) (asks w a)) (alternatives w c)"
    by (auto simp: answers_def list_all_iff)
  then have "\<forall>d. returns (ComponentPath (Suc n) w c d)" using search_returns by simp
  then show ?case ..
qed

section \<open>Properties\<close>

text \<open>
  C29: The search for a component ends, whatever the file system, the index and the frameworks hold, where
  no expression mappings are configured and the targets of WireBox ids and the packages of frameworks
  cannot lead back to a bare name; and a larger bound gives the same answer.\<close>

theorem ComponentPath_returns:
  assumes "ExpressionMappings w = []" "ids_settle w"
  shows "\<exists>n p. \<forall>m. n \<le> m \<longrightarrow> ComponentPath m w component baseDir = Some p"
proof -
  obtain n where "\<forall>d. returns (ComponentPath n w component d)" using ComponentPath_ends[OF assms(2,1)] by blast
  then obtain p where "ComponentPath n w component baseDir = Some p" by (auto simp: returns_def)
  then show ?thesis using ComponentPath_more by blast
qed

text \<open>A workspace with one file, and what its WireBox files map.\<close>

definition sample_world :: "(string, string) gomap \<Rightarrow> (string, idTarget) gomap \<Rightarrow> world" where
  "sample_world cf m =
     \<lparr>Stat = (\<lambda>p. if p = ''/app/models/Mailer.cfc'' then Some False else None),
      Listing = (\<lambda>d. if d = ''/app'' then Some [''models''] else if d = ''/app/models'' then Some [''Mailer.cfc''] else None),
      IsDirEntry = (\<lambda>p. p = ''/app/models''),
      WorkspaceFolders = [], Mappings = [], callerMappings = None, ExpressionMappings = [], Idx = None,
      wirebox = Some \<lparr>namespaces = [], cfmappings = cf, ids = m\<rparr>, LoadAppMappings = (\<lambda>_. []),
      boxSlug = (\<lambda>_. []), lucliModuleName = (\<lambda>_. []), StubPath = (\<lambda>_. []), Namespaced = (\<lambda>_. []),
      IsStub = (\<lambda>_. False), IDPackages = [''coldbox.system''], FromURI = id, ToURI = id\<rparr>"

lemma ComponentPath_returns_witness:
  "(let w = sample_world [] [(''mail'', \<lparr>target_path = ''#moduleMapping#.models.Mailer'', target_dir = ''/app''\<rparr>)]
    in ids_settle w \<and> ComponentPath 3 w ''mail'' ''/'' = Some ''/app/models/Mailer.cfc'' \<and>
       (\<exists>n p. \<forall>m. n \<le> m \<longrightarrow> ComponentPath m w ''mail'' ''/'' = Some p))"
proof -
  let ?w = "sample_world [] [(''mail'', \<lparr>target_path = ''#moduleMapping#.models.Mailer'', target_dir = ''/app''\<rparr>)]"
  have s: "ids_settle ?w" by code_simp
  moreover have "ComponentPath 3 ?w ''mail'' ''/'' = Some ''/app/models/Mailer.cfc''" by code_simp
  ultimately show ?thesis using ComponentPath_returns[OF _ s, of "''mail''" "''/''"] by (simp add: sample_world_def)
qed

text \<open>
  \<open>map( "a" ).to( "b" )\<close> and \<open>map( "b" ).to( "a" )\<close>, with no file of either name: the search for one asks for the
  other, and no bound is enough.\<close>

definition looping_world :: world where
  "looping_world = sample_world [] [(''a'', \<lparr>target_path = ''b'', target_dir = ''/''\<rparr>), (''b'', \<lparr>target_path = ''a'', target_dir = ''/''\<rparr>)]"

lemma looping_step:
  "ask ''b'' ''/'' = None \<Longrightarrow> search ask looping_world ''a'' ''/'' = None"
  "ask ''a'' ''/'' = None \<Longrightarrow> search ask looping_world ''b'' ''/'' = None"
proof -
  let ?w = looping_world
  have m: "effectiveMappings ?w ''/'' = []" "FindApplicationRoot ?w ''/'' = []" by code_simp+
  have a: "named ?w ''a'' = ''a''" "ResolvePath (Listing ?w) ''a'' ''/'' [] = []" "in_roots ?w ''a'' (WorkspaceFolders ?w) [] = []"
    "inFolderNamed ?w ''a'' = []" "slugRoot ?w ''a'' ''/'' = None" "lucliModuleRoot ?w ''a'' ''/'' = None"
    "StubPath ?w ''a'' = []" "Namespaced ?w ''a'' = []" "Stat ?w ''a'' = None" "HasPrefix ''a'' EntityPrefix = False"
    "inModuleMapping ask ?w ''a'' = Some []" by code_simp+
  have b: "named ?w ''b'' = ''b''" "ResolvePath (Listing ?w) ''b'' ''/'' [] = []" "in_roots ?w ''b'' (WorkspaceFolders ?w) [] = []"
    "inFolderNamed ?w ''b'' = []" "slugRoot ?w ''b'' ''/'' = None" "lucliModuleRoot ?w ''b'' ''/'' = None"
    "StubPath ?w ''b'' = []" "Namespaced ?w ''b'' = []" "Stat ?w ''b'' = None" "HasPrefix ''b'' EntityPrefix = False"
    "inModuleMapping ask ?w ''b'' = Some []" by code_simp+
  have w: "wireboxID ask ?w ''a'' ''/'' = map_option (\<lambda>p. (p, True)) (first_path [Some [], ask ''b'' ''/''])"
    "wireboxID ask ?w ''b'' ''/'' = map_option (\<lambda>p. (p, True)) (first_path [Some [], ask ''a'' ''/''])"
    by code_simp+
  show "ask ''b'' ''/'' = None \<Longrightarrow> search ask ?w ''a'' ''/'' = None"
    unfolding search_def componentPathUncached_def a(1) m Let_def by (simp add: a w)
  show "ask ''a'' ''/'' = None \<Longrightarrow> search ask ?w ''b'' ''/'' = None"
    unfolding search_def componentPathUncached_def b(1) m Let_def by (simp add: b w)
qed

lemma ComponentPath_loops: "ComponentPath n looping_world ''a'' ''/'' = None"
proof -
  have "ComponentPath n looping_world ''a'' ''/'' = None \<and> ComponentPath n looping_world ''b'' ''/'' = None"
    by (induction n) (simp_all add: looping_step)
  then show ?thesis ..
qed

end
