(* ===== verification/Includes.thy ===== *)
theory Includes
  imports Component_Path Code_Map_Props
begin

text \<open>
  What a file can reach through \<open>cfinclude\<close> (\<open>internal/resolve/includes.go\<close>): the template a path in a file means,
  the graph of every include in the index, and the files whose functions are in scope in one of them.
\<close>

section \<open>Templates\<close>

definition pathKey :: "string \<Rightarrow> string" where
  "pathKey p = ToLower (path_clean p)"

definition is_file :: "world \<Rightarrow> string \<Rightarrow> bool" where
  "is_file w c \<longleftrightarrow> Stat w c = Some False"

definition include_candidates :: "world \<Rightarrow> string \<Rightarrow> string \<Rightarrow> string list" where
  "include_candidates w raw baseDir =
     (let appDir = FindApplicationRoot w baseDir; trimmed = TrimPrefix raw ''/''
      in [path_join [baseDir, raw]] @
         (if appDir \<noteq> [] then [path_join [appDir, raw]] else []) @
         (case Cut trimmed (CHR ''/'') of None \<Rightarrow> []
          | Some (seg, rest) \<Rightarrow>
              if seg = [] then []
              else map (\<lambda>(key, dir). path_join [dir, rest])
                     (filter (\<lambda>(key, dir). EqualFold (Trim key (CHR ''/'')) seg) (effectiveMappings w baseDir)) @
                   (case slugRoot w (seg @ ''.x'') baseDir of None \<Rightarrow> [] | Some (root, _) \<Rightarrow> [path_join [root, rest]])) @
         map (\<lambda>root. path_join [root, trimmed]) (WorkspaceFolders w) @
         InFolderNamed (WorkspaceFolders w) trimmed)"

definition includePathUncached :: "world \<Rightarrow> string \<Rightarrow> string \<Rightarrow> string" where
  "includePathUncached w raw baseDir =
     (case find (is_file w) (include_candidates w raw baseDir) of None \<Rightarrow> [] | Some c \<Rightarrow> c)"

definition IncludePath :: "world \<Rightarrow> string \<Rightarrow> string \<Rightarrow> string" where
  "IncludePath w raw fromFile =
     (let raw = TrimSpace raw
      in if raw = [] \<or> CHR ''#'' \<in> set raw \<or> Contains raw ''://'' then []
         else includePathUncached w raw (path_dir fromFile))"

text \<open>\<open>sub/*.cfm\<close> is every template of the directory beside the file.\<close>

definition includeTargets :: "world \<Rightarrow> string \<Rightarrow> string \<Rightarrow> string list" where
  "includeTargets w raw fromFile =
     (case index_of raw ''/*'' of
        None \<Rightarrow> (let target = IncludePath w raw fromFile in if target \<noteq> [] then [target] else [])
      | Some i \<Rightarrow>
          let dir = take i raw; pattern = drop (i + 2) raw; listed = path_join [path_dir fromFile, dir]
          in if pattern \<noteq> ''.cfm'' \<or> CHR ''*'' \<in> set dir \<or> CHR ''#'' \<in> set dir then []
             else (case Listing w listed of None \<Rightarrow> []
               | Some names \<Rightarrow>
                   sort (map (\<lambda>name. path_join [listed, name])
                     (filter (\<lambda>name. \<not> IsDirEntry w (path_join [listed, name]) \<and> EqualFold (path_ext name) ''.cfm'') names))))"

section \<open>The graph\<close>

record includeGraph =
  fwd :: adj
  rev_links :: adj
  spelled :: "(string, string) gomap"

definition add_include :: "string \<Rightarrow> includeGraph \<Rightarrow> string \<Rightarrow> includeGraph" where
  "add_include file g target =
     g\<lparr>spelled := put (pathKey target) target (spelled g),
       fwd := add_edge (pathKey file) (pathKey target) (fwd g),
       rev_links := add_edge (pathKey target) (pathKey file) (rev_links g)\<rparr>"

definition add_file :: "world \<Rightarrow> uri \<Rightarrow> string list \<Rightarrow> includeGraph \<Rightarrow> includeGraph" where
  "add_file w fileURI raws g =
     (let file = FromURI w fileURI
      in foldl (add_include file) (g\<lparr>spelled := put (pathKey file) file (spelled g)\<rparr>)
           (concat (map (\<lambda>raw. includeTargets w raw file) raws)))"

definition includes_graph :: "world \<Rightarrow> index \<Rightarrow> includeGraph" where
  "includes_graph w ix = fst (ForEachInclude ix (add_file w) \<lparr>fwd = [], rev_links = [], spelled = []\<rparr>)"

text \<open>The recursive walk down, as the list of what it is to visit next.\<close>

definition to_visit :: "adj \<Rightarrow> string list \<Rightarrow> string list \<Rightarrow> string set" where
  "to_visit a seen stack = ({n. \<exists>k. n \<in> set (get_list a k)} \<union> set stack) - set seen"

lemma finite_to_visit: "finite (to_visit a seen stack)"
  by (simp add: to_visit_def finite_targets)

function walk_down :: "adj \<Rightarrow> string list \<Rightarrow> string list \<Rightarrow> string list" where
  "walk_down a seen [] = seen"
| "walk_down a seen (k # ks) =
     (if k \<in> set seen then walk_down a seen ks else walk_down a (k # seen) (get_list a k @ ks))"
  by pat_completeness auto
termination
proof (relation "measures [\<lambda>(a, seen, stack). card (to_visit a seen stack), \<lambda>(a, seen, stack). length stack]", goal_cases)
  case (2 a seen k ks)
  then have "to_visit a seen ks = to_visit a seen (k # ks)" by (auto simp: to_visit_def)
  then show ?case by simp
next
  case (3 a seen k ks)
  then have "to_visit a (k # seen) (get_list a k @ ks) \<subseteq> to_visit a seen (k # ks) - {k}" "k \<in> to_visit a seen (k # ks)"
    by (auto simp: to_visit_def)
  then have "card (to_visit a (k # seen) (get_list a k @ ks)) < card (to_visit a seen (k # ks))"
    by (meson card_Diff1_less card_mono finite_Diff finite_to_visit le_less_trans)
  then show ?case by simp
qed simp

definition includeScope :: "includeGraph \<Rightarrow> string \<Rightarrow> string list" where
  "includeScope g file =
     (let start = pathKey file;
          roots = bfs True (rev_links g) [(start, True)] [start];
          seen = walk_down (fwd g) [] (map fst roots)
      in sort (map (\<lambda>k. case get (spelled g) k of None \<Rightarrow> [] | Some p \<Rightarrow> p) (remove1 start seen)))"

section \<open>What is in scope\<close>

lemma walk_down_reach:
  "arcs a `` set seen \<subseteq> set seen \<union> set stack \<Longrightarrow> set seen \<subseteq> S \<Longrightarrow> S = set seen \<union> (arcs a)\<^sup>* `` set stack \<Longrightarrow>
   set (walk_down a seen stack) = S"
proof (induction a seen stack arbitrary: S rule: walk_down.induct)
  case (2 a seen k ks)
  have k: "set (get_list a k) = arcs a `` {k}" by (auto simp: arcs_def)
  show ?case
  proof (cases "k \<in> set seen")
    case True
    have "(arcs a)\<^sup>* `` {k} \<subseteq> set seen \<union> (arcs a)\<^sup>* `` set ks"
    proof
      fix y assume "y \<in> (arcs a)\<^sup>* `` {k}"
      then have "(k, y) \<in> (arcs a)\<^sup>*" by simp
      then show "y \<in> set seen \<union> (arcs a)\<^sup>* `` set ks"
        by (rule closed_rtrancl) (use True "2.prems"(1) in \<open>auto intro: rtrancl_into_rtrancl\<close>)
    qed
    then have "set seen \<union> (arcs a)\<^sup>* `` set (k # ks) = set seen \<union> (arcs a)\<^sup>* `` set ks" by auto
    moreover have "arcs a `` set seen \<subseteq> set seen \<union> set ks" using "2.prems"(1) True by auto
    ultimately show ?thesis using 2(1)[OF True] "2.prems"(2,3) True by simp
  next
    case False
    have "(arcs a)\<^sup>* `` {k} = insert k ((arcs a)\<^sup>* `` (arcs a `` {k}))"
      by (auto elim: converse_rtranclE intro: converse_rtrancl_into_rtrancl)
    then have "set seen \<union> (arcs a)\<^sup>* `` set (k # ks) = set (k # seen) \<union> (arcs a)\<^sup>* `` set (get_list a k @ ks)"
      unfolding set_append k by auto
    then show ?thesis using 2(2)[OF False, of S] "2.prems" False by (auto simp: k)
  qed
qed simp

lemma walk_down_distinct: "distinct seen \<Longrightarrow> distinct (walk_down a seen stack)"
  by (induction a seen stack rule: walk_down.induct) simp_all

text \<open>The includes the index knows, from file to file.\<close>

definition included :: "world \<Rightarrow> index \<Rightarrow> (string \<times> string) set" where
  "included w ix =
     {(pathKey (FromURI w (incURI inc)), pathKey target) |inc raw target.
        inc \<in> snd ` set (includeMap ix) \<and> raw \<in> set (incPaths inc) \<and>
        target \<in> set (includeTargets w raw (FromURI w (incURI inc)))}"

definition graph_links :: "includeGraph \<Rightarrow> (string \<times> string) set \<Rightarrow> bool" where
  "graph_links g R \<longleftrightarrow> arcs (fwd g) = R \<and> arcs (rev_links g) = R\<inverse> \<and> Field R \<subseteq> dom (get (spelled g)) \<and>
     (\<forall>k p. get (spelled g) k = Some p \<longrightarrow> pathKey p = k)"

lemma add_include_links:
  assumes "graph_links g R" "pathKey includer \<in> dom (get (spelled g))"
  shows "graph_links (add_include includer g target) (insert (pathKey includer, pathKey target) R)"
    "pathKey includer \<in> dom (get (spelled (add_include includer g target)))"
  using assms by (auto simp: graph_links_def add_include_def Field_def)

lemma add_includes_links:
  "graph_links g R \<Longrightarrow> pathKey includer \<in> dom (get (spelled g)) \<Longrightarrow>
     graph_links (foldl (add_include includer) g targets) (R \<union> {(pathKey includer, pathKey t) |t. t \<in> set targets})"
proof (induction targets arbitrary: g R)
  case (Cons t ts)
  have "insert (pathKey includer, pathKey t) R \<union> {(pathKey includer, pathKey u) |u. u \<in> set ts} =
      R \<union> {(pathKey includer, pathKey u) |u. u \<in> set (t # ts)}" by auto
  with Cons.IH[OF add_include_links[where includer = includer and target = t, OF Cons.prems]] show ?case by simp
qed simp

definition file_includes :: "world \<Rightarrow> fileIncludes \<Rightarrow> (string \<times> string) set" where
  "file_includes w inc =
     {(pathKey (FromURI w (incURI inc)), pathKey target) |raw target.
        raw \<in> set (incPaths inc) \<and> target \<in> set (includeTargets w raw (FromURI w (incURI inc)))}"

lemma add_file_links:
  assumes "graph_links g R"
  shows "graph_links (add_file w (incURI inc) (incPaths inc) g) (R \<union> file_includes w inc)"
proof -
  let ?file = "FromURI w (incURI inc)"
  have "graph_links (g\<lparr>spelled := put (pathKey ?file) ?file (spelled g)\<rparr>) R"
    using assms by (auto simp: graph_links_def)
  then have "graph_links (foldl (add_include ?file) (g\<lparr>spelled := put (pathKey ?file) ?file (spelled g)\<rparr>)
        (concat (map (\<lambda>raw. includeTargets w raw ?file) (incPaths inc))))
      (R \<union> {(pathKey ?file, pathKey t) |t. t \<in> set (concat (map (\<lambda>raw. includeTargets w raw ?file) (incPaths inc)))})"
    by (rule add_includes_links) (simp add: dom_def)
  moreover have "{(pathKey ?file, pathKey t) |t. t \<in> set (concat (map (\<lambda>raw. includeTargets w raw ?file) (incPaths inc)))} =
      file_includes w inc" by (auto simp: file_includes_def)
  ultimately show ?thesis by (simp add: add_file_def Let_def)
qed

lemma includes_graph_links: "graph_links (includes_graph w ix) (included w ix)"
proof -
  have "graph_links (foldl (\<lambda>g p. add_file w (incURI (snd p)) (incPaths (snd p)) g) g ps)
      (R \<union> (\<Union>p \<in> set ps. file_includes w (snd p)))" if "graph_links g R" for g R ps
    using that
  proof (induction ps arbitrary: g R)
    case (Cons p ps)
    from Cons.IH[OF add_file_links[OF Cons.prems, of w "snd p"]] show ?case by (simp add: Un_assoc)
  qed simp
  from this[of "\<lparr>fwd = [], rev_links = [], spelled = []\<rparr>" "{}" "includeMap ix"]
  have "graph_links (includes_graph w ix) (\<Union>p \<in> set (includeMap ix). file_includes w (snd p))"
    by (simp add: includes_graph_def ForEachInclude_def graph_links_def)
  moreover have "(\<Union>p \<in> set (includeMap ix). file_includes w (snd p)) = included w ix"
    by (auto simp: included_def file_includes_def)
  ultimately show ?thesis by simp
qed

text \<open>
  C30: The files in scope in a template are exactly those that some file that includes it, directly or
  through others, includes directly or through others, the template itself left out: by their real
  spelling, in order.\<close>

theorem includeScope_exact:
  "sorted (includeScope (includes_graph w ix) file) \<and>
   pathKey ` set (includeScope (includes_graph w ix) file) =
     {q. q \<noteq> pathKey file \<and> (\<exists>a. (a, pathKey file) \<in> (included w ix)\<^sup>* \<and> (a, q) \<in> (included w ix)\<^sup>*)}"
proof -
  define g where "g = includes_graph w ix"
  define R where "R = included w ix"
  define start where "start = pathKey file"
  have g: "arcs (fwd g) = R" "arcs (rev_links g) = R\<inverse>" "Field R \<subseteq> dom (get (spelled g))"
    "\<And>k p. get (spelled g) k = Some p \<Longrightarrow> pathKey p = k"
    using includes_graph_links[of w ix] by (auto simp: graph_links_def g_def R_def)
  let ?roots = "bfs True (rev_links g) [(start, True)] [start]"
  have d: "dom (get [(start, True)]) = {start}" by (auto simp: dom_def)
  have "get ?roots n = (if get [(start, True)] n = None \<and> n \<in> (R\<inverse>)\<^sup>* `` set [start] then Some True else get [(start, True)] n)" for n
    unfolding g(2)[symmetric] by (rule bfs_get) (simp_all only: d list.set, auto)
  then have "dom (get ?roots) = (R\<inverse>)\<^sup>* `` {start}" by (auto simp: dom_def split: if_splits)
  then have roots: "set (map fst ?roots) = {a. (a, start) \<in> R\<^sup>*}"
    by (auto simp: dom_map_of_conv_image_fst rtrancl_converse)
  let ?seen = "walk_down (fwd g) [] (map fst ?roots)"
  have seen: "set ?seen = R\<^sup>* `` {a. (a, start) \<in> R\<^sup>*}"
    using walk_down_reach[of "fwd g" "[]" "map fst ?roots", OF _ _ refl] unfolding g(1) roots by simp
  let ?spell = "\<lambda>k. case get (spelled g) k of None \<Rightarrow> [] | Some p \<Rightarrow> p"
  have scope: "set (remove1 start ?seen) = {q. q \<noteq> start \<and> (\<exists>a. (a, start) \<in> R\<^sup>* \<and> (a, q) \<in> R\<^sup>*)}"
    using seen walk_down_distinct[of "[]" "fwd g"] by auto
  have key: "pathKey (?spell q) = q" if "q \<noteq> start" "(a, start) \<in> R\<^sup>*" "(a, q) \<in> R\<^sup>*" for a q
  proof -
    have "q \<in> Field R"
    proof (cases "a = q")
      case True
      then show ?thesis using that(1,2) by (metis FieldI1 converse_rtranclE)
    next
      case False
      then show ?thesis using that(3) by (metis FieldI2 rtranclE)
    qed
    then have "q \<in> dom (get (spelled g))" using g(3) by blast
    then show ?thesis using g(4) by auto
  qed
  have I: "includeScope g file = sort (map ?spell (remove1 start ?seen))"
    unfolding includeScope_def Let_def start_def[symmetric] ..
  have "pathKey ` set (includeScope g file) = (\<lambda>q. pathKey (?spell q)) ` set (remove1 start ?seen)"
    unfolding I set_sort set_map image_image ..
  also have "\<dots> = (\<lambda>q. q) ` set (remove1 start ?seen)" by (rule image_cong[OF refl]) (use scope key in blast)
  finally have "pathKey ` set (includeScope g file) = set (remove1 start ?seen)" by simp
  moreover have "sorted (includeScope g file)" unfolding I by (rule sorted_sort)
  ultimately show ?thesis unfolding g_def[symmetric] R_def[symmetric] start_def[symmetric] scope by blast
qed

end
