(* ===== verification/Conn_Tracker.thy ===== *)
theory Conn_Tracker
  imports Main
begin

text \<open>
  The daemon's connection counter and the wait for the last client (daemon/conntracker.go). A channel
  is a number, \<open>closed\<close> are the channels closed so far and \<open>made\<close> is the number the next \<open>make\<close> gives;
  closing a closed channel panics in Go, which is \<open>None\<close>.

  The wait and the clients run concurrently. Each method holds the mutex throughout, so an execution is
  a sequence of whole method calls and of steps of the wait, in any order: \<open>daemon_step\<close>.
\<close>

section \<open>The tracker\<close>

record ConnTracker =
  count :: nat
  done_chan :: nat
  closed :: "nat list"
  made :: nat

definition NewConnTracker :: ConnTracker where
  "NewConnTracker = \<lparr>count = 0, done_chan = 0, closed = [], made = 1\<rparr>"

definition close_chan :: "nat \<Rightarrow> ConnTracker \<Rightarrow> ConnTracker option" where
  "close_chan c t = (if c \<in> set (closed t) then None else Some (t\<lparr>closed := c # closed t\<rparr>))"

definition Add :: "ConnTracker \<Rightarrow> ConnTracker" where
  "Add t =
     (let t' = (if count t = 0 \<and> done_chan t \<in> set (closed t)
                then t\<lparr>done_chan := made t, made := made t + 1\<rparr> else t)
      in t'\<lparr>count := count t' + 1\<rparr>)"

definition Remove :: "ConnTracker \<Rightarrow> ConnTracker option" where
  "Remove t =
     (if count t = 0 then Some t
      else let t' = t\<lparr>count := count t - 1\<rparr>
        in if count t' = 0 then
             (if done_chan t' \<in> set (closed t') then Some t' else close_chan (done_chan t') t')
           else Some t')"

definition Count :: "ConnTracker \<Rightarrow> nat" where
  "Count t = count t"

definition Done :: "ConnTracker \<Rightarrow> nat" where
  "Done t = done_chan t"

section \<open>The wait\<close>

text \<open>
  Where \<open>WaitForLastClient\<close> is: about to read \<open>ct.Done()\<close>, in the first \<open>select\<close> with the channel it
  read, in the second one, about to read \<open>ct.Count()\<close>, or back.
\<close>

datatype waiter = Reading | Selecting nat | Grace | Checking | Returned

record daemon =
  tracker :: ConnTracker
  cancelled :: bool
  waiter_at :: waiter
  served :: nat

text \<open>\<open>served\<close> counts the clients that ever connected; no code reads it.\<close>

inductive wait_step :: "daemon \<Rightarrow> daemon \<Rightarrow> bool" where
  read: "waiter_at d = Reading \<Longrightarrow> wait_step d (d\<lparr>waiter_at := Selecting (Done (tracker d))\<rparr>)"
| drained: "waiter_at d = Selecting c \<Longrightarrow> c \<in> set (closed (tracker d)) \<Longrightarrow> wait_step d (d\<lparr>waiter_at := Grace\<rparr>)"
| cancel1: "waiter_at d = Selecting c \<Longrightarrow> cancelled d \<Longrightarrow> wait_step d (d\<lparr>waiter_at := Returned\<rparr>)"
| timer: "waiter_at d = Grace \<Longrightarrow> wait_step d (d\<lparr>waiter_at := Checking\<rparr>)"
| cancel2: "waiter_at d = Grace \<Longrightarrow> cancelled d \<Longrightarrow> wait_step d (d\<lparr>waiter_at := Returned\<rparr>)"
| last: "waiter_at d = Checking \<Longrightarrow> Count (tracker d) = 0 \<Longrightarrow> wait_step d (d\<lparr>waiter_at := Returned\<rparr>)"
| again: "waiter_at d = Checking \<Longrightarrow> Count (tracker d) \<noteq> 0 \<Longrightarrow> wait_step d (d\<lparr>waiter_at := Reading\<rparr>)"

inductive_simps wait_step_iff: "wait_step d d'"

inductive daemon_step :: "daemon \<Rightarrow> daemon \<Rightarrow> bool" where
  connect: "daemon_step d (d\<lparr>tracker := Add (tracker d), served := served d + 1\<rparr>)"
| disconnect: "Remove (tracker d) = Some t \<Longrightarrow> daemon_step d (d\<lparr>tracker := t\<rparr>)"
| cancel: "daemon_step d (d\<lparr>cancelled := True\<rparr>)"
| wait: "wait_step d d' \<Longrightarrow> daemon_step d d'"

definition started :: daemon where
  "started = \<lparr>tracker = NewConnTracker, cancelled = False, waiter_at = Reading, served = 0\<rparr>"

abbreviation reached :: "daemon \<Rightarrow> bool" where
  "reached d \<equiv> daemon_step\<^sup>*\<^sup>* started d"

section \<open>The invariant\<close>

text \<open>
  The channel \<open>Done()\<close> hands out is closed exactly while nobody is connected, once somebody was; no
  channel is closed twice; and a channel the wait still holds is either the current one or closed.
\<close>

definition tracker_ok :: "nat \<Rightarrow> ConnTracker \<Rightarrow> bool" where
  "tracker_ok n t \<longleftrightarrow>
     (done_chan t \<in> set (closed t) \<longleftrightarrow> count t = 0 \<and> 0 < n) \<and> (n = 0 \<longrightarrow> count t = 0) \<and>
     distinct (closed t) \<and> done_chan t < made t \<and> (\<forall>c \<in> set (closed t). c < made t)"

definition daemon_ok :: "daemon \<Rightarrow> bool" where
  "daemon_ok d \<longleftrightarrow> tracker_ok (served d) (tracker d) \<and>
     (\<forall>c. waiter_at d = Selecting c \<longrightarrow> c = done_chan (tracker d) \<or> c \<in> set (closed (tracker d)))"

lemma Add_ok: "tracker_ok n t \<Longrightarrow> tracker_ok (n + 1) (Add t)"
  by (auto simp: tracker_ok_def Add_def Let_def)

lemma Remove_ok: "tracker_ok n t \<Longrightarrow> \<exists>t'. Remove t = Some t' \<and> tracker_ok n t'"
  by (auto simp: tracker_ok_def Remove_def close_chan_def Let_def)

lemma Add_keeps: "tracker_ok n t \<Longrightarrow> c = done_chan t \<or> c \<in> set (closed t) \<Longrightarrow>
    c = done_chan (Add t) \<or> c \<in> set (closed (Add t))"
  by (auto simp: Add_def Let_def)

lemma Remove_keeps: "Remove t = Some t' \<Longrightarrow> c = done_chan t \<or> c \<in> set (closed t) \<Longrightarrow>
    c = done_chan t' \<or> c \<in> set (closed t')"
  by (auto simp: Remove_def close_chan_def Let_def split: if_splits)

lemma wait_step_ok: "wait_step d d' \<Longrightarrow> daemon_ok d \<Longrightarrow>
    daemon_ok d' \<and> tracker d' = tracker d \<and> served d' = served d \<and> cancelled d' = cancelled d"
  by (induction rule: wait_step.induct) (auto simp: daemon_ok_def Done_def)

lemma daemon_step_ok: "daemon_step d d' \<Longrightarrow> daemon_ok d \<Longrightarrow> daemon_ok d'"
proof (induction rule: daemon_step.induct)
  case (connect d)
  then show ?case using Add_ok[of "served d" "tracker d"] Add_keeps[of "served d" "tracker d"]
    by (simp add: daemon_ok_def)
next
  case (disconnect d t)
  then show ?case using Remove_ok[of "served d" "tracker d"] Remove_keeps by (auto simp: daemon_ok_def)
qed (auto simp: daemon_ok_def dest: wait_step_ok)

lemma reached_ok: "reached d \<Longrightarrow> daemon_ok d"
proof (induction rule: rtranclp_induct)
  case base
  show ?case by (simp add: started_def NewConnTracker_def daemon_ok_def tracker_ok_def)
qed (rule daemon_step_ok)

text \<open>
  C15: However connections, disconnections and the wait interleave, a disconnection never closes a
  channel twice, which would panic, and the channel \<open>Done()\<close> returns is closed exactly while no client
  is connected, from the first client on.
\<close>

theorem Done_level_triggered:
  assumes "reached d"
  shows "(\<exists>t. Remove (tracker d) = Some t) \<and>
    (Done (tracker d) \<in> set (closed (tracker d)) \<longleftrightarrow> Count (tracker d) = 0 \<and> served d > 0)"
  using reached_ok[OF assms] Remove_ok[of "served d" "tracker d"]
  by (auto simp: daemon_ok_def tracker_ok_def Done_def Count_def)

section \<open>Waiting for the last client\<close>

text \<open>
  The wait ends only when it was cancelled or when it has just read a count of zero: a client that
  arrives during the grace period sends it back to waiting.
\<close>

theorem WaitForLastClient_returns_drained:
  assumes "reached d" and "wait_step d d'" and "waiter_at d' = Returned"
  shows "cancelled d \<or> waiter_at d = Checking \<and> Count (tracker d) = 0"
  using assms(2,3) by (auto simp: wait_step_iff)

text \<open>How many steps of its own the wait has before it.\<close>

fun steps_left :: "waiter \<Rightarrow> nat" where
  "steps_left Reading = 4"
| "steps_left (Selecting c) = 3"
| "steps_left Grace = 2"
| "steps_left Checking = 1"
| "steps_left Returned = 0"

lemma drained_progress:
  assumes "daemon_ok d" "Count (tracker d) = 0" "0 < served d"
  shows "(\<exists>d'. wait_step d d') \<longleftrightarrow> waiter_at d \<noteq> Returned"
    and "wait_step d d' \<Longrightarrow> steps_left (waiter_at d') < steps_left (waiter_at d)"
proof -
  have "c \<in> set (closed (tracker d))" if "waiter_at d = Selecting c" for c
    using assms that by (auto simp: daemon_ok_def tracker_ok_def Count_def)
  then show "(\<exists>d'. wait_step d d') \<longleftrightarrow> waiter_at d \<noteq> Returned"
    using assms(2) by (cases "waiter_at d") (auto simp: wait_step_iff)
  show "steps_left (waiter_at d') < steps_left (waiter_at d)" if "wait_step d d'"
    using that assms(2) by (cases rule: wait_step.cases) auto
qed

lemma drained_run:
  "(wait_step ^^ n) x y \<Longrightarrow> daemon_ok x \<Longrightarrow> Count (tracker x) = 0 \<Longrightarrow> 0 < served x \<Longrightarrow>
     daemon_ok y \<and> Count (tracker y) = 0 \<and> 0 < served y \<and> steps_left (waiter_at y) + n \<le> steps_left (waiter_at x)"
proof (induction n arbitrary: y)
  case (Suc n)
  then obtain z where z: "(wait_step ^^ n) x z" "wait_step z y" by auto
  have IH: "daemon_ok z" "Count (tracker z) = 0" "0 < served z"
    "steps_left (waiter_at z) + n \<le> steps_left (waiter_at x)"
    using Suc.IH[OF z(1) Suc.prems(2-4)] by auto
  have "steps_left (waiter_at y) < steps_left (waiter_at z)" using drained_progress(2)[OF IH(1-3) z(2)] .
  then show ?case using wait_step_ok[OF z(2) IH(1)] IH by auto
qed auto

text \<open>
  C16: Once the last client has gone and none arrives, the wait does return: whatever it was doing and
  however its selects choose, it takes at most four more steps of its own, and it is stuck at no point
  before it is back.
\<close>

theorem WaitForLastClient_terminates:
  assumes "reached d" and "Count (tracker d) = 0" and "0 < served d" and "(wait_step ^^ n) d d'"
  shows "n \<le> 4 \<and> (waiter_at d' = Returned \<or> (\<exists>r. wait_step d' r))"
proof -
  note run = drained_run[OF assms(4) reached_ok[OF assms(1)] assms(2,3)]
  have "steps_left (waiter_at d) \<le> 4" by (cases "waiter_at d") auto
  then show ?thesis using run drained_progress(1)[of d'] by auto
qed

text \<open>An editor connects and goes while the wait is in its first select.\<close>

definition gone :: ConnTracker where
  "gone = \<lparr>count = 0, done_chan = 0, closed = [0], made = 1\<rparr>"

definition at :: "ConnTracker \<Rightarrow> nat \<Rightarrow> waiter \<Rightarrow> daemon" where
  "at t n w = \<lparr>tracker = t, cancelled = False, waiter_at = w, served = n\<rparr>"

lemma reached_gone: "reached (at gone 1 (Selecting 0))"
proof -
  let ?one = "Add NewConnTracker"
  have "daemon_step started (at NewConnTracker 0 (Selecting 0))"
    using wait[OF read[of started]] by (simp add: started_def at_def Done_def NewConnTracker_def)
  then have 1: "reached (at NewConnTracker 0 (Selecting 0))" by (rule r_into_rtranclp)
  have "daemon_step (at NewConnTracker 0 (Selecting 0)) (at ?one 1 (Selecting 0))"
    using connect[of "at NewConnTracker 0 (Selecting 0)"] by (simp add: at_def)
  with 1 have 2: "reached (at ?one 1 (Selecting 0))" by (rule rtranclp.rtrancl_into_rtrancl)
  have "Remove ?one = Some gone" by code_simp
  then have "daemon_step (at ?one 1 (Selecting 0)) (at gone 1 (Selecting 0))"
    using disconnect[of "at ?one 1 (Selecting 0)"] by (simp add: at_def)
  with 2 show ?thesis by (rule rtranclp.rtrancl_into_rtrancl)
qed

lemma gone_grace: "wait_step (at gone 1 (Selecting 0)) (at gone 1 Grace)"
  using drained[of "at gone 1 (Selecting 0)" 0] by (simp add: at_def gone_def)

lemma Done_level_triggered_witness: "Done gone \<in> set (closed gone)"
  using Done_level_triggered[OF reached_gone] by (simp add: Count_def at_def gone_def)

lemma WaitForLastClient_terminates_witness: "\<exists>r. wait_step (at gone 1 Grace) r"
proof -
  have "(wait_step ^^ 1) (at gone 1 (Selecting 0)) (at gone 1 Grace)" using gone_grace by (simp only: relpowp_1)
  from WaitForLastClient_terminates[OF reached_gone _ _ this] show ?thesis by (simp add: Count_def at_def gone_def)
qed

lemma WaitForLastClient_returns_drained_witness:
  "wait_step (at gone 1 Checking) (at gone 1 Returned) \<and> Count (tracker (at gone 1 Checking)) = 0"
proof -
  have "wait_step (at gone 1 Grace) (at gone 1 Checking)" using timer[of "at gone 1 Grace"] by (simp add: at_def)
  then have r: "reached (at gone 1 Checking)"
    using reached_gone gone_grace by (meson daemon_step.wait rtranclp.rtrancl_into_rtrancl)
  have s: "wait_step (at gone 1 Checking) (at gone 1 Returned)"
    using last[of "at gone 1 Checking"] by (simp add: at_def gone_def Count_def)
  from WaitForLastClient_returns_drained[OF r s] s show ?thesis by (simp add: at_def)
qed

end
