(* ===== verification/Completion_Cache.thy ===== *)
theory Completion_Cache
  imports Go_Maps Go_Strings "HOL-Library.Word"
begin

text \<open>
  The completion cache (cache/cache.go): entries per file, per function of a file and for the file
  itself, and the hash that says whether a function's lines have changed. A slice of items may be nil,
  \<open>None\<close>; what an item is does not matter here.
\<close>

unbundle bit_operations_syntax

section \<open>The cache\<close>

record 'a scopeEntry =
  Items :: "'a list option"
  Hash :: "64 word"

record 'a FileCache =
  funcs :: "(string, 'a scopeEntry) gomap"
  fileScope :: "'a scopeEntry option"

type_synonym 'a Cache = "(string, 'a FileCache) gomap"

definition New :: "'a Cache" where
  "New = []"

definition getOrCreateFile :: "string \<Rightarrow> 'a Cache \<Rightarrow> 'a FileCache" where
  "getOrCreateFile uri c = (case get c uri of None \<Rightarrow> \<lparr>funcs = [], fileScope = None\<rparr> | Some fc \<Rightarrow> fc)"

definition GetFunc :: "'a Cache \<Rightarrow> string \<Rightarrow> string \<Rightarrow> 64 word \<Rightarrow> 'a list option" where
  "GetFunc c uri funcName hash =
     (case get c uri of
        None \<Rightarrow> None
      | Some fc \<Rightarrow>
          (case get (funcs fc) funcName of
             None \<Rightarrow> None
           | Some e \<Rightarrow> if Hash e = hash then Items e else None))"

definition GetFuncStale :: "'a Cache \<Rightarrow> string \<Rightarrow> string \<Rightarrow> 'a list option" where
  "GetFuncStale c uri funcName =
     (case get c uri of
        None \<Rightarrow> None
      | Some fc \<Rightarrow> (case get (funcs fc) funcName of None \<Rightarrow> None | Some e \<Rightarrow> Items e))"

definition PutFunc :: "string \<Rightarrow> string \<Rightarrow> 64 word \<Rightarrow> 'a list option \<Rightarrow> 'a Cache \<Rightarrow> 'a Cache" where
  "PutFunc uri funcName hash items c =
     (let fc = getOrCreateFile uri c
      in put uri (fc\<lparr>funcs := put funcName \<lparr>Items = items, Hash = hash\<rparr> (funcs fc)\<rparr>) c)"

definition GetFile :: "'a Cache \<Rightarrow> string \<Rightarrow> 'a list option" where
  "GetFile c uri =
     (case get c uri of
        None \<Rightarrow> None
      | Some fc \<Rightarrow> (case fileScope fc of None \<Rightarrow> None | Some e \<Rightarrow> Items e))"

definition PutFile :: "string \<Rightarrow> 'a list option \<Rightarrow> 'a Cache \<Rightarrow> 'a Cache" where
  "PutFile uri items c =
     (let fc = getOrCreateFile uri c
      in put uri (fc\<lparr>fileScope := Some \<lparr>Items = items, Hash = 0\<rparr>\<rparr>) c)"

definition Invalidate :: "string \<Rightarrow> 'a Cache \<Rightarrow> 'a Cache" where
  "Invalidate uri c = del uri c"

definition InvalidateAll :: "'a Cache \<Rightarrow> 'a Cache" where
  "InvalidateAll c = []"

section \<open>What a cache is for\<close>

datatype 'a cache_op =
    Put_Func string string "64 word" "'a list option"
  | Put_File string "'a list option"
  | Drop string
  | Drop_All

fun run_op :: "'a cache_op \<Rightarrow> 'a Cache \<Rightarrow> 'a Cache" where
  "run_op (Put_Func uri f h items) c = PutFunc uri f h items c"
| "run_op (Put_File uri items) c = PutFile uri items c"
| "run_op (Drop uri) c = Invalidate uri c"
| "run_op Drop_All c = InvalidateAll c"

text \<open>The specification reads the history backwards: the last put that no later drop undid.\<close>

fun last_func :: "'a cache_op list \<Rightarrow> string \<Rightarrow> string \<Rightarrow> (64 word \<times> 'a list option) option" where
  "last_func [] uri f = None"
| "last_func (Put_Func u g h items # ops) uri f = (if u = uri \<and> g = f then Some (h, items) else last_func ops uri f)"
| "last_func (Put_File u items # ops) uri f = last_func ops uri f"
| "last_func (Drop u # ops) uri f = (if u = uri then None else last_func ops uri f)"
| "last_func (Drop_All # ops) uri f = None"

fun last_file :: "'a cache_op list \<Rightarrow> string \<Rightarrow> 'a list option" where
  "last_file [] uri = None"
| "last_file (Put_Func u g h items # ops) uri = last_file ops uri"
| "last_file (Put_File u items # ops) uri = (if u = uri then items else last_file ops uri)"
| "last_file (Drop u # ops) uri = (if u = uri then None else last_file ops uri)"
| "last_file (Drop_All # ops) uri = None"

definition func_entry :: "'a Cache \<Rightarrow> string \<Rightarrow> string \<Rightarrow> (64 word \<times> 'a list option) option" where
  "func_entry c uri f =
     (case get c uri of
        None \<Rightarrow> None
      | Some fc \<Rightarrow> map_option (\<lambda>e. (Hash e, Items e)) (get (funcs fc) f))"

lemma run_op_func:
  "func_entry (foldr run_op ops New) uri f = last_func ops uri f"
proof (induction ops)
  case (Cons p ops)
  then show ?case
    by (cases p) (auto simp: func_entry_def PutFunc_def PutFile_def Invalidate_def InvalidateAll_def
        getOrCreateFile_def Let_def split: option.splits)
qed (simp add: func_entry_def New_def)

lemma run_op_file: "GetFile (foldr run_op ops New) uri = last_file ops uri"
proof (induction ops)
  case (Cons p ops)
  then show ?case
    by (cases p) (auto simp: GetFile_def PutFunc_def PutFile_def Invalidate_def InvalidateAll_def
        getOrCreateFile_def Let_def split: option.splits)
qed (simp add: GetFile_def New_def)

text \<open>
  The cache is a history: after any sequence of operations a function's items come back exactly when
  the last put for that file and function, with no invalidation of the file after it, carried the hash
  asked for; the stale lookup ignores the hash; and the file's own items are those of its last put.
\<close>

theorem Cache_history:
  "GetFunc (foldr run_op ops New) uri f h =
     (case last_func ops uri f of Some (h', items) \<Rightarrow> if h' = h then items else None | None \<Rightarrow> None) \<and>
   GetFuncStale (foldr run_op ops New) uri f =
     (case last_func ops uri f of Some (h', items) \<Rightarrow> items | None \<Rightarrow> None) \<and>
   GetFile (foldr run_op ops New) uri = last_file ops uri"
proof (intro conjI)
  let ?c = "foldr run_op ops New"
  have "GetFunc ?c uri f h = (case func_entry ?c uri f of Some (h', items) \<Rightarrow> if h' = h then items else None | None \<Rightarrow> None)"
    by (auto simp: GetFunc_def func_entry_def split: option.split)
  then show "GetFunc ?c uri f h = (case last_func ops uri f of Some (h', items) \<Rightarrow> if h' = h then items else None | None \<Rightarrow> None)"
    by (simp only: run_op_func)
  have "GetFuncStale ?c uri f = (case func_entry ?c uri f of Some (h', items) \<Rightarrow> items | None \<Rightarrow> None)"
    by (auto simp: GetFuncStale_def func_entry_def split: option.split)
  then show "GetFuncStale ?c uri f = (case last_func ops uri f of Some (h', items) \<Rightarrow> items | None \<Rightarrow> None)"
    by (simp only: run_op_func)
qed (rule run_op_file)

section \<open>The hash of a scope\<close>

text \<open>FNV-1a, 64 bit (\<open>hash/fnv\<close>).\<close>

definition fnv_byte :: "64 word \<Rightarrow> char \<Rightarrow> 64 word" where
  "fnv_byte h c = (h XOR of_nat (byte c)) * 1099511628211"

definition fnv_write :: "64 word \<Rightarrow> string \<Rightarrow> 64 word" where
  "fnv_write h s = foldl fnv_byte h s"

definition fnv_new :: "64 word" where
  "fnv_new = 14695981039346656037"

text \<open>The loop that skips to the first line; \<open>None\<close> is its early return.\<close>

function skip_to :: "string \<Rightarrow> nat \<Rightarrow> nat \<Rightarrow> nat \<Rightarrow> (nat \<times> nat) option" where
  "skip_to content line i startLine =
     (if line < startLine \<and> i < length content then
        (case index_byte (drop i content) newline of
           None \<Rightarrow> None
         | Some idx \<Rightarrow> skip_to content (line + 1) (i + (idx + 1)) startLine)
      else Some (line, i))"
  by pat_completeness auto
termination by (relation "measure (\<lambda>(content, line, i, startLine). startLine - line)") auto

function hash_lines :: "string \<Rightarrow> nat \<Rightarrow> nat \<Rightarrow> nat \<Rightarrow> 64 word \<Rightarrow> 64 word" where
  "hash_lines content line i endLine h =
     (if line \<le> endLine \<and> i < length content then
        (case index_byte (drop i content) newline of
           None \<Rightarrow> fnv_write h (drop i content)
         | Some idx \<Rightarrow>
             hash_lines content (line + 1) (i + (idx + 1)) endLine (fnv_write h (slice content i (i + idx + 1))))
      else h)"
  by pat_completeness auto
termination by (relation "measure (\<lambda>(content, line, i, endLine, h). Suc endLine - line)") auto

declare skip_to.simps [simp del] hash_lines.simps [simp del]

definition HashScope :: "string \<Rightarrow> nat \<Rightarrow> nat \<Rightarrow> 64 word" where
  "HashScope content startLine endLine =
     (case skip_to content 0 0 startLine of
        None \<Rightarrow> fnv_new
      | Some (line, i) \<Rightarrow> hash_lines content line i endLine fnv_new)"

lemma fnv_write_append: "fnv_write h (s @ t) = fnv_write (fnv_write h s) t"
  by (simp add: fnv_write_def)

lemma index_byte_rest: "index_byte (drop i s) c = Some k \<Longrightarrow> i + (k + 1) \<le> length s"
  by (auto simp: index_byte_Some)

lemma hash_lines_split:
  "i \<le> length s \<Longrightarrow>
     hash_lines s line i endLine h = fnv_write h (concat (take (Suc endLine - line) (split_after (drop i s))))"
proof (induction s line i endLine h rule: hash_lines.induct)
  case (1 s line i endLine h)
  show ?case
  proof (cases "line \<le> endLine \<and> i < length s")
    case True
    then obtain n where n: "Suc endLine - line = Suc n" "n = Suc endLine - (line + 1)"
      by (metis Suc_diff_le Suc_eq_plus1 diff_Suc_Suc)
    show ?thesis
    proof (cases "index_byte (drop i s) newline")
      case None
      then show ?thesis using True n
        by (subst hash_lines.simps, subst split_after_index) (simp del: index_byte_None)
    next
      case (Some k)
      have "hash_lines s line i endLine h =
          hash_lines s (line + 1) (i + (k + 1)) endLine (fnv_write h (slice s i (i + k + 1)))"
        using True Some by (subst hash_lines.simps) simp
      also have "\<dots> = fnv_write (fnv_write h (slice s i (i + k + 1)))
          (concat (take n (split_after (drop (i + (k + 1)) s))))"
        using "1.IH"[OF True Some] index_byte_rest[OF Some] n(2) by simp
      also have "\<dots> = fnv_write h (concat (take (Suc n) (split_after (drop i s))))"
        using Some by (subst (2) split_after_index) (simp add: fnv_write_append slice_def add.commute)
      finally show ?thesis using n(1) by simp
    qed
  next
    case False
    then have "i = length s \<or> Suc endLine - line = 0" using "1.prems" by auto
    then show ?thesis using False by (subst hash_lines.simps) (auto simp: take_Cons' fnv_write_def)
  qed
qed

lemma hash_after_skip:
  "line \<le> startLine \<Longrightarrow> i \<le> length s \<Longrightarrow>
     (case skip_to s line i startLine of None \<Rightarrow> h | Some (l, j) \<Rightarrow> hash_lines s l j endLine h) =
       fnv_write h (concat (take (Suc endLine - startLine) (drop (startLine - line) (split_after (drop i s)))))"
proof (induction s line i startLine rule: skip_to.induct)
  case (1 s line i startLine)
  show ?case
  proof (cases "line < startLine \<and> i < length s")
    case True
    then obtain n where n: "startLine - line = Suc n" "startLine - (line + 1) = n"
      by (metis Suc_diff_Suc Suc_eq_plus1)
    show ?thesis
    proof (cases "index_byte (drop i s) newline")
      case None
      then show ?thesis using True n
        by (subst skip_to.simps, subst split_after_index) (simp add: fnv_write_def del: index_byte_None)
    next
      case (Some k)
      have "skip_to s line i startLine = skip_to s (line + 1) (i + (k + 1)) startLine"
        using True Some by (subst skip_to.simps) simp
      moreover have "drop (Suc n) (split_after (drop i s)) = drop n (split_after (drop (i + (k + 1)) s))"
        using Some by (subst split_after_index) (simp add: add.commute)
      ultimately show ?thesis
        using "1.IH"[OF True Some] True index_byte_rest[OF Some] n by simp
    qed
  next
    case False
    then have s: "skip_to s line i startLine = Some (line, i)" by (subst skip_to.simps) auto
    show ?thesis
    proof (cases "line = startLine")
      case True
      then show ?thesis unfolding s using hash_lines_split[OF "1.prems"(2)] by simp
    next
      case no: False
      then obtain n where "startLine - line = Suc n" "i = length s"
        using False "1.prems" by (metis Suc_diff_Suc le_neq_implies_less)
      then show ?thesis unfolding s by (simp add: hash_lines.simps[of s line "length s"] fnv_write_def)
    qed
  qed
qed

text \<open>
  The hash of a scope is the FNV-1a hash of its lines, each with its newline, and of nothing else:
  an edit outside the scope leaves it as it was, so the items cached for the scope stay valid.
\<close>

theorem HashScope_lines:
  "HashScope content startLine endLine =
     fnv_write fnv_new (concat (take (Suc endLine - startLine) (drop startLine (split_after content))))"
  using hash_after_skip[of 0 startLine 0 content fnv_new endLine] by (simp add: HashScope_def)

lemma HashScope_example: "HashScope ''ab'' 0 3 = fnv_write fnv_new ''ab''"
  by code_simp

end
