(* ===== verification/Route.thy ===== *)
theory Route
  imports Go_Maps Go_Format "HOL-Library.Product_Lexorder"
begin

text \<open>
  Convention based framework routes (internal/route): templates, the readings of a route
  (route.go) and their resolution against the workspace (resolve.go). What the workspace holds comes in
  as the four lookups of \<open>Lookups\<close>, each of which may be nil.
\<close>

section \<open>Configuration\<close>

record ControllerRule =
  cComponent :: string
  cMethod :: string

record ViewRule =
  vPath :: string
  LongestDir :: bool
  Ext :: "string list"
  vRoot :: string

record Config =
  Attributes :: "string list"
  QueryParams :: "string list"
  Properties :: "string list"
  Functions :: "string list"
  Aliases :: "(string, string list) gomap"
  Suffixes :: "string list"
  Controllers :: "ControllerRule list"
  Views :: "ViewRule list"

datatype Kind = KindController | KindView

record Target =
  tKind :: Kind
  tComponent :: string
  tMethod :: string
  tPath :: string
  tRule :: nat
  tAlias :: string

section \<open>Templates\<close>

text \<open>A segment reference; \<open>to_seg\<close> is 0 for an open span.\<close>

record segRef =
  from_seg :: nat
  to_seg :: nat
  join_by :: string
  fold_to :: string
  is_search :: bool

definition is_lower :: "char \<Rightarrow> bool" where
  "is_lower c \<longleftrightarrow> CHR ''a'' \<le> c \<and> c \<le> CHR ''z''"

text \<open>
  The regular expression \<open>tmplRx\<close> anchored at the start of a string: the digits, the span, the mode and
  what follows the match. Each part ends where a character of another class begins, so the match is
  the only one.
\<close>

definition match_ref :: "string \<Rightarrow> (string \<times> string \<times> string \<times> string) option" where
  "match_ref s =
     (if \<not> HasPrefix s ''${'' then None
      else let r = drop 2 s; ds = takeWhile is_digit r; r = dropWhile is_digit r
        in if ds = [] then None
           else let (span, r) =
                 (if HasPrefix r ''+'' then (''+'', tl r)
                  else if HasPrefix r ''-'' \<and> takeWhile is_digit (tl r) \<noteq> [] then
                    (CHR ''-'' # takeWhile is_digit (tl r), dropWhile is_digit (tl r))
                  else ([], r));
                 (mode, r) =
                 (if HasPrefix r '':'' \<and> takeWhile is_lower (tl r) \<noteq> [] then
                    (takeWhile is_lower (tl r), dropWhile is_lower (tl r))
                  else ([], r))
             in if HasPrefix r ''}'' then Some (ds, span, mode, tl r) else None)"

text \<open>The first match anywhere: the text before it, the match, the text after it.\<close>

fun find_ref :: "string \<Rightarrow> (string \<times> (string \<times> string \<times> string) \<times> string) option" where
  "find_ref [] = None"
| "find_ref (c # s) =
     (case match_ref (c # s) of
        Some (ds, span, mode, rest) \<Rightarrow> Some ([], (ds, span, mode), rest)
      | None \<Rightarrow> map_option (\<lambda>(pre, m, rest). (c # pre, m, rest)) (find_ref s))"

text \<open>\<open>parseRef\<close>, its switch over the span and its switch over the mode; \<open>None\<close> is its error.\<close>

definition span_end :: "nat \<Rightarrow> string \<Rightarrow> nat option" where
  "span_end from span =
     (if span = ''+'' then Some 0
      else if HasPrefix span ''-'' then
        (case Atoi (tl span) of None \<Rightarrow> None | Some to \<Rightarrow> if to < from then None else Some to)
      else Some from)"

definition with_mode :: "string \<Rightarrow> segRef \<Rightarrow> segRef option" where
  "with_mode mode ref =
     (if mode = [] \<or> mode = ''dotted'' then Some ref
      else if mode = ''concat'' then Some (ref\<lparr>join_by := []\<rparr>)
      else if mode = ''slash'' then Some (ref\<lparr>join_by := ''/''\<rparr>)
      else if mode = ''lower'' \<or> mode = ''upper'' then Some (ref\<lparr>fold_to := mode\<rparr>)
      else if mode = ''search'' then
        (if to_seg ref \<noteq> 0 then None else Some (ref\<lparr>join_by := [], is_search := True\<rparr>))
      else None)"

definition parseRef :: "string \<Rightarrow> string \<Rightarrow> string \<Rightarrow> segRef option" where
  "parseRef first span mode =
     (case Atoi first of
        None \<Rightarrow> None
      | Some from \<Rightarrow>
          if from < 1 then None
          else (case span_end from span of
                  None \<Rightarrow> None
                | Some to \<Rightarrow>
                    with_mode mode
                      \<lparr>from_seg = from, to_seg = to, join_by = ''.'', fold_to = [], is_search = False\<rparr>))"

definition upper_char :: "char \<Rightarrow> char" where
  "upper_char c = (if CHR ''a'' \<le> c \<and> c \<le> CHR ''z'' then char_of (byte c - 32 :: nat) else c)"

definition ToUpper :: "string \<Rightarrow> string" where
  "ToUpper s = map upper_char s"

text \<open>\<open>segRef.apply\<close>.\<close>

definition apply_ref :: "segRef \<Rightarrow> string list \<Rightarrow> string option" where
  "apply_ref r segs =
     (if length segs < from_seg r then None
      else let stop = (if to_seg r = 0 \<or> length segs < to_seg r then length segs else to_seg r)
        in if stop < from_seg r then None
           else let v = join (join_by r) (slice segs (from_seg r - 1) stop)
             in Some (if fold_to r = ''lower'' then ToLower v else if fold_to r = ''upper'' then ToUpper v else v))"

lemma length_dropWhile_le [simp]: "length (dropWhile P xs) \<le> length xs"
  by (induction xs) auto

lemma match_ref_shorter: "match_ref s = Some (ds, span, mode, rest) \<Longrightarrow> length rest < length s"
proof -
  assume m: "match_ref s = Some (ds, span, mode, rest)"
  let ?r = "dropWhile is_digit (drop 2 s)"
  have "HasPrefix s ''${''" by (rule ccontr) (use m in \<open>simp add: match_ref_def\<close>)
  then have "length (take 2 s) = 2" by (simp add: numeral_2_eq_2)
  then have "2 \<le> length s" by simp
  moreover have "length ?r \<le> length s - 2" using length_dropWhile_le[of is_digit "drop 2 s"] by simp
  moreover have "length rest \<le> length ?r"
    using m length_dropWhile_le[of is_digit "tl ?r"] length_dropWhile_le[of is_lower "tl ?r"]
      length_dropWhile_le[of is_lower "tl (dropWhile is_digit (tl ?r))"] length_dropWhile_le[of is_lower "tl (tl ?r)"]
    by (auto simp: match_ref_def Let_def split: if_splits)
  ultimately show ?thesis by linarith
qed

lemma find_ref_shorter: "find_ref s = Some (pre, m, rest) \<Longrightarrow> length rest < length s"
proof (induction s arbitrary: pre)
  case (Cons c s)
  show ?case
  proof (cases "match_ref (c # s)")
    case None
    then show ?thesis using Cons by (cases "find_ref s") auto
  next
    case (Some a)
    then show ?thesis using Cons.prems match_ref_shorter[of "c # s"] by (cases a) auto
  qed
qed simp

text \<open>\<open>expand\<close>; \<open>None\<close> when a reference is malformed or asks for a segment the route does not have.\<close>

function expand :: "string \<Rightarrow> string list \<Rightarrow> string option" where
  "expand tmpl segs =
     (case find_ref tmpl of
        None \<Rightarrow> Some tmpl
      | Some (pre, (ds, span, mode), rest) \<Rightarrow>
          (case parseRef ds span mode of
             None \<Rightarrow> None
           | Some ref \<Rightarrow>
               (case apply_ref ref segs of
                  None \<Rightarrow> None
                | Some v \<Rightarrow> map_option (\<lambda>x. pre @ v @ x) (expand rest segs))))"
  by pat_completeness auto
termination
  by (relation "measure (\<lambda>(tmpl, segs). length tmpl)") (auto dest: find_ref_shorter)

declare expand.simps [simp del]

text \<open>A template that is one \<open>:search\<close> reference and nothing else.\<close>

definition searchRef :: "string \<Rightarrow> segRef option" where
  "searchRef tmpl =
     (case find_ref tmpl of
        None \<Rightarrow> None
      | Some (pre, (ds, span, mode), rest) \<Rightarrow>
          if pre \<noteq> [] \<or> rest \<noteq> [] then None
          else (case parseRef ds span mode of
                  None \<Rightarrow> None
                | Some ref \<Rightarrow> if is_search ref then Some ref else None))"

definition expandAll :: "string \<Rightarrow> string list \<Rightarrow> string list" where
  "expandAll tmpl segs =
     (case searchRef tmpl of
        None \<Rightarrow> (case expand tmpl segs of Some v \<Rightarrow> [v] | None \<Rightarrow> [])
      | Some ref \<Rightarrow>
          List.map_filter (\<lambda>from.
              (case apply_ref \<lparr>from_seg = from, to_seg = 0, join_by = join_by ref, fold_to = fold_to ref,
                   is_search = False\<rparr> segs of
                 None \<Rightarrow> None
               | Some v \<Rightarrow> if v = [] then None else Some v))
            [from_seg ref..<Suc (length segs)])"

section \<open>Routes\<close>

definition Split :: "string \<Rightarrow> string list" where
  "Split route =
     (let r = TrimSpace (ToLower route)
      in if r = [] then []
         else let segs = map TrimSpace (split_on CHR ''.'' r)
           in if [] \<in> set segs then [] else segs)"

definition Plausible :: "string \<Rightarrow> bool" where
  "Plausible route \<longleftrightarrow>
     \<not> (\<exists>c \<in> set route. c \<in> set [CHR ''#'', CHR ''<'', CHR ''>'', CHR 0x22, CHR 0x27, CHR '' '', CHR 0x09]) \<and>
     2 \<le> length (Split route) \<and>
     (\<forall>s \<in> set (Split route). \<forall>c \<in> set s. is_lower c \<or> is_digit c \<or> c = CHR ''_'' \<or> c = CHR ''-'')"

record expansion =
  via :: string
  segs_of :: "string list"

definition readings :: "string list \<Rightarrow> string list \<Rightarrow> expansion list" where
  "readings sfxs segs =
     \<lparr>via = [], segs_of = segs\<rparr> #
     (if 1 < length segs \<and> (\<exists>x \<in> set sfxs. EqualFold (last segs) (TrimSpace x)) then
        [\<lparr>via = ''-.'' @ last segs, segs_of = butlast segs\<rparr>]
      else [])"

definition sorted_keys :: "(string, string list) gomap \<Rightarrow> string list" where
  "sorted_keys aliases = sort_key (\<lambda>k. (- int (length (Split k)), k)) (map fst aliases)"

definition aliased :: "(string, string list) gomap \<Rightarrow> expansion \<Rightarrow> string \<Rightarrow> expansion list" where
  "aliased aliases reading key =
     (let keySegs = Split key
      in if keySegs = [] \<or> length (segs_of reading) < length keySegs \<or>
            keySegs \<noteq> take (length keySegs) (segs_of reading) then []
         else List.map_filter (\<lambda>rep.
             if Split rep = [] then None
             else Some \<lparr>via = TrimPrefix (via reading @ '' '') '' '' @ key @ '' -> '' @ rep,
                        segs_of = Split rep @ drop (length keySegs) (segs_of reading)\<rparr>)
           (get_list aliases key))"

definition expansions :: "Config \<Rightarrow> string list \<Rightarrow> expansion list" where
  "expansions c segs =
     (let rs = readings (Suffixes c) segs; keys = sorted_keys (Aliases c)
      in rs @ concat (map (\<lambda>r. concat (map (aliased (Aliases c) r) keys)) rs))"

section \<open>Resolution\<close>

record Lookups =
  ComponentPath :: "(string \<Rightarrow> string) option"
  HasMethod :: "(string \<Rightarrow> string \<Rightarrow> bool) option"
  DirExists :: "(string \<Rightarrow> bool) option"
  FindFile :: "(string \<Rightarrow> string) option"

definition empty_target :: Target where
  "empty_target = \<lparr>tKind = KindController, tComponent = [], tMethod = [], tPath = [], tRule = 0, tAlias = []\<rparr>"

definition controller :: "Lookups \<Rightarrow> ControllerRule \<Rightarrow> string list \<Rightarrow> Target option" where
  "controller l rule segs =
     (case (ComponentPath l, HasMethod l) of
        (Some componentPath, Some hasMethod) \<Rightarrow>
          (case expand (cComponent rule) segs of
             None \<Rightarrow> None
           | Some component \<Rightarrow>
               if component = [] then None
               else let methods = expandAll (cMethod rule) segs
                 in if methods = [] then None
                    else let path = componentPath component
                      in if path = [] then None
                         else (case find (hasMethod path) methods of
                                 None \<Rightarrow> None
                               | Some m \<Rightarrow> Some (empty_target\<lparr>tKind := KindController, tComponent := component,
                                                  tMethod := m, tPath := path\<rparr>)))
      | _ \<Rightarrow> None)"

text \<open>The first extension whose file is there.\<close>

fun first_file :: "(string \<Rightarrow> string) \<Rightarrow> string \<Rightarrow> string list \<Rightarrow> string option" where
  "first_file f base [] = None"
| "first_file f base (e # es) = (if f (base @ e) = [] then first_file f base es else Some (f (base @ e)))"

definition view_target :: "string \<Rightarrow> Target" where
  "view_target p = empty_target\<lparr>tKind := KindView, tPath := p\<rparr>"

text \<open>The loop of \<open>longestDir\<close> from the cut \<open>Suc n\<close> down to 1.\<close>

fun longest_from :: "(string \<Rightarrow> bool) \<Rightarrow> (string \<Rightarrow> string) \<Rightarrow> ViewRule \<Rightarrow> string list \<Rightarrow> string list \<Rightarrow> nat \<Rightarrow> Target option" where
  "longest_from dirExists findFile rule segs exts 0 = None"
| "longest_from dirExists findFile rule segs exts (Suc n) =
     (let dir = join ''/'' (take (Suc n) segs);
          dir = (if vRoot rule \<noteq> [] then TrimSuffix (vRoot rule) ''/'' @ ''/'' @ dir else dir)
      in if \<not> dirExists dir then longest_from dirExists findFile rule segs exts n
         else (case first_file findFile (dir @ ''/'' @ join ''.'' (drop (Suc n) segs)) exts of
                 Some p \<Rightarrow> Some (view_target p)
               | None \<Rightarrow> longest_from dirExists findFile rule segs exts n))"

definition longestDir :: "Lookups \<Rightarrow> ViewRule \<Rightarrow> string list \<Rightarrow> string list \<Rightarrow> Target option" where
  "longestDir l rule segs exts =
     (case (DirExists l, FindFile l) of
        (Some dirExists, Some findFile) \<Rightarrow> longest_from dirExists findFile rule segs exts (length segs - 1)
      | _ \<Rightarrow> None)"

text \<open>\<open>filepath.ToSlash\<close> changes nothing where the separator is a slash.\<close>

definition findFile :: "Lookups \<Rightarrow> string \<Rightarrow> string \<Rightarrow> string" where
  "findFile l root rel =
     (case FindFile l of
        None \<Rightarrow> []
      | Some f \<Rightarrow> f (if root \<noteq> [] then TrimSuffix root ''/'' @ ''/'' @ rel else rel))"

definition view :: "Lookups \<Rightarrow> ViewRule \<Rightarrow> string list \<Rightarrow> Target option" where
  "view l rule segs =
     (let exts = (if Ext rule = [] then [''.cfm''] else Ext rule)
      in if LongestDir rule then longestDir l rule segs exts
         else if vPath rule = [] then None
         else (case expand (vPath rule) segs of
                 None \<Rightarrow> None
               | Some rel \<Rightarrow>
                   if rel = [] then None
                   else map_option view_target (first_file (findFile l (vRoot rule)) rel exts)))"

definition kind_name :: "Kind \<Rightarrow> string" where
  "kind_name k = (case k of KindController \<Rightarrow> ''controller'' | KindView \<Rightarrow> ''view'')"

definition target_key :: "Target \<Rightarrow> string" where
  "target_key t = kind_name (tKind t) @ [CHR 0x00] @ tComponent t @ [CHR 0x00] @ ToLower (tMethod t) @ [CHR 0x00] @ tPath t"

definition add_target :: "Target list \<times> string list \<Rightarrow> Target \<Rightarrow> Target list \<times> string list" where
  "add_target = (\<lambda>(out, seen) t.
     if target_key t \<in> set seen then (out, seen) else (out @ [t], target_key t # seen))"

definition try_rules :: "('r \<Rightarrow> string list \<Rightarrow> Target option) \<Rightarrow> 'r list \<Rightarrow> expansion list \<Rightarrow> Target list" where
  "try_rules resolve_rule rules exps =
     concat (map (\<lambda>e. List.map_filter (\<lambda>(i, rule).
         map_option (\<lambda>t. t\<lparr>tRule := i, tAlias := via e\<rparr>) (resolve_rule rule (segs_of e)))
       (enumerate 0 rules)) exps)"

definition Resolve :: "Config \<Rightarrow> Lookups \<Rightarrow> string \<Rightarrow> Target list" where
  "Resolve c l route =
     (let segs = Split route
      in if segs = [] then []
         else let exps = expansions c segs;
                  found = try_rules (controller l) (Controllers c) exps @ try_rules (view l) (Views c) exps
           in fst (foldl add_target ([], []) found))"

definition Enabled :: "Config \<Rightarrow> bool" where
  "Enabled c \<longleftrightarrow> (0 < length (Attributes c) \<or> 0 < length (QueryParams c) \<or> 0 < length (Properties c) \<or>
       0 < length (Functions c)) \<and> (0 < length (Controllers c) \<or> 0 < length (Views c))"

definition normalise :: "string list \<Rightarrow> string list" where
  "normalise names = filter (\<lambda>n. n \<noteq> []) (map (\<lambda>n. ToLower (TrimSpace n)) names)"

end
