(* ===== verification/Route_Props.thy ===== *)
theory Route_Props
  imports Route "HOL-Library.Sublist"
begin

text \<open>
  What route resolution guarantees: a target is never invented, the answer is ordered and free of
  repeats, it does not depend on the order a map is visited in, and a \<open>:search\<close> template tries the most
  specific name first.
\<close>

section \<open>Collecting the targets\<close>

lemma add_targets:
  assumes "foldl add_target (out, seen) ts = (out', seen')"
    and "set seen = target_key ` set out" "distinct (map target_key out)"
  shows "(\<exists>more. out' = out @ more \<and> subseq more ts) \<and> distinct (map target_key out') \<and>
    target_key ` set out' = target_key ` (set out \<union> set ts)"
  using assms
proof (induction ts arbitrary: out seen)
  case (Cons t ts)
  show ?case
  proof (cases "target_key t \<in> set seen")
    case True
    then have "foldl add_target (out, seen) ts = (out', seen')" using Cons.prems(1) by (simp add: add_target_def)
    from Cons.IH[OF this Cons.prems(2,3)] True Cons.prems(2) show ?thesis by (auto intro: list_emb_Cons)
  next
    case False
    then have "foldl add_target (out @ [t], target_key t # seen) ts = (out', seen')"
      using Cons.prems(1) by (simp add: add_target_def)
    moreover have "set (target_key t # seen) = target_key ` set (out @ [t])" "distinct (map target_key (out @ [t]))"
      using Cons.prems(2,3) False by auto
    ultimately obtain more where m: "out' = (out @ [t]) @ more" "subseq more ts" "distinct (map target_key out')"
      "target_key ` set out' = target_key ` (set (out @ [t]) \<union> set ts)"
      using Cons.IH[of "out @ [t]" "target_key t # seen"] by blast
    then have "out' = out @ (t # more)" "subseq (t # more) (t # ts)" by simp_all
    then show ?thesis using m(3,4) by auto
  qed
qed simp

definition found :: "Config \<Rightarrow> Lookups \<Rightarrow> string \<Rightarrow> Target list" where
  "found c l route =
     (let exps = if Split route = [] then [] else expansions c (Split route)
      in try_rules (controller l) (Controllers c) exps @ try_rules (view l) (Views c) exps)"

lemma sorted_wrt_subseq: "subseq xs ys \<Longrightarrow> sorted_wrt R ys \<Longrightarrow> sorted_wrt R xs"
proof (induction rule: list_emb.induct)
  case (list_emb_Cons2 x y xs ys)
  then show ?case by (auto dest: list_emb_set)
qed simp_all

lemma Resolve_found:
  "subseq (Resolve c l route) (found c l route)"
  "distinct (map target_key (Resolve c l route))"
  "target_key ` set (Resolve c l route) = target_key ` set (found c l route)"
proof -
  obtain out seen where f: "foldl add_target ([], []) (found c l route) = (out, seen)" by fastforce
  have "Resolve c l route = out"
    using f by (auto simp: Resolve_def found_def Let_def try_rules_def split: if_splits)
  then show "subseq (Resolve c l route) (found c l route)" "distinct (map target_key (Resolve c l route))"
    "target_key ` set (Resolve c l route) = target_key ` set (found c l route)"
    using add_targets[OF f] by auto
qed

lemma map_filter_mem: "y \<in> set (List.map_filter f xs) \<longleftrightarrow> (\<exists>x \<in> set xs. f x = Some y)"
  by (induction xs) (auto simp: map_filter_simps split: option.split)

lemma try_rules_mem:
  "t \<in> set (try_rules f rules exps) \<longleftrightarrow>
     (\<exists>e \<in> set exps. \<exists>i < length rules. \<exists>u. f (rules ! i) (segs_of e) = Some u \<and> t = u\<lparr>tRule := i, tAlias := via e\<rparr>)"
proof -
  have "t \<in> set (List.map_filter (\<lambda>(i, rule). map_option (\<lambda>u. u\<lparr>tRule := i, tAlias := via e\<rparr>) (f rule (segs_of e)))
      (enumerate 0 rules)) \<longleftrightarrow>
    (\<exists>i < length rules. \<exists>u. f (rules ! i) (segs_of e) = Some u \<and> t = u\<lparr>tRule := i, tAlias := via e\<rparr>)" for e
    unfolding map_filter_mem by (force simp: in_set_enumerate_eq split: prod.splits)
  then show ?thesis unfolding try_rules_def set_concat set_map by blast
qed

lemma controller_found:
  assumes "controller l rule segs = Some t"
  obtains cp hm where "ComponentPath l = Some cp" "HasMethod l = Some hm"
    "expand (cComponent rule) segs = Some (tComponent t)" "cp (tComponent t) = tPath t" "tPath t \<noteq> []"
    "find (hm (tPath t)) (expandAll (cMethod rule) segs) = Some (tMethod t)" "tKind t = KindController"
  using assms by (auto simp: controller_def empty_target_def Let_def split: option.splits if_splits)

lemma first_file_found: "first_file f base es = Some p \<Longrightarrow> \<exists>e \<in> set es. f (base @ e) = p \<and> p \<noteq> []"
  by (induction es) (auto split: if_splits)

lemma longest_from_found:
  "longest_from d f rule segs exts n = Some t \<Longrightarrow> \<exists>rel. t = view_target (f rel) \<and> f rel \<noteq> []"
  by (induction n) (auto simp: Let_def split: if_splits option.splits dest!: first_file_found)

lemma view_found:
  assumes "view l rule segs = Some t"
  obtains ff rel where "FindFile l = Some ff" "ff rel = tPath t" "tPath t \<noteq> []" "tKind t = KindView"
proof -
  have "\<exists>ff rel. FindFile l = Some ff \<and> t = view_target (ff rel) \<and> ff rel \<noteq> []"
  proof (cases "LongestDir rule")
    case True
    then show ?thesis using assms
      by (auto simp: view_def longestDir_def Let_def dest!: longest_from_found split: option.splits if_splits)
  next
    case False
    define exts where "exts = (if Ext rule = [] then [''.cfm''] else Ext rule)"
    obtain rel p where "first_file (findFile l (vRoot rule)) rel exts = Some p" "t = view_target p"
      using assms False by (auto simp: view_def Let_def simp flip: exts_def split: option.splits if_splits)
    then show ?thesis using first_file_found[of "findFile l (vRoot rule)" rel exts p]
      by (auto simp: findFile_def split: option.splits)
  qed
  then show thesis using that by (auto simp: view_target_def empty_target_def)
qed

lemma found_kinds:
  "t \<in> set (try_rules (controller l) rules exps) \<Longrightarrow> tKind t = KindController"
  "t \<in> set (try_rules (view l) vrules exps) \<Longrightarrow> tKind t = KindView"
  by (auto simp: try_rules_mem elim: controller_found view_found)

lemma ordered_kinds:
  "(\<And>t. t \<in> set ts \<Longrightarrow> tKind t = kd) \<Longrightarrow>
     sorted_wrt (\<lambda>t u. \<not> (tKind t = KindView \<and> tKind u = KindController)) ts"
  by (induction ts) auto

section \<open>The guarantees\<close>

text \<open>
  C17: A route never resolves to something that is not there. Every controller it resolves to comes from
  a configured rule and a reading of the route, its component has a file and that file declares the
  method, which is the first name the rule's template offers that it declares; every view is a file the
  workspace has.
\<close>

theorem Resolve_sound:
  assumes "t \<in> set (Resolve c l route)"
  shows "case tKind t of
      KindController \<Rightarrow>
        \<exists>cp hm. \<exists>e \<in> set (expansions c (Split route)). ComponentPath l = Some cp \<and> HasMethod l = Some hm \<and>
          tAlias t = via e \<and> tRule t < length (Controllers c) \<and>
          expand (cComponent (Controllers c ! tRule t)) (segs_of e) = Some (tComponent t) \<and>
          cp (tComponent t) = tPath t \<and> tPath t \<noteq> [] \<and>
          find (hm (tPath t)) (expandAll (cMethod (Controllers c ! tRule t)) (segs_of e)) = Some (tMethod t)
    | KindView \<Rightarrow>
        \<exists>ff rel. FindFile l = Some ff \<and> ff rel = tPath t \<and> tPath t \<noteq> [] \<and> tRule t < length (Views c)"
proof -
  let ?exps = "if Split route = [] then [] else expansions c (Split route)"
  have "t \<in> set (found c l route)" using list_emb_set[OF Resolve_found(1) assms] by metis
  then consider "t \<in> set (try_rules (controller l) (Controllers c) ?exps)" | "t \<in> set (try_rules (view l) (Views c) ?exps)"
    by (auto simp: found_def Let_def)
  then show ?thesis
  proof cases
    case 1
    then obtain e i u where u: "e \<in> set ?exps" "i < length (Controllers c)"
      "controller l (Controllers c ! i) (segs_of e) = Some u" "t = u\<lparr>tRule := i, tAlias := via e\<rparr>"
      unfolding try_rules_mem by blast
    from u(3) obtain cp hm where "ComponentPath l = Some cp" "HasMethod l = Some hm"
      "expand (cComponent (Controllers c ! i)) (segs_of e) = Some (tComponent u)" "cp (tComponent u) = tPath u"
      "tPath u \<noteq> []" "find (hm (tPath u)) (expandAll (cMethod (Controllers c ! i)) (segs_of e)) = Some (tMethod u)"
      "tKind u = KindController" by (rule controller_found)
    then show ?thesis using u(1,2,4) by (force split: if_splits)
  next
    case 2
    then obtain e i u where "e \<in> set ?exps" and u: "i < length (Views c)" "view l (Views c ! i) (segs_of e) = Some u"
      "t = u\<lparr>tRule := i, tAlias := via e\<rparr>"
      unfolding try_rules_mem by blast
    from u(2) obtain ff rel where "FindFile l = Some ff" "ff rel = tPath u" "tPath u \<noteq> []" "tKind u = KindView"
      by (rule view_found)
    then show ?thesis using u(1,3) by auto
  qed
qed

text \<open>
  C18: The answer lists controllers before views, no target twice, and misses none: every rule that some
  reading of the route satisfies is there, under its own name or that of an equal target found earlier.
\<close>

theorem Resolve_complete:
  assumes "e \<in> set (expansions c (Split route))" and "Split route \<noteq> []"
  shows "sorted_wrt (\<lambda>t u. \<not> (tKind t = KindView \<and> tKind u = KindController)) (Resolve c l route) \<and>
    distinct (map target_key (Resolve c l route)) \<and>
    target_key ` the ` ((\<lambda>r. controller l r (segs_of e)) ` set (Controllers c) - {None}) \<subseteq> target_key ` set (Resolve c l route) \<and>
    target_key ` the ` ((\<lambda>r. view l r (segs_of e)) ` set (Views c) - {None}) \<subseteq> target_key ` set (Resolve c l route)"
proof (intro conjI)
  have key: "target_key (t\<lparr>tRule := i, tAlias := a\<rparr>) = target_key t" for t i a by (simp add: target_key_def)
  have "sorted_wrt (\<lambda>t u. \<not> (tKind t = KindView \<and> tKind u = KindController)) (found c l route)"
    unfolding found_def Let_def sorted_wrt_append
    by (intro conjI ballI ordered_kinds[OF found_kinds(1)] ordered_kinds[OF found_kinds(2)])
      (assumption | simp add: found_kinds)+
  then show "sorted_wrt (\<lambda>t u. \<not> (tKind t = KindView \<and> tKind u = KindController)) (Resolve c l route)"
    by (rule sorted_wrt_subseq[OF Resolve_found(1)])
  show "distinct (map target_key (Resolve c l route))" by (rule Resolve_found(2))
  have hit: "target_key ` the ` ((\<lambda>r. f r (segs_of e)) ` set rules - {None}) \<subseteq>
      target_key ` set (try_rules f rules (expansions c (Split route)))"
    for f and rules :: "'r list"
  proof
    fix k assume "k \<in> target_key ` the ` ((\<lambda>r. f r (segs_of e)) ` set rules - {None})"
    then obtain r where r: "r \<in> set rules" "f r (segs_of e) \<noteq> None" "k = target_key (the (f r (segs_of e)))"
      by blast
    then obtain i t where "i < length rules" "f (rules ! i) (segs_of e) = Some t" "k = target_key t"
      by (metis in_set_conv_nth option.collapse)
    then show "k \<in> target_key ` set (try_rules f rules (expansions c (Split route)))"
      using assms(1) key try_rules_mem by (metis image_eqI)
  qed
  have all: "target_key ` set (Resolve c l route) =
      target_key ` (set (try_rules (controller l) (Controllers c) (expansions c (Split route))) \<union>
        set (try_rules (view l) (Views c) (expansions c (Split route))))"
    using Resolve_found(3)[of c l route] assms(2) by (simp add: found_def Let_def)
  show "target_key ` the ` ((\<lambda>r. controller l r (segs_of e)) ` set (Controllers c) - {None}) \<subseteq> target_key ` set (Resolve c l route)"
    using hit[of "controller l"] unfolding all image_Un by blast
  show "target_key ` the ` ((\<lambda>r. view l r (segs_of e)) ` set (Views c) - {None}) \<subseteq> target_key ` set (Resolve c l route)"
    using hit[of "view l"] unfolding all image_Un by blast
qed

text \<open>
  The answer does not depend on the order in which a \<open>range\<close> over the aliases happens to visit
  them, so the same route resolves to the same targets on every run.
\<close>

theorem Resolve_deterministic:
  assumes "distinct_keys a" and "mset a = mset b"
  shows "Resolve (c\<lparr>Aliases := a\<rparr>) l route = Resolve (c\<lparr>Aliases := b\<rparr>) l route"
proof -
  have keys: "mset (map fst a) = mset (map fst b)" using assms(2) by simp
  have order: "sorted_keys a = sorted_keys b"
    unfolding sorted_keys_def
  proof (rule sort_key_inj_key_eq)
    show "mset (map fst a) = mset (sort_key (\<lambda>k. (- int (length (Split k)), k)) (map fst b))" using keys by simp
    show "inj_on (\<lambda>k. (- int (length (Split k)), k)) (set (map fst a))" by (auto intro: inj_onI)
    show "sorted (map (\<lambda>k. (- int (length (Split k)), k)) (sort_key (\<lambda>k. (- int (length (Split k)), k)) (map fst b)))"
      by (rule sorted_sort_key)
  qed
  have "distinct_keys b" using assms keys by (metis mset_eq_imp_distinct_iff)
  then have "get a = get b" using assms map_of_inject_set mset_eq_setD by blast
  then have lists: "get_list a = get_list b" by (simp add: get_list_def fun_eq_iff)
  have "aliased a = aliased b" unfolding aliased_def lists ..
  then have "expansions (c\<lparr>Aliases := a\<rparr>) = expansions (c\<lparr>Aliases := b\<rparr>)"
    unfolding expansions_def by (simp add: order)
  then show ?thesis by (cases "Split route = []") (simp_all add: Resolve_def Let_def)
qed

section \<open>Search templates\<close>

lemma join_empty: "join [] xs = concat xs"
  by (induction "[] :: string" xs rule: join.induct) simp_all

lemma with_mode_search:
  "with_mode mode ref = Some r \<Longrightarrow> is_search r \<Longrightarrow> \<not> is_search ref \<Longrightarrow>
     join_by r = [] \<and> fold_to r = fold_to ref \<and> from_seg r = from_seg ref"
  unfolding with_mode_def by (simp split: if_split_asm) (clarify, simp)+

lemma searchRef_ref:
  assumes "searchRef tmpl = Some ref"
  shows "join_by ref = [] \<and> fold_to ref = [] \<and> 1 \<le> from_seg ref"
proof -
  have "parseRef ds span mode = Some r \<Longrightarrow> is_search r \<Longrightarrow> join_by r = [] \<and> fold_to r = [] \<and> 1 \<le> from_seg r"
    for ds span mode and r :: segRef
    unfolding parseRef_def by (cases "Atoi ds") (auto dest!: with_mode_search split: option.split_asm if_split_asm)
  then show ?thesis using assms by (auto simp: searchRef_def split: option.splits if_splits)
qed

lemma apply_tail:
  "1 \<le> n \<Longrightarrow> n \<le> length segs \<Longrightarrow>
     apply_ref \<lparr>from_seg = n, to_seg = 0, join_by = [], fold_to = [], is_search = False\<rparr> segs =
       Some (concat (drop (n - 1) segs))"
  by (simp add: apply_ref_def Let_def join_empty slice_def)

lemma tails_shrink: "i \<le> j \<Longrightarrow> length (concat (drop j segs)) \<le> length (concat (drop i segs))"
proof -
  assume "i \<le> j"
  then have "drop i segs = take (j - i) (drop i segs) @ drop j segs"
    by (metis append_take_drop_id drop_drop le_add_diff_inverse2)
  then have "concat (drop i segs) = concat (take (j - i) (drop i segs)) @ concat (drop j segs)"
    by (metis concat_append)
  then show ?thesis by simp
qed

text \<open>
  A \<open>:search\<close> template offers every tail of the route, joined, the longest first, so a method named
  after more of the route is preferred to one named after less.
\<close>

theorem expandAll_search:
  assumes "searchRef tmpl = Some ref"
  shows "expandAll tmpl segs =
      filter (\<lambda>v. v \<noteq> []) (map (\<lambda>i. concat (drop i segs)) [from_seg ref - 1..<length segs]) \<and>
    sorted_wrt (\<lambda>v w. length w \<le> length v) (expandAll tmpl segs)"
proof -
  note ref = searchRef_ref[OF assms]
  let ?tail = "\<lambda>i. concat (drop i segs)"
  have "List.map_filter (\<lambda>from.
      case apply_ref \<lparr>from_seg = from, to_seg = 0, join_by = [], fold_to = [], is_search = False\<rparr> segs of
        None \<Rightarrow> None | Some v \<Rightarrow> if v = [] then None else Some v) ns =
    filter (\<lambda>v. v \<noteq> []) (map (\<lambda>n. ?tail (n - 1)) ns)" if "\<forall>n \<in> set ns. 1 \<le> n \<and> n \<le> length segs" for ns
    using that by (induction ns) (simp_all add: map_filter_simps apply_tail)
  from this[of "[from_seg ref..<Suc (length segs)]"]
  have "expandAll tmpl segs = filter (\<lambda>v. v \<noteq> []) (map (\<lambda>n. ?tail (n - 1)) [from_seg ref..<Suc (length segs)])"
    using ref assms by (simp add: expandAll_def del: upt_Suc)
  moreover have "map (\<lambda>n. ?tail (n - 1)) [Suc k..<Suc j] = map ?tail [k..<j]" for k j
    by (simp add: map_Suc_upt[symmetric] comp_def del: upt_Suc)
  from this[of "from_seg ref - 1" "length segs"]
  have "map (\<lambda>n. ?tail (n - 1)) [from_seg ref..<Suc (length segs)] = map ?tail [from_seg ref - 1..<length segs]"
    using ref by simp
  ultimately have eq: "expandAll tmpl segs = filter (\<lambda>v. v \<noteq> []) (map ?tail [from_seg ref - 1..<length segs])"
    by simp
  have "sorted_wrt (\<lambda>v w. length w \<le> length v) (map ?tail [k..<j])" for k j
    unfolding sorted_wrt_map by (rule sorted_wrt_mono_rel[OF _ sorted_wrt_upt]) (simp add: tails_shrink)
  then show ?thesis unfolding eq by (simp add: sorted_wrt_filter)
qed

section \<open>A workspace with one component and one view\<close>

definition site_config :: Config where
  "site_config = \<lparr>Attributes = [''data-view''], QueryParams = [], Properties = [], Functions = [],
     Aliases = [(''ui.web'', [''intranet''])], Suffixes = [''iframe''],
     Controllers = [\<lparr>cComponent = ''app.${1}'', cMethod = ''${2+:search}''\<rparr>],
     Views = [\<lparr>vPath = ''views/${1}/${2+}'', LongestDir = False, Ext = [], vRoot = []\<rparr>]\<rparr>"

definition site :: Lookups where
  "site = \<lparr>ComponentPath = Some (\<lambda>d. if d = ''app.kiosk'' then ''/w/kiosk.cfc'' else []),
     HasMethod = Some (\<lambda>p m. m = ''mainstudent'' \<or> m = ''student''),
     DirExists = None,
     FindFile = Some (\<lambda>p. if p = ''views/kiosk/main.student.cfm'' then ''/w/main.student.cfm'' else [])\<rparr>"

lemma site_resolve:
  "map (\<lambda>t. (tMethod t, tPath t)) (Resolve site_config site ''Kiosk.Main.Student.iframe'') =
     [(''mainstudent'', ''/w/kiosk.cfc''), ([], ''/w/main.student.cfm'')]"
  by code_simp

definition site_targets :: "Target list" where
  "site_targets = Resolve site_config site ''Kiosk.Main.Student.iframe''"

lemma Resolve_sound_witness:
  "\<exists>e \<in> set (expansions site_config (Split ''Kiosk.Main.Student.iframe'')).
     find (\<lambda>m. m = ''mainstudent'' \<or> m = ''student'') (expandAll ''${2+:search}'' (segs_of e)) = Some ''mainstudent''"
proof -
  have t: "length site_targets = 2" "tKind (site_targets ! 0) = KindController"
    "tMethod (site_targets ! 0) = ''mainstudent''" "tRule (site_targets ! 0) = 0"
    by code_simp+
  then have "site_targets ! 0 \<in> set (Resolve site_config site ''Kiosk.Main.Student.iframe'')"
    unfolding site_targets_def by simp
  from Resolve_sound[OF this] show ?thesis using t by (auto simp: site_def site_config_def)
qed

lemma Resolve_complete_witness: "distinct (map target_key site_targets)"
proof -
  have "expansions site_config (Split ''Kiosk.Main.Student.iframe'') \<noteq> []" "Split ''Kiosk.Main.Student.iframe'' \<noteq> []"
    by code_simp+
  then show ?thesis
    using Resolve_complete[of "hd (expansions site_config (Split ''Kiosk.Main.Student.iframe''))" site_config _ site]
    by (simp add: site_targets_def)
qed

lemma Resolve_deterministic_witness:
  "Resolve (site_config\<lparr>Aliases := [(''ui.web'', [''kiosk'']), (''ui'', [''x''])]\<rparr>) site ''ui.web.main'' =
   Resolve (site_config\<lparr>Aliases := [(''ui'', [''x'']), (''ui.web'', [''kiosk''])]\<rparr>) site ''ui.web.main''"
  by (rule Resolve_deterministic) simp_all

lemma expandAll_search_witness:
  "expandAll ''${2+:search}'' [''kiosk'', ''main'', ''student''] = [''mainstudent'', ''student'']"
proof -
  have ref: "searchRef ''${2+:search}'' =
      Some \<lparr>from_seg = 2, to_seg = 0, join_by = [], fold_to = [], is_search = True\<rparr>" by code_simp
  have "filter (\<lambda>v. v \<noteq> []) (map (\<lambda>i. concat (drop i [''kiosk'', ''main'', ''student'']))
      [1..<length [''kiosk'', ''main'', ''student'']]) = [''mainstudent'', ''student'']" by code_simp
  then show ?thesis using expandAll_search[OF ref, of "[''kiosk'', ''main'', ''student'']"] by simp
qed

end
