(* ===== verification/Spec2Isabelle.thy ===== *)
theory Spec2Isabelle
  imports Conv Range_Format Line_Edits Index_Props Code_Map_Views Code_Map_Compact Cycles_Props Map_Store Known_Issues_Props Lint_Baseline Positions Cursor Did_Change_Props Folding Flow_Props Global_Vars Component_Path_Props Includes Output_Context Conn_Tracker Completion_Cache Route_Props
begin

text \<open>
  clif is a language server for CFML, written in Go: it parses \<open>.cfc\<close> and \<open>.cfm\<close> files
  (\<open>internal/parser\<close>), keeps an index of a workspace's functions and component references
  (\<open>internal/index\<close>), resolves calls against it (\<open>internal/resolve\<close>, \<open>internal/route\<close>), answers the editor
  (\<open>internal/server\<close>), formats (\<open>internal/formatter\<close>), and draws a map of a whole project
  (\<open>internal/codemap\<close>). One process may serve several editors (\<open>internal/daemon\<close>). This development
  models the parts that carry data from one of these to the next and whose mistakes nobody sees:
  text edits, positions, the index, the map, regions and tags.

  \<^bold>\<open>Conventions.\<close> A Go string is a list of bytes, \<open>string\<close>; an offset or a length that the code
  never lets become negative is a \<open>nat\<close>, one that is \<open>-1\<close> for nothing an option, any other \<open>int\<close> an
  \<open>int\<close>. Integers whose width the code relies on are words (\<open>32 word\<close> lines of the index, \<open>64 word\<close>
  hashes, \<open>int32\<close> line starts). Case folding is ASCII. A pointer is a pair of an allocation number and
  the value, so comparing pointers compares numbers. A map is an association list in the order a
  range over it may visit it, and the properties do not depend on that order. An operation that can fail or panic
  returns an option. A loop is a recursive function with a termination proof; the one recursion
  whose depth is bounded by a counter, \<open>Line_Edits.patience\<close>, is shown never to run out.
  Definitions keep the names of the source; a loop of a function has a name of its own.

  \<^bold>\<open>Shared.\<close> Prelude (slices, byte search, \<open>sort.Search\<close>), Go_Utf8 (\<open>unicode/utf8\<close>), Go_Strings (\<open>strings\<close>),
  Go_Format (\<open>strconv\<close>, \<open>strings.Fields\<close>), Go_Maps (maps and slices of pointers), Go_Path (\<open>path\<close>) model what is used of the standard library.
  Conv is \<open>internal/conv\<close>: conversions to 32 bits clamp.

  \<^bold>\<open>Edits.\<close>
  \<^item> Text_Diff, \<open>internal/textdiff\<close>: Myers' diff. Its hunks turn one text into the other, are separated,
    and keep as many lines as any edit script can.
  \<^item> Text_Edits, \<open>PositionToOffset\<close>, \<open>ApplyEdit\<close> and \<open>ApplyEdits\<close> of \<open>internal/parser\<close>: streaming the edits of a change
    gives what applying them one by one gives.
  \<^item> Client_Edits: what an editor does with the edits it is sent. Line_Edits (\<open>server/lineedits.go\<close>) and
    Range_Format (\<open>server/range_formatting.go\<close>) are measured against it: formatting a document gives the
    formatted text, formatting a selection changes no line outside it. Range_Format reaches the
    diff through the locale \<open>line_differ\<close>, which Text_Diff provides.
  \<^item> Positions (\<open>server/position.go\<close>): byte columns to UTF-16 columns and back, and the mapper that serves many.
  \<^item> Cursor (\<open>parser/edit_parser.go\<close>): the call, the word, the component, the file and the tag at a position. The walk back to
    the call agrees with reading the line forwards.

  \<^bold>\<open>The index.\<close> Ast has the declarations (\<open>parser/ast.go\<close>), Uris the document keys and distances, Index every
  operation of \<open>internal/index/index.go\<close>. Index_Views holds the invariant (both views of an entry hold the
  same pointers, each once) and shows every step keeps it; Index_Props has what callers rely on, for
  functions and references alike through the locale \<open>two_views\<close>. One step does not always keep it:
  \<open>RemoveFilesUnder\<close> filters the two views by different spellings of a folder, and does so exactly when the
  folder's prefix agrees (\<open>prefix_agrees\<close>). \<open>reachable\<close> is the states of the histories in which each
  does, \<open>reached\<close> those of all histories; both are the closure of one relation \<open>index_step\<close>.

  \<^bold>\<open>Open documents.\<close> Incremental (\<open>parser/incremental.go\<close>, the caches of \<open>result.go\<close>): a parse that follows edits, with the
  reading of a text as an argument; Incremental_Props: each function keeps its lines through an edit in another one, and the
  edits for which that fails. Accessors and Delegations (\<open>result.go\<close>, \<open>delegates.go\<close>): what a component's properties
  hold, generate and delegate. Did_Change (\<open>server/handler.go\<close>, \<open>server.go\<close>): notifications, requests and timers of one document as
  steps over its text, parse, ranges and the index; Did_Change_Props: parse and index are in step after single
  changes, and what is left behind after several. The clock is an argument, a timer a step that may come at any time.

  \<^bold>\<open>The project map.\<close> Code_Map has the map, its annotation and its views (\<open>internal/codemap\<close>), Code_Map_Props and
  Code_Map_Views their properties (reachability and islands are the graph notions, a scoped view hides
  no border, a collapse loses no call), Code_Map_Compact the wire form with the report page's decoder. Cycles is
  Tarjan's algorithm as the code writes it out, with its two stacks, and Cycles_Props shows it gives the
  strongly connected components that hold a cycle. Map_Store (\<open>codemap/store/query.go\<close>) searches a saved map level
  by level for a shortest path; its walk back takes as many steps as there are nodes reached, which is enough.

  \<^bold>\<open>Routes.\<close> Route and Route_Props, \<open>internal/route\<close>: convention based routes resolve only to what is there, and
  in one order. The workspace's lookups are functions the caller gives.

  \<^bold>\<open>Processes.\<close> Conn_Tracker (\<open>daemon/conntracker.go\<close>): connections and the wait for the last of them, as steps that
  interleave. Completion_Cache (\<open>internal/cache\<close>): the cache against its history.

  \<^bold>\<open>Tags.\<close>
  \<^item> Tag_End (\<open>parser/tag_parser.go\<close>, \<open>script_parser.go\<close>): the bracket that ends a tag. The parity test agrees with
    the walk where only one kind of quote occurs, and a counterexample shows where it does not.
  \<^item> Regions and Regions_Props (\<open>parser/cfparser.go\<close>): the cut of a file into tag, script and skipped regions;
    the parsed ones do not overlap and nothing is lost.
  \<^item> Scanner (\<open>parser/scanner.go\<close>), the tokens of CFML and CFScript, and Scanner_Props: the token of lookahead is
    only a cache, and lines are right whatever is done in whatever order.
  \<^item> Tag_Structure (\<open>parser/tagstructure.go\<close>) and Script_Structure (\<open>parser/structure.go\<close>): the spans that fold,
    in markup and on the scanner's tokens; Structure_Props bounds them and names the document that panics, one that
    ends in \<open><\<close> or \<open></\<close> and a tag's name.
    Folding (\<open>server/folding.go\<close>) turns them and the functions into the response, sorted and without repeats.
  \<^item> Output_Context (\<open>parser/output_context.go\<close>, \<open>getAttr\<close>): the ranges whose text is evaluated are sorted and disjoint.
  \<^item> Fold_Search (\<open>indexFoldFrom\<close> in \<open>parser/ast.go\<close>): the case-insensitive search finds the first match.

  \<^bold>\<open>Script.\<close> Token_Stream has what a parser sees of a scanner, a list of tokens and where the text stops; the
  locale \<open>token_source\<close> is what parsers rely on, and the scanner provides it. On streams:
  \<^item> Func_Scopes (\<open>parser/cfparser.go\<close>, \<open>result.go\<close>): the lines of each function, in script and in tags;
    Func_Scopes_Props bounds and orders them in one text and over the regions of a file.
  \<^item> Global_Vars (\<open>globalScriptParser\<close>): the names declared outside functions, each on a line of none.
  \<^item> Flow_Blocks (\<open>parser/flow.go\<close>): the blocks assignments and returns are made in. Flow_Props: the assignments given
    for a return are those some run can have made last, and the stack of blocks never runs short.

  \<^bold>\<open>Names and files.\<close>
  \<^item> Paths (\<open>internal/path\<close>): a dotted name against mappings and directories. A shared cache of listings
    changes no answer, and what is found is on disk, in the first place that has it.
  \<^item> Component_Path (\<open>ComponentPath\<close> of \<open>resolve/resolve.go\<close>, \<open>wirebox.go\<close>): every place the file of a component is
    looked for in, with WireBox ids, which make the search recursive. It takes a bound on the depth;
    Component_Path_Props shows a bound is enough, and larger ones change nothing, unless ids lead back to bare
    names, and gives ids with which no bound is. Ancestors has the loops up the directories.
  \<^item> Includes (\<open>resolve/includes.go\<close>): the graph of includes and the files in scope in one of them.

  \<^bold>\<open>Findings.\<close> Known_Issues (\<open>internal/knownissues\<close>): the file of findings. Known_Issues_Props reads back what was written and
  shows a diagnostic moves to the nearest line that has its call. Lint_Baseline (\<open>cflint/suppressions.go\<close>): counts of
  suppressions and the subtraction of a baseline, which pairs findings and entries one to one.

  \<^bold>\<open>Not modelled.\<close> The rest of the script and tag parsers with the signatures and references they settle
  (\<open>script_parser.go\<close>, \<open>tag_parser.go\<close>, \<open>result.go\<close>), and the resolver, which rests on them. The formatter works on
  the tree of a grammar that is not part of this repository.
  Everything that only moves bytes is left out: the other request handlers and the transport of
  \<open>internal/server\<close>, the daemon's processes and sockets, files and watching (\<open>internal/vfs\<close>), logging, the commands under
  \<open>cmd\<close>. The documentation tables of \<open>internal/docs\<close> and the framework stubs are generated data.
  Regular expressions are modelled where their parts cannot be matched in two ways (\<open>Route\<close>, \<open>Known_Issues\<close>,
  \<open>Lint_Baseline\<close>).
\<close>

end
